(* ===== verification/Prelude.thy ===== *)
theory Prelude
  imports Main "HOL-Library.Word" "HOL-Library.Monad_Syntax"
begin

text \<open>
  Shared vocabulary of the development.

  A C buffer of \<open>uint8_t\<close> is a list of bytes. A load or a store outside the buffer is
  undefined behaviour in C; here it is the result \<open>None\<close> of the option monad, so a theorem
  that an operation returns \<open>Some\<close> is a memory-safety theorem. Counted \<open>for\<close> loops are
  \<open>for_range\<close> and \<open>for_step\<close>; the \<open>gathers\<close> rules turn a loop nest that scatters bytes
  into a closed form.
\<close>

unbundle bit_operations_syntax

type_synonym byte = "8 word"
type_synonym buf = "byte list"

named_theorems mem_simps \<open>closed forms of memory operations\<close>

section \<open>Loads, stores, block copies\<close>

definition load :: "'a list \<Rightarrow> nat \<Rightarrow> 'a option" where
  "load b i = (if i < length b then Some (b ! i) else None)"

definition store :: "'a list \<Rightarrow> nat \<Rightarrow> 'a \<Rightarrow> 'a list option" where
  "store b i v = (if i < length b then Some (b[i := v]) else None)"

text \<open>\<open>memcpy(dst + di, src + si, n)\<close> between distinct buffers.\<close>

definition memcpy :: "'a list \<Rightarrow> nat \<Rightarrow> 'a list \<Rightarrow> nat \<Rightarrow> nat \<Rightarrow> 'a list option" where
  "memcpy dst di src si n =
     (if di + n \<le> length dst \<and> si + n \<le> length src
      then Some (take di dst @ take n (drop si src) @ drop (di + n) dst) else None)"

definition memset :: "'a list \<Rightarrow> nat \<Rightarrow> 'a \<Rightarrow> nat \<Rightarrow> 'a list option" where
  "memset dst di v n =
     (if di + n \<le> length dst then Some (take di dst @ replicate n v @ drop (di + n) dst)
      else None)"

lemma load_Some [mem_simps]: "i < length b \<Longrightarrow> load b i = Some (b ! i)"
  by (simp add: load_def)

lemma store_Some [mem_simps]: "i < length b \<Longrightarrow> store b i v = Some (b[i := v])"
  by (simp add: store_def)

lemma memcpy_Some [mem_simps]:
  "di + n \<le> length dst \<Longrightarrow> si + n \<le> length src \<Longrightarrow>
   memcpy dst di src si n = Some (take di dst @ take n (drop si src) @ drop (di + n) dst)"
  by (simp add: memcpy_def)

lemma memset_Some [mem_simps]:
  "di + n \<le> length dst \<Longrightarrow>
   memset dst di v n = Some (take di dst @ replicate n v @ drop (di + n) dst)"
  by (simp add: memset_def)

lemma length_blit [simp]:
  "di + n \<le> length dst \<Longrightarrow> si + n \<le> length src \<Longrightarrow>
   length (take di dst @ take n (drop si src) @ drop (di + n) dst) = length dst"
  by simp

lemma nth_blit:
  assumes "di + n \<le> length dst" "si + n \<le> length src" "i < length dst"
  shows "(take di dst @ take n (drop si src) @ drop (di + n) dst) ! i =
         (if di \<le> i \<and> i < di + n then src ! (si + (i - di)) else dst ! i)"
proof -
  have "length (take di dst) = di" "length (take n (drop si src)) = n"
    using assms by auto
  with assms show ?thesis by (auto simp: nth_append)
qed

section \<open>Counted loops\<close>

text \<open>\<open>for (i = lo; i < lo + n; i++) s = f(i, s)\<close>, stopping at undefined behaviour.\<close>

primrec for_count :: "nat \<Rightarrow> nat \<Rightarrow> (nat \<Rightarrow> 's \<Rightarrow> 's option) \<Rightarrow> 's \<Rightarrow> 's option" where
  "for_count lo 0 f s = Some s"
| "for_count lo (Suc n) f s = Option.bind (f lo s) (for_count (Suc lo) n f)"

definition for_range :: "nat \<Rightarrow> nat \<Rightarrow> (nat \<Rightarrow> 's \<Rightarrow> 's option) \<Rightarrow> 's \<Rightarrow> 's option" where
  "for_range lo hi f s = for_count lo (hi - lo) f s"

lemma for_count_cong:
  "(\<And>i s. lo \<le> i \<Longrightarrow> i < lo + n \<Longrightarrow> P s \<Longrightarrow> f i s = g i s) \<Longrightarrow>
   (\<And>i s s'. lo \<le> i \<Longrightarrow> i < lo + n \<Longrightarrow> P s \<Longrightarrow> g i s = Some s' \<Longrightarrow> P s') \<Longrightarrow>
   P s \<Longrightarrow> for_count lo n f s = for_count lo n g s"
proof (induction n arbitrary: lo s)
  case 0
  then show ?case by simp
next
  case (Suc n)
  have eq: "f lo s = g lo s" using Suc.prems by simp
  show ?case
  proof (cases "g lo s")
    case None
    with eq show ?thesis by simp
  next
    case (Some s')
    then have "P s'" using Suc.prems(2)[of lo s s'] Suc.prems(3) by simp
    then have "for_count (Suc lo) n f s' = for_count (Suc lo) n g s'"
    proof (intro Suc.IH)
      show "P t'" if "Suc lo \<le> i" "i < Suc lo + n" "P t" "g i t = Some t'" for i t t'
        using Suc.prems(2)[of i t t'] that by simp
    qed (use Suc.prems(1) in simp_all)
    with eq Some show ?thesis by simp
  qed
qed

text \<open>The total-correctness rule: an invariant kept by a body that never fails.\<close>

lemma for_count_invariant:
  assumes "I lo s"
    and "\<And>i s. lo \<le> i \<Longrightarrow> i < lo + n \<Longrightarrow> I i s \<Longrightarrow> \<exists>s'. f i s = Some s' \<and> I (Suc i) s'"
  shows "\<exists>s'. for_count lo n f s = Some s' \<and> I (lo + n) s'"
  using assms
proof (induction n arbitrary: lo s)
  case 0
  then show ?case by simp
next
  case (Suc n)
  obtain s1 where s1: "f lo s = Some s1" "I (Suc lo) s1"
    using Suc.prems(1) Suc.prems(2)[of lo s] by auto
  have "\<exists>s'. for_count (Suc lo) n f s1 = Some s' \<and> I (Suc lo + n) s'"
    using s1(2) Suc.prems(2) by (intro Suc.IH) auto
  with s1(1) show ?case by auto
qed

lemma for_range_invariant:
  assumes "lo \<le> hi" "I lo s"
    and "\<And>i s. lo \<le> i \<Longrightarrow> i < hi \<Longrightarrow> I i s \<Longrightarrow> \<exists>s'. f i s = Some s' \<and> I (Suc i) s'"
  shows "\<exists>s'. for_range lo hi f s = Some s' \<and> I hi s'"
  using for_count_invariant[of I lo s "hi - lo" f] assms by (auto simp: for_range_def)

lemma for_range_empty [simp]: "hi \<le> lo \<Longrightarrow> for_range lo hi f s = Some s"
  by (simp add: for_range_def)

section \<open>Scattered stores as a gather\<close>

text \<open>
  When every store to an index writes the value a function \<open>g\<close> gives for it, the order of
  the stores does not matter: the result is \<open>g\<close> on the indices stored to and the old buffer
  elsewhere.
\<close>

definition gather :: "nat set \<Rightarrow> (nat \<Rightarrow> 'a) \<Rightarrow> 'a list \<Rightarrow> 'a list" where
  "gather A g b = map (\<lambda>i. if i \<in> A then g i else b ! i) [0..<length b]"

lemma length_gather [simp]: "length (gather A g b) = length b"
  by (simp add: gather_def)

lemma nth_gather: "i < length b \<Longrightarrow> gather A g b ! i = (if i \<in> A then g i else b ! i)"
  by (simp add: gather_def)

lemma gather_cong:
  "A = B \<Longrightarrow> (\<And>k. k < length b \<Longrightarrow> k \<in> B \<Longrightarrow> g k = h k) \<Longrightarrow> gather A g b = gather B h b"
  by (auto simp: gather_def)

text \<open>A gather over an initial segment.\<close>

lemma gather_lessThan:
  "n \<le> length b \<Longrightarrow> gather {k. k < n} g b = map g [0..<n] @ drop n b"
  by (intro nth_equalityI) (auto simp: nth_gather nth_append)

text \<open>
  \<open>gathers f n A g\<close>: on every buffer of length \<open>n\<close>, the code \<open>f\<close> neither fails nor
  does anything but set the bytes with index in \<open>A\<close> to what \<open>g\<close> gives. The rules below follow
  the shape of the code: a store, a block copy, a loop, a sequence.
\<close>

definition gathers :: "('a list \<Rightarrow> 'a list option) \<Rightarrow> nat \<Rightarrow> nat set \<Rightarrow> (nat \<Rightarrow> 'a) \<Rightarrow> bool" where
  "gathers f n A g = (\<forall>b. length b = n \<longrightarrow> f b = Some (gather A g b))"

lemma gathersD: "gathers f n A g \<Longrightarrow> length b = n \<Longrightarrow> f b = Some (gather A g b)"
  by (simp add: gathers_def)

lemma gather_gather: "gather B g (gather A g b) = gather (A \<union> B) g b"
  by (rule nth_equalityI) (auto simp: nth_gather)

lemma gather_empty [simp]: "gather {} g b = b"
  by (simp add: gather_def map_nth)

lemma gathers_skip: "gathers Some n {} g"
  by (simp add: gathers_def)

lemma gathers_store:
  assumes "i < n" "v = g i"
  shows "gathers (\<lambda>b. store b i v) n {i} g"
  using assms by (auto simp: gathers_def store_Some intro!: nth_equalityI)
    (auto simp: nth_gather nth_list_update)

lemma gathers_load_store:
  assumes "k < length src" "i < n" "src ! k = g i"
  shows "gathers (\<lambda>b. do { v \<leftarrow> load src k; store b i v }) n {i} g"
  using gathers_store[of i n "src ! k" g] assms by (simp add: load_Some)

lemma gathers_memcpy:
  assumes "di + m \<le> n" "si + m \<le> length src"
    and "\<And>k. di \<le> k \<Longrightarrow> k < di + m \<Longrightarrow> g k = src ! (si + (k - di))"
  shows "gathers (\<lambda>b. memcpy b di src si m) n {di..<di + m} g"
  unfolding gathers_def
proof (intro allI impI)
  fix b :: "'a list" assume "length b = n"
  with assms have "take di b @ take m (drop si src) @ drop (di + m) b = gather {di..<di + m} g b"
    by (intro nth_equalityI) (auto simp: nth_blit nth_gather simp del: append_assoc length_append)
  with assms \<open>length b = n\<close> show "memcpy b di src si m = Some (gather {di..<di + m} g b)"
    by (simp add: memcpy_Some)
qed

lemma gathers_bind:
  assumes "gathers f n A g" "gathers h n B g"
  shows "gathers (\<lambda>b. Option.bind (f b) h) n (A \<union> B) g"
  using assms by (simp add: gathers_def gather_gather)

lemma gathers_for_count:
  assumes "\<And>i. lo \<le> i \<Longrightarrow> i < lo + m \<Longrightarrow> gathers (f i) n (A i) g"
  shows "gathers (for_count lo m f) n (\<Union>i\<in>{lo..<lo + m}. A i) g"
  using assms
proof (induction m arbitrary: lo)
  case 0
  then show ?case by (simp add: gathers_def)
next
  case (Suc m)
  have "gathers (for_count (Suc lo) m f) n (\<Union>i\<in>{Suc lo..<Suc lo + m}. A i) g"
    using Suc.prems by (intro Suc.IH) auto
  with Suc.prems have "gathers (\<lambda>b. Option.bind (f lo b) (for_count (Suc lo) m f)) n
      (A lo \<union> (\<Union>i\<in>{Suc lo..<Suc lo + m}. A i)) g"
    by (intro gathers_bind) auto
  moreover have "{lo..<lo + Suc m} = insert lo {Suc lo..<Suc lo + m}" by auto
  ultimately show ?case by (simp add: gathers_def)
qed

lemma gathers_for_range:
  assumes "\<And>i. lo \<le> i \<Longrightarrow> i < hi \<Longrightarrow> gathers (f i) n (A i) g"
  shows "gathers (for_range lo hi f) n (\<Union>i\<in>{lo..<hi}. A i) g"
proof -
  have "gathers (for_count lo (hi - lo) f) n (\<Union>i\<in>{lo..<lo + (hi - lo)}. A i) g"
    by (rule gathers_for_count) (use assms in auto)
  moreover have "{lo..<lo + (hi - lo)} = {lo..<hi}" by auto
  moreover have "for_range lo hi f = for_count lo (hi - lo) f" by (simp add: for_range_def fun_eq_iff)
  ultimately show ?thesis by simp
qed

lemma gathers_all:
  assumes "gathers f n A g" "{..<m} \<subseteq> A" "A \<inter> {m..<n} = {}" "length b = n" "m \<le> n"
  shows "f b = Some (map g [0..<m] @ drop m b)"
proof -
  have "gather A g b = gather {k. k < m} g b"
    using assms by (intro nth_equalityI) (auto simp: nth_gather disjoint_iff)
  with assms gather_lessThan[of m b g] show ?thesis by (simp add: gathersD)
qed

section \<open>Loops with a stride\<close>

text \<open>\<open>for (i = lo; i + (k - 1) < hi; i += k)\<close> for a positive stride \<open>k\<close>.\<close>

function for_step :: "nat \<Rightarrow> nat \<Rightarrow> nat \<Rightarrow> (nat \<Rightarrow> 's \<Rightarrow> 's option) \<Rightarrow> 's \<Rightarrow> 's option" where
  "for_step k lo hi f s =
     (if 0 < k \<and> lo + (k - 1) < hi then Option.bind (f lo s) (for_step k (lo + k) hi f)
      else Some s)"
  by pat_completeness auto
termination
  by (relation "measure (\<lambda>(k, lo, hi, f, s). hi - lo)") auto

declare for_step.simps [simp del]

lemma gathers_for_step:
  assumes "0 < k" "\<And>m. lo + k * m + (k - 1) < hi \<Longrightarrow> gathers (f (lo + k * m)) n (A (lo + k * m)) g"
  shows "gathers (for_step k lo hi f) n (\<Union>m\<in>{m. lo + k * m + (k - 1) < hi}. A (lo + k * m)) g"
  using assms
proof (induction "hi - lo" arbitrary: lo rule: less_induct)
  case less
  show ?case
  proof (cases "lo + (k - 1) < hi")
    case False
    then have "{m. lo + k * m + (k - 1) < hi} = {}" by auto
    with False show ?thesis by (simp add: gathers_def for_step.simps)
  next
    case True
    let ?M = "\<lambda>lo. {m. lo + k * m + (k - 1) < hi}"
    have M: "?M lo = insert 0 (Suc ` ?M (lo + k))"
    proof (intro set_eqI iffI)
      fix m assume "m \<in> ?M lo"
      then show "m \<in> insert 0 (Suc ` ?M (lo + k))" by (cases m) auto
    qed (use True in auto)
    have "gathers (for_step k (lo + k) hi f) n (\<Union>m\<in>?M (lo + k). A (lo + k + k * m)) g"
    proof (rule less.hyps)
      show "hi - (lo + k) < hi - lo" using True less.prems(1) by simp
      show "0 < k" by (rule less.prems(1))
      show "gathers (f (lo + k + k * m)) n (A (lo + k + k * m)) g"
        if "lo + k + k * m + (k - 1) < hi" for m
        using less.prems(2)[of "Suc m"] that by (simp add: algebra_simps)
    qed
    moreover have "gathers (f lo) n (A lo) g" using less.prems(2)[of 0] True by simp
    ultimately have "gathers (\<lambda>b. Option.bind (f lo b) (for_step k (lo + k) hi f)) n
        (A lo \<union> (\<Union>m\<in>?M (lo + k). A (lo + k + k * m))) g"
      by (intro gathers_bind)
    moreover have "(\<Union>m\<in>?M lo. A (lo + k * m)) = A lo \<union> (\<Union>m\<in>?M (lo + k). A (lo + k + k * m))"
      by (subst M) (simp add: add.assoc)
    ultimately show ?thesis using True less.prems(1)
      by (simp add: gathers_def for_step.simps[of k lo])
  qed
qed

section \<open>Index arithmetic of two-dimensional layouts\<close>

lemma index_lt: "i < n \<Longrightarrow> j < (m::nat) \<Longrightarrow> j * n + i < m * n"
proof -
  assume "i < n" "j < m"
  then have "j * n + i < Suc j * n" by simp
  also have "Suc j * n \<le> m * n" using \<open>j < m\<close> by (intro mult_le_mono1) simp
  finally show ?thesis .
qed

lemma index_lt': "i < n \<Longrightarrow> j < (m::nat) \<Longrightarrow> j * n + i < n * m"
  using index_lt[of i n j m] by (simp add: mult.commute)

lemma index_div [simp]: "i < n \<Longrightarrow> (j * n + i) div n = (j::nat)"
  by (simp add: div_plus_div_distrib_dvd_left)

lemma index_mod [simp]: "i < n \<Longrightarrow> (j * n + i) mod n = (i::nat)"
  by simp

lemma index_split: "k < m * n \<Longrightarrow> \<exists>j < m. \<exists>i < n. k = j * n + (i::nat)"
proof -
  assume k: "k < m * n"
  then have "0 < n" by (cases n) auto
  with k have "k div n < m" "k mod n < n" by (auto simp: less_mult_imp_div_less)
  moreover have "k = k div n * n + k mod n" by simp
  ultimately show ?thesis by blast
qed

section \<open>Little-endian integers in memory\<close>

text \<open>The value of a little-endian byte sequence and the \<open>n\<close> low bytes of a value.\<close>

fun le_val :: "buf \<Rightarrow> nat" where
  "le_val [] = 0"
| "le_val (b # bs) = unat b + 256 * le_val bs"

fun le_bytes :: "nat \<Rightarrow> nat \<Rightarrow> buf" where
  "le_bytes 0 v = []"
| "le_bytes (Suc n) v = word_of_nat (v mod 256) # le_bytes n (v div 256)"

lemma length_le_bytes [simp]: "length (le_bytes n v) = n"
  by (induction n arbitrary: v) auto

lemma unat_byte_less [simp]: "unat (b :: byte) < 256"
  using unsigned_less[of b] by simp

lemma unat_byte_of_nat [simp]: "v < 256 \<Longrightarrow> unat (word_of_nat v :: byte) = v"
  by (simp add: unat_of_nat)

lemma bit_word_of_nat: "bit (word_of_nat n :: 'a::len word) k \<longleftrightarrow> k < LENGTH('a) \<and> bit n k"
  by transfer (simp add: bit_take_bit_iff bit_of_nat_iff)

lemma le_val_less: "le_val bs < 256 ^ length bs"
proof (induction bs)
  case Nil
  then show ?case by simp
next
  case (Cons b bs)
  have "unat b + 256 * le_val bs < 256 + 256 * le_val bs" by simp
  also have "\<dots> = 256 * Suc (le_val bs)" by simp
  also have "\<dots> \<le> 256 * 256 ^ length bs" using Cons by (intro mult_le_mono2) simp
  finally show ?case by simp
qed

lemma le_val_le_bytes: "le_val (le_bytes n v) = v mod 256 ^ n"
  by (induction n arbitrary: v) (auto simp: mod_mult2_eq)

lemma le_bytes_le_val: "le_bytes (length bs) (le_val bs) = bs"
  by (induction bs) auto

lemma le_val_inject: "length bs = length cs \<Longrightarrow> le_val bs = le_val cs \<Longrightarrow> bs = cs"
  by (metis le_bytes_le_val)

section \<open>Machine words and fixed-width elements in memory\<close>

text \<open>
  A load and a store of a \<open>'a word\<close> at byte position \<open>p\<close> in the byte order of the host, and of
  an element of \<open>w\<close> bytes kept as a byte list.
\<close>

definition host_order :: "bool \<Rightarrow> buf \<Rightarrow> buf" where
  "host_order little_endian bs = (if little_endian then bs else rev bs)"

definition load_word :: "bool \<Rightarrow> buf \<Rightarrow> nat \<Rightarrow> 'a::len word option" where
  "load_word little_endian b p =
    (let n = LENGTH('a) div 8 in
     if p + n \<le> length b
     then Some (word_of_nat (le_val (host_order little_endian (take n (drop p b))))) else None)"

definition store_word :: "bool \<Rightarrow> buf \<Rightarrow> nat \<Rightarrow> 'a::len word \<Rightarrow> buf option" where
  "store_word little_endian b p x =
    (let n = LENGTH('a) div 8
     in memcpy b p (host_order little_endian (le_bytes n (unat x))) 0 n)"

definition load_el :: "nat \<Rightarrow> 'a list \<Rightarrow> nat \<Rightarrow> 'a list option" where
  "load_el w b p = (if p + w \<le> length b then Some (take w (drop p b)) else None)"

definition store_el :: "'a list \<Rightarrow> nat \<Rightarrow> 'a list \<Rightarrow> 'a list option" where
  "store_el b p v = memcpy b p v 0 (length v)"

lemma load_el_Some [mem_simps]: "p + w \<le> length b \<Longrightarrow> load_el w b p = Some (take w (drop p b))"
  by (simp add: load_el_def)

lemma gathers_store_el:
  assumes "p + length v \<le> n" "\<And>k. k < length v \<Longrightarrow> g (p + k) = v ! k"
  shows "gathers (\<lambda>b. store_el b p v) n {p..<p + length v} g"
  unfolding store_el_def
  by (rule gathers_memcpy) (use assms in \<open>auto simp: le_iff_add\<close>)

lemma length_host_order [simp]: "length (host_order le bs) = length bs"
  by (simp add: host_order_def)

lemma host_order_host_order [simp]: "host_order le (host_order le bs) = bs"
  by (simp add: host_order_def)

text \<open>Consecutive blocks of \<open>w\<close> bytes make up a prefix.\<close>

lemma blocks_covered:
  "(\<Union>i\<in>{0..<m}. {i * w..<i * w + w}) = {..<m * (w::nat)}"
proof (induction m)
  case (Suc m)
  have "{0..<Suc m} = insert m {0..<m}" by auto
  with Suc have "(\<Union>i\<in>{0..<Suc m}. {i * w..<i * w + w}) = {m * w..<m * w + w} \<union> {..<m * w}" by simp
  also have "\<dots> = {..<Suc m * w}" by auto
  finally show ?case .
qed simp

lemma block_le: "i < (m::nat) \<Longrightarrow> i * w + w \<le> m * w"
  using mult_le_mono1[of "Suc i" m w] by simp

end
