(* ===== verification/Blosc_Constants.thy ===== *)
theory Blosc_Constants
  imports Prelude
begin

text \<open>
  The enumerations of \<open>include/blosc2.h\<close> that the modelled code uses, under their C names
  (names that begin with a digit after the prefix included), and the error messages of
  \<open>blosc2_error_string\<close> in \<open>blosc/blosc2.c\<close>. The constants are abbreviations, so a
  statement about them is a statement about the numbers of the header.
\<close>

section \<open>Error codes\<close>

abbreviation (input) BLOSC2_ERROR_SUCCESS :: int where "BLOSC2_ERROR_SUCCESS \<equiv> 0"
abbreviation (input) BLOSC2_ERROR_FAILURE :: int where "BLOSC2_ERROR_FAILURE \<equiv> - 1"
abbreviation (input) BLOSC2_ERROR_STREAM :: int where "BLOSC2_ERROR_STREAM \<equiv> - 2"
abbreviation (input) BLOSC2_ERROR_DATA :: int where "BLOSC2_ERROR_DATA \<equiv> - 3"
abbreviation (input) BLOSC2_ERROR_MEMORY_ALLOC :: int where "BLOSC2_ERROR_MEMORY_ALLOC \<equiv> - 4"
abbreviation (input) BLOSC2_ERROR_READ_BUFFER :: int where "BLOSC2_ERROR_READ_BUFFER \<equiv> - 5"
abbreviation (input) BLOSC2_ERROR_WRITE_BUFFER :: int where "BLOSC2_ERROR_WRITE_BUFFER \<equiv> - 6"
abbreviation (input) BLOSC2_ERROR_CODEC_SUPPORT :: int where "BLOSC2_ERROR_CODEC_SUPPORT \<equiv> - 7"
abbreviation (input) BLOSC2_ERROR_CODEC_PARAM :: int where "BLOSC2_ERROR_CODEC_PARAM \<equiv> - 8"
abbreviation (input) BLOSC2_ERROR_CODEC_DICT :: int where "BLOSC2_ERROR_CODEC_DICT \<equiv> - 9"
abbreviation (input) BLOSC2_ERROR_VERSION_SUPPORT :: int where "BLOSC2_ERROR_VERSION_SUPPORT \<equiv> - 10"
abbreviation (input) BLOSC2_ERROR_INVALID_HEADER :: int where "BLOSC2_ERROR_INVALID_HEADER \<equiv> - 11"
abbreviation (input) BLOSC2_ERROR_INVALID_PARAM :: int where "BLOSC2_ERROR_INVALID_PARAM \<equiv> - 12"
abbreviation (input) BLOSC2_ERROR_FILE_READ :: int where "BLOSC2_ERROR_FILE_READ \<equiv> - 13"
abbreviation (input) BLOSC2_ERROR_FILE_WRITE :: int where "BLOSC2_ERROR_FILE_WRITE \<equiv> - 14"
abbreviation (input) BLOSC2_ERROR_FILE_OPEN :: int where "BLOSC2_ERROR_FILE_OPEN \<equiv> - 15"
abbreviation (input) BLOSC2_ERROR_NOT_FOUND :: int where "BLOSC2_ERROR_NOT_FOUND \<equiv> - 16"
abbreviation (input) BLOSC2_ERROR_RUN_LENGTH :: int where "BLOSC2_ERROR_RUN_LENGTH \<equiv> - 17"
abbreviation (input) BLOSC2_ERROR_FILTER_PIPELINE :: int where "BLOSC2_ERROR_FILTER_PIPELINE \<equiv> - 18"
abbreviation (input) BLOSC2_ERROR_CHUNK_INSERT :: int where "BLOSC2_ERROR_CHUNK_INSERT \<equiv> - 19"
abbreviation (input) BLOSC2_ERROR_CHUNK_APPEND :: int where "BLOSC2_ERROR_CHUNK_APPEND \<equiv> - 20"
abbreviation (input) BLOSC2_ERROR_CHUNK_UPDATE :: int where "BLOSC2_ERROR_CHUNK_UPDATE \<equiv> - 21"
abbreviation (input) BLOSC2_ERROR_2GB_LIMIT :: int where "BLOSC2_ERROR_2GB_LIMIT \<equiv> - 22"
abbreviation (input) BLOSC2_ERROR_SCHUNK_COPY :: int where "BLOSC2_ERROR_SCHUNK_COPY \<equiv> - 23"
abbreviation (input) BLOSC2_ERROR_FRAME_TYPE :: int where "BLOSC2_ERROR_FRAME_TYPE \<equiv> - 24"
abbreviation (input) BLOSC2_ERROR_FILE_TRUNCATE :: int where "BLOSC2_ERROR_FILE_TRUNCATE \<equiv> - 25"
abbreviation (input) BLOSC2_ERROR_THREAD_CREATE :: int where "BLOSC2_ERROR_THREAD_CREATE \<equiv> - 26"
abbreviation (input) BLOSC2_ERROR_POSTFILTER :: int where "BLOSC2_ERROR_POSTFILTER \<equiv> - 27"
abbreviation (input) BLOSC2_ERROR_FRAME_SPECIAL :: int where "BLOSC2_ERROR_FRAME_SPECIAL \<equiv> - 28"
abbreviation (input) BLOSC2_ERROR_SCHUNK_SPECIAL :: int where "BLOSC2_ERROR_SCHUNK_SPECIAL \<equiv> - 29"
abbreviation (input) BLOSC2_ERROR_PLUGIN_IO :: int where "BLOSC2_ERROR_PLUGIN_IO \<equiv> - 30"
abbreviation (input) BLOSC2_ERROR_FILE_REMOVE :: int where "BLOSC2_ERROR_FILE_REMOVE \<equiv> - 31"
abbreviation (input) BLOSC2_ERROR_NULL_POINTER :: int where "BLOSC2_ERROR_NULL_POINTER \<equiv> - 32"
abbreviation (input) BLOSC2_ERROR_INVALID_INDEX :: int where "BLOSC2_ERROR_INVALID_INDEX \<equiv> - 33"
abbreviation (input) BLOSC2_ERROR_METALAYER_NOT_FOUND :: int where "BLOSC2_ERROR_METALAYER_NOT_FOUND \<equiv> - 34"
abbreviation (input) BLOSC2_ERROR_MAX_BUFSIZE_EXCEEDED :: int where "BLOSC2_ERROR_MAX_BUFSIZE_EXCEEDED \<equiv> - 35"
abbreviation (input) BLOSC2_ERROR_TUNER :: int where "BLOSC2_ERROR_TUNER \<equiv> - 36"
abbreviation (input) BLOSC2_ERROR_LOCK :: int where "BLOSC2_ERROR_LOCK \<equiv> - 37"

definition blosc2_error_string :: "int \<Rightarrow> string" where
  "blosc2_error_string error_code =
    (if error_code = BLOSC2_ERROR_FAILURE then ''Generic failure''
     else if error_code = BLOSC2_ERROR_STREAM then ''Bad stream''
     else if error_code = BLOSC2_ERROR_DATA then ''Invalid data''
     else if error_code = BLOSC2_ERROR_MEMORY_ALLOC then ''Memory alloc/realloc failure''
     else if error_code = BLOSC2_ERROR_READ_BUFFER then ''Not enough space to read''
     else if error_code = BLOSC2_ERROR_WRITE_BUFFER then ''Not enough space to write''
     else if error_code = BLOSC2_ERROR_CODEC_SUPPORT then ''Codec not supported''
     else if error_code = BLOSC2_ERROR_CODEC_PARAM then ''Invalid parameter supplied to codec''
     else if error_code = BLOSC2_ERROR_CODEC_DICT then ''Codec dictionary error''
     else if error_code = BLOSC2_ERROR_VERSION_SUPPORT then ''Version not supported''
     else if error_code = BLOSC2_ERROR_INVALID_HEADER then ''Invalid value in header''
     else if error_code = BLOSC2_ERROR_INVALID_PARAM then ''Invalid parameter supplied to function''
     else if error_code = BLOSC2_ERROR_FILE_READ then ''File read failure''
     else if error_code = BLOSC2_ERROR_FILE_WRITE then ''File write failure''
     else if error_code = BLOSC2_ERROR_FILE_OPEN then ''File open failure''
     else if error_code = BLOSC2_ERROR_NOT_FOUND then ''Not found''
     else if error_code = BLOSC2_ERROR_RUN_LENGTH then ''Bad run length encoding''
     else if error_code = BLOSC2_ERROR_FILTER_PIPELINE then ''Filter pipeline error''
     else if error_code = BLOSC2_ERROR_CHUNK_INSERT then ''Chunk insert failure''
     else if error_code = BLOSC2_ERROR_CHUNK_APPEND then ''Chunk append failure''
     else if error_code = BLOSC2_ERROR_CHUNK_UPDATE then ''Chunk update failure''
     else if error_code = BLOSC2_ERROR_2GB_LIMIT then ''Sizes larger than 2gb not supported''
     else if error_code = BLOSC2_ERROR_SCHUNK_COPY then ''Super-chunk copy failure''
     else if error_code = BLOSC2_ERROR_FRAME_TYPE then ''Wrong type for frame''
     else if error_code = BLOSC2_ERROR_FILE_TRUNCATE then ''File truncate failure''
     else if error_code = BLOSC2_ERROR_LOCK then ''Frame lock failure''
     else if error_code = BLOSC2_ERROR_THREAD_CREATE then ''Thread or thread context creation failure''
     else if error_code = BLOSC2_ERROR_POSTFILTER then ''Postfilter failure''
     else if error_code = BLOSC2_ERROR_FRAME_SPECIAL then ''Special frame failure''
     else if error_code = BLOSC2_ERROR_SCHUNK_SPECIAL then ''Special super-chunk failure''
     else if error_code = BLOSC2_ERROR_PLUGIN_IO then ''IO plugin error''
     else if error_code = BLOSC2_ERROR_FILE_REMOVE then ''Remove file failure''
     else if error_code = BLOSC2_ERROR_NULL_POINTER then ''Pointer is null''
     else if error_code = BLOSC2_ERROR_INVALID_INDEX then ''Invalid index''
     else if error_code = BLOSC2_ERROR_METALAYER_NOT_FOUND then ''Metalayer has not been found''
     else if error_code = BLOSC2_ERROR_MAX_BUFSIZE_EXCEEDED then ''Maximum buffersize exceeded''
     else if error_code = BLOSC2_ERROR_TUNER then ''Tuner failure''
     else ''Unknown error'')"

section \<open>Formats, limits, flags\<close>

abbreviation (input) BLOSC1_VERSION_FORMAT_PRE1 :: byte where "BLOSC1_VERSION_FORMAT_PRE1 \<equiv> 1"
abbreviation (input) BLOSC1_VERSION_FORMAT :: byte where "BLOSC1_VERSION_FORMAT \<equiv> 2"
abbreviation (input) BLOSC2_VERSION_FORMAT_ALPHA :: byte where "BLOSC2_VERSION_FORMAT_ALPHA \<equiv> 3"
abbreviation (input) BLOSC2_VERSION_FORMAT_BETA1 :: byte where "BLOSC2_VERSION_FORMAT_BETA1 \<equiv> 4"
abbreviation (input) BLOSC2_VERSION_FORMAT_STABLE :: byte where "BLOSC2_VERSION_FORMAT_STABLE \<equiv> 5"
abbreviation (input) BLOSC2_VERSION_FORMAT_VL_BLOCKS :: byte where "BLOSC2_VERSION_FORMAT_VL_BLOCKS \<equiv> 6"
abbreviation (input) BLOSC2_VERSION_FORMAT :: byte where "BLOSC2_VERSION_FORMAT \<equiv> BLOSC2_VERSION_FORMAT_VL_BLOCKS"
abbreviation (input) BLOSC_MIN_HEADER_LENGTH :: int where "BLOSC_MIN_HEADER_LENGTH \<equiv> 16"
abbreviation (input) BLOSC_EXTENDED_HEADER_LENGTH :: int where "BLOSC_EXTENDED_HEADER_LENGTH \<equiv> 32"
abbreviation (input) BLOSC2_MAX_OVERHEAD :: int where "BLOSC2_MAX_OVERHEAD \<equiv> BLOSC_EXTENDED_HEADER_LENGTH"
abbreviation (input) INT_MAX :: int where "INT_MAX \<equiv> 2147483647"
abbreviation (input) BLOSC2_MAX_BUFFERSIZE :: int where "BLOSC2_MAX_BUFFERSIZE \<equiv> INT_MAX - BLOSC2_MAX_OVERHEAD"
abbreviation (input) BLOSC_MAX_TYPESIZE :: int where "BLOSC_MAX_TYPESIZE \<equiv> 255"
abbreviation (input) BLOSC_MIN_BUFFERSIZE :: int where "BLOSC_MIN_BUFFERSIZE \<equiv> 32"
abbreviation (input) BLOSC2_MAXBLOCKSIZE :: int where "BLOSC2_MAXBLOCKSIZE \<equiv> 536866816"
abbreviation (input) BLOSC2_MAXTYPESIZE :: int where "BLOSC2_MAXTYPESIZE \<equiv> BLOSC2_MAXBLOCKSIZE"
abbreviation (input) BLOSC2_MAX_FILTERS :: nat where "BLOSC2_MAX_FILTERS \<equiv> 6"
abbreviation (input) BLOSC_NOFILTER :: byte where "BLOSC_NOFILTER \<equiv> 0"
abbreviation (input) BLOSC_SHUFFLE :: byte where "BLOSC_SHUFFLE \<equiv> 1"
abbreviation (input) BLOSC_BITSHUFFLE :: byte where "BLOSC_BITSHUFFLE \<equiv> 2"
abbreviation (input) BLOSC_DELTA :: byte where "BLOSC_DELTA \<equiv> 3"
abbreviation (input) BLOSC_TRUNC_PREC :: byte where "BLOSC_TRUNC_PREC \<equiv> 4"
abbreviation (input) BLOSC2_DEFINED_FILTERS_STOP :: byte where "BLOSC2_DEFINED_FILTERS_STOP \<equiv> 31"
abbreviation (input) BLOSC_DOSHUFFLE :: byte where "BLOSC_DOSHUFFLE \<equiv> 1"
abbreviation (input) BLOSC_MEMCPYED :: byte where "BLOSC_MEMCPYED \<equiv> 2"
abbreviation (input) BLOSC_DOBITSHUFFLE :: byte where "BLOSC_DOBITSHUFFLE \<equiv> 4"
abbreviation (input) BLOSC_DODELTA :: byte where "BLOSC_DODELTA \<equiv> 8"
abbreviation (input) BLOSC2_USEDICT :: byte where "BLOSC2_USEDICT \<equiv> 1"
abbreviation (input) BLOSC2_BIGENDIAN :: byte where "BLOSC2_BIGENDIAN \<equiv> 2"
abbreviation (input) BLOSC2_INSTR_CODEC :: byte where "BLOSC2_INSTR_CODEC \<equiv> 128"
abbreviation (input) BLOSC2_VL_BLOCKS :: byte where "BLOSC2_VL_BLOCKS \<equiv> 1"
abbreviation (input) BLOSC_BLOSCLZ :: int where "BLOSC_BLOSCLZ \<equiv> 0"
abbreviation (input) BLOSC_LZ4 :: int where "BLOSC_LZ4 \<equiv> 1"
abbreviation (input) BLOSC_LZ4HC :: int where "BLOSC_LZ4HC \<equiv> 2"
abbreviation (input) BLOSC_ZLIB :: int where "BLOSC_ZLIB \<equiv> 4"
abbreviation (input) BLOSC_ZSTD :: int where "BLOSC_ZSTD \<equiv> 5"
abbreviation (input) BLOSC_LAST_CODEC :: int where "BLOSC_LAST_CODEC \<equiv> 6"
abbreviation (input) BLOSC2_DEFINED_CODECS_STOP :: int where "BLOSC2_DEFINED_CODECS_STOP \<equiv> 31"
abbreviation (input) BLOSC2_GLOBAL_REGISTERED_CODECS_START :: int where "BLOSC2_GLOBAL_REGISTERED_CODECS_START \<equiv> 32"
abbreviation (input) BLOSC_BLOSCLZ_LIB :: int where "BLOSC_BLOSCLZ_LIB \<equiv> 0"
abbreviation (input) BLOSC_LZ4_LIB :: int where "BLOSC_LZ4_LIB \<equiv> 1"
abbreviation (input) BLOSC_ZLIB_LIB :: int where "BLOSC_ZLIB_LIB \<equiv> 3"
abbreviation (input) BLOSC_ZSTD_LIB :: int where "BLOSC_ZSTD_LIB \<equiv> 4"
abbreviation (input) BLOSC_UDCODEC_LIB :: int where "BLOSC_UDCODEC_LIB \<equiv> 6"
abbreviation (input) BLOSC_SCHUNK_LIB :: int where "BLOSC_SCHUNK_LIB \<equiv> 7"
abbreviation (input) BLOSC_BLOSCLZ_FORMAT :: int where "BLOSC_BLOSCLZ_FORMAT \<equiv> BLOSC_BLOSCLZ_LIB"
abbreviation (input) BLOSC_LZ4_FORMAT :: int where "BLOSC_LZ4_FORMAT \<equiv> BLOSC_LZ4_LIB"
abbreviation (input) BLOSC_LZ4HC_FORMAT :: int where "BLOSC_LZ4HC_FORMAT \<equiv> BLOSC_LZ4_LIB"
abbreviation (input) BLOSC_ZLIB_FORMAT :: int where "BLOSC_ZLIB_FORMAT \<equiv> BLOSC_ZLIB_LIB"
abbreviation (input) BLOSC_ZSTD_FORMAT :: int where "BLOSC_ZSTD_FORMAT \<equiv> BLOSC_ZSTD_LIB"
abbreviation (input) BLOSC_UDCODEC_FORMAT :: int where "BLOSC_UDCODEC_FORMAT \<equiv> BLOSC_UDCODEC_LIB"
abbreviation (input) BLOSC_ALWAYS_SPLIT :: int where "BLOSC_ALWAYS_SPLIT \<equiv> 1"
abbreviation (input) BLOSC_NEVER_SPLIT :: int where "BLOSC_NEVER_SPLIT \<equiv> 2"
abbreviation (input) BLOSC_AUTO_SPLIT :: int where "BLOSC_AUTO_SPLIT \<equiv> 3"
abbreviation (input) BLOSC_FORWARD_COMPAT_SPLIT :: int where "BLOSC_FORWARD_COMPAT_SPLIT \<equiv> 4"
abbreviation (input) BLOSC2_NO_SPECIAL :: int where "BLOSC2_NO_SPECIAL \<equiv> 0"
abbreviation (input) BLOSC2_SPECIAL_ZERO :: int where "BLOSC2_SPECIAL_ZERO \<equiv> 1"
abbreviation (input) BLOSC2_SPECIAL_NAN :: int where "BLOSC2_SPECIAL_NAN \<equiv> 2"
abbreviation (input) BLOSC2_SPECIAL_VALUE :: int where "BLOSC2_SPECIAL_VALUE \<equiv> 3"
abbreviation (input) BLOSC2_SPECIAL_UNINIT :: int where "BLOSC2_SPECIAL_UNINIT \<equiv> 4"
abbreviation (input) BLOSC2_SPECIAL_LASTID :: int where "BLOSC2_SPECIAL_LASTID \<equiv> 4"
abbreviation (input) BLOSC2_SPECIAL_MASK :: int where "BLOSC2_SPECIAL_MASK \<equiv> 7"

section \<open>The messages name the codes\<close>

text \<open>
  No two error codes of the enumeration share a message, and none of
  them has the message of an unknown code.
\<close>

lemma error_string_injective:
  "inj_on blosc2_error_string {- 37..- 1} \<and> ''Unknown error'' \<notin> blosc2_error_string ` {- 37..- 1}"
proof -
  have "distinct (''Unknown error'' # map blosc2_error_string [- 37..- 1])"
    by code_simp
  then show ?thesis by (simp add: distinct_map)
qed

end
