(* ===== verification/Shuffle_Generic.thy ===== *)
theory Shuffle_Generic
  imports Prelude
begin

text \<open>
  \<open>blosc/shuffle-generic.h\<close> and \<open>blosc/shuffle-generic.c\<close>: the portable byte shuffle,
  the transposition of a block seen as \<open>neblock_quot\<close> elements of \<open>type_size\<close> bytes.
  The sizes are the non-negative \<open>int32_t\<close> values the dispatcher lets through, so they are
  natural numbers; a zero \<open>type_size\<close> is a division by zero.
\<close>

definition shuffle_generic_inline ::
  "nat \<Rightarrow> nat \<Rightarrow> nat \<Rightarrow> buf \<Rightarrow> buf \<Rightarrow> buf option" where
  "shuffle_generic_inline type_size vectorizable_blocksize blocksize src dest =
    (if type_size = 0 then None else
     let neblock_quot = blocksize div type_size;
         neblock_rem = blocksize mod type_size;
         vectorizable_elements = vectorizable_blocksize div type_size
     in do {
       dest \<leftarrow> for_range 0 type_size (\<lambda>j.
         for_range vectorizable_elements neblock_quot (\<lambda>i dest. do {
           v \<leftarrow> load src (i * type_size + j);
           store dest (j * neblock_quot + i) v })) dest;
       memcpy dest (blocksize - neblock_rem) src (blocksize - neblock_rem) neblock_rem })"

definition unshuffle_generic_inline ::
  "nat \<Rightarrow> nat \<Rightarrow> nat \<Rightarrow> buf \<Rightarrow> buf \<Rightarrow> buf option" where
  "unshuffle_generic_inline type_size vectorizable_blocksize blocksize src dest =
    (if type_size = 0 then None else
     let neblock_quot = blocksize div type_size;
         neblock_rem = blocksize mod type_size;
         vectorizable_elements = vectorizable_blocksize div type_size
     in do {
       dest \<leftarrow> for_range vectorizable_elements neblock_quot (\<lambda>i.
         for_range 0 type_size (\<lambda>j dest. do {
           v \<leftarrow> load src (j * neblock_quot + i);
           store dest (i * type_size + j) v })) dest;
       memcpy dest (blocksize - neblock_rem) src (blocksize - neblock_rem) neblock_rem })"

definition shuffle_generic :: "nat \<Rightarrow> nat \<Rightarrow> buf \<Rightarrow> buf \<Rightarrow> buf option" where
  "shuffle_generic bytesoftype blocksize src dest =
     shuffle_generic_inline bytesoftype 0 blocksize src dest"

definition unshuffle_generic :: "nat \<Rightarrow> nat \<Rightarrow> buf \<Rightarrow> buf \<Rightarrow> buf option" where
  "unshuffle_generic bytesoftype blocksize src dest =
     unshuffle_generic_inline bytesoftype 0 blocksize src dest"

section \<open>Closed forms\<close>

text \<open>
  Where byte \<open>k\<close> of a shuffled block of \<open>n\<close> bytes comes from, and where byte \<open>k\<close> of an
  unshuffled one comes from: the index maps of the transposition and its inverse, the
  identity on the bytes after the last whole element.
\<close>

definition shuffle_ix :: "nat \<Rightarrow> nat \<Rightarrow> nat \<Rightarrow> nat" where
  "shuffle_ix t n k =
     (let q = n div t in if k < q * t then (k mod q) * t + k div q else k)"

definition unshuffle_ix :: "nat \<Rightarrow> nat \<Rightarrow> nat \<Rightarrow> nat" where
  "unshuffle_ix t n k =
     (let q = n div t in if k < q * t then (k mod t) * q + k div t else k)"

text \<open>The two loop nests between them write every whole element.\<close>

lemma elements_covered:
  "(\<Union>j\<in>{0..<t}. \<Union>i\<in>{0..<q}. {j * q + i}) = {..<t * (q::nat)}"
  "(\<Union>i\<in>{0..<q}. \<Union>j\<in>{0..<t}. {i * t + j}) = {..<q * (t::nat)}"
  using index_split by (fastforce intro: index_lt)+

text \<open>
  The inline routine with a vectorised prefix: it writes exactly the shuffled elements from
  the first non-vectorised one on, and the tail.
\<close>

lemma shuffle_generic_inline_gathers:
  assumes t: "0 < t" and len: "n \<le> length src" "n \<le> N"
  defines "q \<equiv> n div t"
  shows "gathers (shuffle_generic_inline t v n src) N
    ((\<Union>j\<in>{0..<t}. \<Union>i\<in>{v div t..<q}. {j * q + i}) \<union> {q * t..<n})
    (\<lambda>k. src ! shuffle_ix t n k)"
proof -
  let ?g = "\<lambda>k. src ! shuffle_ix t n k"
  have qt: "q * t \<le> n" and tail: "n - n mod t = q * t" "q * t + n mod t = n"
    by (simp_all add: q_def minus_mod_eq_div_mult)
  have ix: "i * t + j < q * t" "j * q + i < q * t" if "j < t" "i < q" for i j
    using that by (auto intro: index_lt index_lt')
  have "gathers (for_range 0 t (\<lambda>j. for_range (v div t) q (\<lambda>i dest. do {
           x \<leftarrow> load src (i * t + j); store dest (j * q + i) x }))) N
      (\<Union>j\<in>{0..<t}. \<Union>i\<in>{v div t..<q}. {j * q + i}) ?g"
  proof (intro gathers_for_range gathers_load_store)
    fix j i assume "0 \<le> j" "j < t" "v div t \<le> i" "i < q"
    then have "i * t + j < q * t" "j * q + i < q * t" using ix by auto
    with \<open>j < t\<close> \<open>i < q\<close> qt len
    show "i * t + j < length src" "j * q + i < N" "src ! (i * t + j) = ?g (j * q + i)"
      by (auto simp: shuffle_ix_def Let_def simp flip: q_def)
  qed
  moreover have "gathers (\<lambda>d. memcpy d (q * t) src (q * t) (n mod t)) N {q * t..<q * t + n mod t} ?g"
    using len tail by (intro gathers_memcpy) (auto simp: shuffle_ix_def Let_def q_def)
  ultimately show ?thesis
    using t tail gathers_bind
    unfolding shuffle_generic_inline_def
    by (simp add: gathers_bind flip: q_def)
qed

text \<open>
  The inline unshuffle with a vectorised prefix: the elements before the first
  non-vectorised one are left alone.
\<close>

lemma unshuffle_generic_inline_gathers:
  assumes t: "0 < t" and len: "n \<le> length src" "n \<le> N"
  defines "q \<equiv> n div t"
  shows "gathers (unshuffle_generic_inline t v n src) N
    ((\<Union>i\<in>{v div t..<q}. \<Union>j\<in>{0..<t}. {i * t + j}) \<union> {q * t..<n})
    (\<lambda>k. src ! unshuffle_ix t n k)"
proof -
  let ?g = "\<lambda>k. src ! unshuffle_ix t n k"
  have qt: "q * t \<le> n" and tail: "n - n mod t = q * t" "q * t + n mod t = n"
    by (simp_all add: q_def minus_mod_eq_div_mult)
  have ix: "i * t + j < q * t" "j * q + i < q * t" if "j < t" "i < q" for i j
    using that by (auto intro: index_lt index_lt')
  have "gathers (for_range (v div t) q (\<lambda>i. for_range 0 t (\<lambda>j dest. do {
           x \<leftarrow> load src (j * q + i); store dest (i * t + j) x }))) N
      (\<Union>i\<in>{v div t..<q}. \<Union>j\<in>{0..<t}. {i * t + j}) ?g"
  proof (intro gathers_for_range gathers_load_store)
    fix i j assume "v div t \<le> i" "i < q" "0 \<le> j" "j < t"
    then have "i * t + j < q * t" "j * q + i < q * t" using ix by auto
    with \<open>j < t\<close> \<open>i < q\<close> qt len
    show "j * q + i < length src" "i * t + j < N" "src ! (j * q + i) = ?g (i * t + j)"
      by (auto simp: unshuffle_ix_def Let_def simp flip: q_def)
  qed
  moreover have "gathers (\<lambda>d. memcpy d (q * t) src (q * t) (n mod t)) N {q * t..<q * t + n mod t} ?g"
    using len tail by (intro gathers_memcpy) (auto simp: unshuffle_ix_def Let_def q_def)
  ultimately show ?thesis
    using t tail gathers_bind
    unfolding unshuffle_generic_inline_def
    by (simp add: gathers_bind flip: q_def)
qed

lemma shuffle_generic_eq:
  assumes "0 < t" "n \<le> length src" "n \<le> length dest"
  shows "shuffle_generic t n src dest =
    Some (map (\<lambda>k. src ! shuffle_ix t n k) [0..<n] @ drop n dest)"
  unfolding shuffle_generic_def
proof (rule gathers_all)
  show "gathers (shuffle_generic_inline t 0 n src) (length dest) ({..<t * (n div t)} \<union> {n div t * t..<n})
      (\<lambda>k. src ! shuffle_ix t n k)"
    using shuffle_generic_inline_gathers[of t n src "length dest" 0] assms
    by (simp only: elements_covered div_0)
qed (use assms in \<open>auto simp: mult.commute dest!: less_le_trans[OF _ times_div_less_eq_dividend]\<close>)

lemma unshuffle_generic_eq:
  assumes "0 < t" "n \<le> length src" "n \<le> length dest"
  shows "unshuffle_generic t n src dest =
    Some (map (\<lambda>k. src ! unshuffle_ix t n k) [0..<n] @ drop n dest)"
  unfolding unshuffle_generic_def
proof (rule gathers_all)
  show "gathers (unshuffle_generic_inline t 0 n src) (length dest) ({..<n div t * t} \<union> {n div t * t..<n})
      (\<lambda>k. src ! unshuffle_ix t n k)"
    using unshuffle_generic_inline_gathers[of t n src "length dest" 0] assms
    by (simp only: elements_covered div_0)
qed (use assms in \<open>auto simp: mult.commute dest!: less_le_trans[OF _ times_div_less_eq_dividend]\<close>)

lemma shuffle_ix_less: "0 < t \<Longrightarrow> k < n \<Longrightarrow> shuffle_ix t n k < n"
proof (cases "k < n div t * t")
  case True
  assume "0 < t" "k < n"
  from True obtain j i where "j < t" "i < n div t" "k = j * (n div t) + i"
    using index_split[of k t "n div t"] by (auto simp: mult.commute)
  then show ?thesis
    using True index_lt[of j t i "n div t"] less_le_trans[of _ "n div t * t" n]
    by (simp add: shuffle_ix_def)
qed (simp add: shuffle_ix_def Let_def)

lemma unshuffle_ix_less: "0 < t \<Longrightarrow> k < n \<Longrightarrow> unshuffle_ix t n k < n"
proof (cases "k < n div t * t")
  case True
  assume "0 < t" "k < n"
  from True obtain i j where "i < n div t" "j < t" "k = i * t + j"
    using index_split[of k "n div t" t] by auto
  then show ?thesis
    using True index_lt'[of i "n div t" j t] less_le_trans[of _ "n div t * t" n]
    by (simp add: unshuffle_ix_def)
qed (simp add: unshuffle_ix_def Let_def)

lemma shuffle_unshuffle_ix: "0 < t \<Longrightarrow> k < n \<Longrightarrow> shuffle_ix t n (unshuffle_ix t n k) = k"
proof (cases "k < n div t * t")
  case True
  assume "0 < t" "k < n"
  from True obtain i j where ij: "i < n div t" "j < t" "k = i * t + j"
    using index_split[of k "n div t" t] by auto
  moreover have "j * (n div t) + i < n div t * t" using ij by (auto intro: index_lt')
  ultimately show ?thesis using True by (simp add: shuffle_ix_def unshuffle_ix_def)
qed (simp add: shuffle_ix_def unshuffle_ix_def Let_def)

text \<open>
  C32. Unshuffling a shuffled block gives the block back, for every element size and every
  block length (a multiple of the element size or not), whatever the scratch buffers held.
\<close>

lemma unshuffle_shuffle_generic:
  assumes "0 < t" "n \<le> length src" "n \<le> length tmp" "n \<le> length dest"
  shows "do { s \<leftarrow> shuffle_generic t n src tmp; unshuffle_generic t n s dest } =
     Some (take n src @ drop n dest)"
proof -
  let ?s = "map (\<lambda>k. src ! shuffle_ix t n k) [0..<n] @ drop n tmp"
  have "map (\<lambda>k. ?s ! unshuffle_ix t n k) [0..<n] = take n src"
    using assms
    by (intro nth_equalityI) (auto simp: nth_append unshuffle_ix_less shuffle_unshuffle_ix)
  then show ?thesis using assms by (simp add: shuffle_generic_eq unshuffle_generic_eq)
qed

lemma unshuffle_shuffle_generic_witness:
  "do { s \<leftarrow> shuffle_generic 2 5 [1, 2, 3, 4, 5] [0, 0, 0, 0, 0];
        unshuffle_generic 2 5 s [9, 9, 9, 9, 9, 9] } = Some [1, 2, 3, 4, 5, 9]"
  using unshuffle_shuffle_generic[of 2 5 "[1, 2, 3, 4, 5]" "[0, 0, 0, 0, 0]" "[9, 9, 9, 9, 9, 9]"]
  by simp

end
