(* ===== verification/Bitshuffle_Generic.thy ===== *)
theory Bitshuffle_Generic
  imports Prelude
begin

text \<open>
  \<open>blosc/bitshuffle-generic.h\<close> and \<open>blosc/bitshuffle-generic.c\<close>: the portable bit shuffle.
  The routines return a count or the negative code of \<open>CHECK_MULT_EIGHT\<close>, and the buffer
  they wrote. \<open>little_endian\<close> is the run-time test of the code; the 64-bit loads read in the
  host's byte order. The sizes are below \<open>2^31\<close>, so \<open>size_t\<close> arithmetic does not wrap,
  except for the negated row skip of a big-endian host, whose index
  \<open>bit_row_offset + kk * bit_row_skip + ii\<close> is \<open>(7 - kk) * nbyte_bitrow + ii\<close> modulo \<open>2^64\<close>.
\<close>

section \<open>The 8x8 bit transposition\<close>

definition TRANS_BIT_8X8 :: "64 word \<Rightarrow> 64 word" where
  "TRANS_BIT_8X8 x =
    (let t = (x XOR drop_bit 7 x) AND 0x00AA00AA00AA00AA;
         x = x XOR t XOR push_bit 7 t;
         t = (x XOR drop_bit 14 x) AND 0x0000CCCC0000CCCC;
         x = x XOR t XOR push_bit 14 t;
         t = (x XOR drop_bit 28 x) AND 0x00000000F0F0F0F0
     in x XOR t XOR push_bit 28 t)"

definition TRANS_BIT_8X8_BE :: "64 word \<Rightarrow> 64 word" where
  "TRANS_BIT_8X8_BE x =
    (let t = (x XOR drop_bit 9 x) AND 0x0055005500550055;
         x = x XOR t XOR push_bit 9 t;
         t = (x XOR drop_bit 18 x) AND 0x0000333300003333;
         x = x XOR t XOR push_bit 18 t;
         t = (x XOR drop_bit 36 x) AND 0x000000000F0F0F0F
     in x XOR t XOR push_bit 36 t)"

text \<open>A 64-bit load from a byte buffer and the store of the low byte.\<close>

definition load_u64 :: "bool \<Rightarrow> buf \<Rightarrow> nat \<Rightarrow> 64 word option" where
  "load_u64 little_endian b i =
    (if i + 8 \<le> length b
     then Some (word_of_nat (le_val ((if little_endian then id else rev) (take 8 (drop i b)))))
     else None)"

section \<open>The routines\<close>

definition bshuf_copy :: "buf \<Rightarrow> buf \<Rightarrow> nat \<Rightarrow> nat \<Rightarrow> (int \<times> buf) option" where
  "bshuf_copy inb out sz elem_size = do {
     out \<leftarrow> memcpy out 0 inb 0 (sz * elem_size);
     Some (int (sz * elem_size), out) }"

definition bshuf_trans_byte_elem_remainder ::
  "buf \<Rightarrow> buf \<Rightarrow> nat \<Rightarrow> nat \<Rightarrow> nat \<Rightarrow> (int \<times> buf) option" where
  "bshuf_trans_byte_elem_remainder inb out sz elem_size start =
    (if start mod 8 \<noteq> 0 then Some (-80, out) else do {
       out \<leftarrow> (if sz > start then do {
           out \<leftarrow> for_step 8 start sz (\<lambda>ii.
             for_range 0 elem_size (\<lambda>jj.
               for_range 0 8 (\<lambda>kk out. do {
                 v \<leftarrow> load inb (ii * elem_size + kk * elem_size + jj);
                 store out (jj * sz + ii + kk) v }))) out;
           for_range (sz - sz mod 8) sz (\<lambda>ii.
             for_range 0 elem_size (\<lambda>jj out. do {
               v \<leftarrow> load inb (ii * elem_size + jj);
               store out (jj * sz + ii) v })) out }
         else Some out);
       Some (int (sz * elem_size), out) })"

definition bshuf_trans_byte_elem_scal :: "buf \<Rightarrow> buf \<Rightarrow> nat \<Rightarrow> nat \<Rightarrow> (int \<times> buf) option" where
  "bshuf_trans_byte_elem_scal inb out sz elem_size =
     bshuf_trans_byte_elem_remainder inb out sz elem_size 0"

definition bshuf_trans_bit_byte_remainder ::
  "bool \<Rightarrow> buf \<Rightarrow> buf \<Rightarrow> nat \<Rightarrow> nat \<Rightarrow> nat \<Rightarrow> (int \<times> buf) option" where
  "bshuf_trans_bit_byte_remainder little_endian inb out sz elem_size start_byte =
    (let nbyte = elem_size * sz;
         nbyte_bitrow = nbyte div 8;
         out_index = (\<lambda>kk ii. (if little_endian then kk else 7 - kk) * nbyte_bitrow + ii)
     in if nbyte mod 8 \<noteq> 0 then Some (-80, out)
        else if start_byte mod 8 \<noteq> 0 then Some (-80, out)
        else do {
          out \<leftarrow> for_range (start_byte div 8) nbyte_bitrow (\<lambda>ii out. do {
            x \<leftarrow> load_u64 little_endian inb (8 * ii);
            let x = (if little_endian then TRANS_BIT_8X8 x else TRANS_BIT_8X8_BE x);
            (x, out) \<leftarrow> for_range 0 8 (\<lambda>kk (x, out). do {
              out \<leftarrow> store out (out_index kk ii) (ucast x);
              Some (drop_bit 8 x, out) }) (x, out);
            Some out }) out;
          Some (int (sz * elem_size), out) })"

definition bshuf_trans_bit_byte_scal ::
  "bool \<Rightarrow> buf \<Rightarrow> buf \<Rightarrow> nat \<Rightarrow> nat \<Rightarrow> (int \<times> buf) option" where
  "bshuf_trans_bit_byte_scal little_endian inb out sz elem_size =
     bshuf_trans_bit_byte_remainder little_endian inb out sz elem_size 0"

definition bshuf_trans_elem ::
  "buf \<Rightarrow> buf \<Rightarrow> nat \<Rightarrow> nat \<Rightarrow> nat \<Rightarrow> (int \<times> buf) option" where
  "bshuf_trans_elem inb out lda ldb elem_size = do {
     out \<leftarrow> for_range 0 lda (\<lambda>ii.
       for_range 0 ldb (\<lambda>jj out.
         memcpy out ((jj * lda + ii) * elem_size) inb ((ii * ldb + jj) * elem_size) elem_size)) out;
     Some (int (lda * ldb * elem_size), out) }"

definition bshuf_trans_bitrow_eight :: "buf \<Rightarrow> buf \<Rightarrow> nat \<Rightarrow> nat \<Rightarrow> (int \<times> buf) option" where
  "bshuf_trans_bitrow_eight inb out sz elem_size =
    (let nbyte_bitrow = sz div 8
     in if sz mod 8 \<noteq> 0 then Some (-80, out)
        else bshuf_trans_elem inb out 8 elem_size nbyte_bitrow)"

text \<open>
  The temporary buffer comes from \<open>malloc\<close>: \<open>tmp_buf\<close> is \<open>None\<close> when it fails and
  otherwise any contents of the requested sz.
\<close>

definition bshuf_trans_bit_elem_scal ::
  "bool \<Rightarrow> buf option \<Rightarrow> buf \<Rightarrow> buf \<Rightarrow> nat \<Rightarrow> nat \<Rightarrow> (int \<times> buf) option" where
  "bshuf_trans_bit_elem_scal little_endian tmp_buf inb out sz elem_size =
    (if sz mod 8 \<noteq> 0 then Some (-80, out) else
     case tmp_buf of None \<Rightarrow> Some (-1, out)
     | Some tmp \<Rightarrow> do {
         (count, out) \<leftarrow> bshuf_trans_byte_elem_scal inb out sz elem_size;
         if count < 0 then Some (count, out) else do {
           (count, tmp) \<leftarrow> bshuf_trans_bit_byte_scal little_endian out tmp sz elem_size;
           if count < 0 then Some (count, out)
           else bshuf_trans_bitrow_eight tmp out sz elem_size } })"

definition bshuf_trans_byte_bitrow_scal :: "buf \<Rightarrow> buf \<Rightarrow> nat \<Rightarrow> nat \<Rightarrow> (int \<times> buf) option" where
  "bshuf_trans_byte_bitrow_scal inb out sz elem_size =
    (let nbyte_row = sz div 8
     in if sz mod 8 \<noteq> 0 then Some (-80, out) else do {
       out \<leftarrow> for_range 0 elem_size (\<lambda>jj.
         for_range 0 nbyte_row (\<lambda>ii.
           for_range 0 8 (\<lambda>kk out. do {
             v \<leftarrow> load inb ((jj * 8 + kk) * nbyte_row + ii);
             store out (ii * 8 * elem_size + jj * 8 + kk) v }))) out;
       Some (int (sz * elem_size), out) })"

definition bshuf_shuffle_bit_eightelem_scal ::
  "bool \<Rightarrow> buf \<Rightarrow> buf \<Rightarrow> nat \<Rightarrow> nat \<Rightarrow> (int \<times> buf) option" where
  "bshuf_shuffle_bit_eightelem_scal little_endian inb out sz elem_size =
    (let out_index = (\<lambda>kk ii jj. ii + jj div 8 + (if little_endian then kk else 7 - kk) * elem_size);
         nbyte = elem_size * sz
     in if sz mod 8 \<noteq> 0 then Some (-80, out) else do {
       out \<leftarrow> for_step 8 0 (8 * elem_size) (\<lambda>jj.
         for_step (8 * elem_size) 0 nbyte (\<lambda>ii out. do {
           x \<leftarrow> load_u64 little_endian inb (ii + jj);
           let x = (if little_endian then TRANS_BIT_8X8 x else TRANS_BIT_8X8_BE x);
           (x, out) \<leftarrow> for_range 0 8 (\<lambda>kk (x, out). do {
             out \<leftarrow> store out (out_index kk ii jj) (ucast x);
             Some (drop_bit 8 x, out) }) (x, out);
           Some out })) out;
       Some (int (sz * elem_size), out) })"

definition bshuf_untrans_bit_elem_scal ::
  "bool \<Rightarrow> buf option \<Rightarrow> buf \<Rightarrow> buf \<Rightarrow> nat \<Rightarrow> nat \<Rightarrow> (int \<times> buf) option" where
  "bshuf_untrans_bit_elem_scal little_endian tmp_buf inb out sz elem_size =
    (if sz mod 8 \<noteq> 0 then Some (-80, out) else
     case tmp_buf of None \<Rightarrow> Some (-1, out)
     | Some tmp \<Rightarrow> do {
         (count, tmp) \<leftarrow> bshuf_trans_byte_bitrow_scal inb tmp sz elem_size;
         if count < 0 then Some (count, out)
         else bshuf_shuffle_bit_eightelem_scal little_endian tmp out sz elem_size })"

section \<open>What the transposition does to bits\<close>

text \<open>One round exchanges the bits selected by the mask with those \<open>d\<close> places above.\<close>

definition delta_swap :: "nat \<Rightarrow> 64 word \<Rightarrow> 64 word \<Rightarrow> 64 word" where
  "delta_swap d m x = (let t = (x XOR drop_bit d x) AND m in x XOR t XOR push_bit d t)"

definition delta_swap_ix :: "nat \<Rightarrow> 64 word \<Rightarrow> nat \<Rightarrow> nat" where
  "delta_swap_ix d m i =
    (if bit m i then d + i else if d \<le> i \<and> bit m (i - d) then i - d else i)"

definition delta_swap_ok :: "nat \<Rightarrow> 64 word \<Rightarrow> bool" where
  "delta_swap_ok d m =
    list_all (\<lambda>i. bit m i \<longrightarrow> d + i < 64 \<and> \<not> (d \<le> i \<and> bit m (i - d))) [0..<64]"

lemma bit_delta_swap:
  "delta_swap_ok d m \<Longrightarrow> i < 64 \<Longrightarrow> bit (delta_swap d m x) i = bit x (delta_swap_ix d m i)"
  unfolding delta_swap_def delta_swap_ix_def delta_swap_ok_def list_all_iff Let_def
  by (auto simp: bit_simps dest: bit_imp_le_length)

lemma delta_swap_ix_less: "delta_swap_ok d m \<Longrightarrow> i < 64 \<Longrightarrow> delta_swap_ix d m i < 64"
  unfolding delta_swap_ix_def delta_swap_ok_def list_all_iff by auto

lemma masks_ok:
  "delta_swap_ok 7 0x00AA00AA00AA00AA" "delta_swap_ok 14 0x0000CCCC0000CCCC"
  "delta_swap_ok 28 0x00000000F0F0F0F0" "delta_swap_ok 9 0x0055005500550055"
  "delta_swap_ok 18 0x0000333300003333" "delta_swap_ok 36 0x000000000F0F0F0F"
  by code_simp+

lemma all_less_list: "list_all P [0..<n] \<Longrightarrow> i < n \<Longrightarrow> P i"
  by (simp add: list_all_iff)

lemma three_swaps:
  "delta_swap_ix 7 0x00AA00AA00AA00AA (delta_swap_ix 14 0x0000CCCC0000CCCC
     (delta_swap_ix 28 0x00000000F0F0F0F0 i)) = 8 * (i mod 8) + i div 8" if "i < 64"
  by (rule all_less_list[OF _ that]) code_simp

lemma three_swaps_BE:
  "delta_swap_ix 9 0x0055005500550055 (delta_swap_ix 18 0x0000333300003333
     (delta_swap_ix 36 0x000000000F0F0F0F i)) = 8 * (7 - i mod 8) + (7 - i div 8)" if "i < 64"
  by (rule all_less_list[OF _ that]) code_simp

lemma bit_TRANS_BIT_8X8: "i < 64 \<Longrightarrow> bit (TRANS_BIT_8X8 x) i = bit x (8 * (i mod 8) + i div 8)"
proof -
  assume i: "i < 64"
  have "TRANS_BIT_8X8 x = delta_swap 28 0x00000000F0F0F0F0
      (delta_swap 14 0x0000CCCC0000CCCC (delta_swap 7 0x00AA00AA00AA00AA x))"
    by (simp add: TRANS_BIT_8X8_def delta_swap_def Let_def)
  with i show ?thesis
    by (simp only: bit_delta_swap masks_ok delta_swap_ix_less three_swaps)
qed

lemma bit_TRANS_BIT_8X8_BE:
  "i < 64 \<Longrightarrow> bit (TRANS_BIT_8X8_BE x) i = bit x (8 * (7 - i mod 8) + (7 - i div 8))"
proof -
  assume i: "i < 64"
  have "TRANS_BIT_8X8_BE x = delta_swap 36 0x000000000F0F0F0F
      (delta_swap 18 0x0000333300003333 (delta_swap 9 0x0055005500550055 x))"
    by (simp add: TRANS_BIT_8X8_BE_def delta_swap_def Let_def)
  with i show ?thesis
    by (simp only: bit_delta_swap masks_ok delta_swap_ix_less three_swaps_BE)
qed

text \<open>\<open>bitcol xs k\<close> collects bit \<open>k\<close> of each of the (at most eight) bytes of \<open>xs\<close>.\<close>

definition bitcol :: "buf \<Rightarrow> nat \<Rightarrow> byte" where
  "bitcol xs k = horner_sum of_bool 2 (map (\<lambda>x. bit x k) xs)"

lemma bit_bitcol: "bit (bitcol xs k) c \<longleftrightarrow> c < 8 \<and> c < length xs \<and> bit (xs ! c) k"
  by (auto simp: bitcol_def bit_horner_sum_bit_word_iff)

lemma bit_le_val:
  "c < 8 \<Longrightarrow> bit (le_val bs) (8 * a + c) \<longleftrightarrow> a < length bs \<and> bit (bs ! a) c"
proof (induction bs arbitrary: a)
  case Nil
  then show ?case by simp
next
  case (Cons b bs)
  have eq: "le_val (b # bs) = unat b OR push_bit 8 (le_val bs)"
  proof -
    have "take_bit 8 (unat b) = unat b" by (simp add: take_bit_eq_mod)
    then have "\<not> bit (unat b) n" if "8 \<le> n" for n
      by (metis bit_take_bit_iff leD that)
    then have "unat b AND push_bit 8 (le_val bs) = 0"
      by (intro bit_eqI) (auto simp: bit_simps)
    then have "unat b + push_bit 8 (le_val bs) = unat b OR push_bit 8 (le_val bs)"
      by (rule disjunctive_add_eq_or)
    then show ?thesis by (simp add: push_bit_eq_mult mult.commute)
  qed
  show ?case
  proof (cases a)
    case 0
    with Cons.prems show ?thesis
      unfolding eq by (simp add: bit_or_iff bit_push_bit_iff bit_unsigned_iff)
  next
    case (Suc a')
    then have "8 * a + c - 8 = 8 * a' + c" "8 \<le> 8 * a + c" by simp_all
    moreover have "\<not> bit b (8 * a + c)"
      using bit_imp_le_length[of b "8 * a + c"] Suc by auto
    ultimately show ?thesis
      using Cons.IH[of a'] Cons.prems Suc
      unfolding eq by (simp add: bit_or_iff bit_push_bit_iff bit_unsigned_iff)
  qed
qed

text \<open>
  Loading eight bytes and transposing leaves in byte \<open>k\<close> the bits \<open>k\<close> of the eight bytes,
  on a host of either byte order once the row order is taken into account.
\<close>

lemma transposed_byte:
  assumes "load_u64 le b i = Some x" "k < 8"
  shows "ucast (drop_bit (8 * k) (if le then TRANS_BIT_8X8 x else TRANS_BIT_8X8_BE x)) =
     bitcol (take 8 (drop i b)) (if le then k else 7 - k)"
proof (rule bit_word_eqI)
  fix c assume c: "c < LENGTH(8)"
  let ?t = "take 8 (drop i b)"
  have len: "length ?t = 8" and x: "x = word_of_nat (le_val ((if le then id else rev) ?t))"
    using assms(1) by (auto simp: load_u64_def split: if_splits)
  have bx: "bit x (8 * a + d) = bit (((if le then id else rev) ?t) ! a) d" if "a < 8" "d < 8" for a d
    using that len bit_le_val[of d "(if le then id else rev) ?t" a]
    by (simp add: x bit_word_of_nat del: length_take length_drop split: if_splits)
  have c8: "c < 8" using c by simp
  show "bit (ucast (drop_bit (8 * k) (if le then TRANS_BIT_8X8 x else TRANS_BIT_8X8_BE x)) :: byte) c =
     bit (bitcol ?t (if le then k else 7 - k)) c"
  proof (cases le)
    case True
    have "bit (TRANS_BIT_8X8 x) (8 * k + c) = bit x (8 * c + k)"
      using assms(2) c8 by (simp add: bit_TRANS_BIT_8X8)
    with True c8 assms(2) len show ?thesis
      by (simp add: bit_unsigned_iff bit_drop_bit_eq bit_bitcol bx del: length_take length_drop)
  next
    case False
    have "bit (TRANS_BIT_8X8_BE x) (8 * k + c) = bit x (8 * (7 - c) + (7 - k))"
      using assms(2) c8 by (simp add: bit_TRANS_BIT_8X8_BE)
    then have "bit (TRANS_BIT_8X8_BE x) (8 * k + c) = bit (rev ?t ! (7 - c)) (7 - k)"
      using bx[of "7 - c" "7 - k"] False by simp
    moreover have "rev ?t ! (7 - c) = ?t ! c" using len c8
      by (subst rev_nth) (auto simp del: length_take length_drop)
    ultimately show ?thesis using False c8 assms(2) len
      by (simp add: bit_unsigned_iff bit_drop_bit_eq bit_bitcol bx del: length_take length_drop)
  qed
qed

text \<open>The loop that peels the eight bytes off the transposed word.\<close>

lemma peel_bytes_gathers:
  assumes "\<And>kk. lo \<le> kk \<Longrightarrow> kk < lo + m \<Longrightarrow>
      d kk < n \<and> ucast (drop_bit (8 * (kk - lo)) (x :: 64 word)) = (g (d kk) :: byte)"
    and "length b = n"
  shows "for_count lo m (\<lambda>kk (x, out). do { out \<leftarrow> store out (d kk) (ucast x); Some (drop_bit 8 x, out) })
      (x, b) = Some (drop_bit (8 * m) x, gather (d ` {lo..<lo + m}) g b)"
  using assms
proof (induction m arbitrary: lo x b)
  case 0
  then show ?case by simp
next
  case (Suc m)
  have "store b (d lo) (ucast x) = Some (gather {d lo} g b)"
    using gathersD[OF gathers_store] Suc.prems(1)[of lo] Suc.prems(2) by force
  moreover have "for_count (Suc lo) m
      (\<lambda>kk (x, out). do { out \<leftarrow> store out (d kk) (ucast x); Some (drop_bit 8 x, out) })
      (drop_bit 8 x, gather {d lo} g b) =
     Some (drop_bit (8 * m) (drop_bit 8 x), gather (d ` {Suc lo..<Suc lo + m}) g (gather {d lo} g b))"
  proof (rule Suc.IH)
    fix kk assume kk: "Suc lo \<le> kk" "kk < Suc lo + m"
    then have "8 * (kk - Suc lo) + 8 = 8 * (kk - lo)" by simp
    with Suc.prems(1)[of kk] kk
    show "d kk < n \<and> ucast (drop_bit (8 * (kk - Suc lo)) (drop_bit 8 x)) = g (d kk)"
      by simp
  qed (use Suc.prems in simp)
  moreover have "insert (d lo) (d ` {Suc lo..<Suc lo + m}) = d ` {lo..<lo + Suc m}"
  proof -
    have "{lo..<lo + Suc m} = insert lo {Suc lo..<Suc lo + m}" by auto
    then show ?thesis by simp
  qed
  ultimately show ?case
    by (simp add: gather_gather add.commute)
qed

lemma transpose_gathers:
  assumes "i + 8 \<le> length src"
    and "\<And>k. k < 8 \<Longrightarrow> d k < n \<and> bitcol (take 8 (drop i src)) k = g (d k)"
  shows "gathers (\<lambda>out. do {
      x \<leftarrow> load_u64 le src i;
      let x = (if le then TRANS_BIT_8X8 x else TRANS_BIT_8X8_BE x);
      (x, out) \<leftarrow> for_range 0 8 (\<lambda>kk (x, out). do {
        out \<leftarrow> store out (d (if le then kk else 7 - kk)) (ucast x);
        Some (drop_bit 8 x, out) }) (x, out);
      Some out }) n (d ` {..<8}) g"
  unfolding gathers_def
proof (intro allI impI)
  fix b :: buf assume b: "length b = n"
  let ?e = "\<lambda>kk. if le then kk else 7 - (kk :: nat)"
  obtain x where x: "load_u64 le src i = Some x" using assms(1) by (simp add: load_u64_def)
  let ?y = "if le then TRANS_BIT_8X8 x else TRANS_BIT_8X8_BE x"
  have "for_range 0 8 (\<lambda>kk (x, out). do { out \<leftarrow> store out (d (?e kk)) (ucast x);
        Some (drop_bit 8 x, out) }) (?y, b) =
      Some (drop_bit (8 * 8) ?y, gather ((\<lambda>kk. d (?e kk)) ` {0..<0 + 8}) g b)"
    unfolding for_range_def diff_zero
  proof (rule peel_bytes_gathers[OF _ b])
    fix kk :: nat assume "0 \<le> kk" "kk < 0 + 8"
    then have kk: "kk < 8" "?e kk < 8" by auto
    show "d (?e kk) < n \<and> ucast (drop_bit (8 * (kk - 0)) ?y) = g (d (?e kk))"
      using transposed_byte[OF x kk(1)] assms(2)[OF kk(2)] by (simp split: if_splits)
  qed
  moreover have "(\<lambda>kk. d (?e kk)) ` {0..<0 + 8} = d ` {..<8}"
  proof (cases le)
    case False
    have "(\<lambda>kk. 7 - kk) ` {0..<8} = {..<8::nat}"
    proof (intro set_eqI iffI)
      fix k :: nat assume "k \<in> {..<8}"
      then have "k = 7 - (7 - k)" "7 - k \<in> {0..<8}" by auto
      then show "k \<in> (\<lambda>kk. 7 - kk) ` {0..<8}" by (rule image_eqI)
    qed auto
    then have "d ` ((\<lambda>kk. 7 - kk) ` {0..<8}) = d ` {..<8}" by simp
    with False show ?thesis by (simp add: image_image)
  qed (simp add: lessThan_atLeast0)
  ultimately show "do {
      x \<leftarrow> load_u64 le src i;
      let x = (if le then TRANS_BIT_8X8 x else TRANS_BIT_8X8_BE x);
      (x, out) \<leftarrow> for_range 0 8 (\<lambda>kk (x, out). do {
        out \<leftarrow> store out (d (if le then kk else 7 - kk)) (ucast x);
        Some (drop_bit 8 x, out) }) (x, b);
      Some out } = Some (gather (d ` {..<8}) g b)"
    by (simp add: x Let_def)
qed

section \<open>Closed forms of the stages\<close>

lemma trans_byte_elem_eq:
  assumes "sz * e \<le> length inb" "sz * e \<le> length out"
  shows "bshuf_trans_byte_elem_scal inb out sz e = Some (int (sz * e),
     map (\<lambda>k. inb ! ((k mod sz) * e + k div sz)) [0..<sz * e] @ drop (sz * e) out)"
proof (cases "0 < sz")
  case False
  then show ?thesis
    by (simp add: bshuf_trans_byte_elem_scal_def bshuf_trans_byte_elem_remainder_def)
next
  case True
  let ?g = "\<lambda>k. inb ! ((k mod sz) * e + k div sz)"
  let ?A = "(\<Union>m\<in>{m. 0 + 8 * m + (8 - 1) < sz}. \<Union>jj\<in>{0..<e}. \<Union>kk\<in>{0..<8}.
      {jj * sz + (0 + 8 * m) + kk})"
  let ?B = "(\<Union>ii\<in>{sz - sz mod 8..<sz}. \<Union>jj\<in>{0..<e}. {jj * sz + ii})"
  have ix: "r * e + jj < length inb" "jj * sz + r < length out" "?g (jj * sz + r) = inb ! (r * e + jj)"
    if "r < sz" "jj < e" for r jj
    using that index_lt[of jj e r sz] index_lt[of r sz jj e] assms by (auto simp: mult.commute)
  have "gathers (for_step 8 0 sz (\<lambda>ii. for_range 0 e (\<lambda>jj. for_range 0 8 (\<lambda>kk out. do {
      v \<leftarrow> load inb (ii * e + kk * e + jj); store out (jj * sz + ii + kk) v })))) (length out) ?A ?g"
  proof (intro gathers_for_step gathers_for_range gathers_load_store)
    fix m jj kk assume "0 + 8 * m + (8 - 1) < sz" "0 \<le> jj" "jj < e" "0 \<le> kk" "kk < (8::nat)"
    then show "(0 + 8 * m) * e + kk * e + jj < length inb" "jj * sz + (0 + 8 * m) + kk < length out"
      "inb ! ((0 + 8 * m) * e + kk * e + jj) = ?g (jj * sz + (0 + 8 * m) + kk)"
      using ix[of "8 * m + kk" jj] by (simp_all add: algebra_simps)
  qed simp
  moreover have "gathers (for_range (sz - sz mod 8) sz (\<lambda>ii. for_range 0 e (\<lambda>jj out. do {
      v \<leftarrow> load inb (ii * e + jj); store out (jj * sz + ii) v }))) (length out) ?B ?g"
    by (intro gathers_for_range gathers_load_store) (use ix in auto)
  ultimately have G: "gathers (\<lambda>out. do {
      out \<leftarrow> for_step 8 0 sz (\<lambda>ii. for_range 0 e (\<lambda>jj. for_range 0 8 (\<lambda>kk out. do {
        v \<leftarrow> load inb (ii * e + kk * e + jj); store out (jj * sz + ii + kk) v }))) out;
      for_range (sz - sz mod 8) sz (\<lambda>ii. for_range 0 e (\<lambda>jj out. do {
        v \<leftarrow> load inb (ii * e + jj); store out (jj * sz + ii) v })) out }) (length out) (?A \<union> ?B) ?g"
    by (rule gathers_bind)
  have cov: "{..<sz * e} \<subseteq> ?A \<union> ?B"
  proof
    fix k assume "k \<in> {..<sz * e}"
    then obtain jj r where k: "jj < e" "r < sz" "k = jj * sz + r"
      using index_split[of k e sz] by (auto simp: mult.commute)
    show "k \<in> ?A \<union> ?B"
    proof (cases "r < sz - sz mod 8")
      case True
      have "r div 8 < sz div 8"
        using True by (simp add: minus_mod_eq_mult_div less_mult_imp_div_less mult.commute)
      then have "8 * (r div 8) + 8 \<le> 8 * (sz div 8)" by linarith
      then have "8 * (r div 8) + 7 < sz"
        using times_div_less_eq_dividend[of 8 sz] by linarith
      moreover obtain m kk where m: "r = 8 * m + kk" "kk < 8" "r div 8 = m"
        by (metis div_mod_decomp mod_less_divisor mult.commute zero_less_numeral)
      ultimately have "k \<in> ?A"
        using k m by (intro UN_I[of m] UN_I[of jj] UN_I[of kk]) auto
      then show ?thesis ..
    next
      case False
      with k have "k \<in> ?B" by (intro UN_I[of r] UN_I[of jj]) auto
      then show ?thesis ..
    qed
  qed
  have bnd: "k < sz * e" if "k \<in> ?A \<union> ?B" for k
  proof -
    from that consider "k \<in> ?A" | "k \<in> ?B" by blast
    then have "\<exists>jj r. jj < e \<and> r < sz \<and> k = jj * sz + r"
    proof cases
      case 1
      then obtain m jj kk where "8 * m + 7 < sz" "jj < e" "kk < 8" "k = jj * sz + (8 * m + kk)"
        by (auto simp: add.assoc)
      then show ?thesis by (intro exI[of _ jj] exI[of _ "8 * m + kk"]) simp
    next
      case 2
      then show ?thesis by auto
    qed
    then show ?thesis by (auto simp: index_lt')
  qed
  have dis: "(?A \<union> ?B) \<inter> {sz * e..<length out} = {}"
    unfolding disjoint_iff by (intro allI impI) (use bnd in \<open>simp add: not_le del: Un_iff UN_iff\<close>)
  show ?thesis
    using gathers_all[OF G cov dis refl assms(2)] True
    by (simp add: bshuf_trans_byte_elem_scal_def bshuf_trans_byte_elem_remainder_def)
qed

lemma trans_bit_byte_eq:
  assumes "e * sz mod 8 = 0" "sz * e \<le> length inb" "sz * e \<le> length out"
  defines "nb \<equiv> e * sz div 8"
  shows "bshuf_trans_bit_byte_scal le inb out sz e = Some (int (sz * e),
     map (\<lambda>k. bitcol (take 8 (drop (8 * (k mod nb)) inb)) (k div nb)) [0..<sz * e]
       @ drop (sz * e) out)"
proof -
  let ?g = "\<lambda>k. bitcol (take 8 (drop (8 * (k mod nb)) inb)) (k div nb)"
  let ?A = "\<Union>ii\<in>{0..<nb}. (\<lambda>kk. kk * nb + ii) ` {..<8}"
  have n8: "8 * nb = sz * e" using assms(1) by (auto simp: nb_def mult.commute)
  have "gathers (for_range 0 nb (\<lambda>ii out. do {
      x \<leftarrow> load_u64 le inb (8 * ii);
      let x = (if le then TRANS_BIT_8X8 x else TRANS_BIT_8X8_BE x);
      (x, out) \<leftarrow> for_range 0 8 (\<lambda>kk (x, out). do {
        out \<leftarrow> store out ((if le then kk else 7 - kk) * nb + ii) (ucast x);
        Some (drop_bit 8 x, out) }) (x, out);
      Some out })) (length out) ?A ?g"
  proof (rule gathers_for_range, rule transpose_gathers[where d = "\<lambda>kk. kk * nb + _"])
    fix ii assume ii: "0 \<le> ii" "ii < nb"
    then show "8 * ii + 8 \<le> length inb" using n8 assms(2) by linarith
    fix k assume "k < (8::nat)"
    then show "k * nb + ii < length out \<and> bitcol (take 8 (drop (8 * ii) inb)) k = ?g (k * nb + ii)"
      using ii index_lt[of ii nb k 8] n8 assms(3) by simp
  qed
  moreover have "{..<8 * nb} \<subseteq> ?A" "?A \<inter> {8 * nb..<length out} = {}"
    using index_split[of _ 8 nb] index_lt[of _ nb _ 8] by (fastforce, fastforce)
  ultimately have "for_range 0 nb (\<lambda>ii out. do {
      x \<leftarrow> load_u64 le inb (8 * ii);
      let x = (if le then TRANS_BIT_8X8 x else TRANS_BIT_8X8_BE x);
      (x, out) \<leftarrow> for_range 0 8 (\<lambda>kk (x, out). do {
        out \<leftarrow> store out ((if le then kk else 7 - kk) * nb + ii) (ucast x);
        Some (drop_bit 8 x, out) }) (x, out);
      Some out }) out = Some (map ?g [0..<8 * nb] @ drop (8 * nb) out)"
    using assms(3) n8 by (intro gathers_all) auto
  with assms(1) n8 show ?thesis
    by (simp add: bshuf_trans_bit_byte_scal_def bshuf_trans_bit_byte_remainder_def Let_def
        flip: nb_def)
qed

lemma trans_elem_eq:
  assumes "lda * ldb * es \<le> length inb" "lda * ldb * es \<le> length out"
  shows "bshuf_trans_elem inb out lda ldb es = Some (int (lda * ldb * es),
     map (\<lambda>k. inb ! (((k div es) mod lda * ldb + k div es div lda) * es + k mod es)) [0..<lda * ldb * es]
       @ drop (lda * ldb * es) out)"
proof -
  let ?g = "\<lambda>k. inb ! (((k div es) mod lda * ldb + k div es div lda) * es + k mod es)"
  let ?A = "\<Union>ii\<in>{0..<lda}. \<Union>jj\<in>{0..<ldb}. {(jj * lda + ii) * es..<(jj * lda + ii) * es + es}"
  have blk: "(jj * lda + ii) * es + es \<le> lda * ldb * es" "(ii * ldb + jj) * es + es \<le> lda * ldb * es"
    if "ii < lda" "jj < ldb" for ii jj
  proof -
    have "Suc (jj * lda + ii) * es \<le> (lda * ldb) * es" "Suc (ii * ldb + jj) * es \<le> (lda * ldb) * es"
      using index_lt[of ii lda jj ldb] index_lt[of jj ldb ii lda] that
      by (intro mult_le_mono1; simp add: mult.commute)+
    then show "(jj * lda + ii) * es + es \<le> lda * ldb * es" "(ii * ldb + jj) * es + es \<le> lda * ldb * es"
      by simp_all
  qed
  have "gathers (for_range 0 lda (\<lambda>ii. for_range 0 ldb (\<lambda>jj out.
      memcpy out ((jj * lda + ii) * es) inb ((ii * ldb + jj) * es) es))) (length out) ?A ?g"
  proof (intro gathers_for_range gathers_memcpy)
    fix ii jj assume ij: "0 \<le> ii" "ii < lda" "0 \<le> jj" "jj < ldb"
    show "(jj * lda + ii) * es + es \<le> length out" "(ii * ldb + jj) * es + es \<le> length inb"
      using blk[of ii jj] ij assms by linarith+
    fix k assume k: "(jj * lda + ii) * es \<le> k" "k < (jj * lda + ii) * es + es"
    then obtain w where w: "k = (jj * lda + ii) * es + w" "w < es"
      by (metis add_less_cancel_left le_iff_add)
    with ij show "?g k = inb ! ((ii * ldb + jj) * es + (k - (jj * lda + ii) * es))" by simp
  qed
  moreover have "{..<lda * ldb * es} \<subseteq> ?A"
  proof
    fix k assume "k \<in> {..<lda * ldb * es}"
    then obtain p w where p: "p < ldb * lda" "w < es" "k = p * es + w"
      using index_split[of k "lda * ldb" es] by (auto simp: mult.commute)
    obtain jj ii where "jj < ldb" "ii < lda" "p = jj * lda + ii" using index_split[OF p(1)] by auto
    with p show "k \<in> ?A" by (intro UN_I[of ii] UN_I[of jj]) auto
  qed
  moreover have "?A \<inter> {lda * ldb * es..<length out} = {}"
    using blk(1) by (force simp: disjoint_iff)
  ultimately have "for_range 0 lda (\<lambda>ii. for_range 0 ldb (\<lambda>jj out.
      memcpy out ((jj * lda + ii) * es) inb ((ii * ldb + jj) * es) es)) out =
     Some (map ?g [0..<lda * ldb * es] @ drop (lda * ldb * es) out)"
    using assms(2) by (intro gathers_all) auto
  then show ?thesis by (simp add: bshuf_trans_elem_def)
qed

lemma trans_byte_bitrow_eq:
  assumes "sz mod 8 = 0" "sz * e \<le> length inb" "sz * e \<le> length out"
  defines "nr \<equiv> sz div 8"
  shows "bshuf_trans_byte_bitrow_scal inb out sz e = Some (int (sz * e),
     map (\<lambda>k. inb ! ((k mod (8 * e) div 8 * 8 + k mod 8) * nr + k div (8 * e))) [0..<sz * e]
       @ drop (sz * e) out)"
proof -
  let ?g = "\<lambda>k. inb ! ((k mod (8 * e) div 8 * 8 + k mod 8) * nr + k div (8 * e))"
  let ?A = "\<Union>jj\<in>{0..<e}. \<Union>ii\<in>{0..<nr}. \<Union>kk\<in>{0..<8}. {ii * 8 * e + jj * 8 + kk}"
  have n8: "nr * (8 * e) = sz * e" "(e * 8) * nr = sz * e" using assms(1) by (auto simp: nr_def)
  have ix: "ii * 8 * e + jj * 8 + kk < sz * e" "(jj * 8 + kk) * nr + ii < sz * e"
    "(ii * 8 * e + jj * 8 + kk) mod (8 * e) = jj * 8 + kk"
    "(ii * 8 * e + jj * 8 + kk) div (8 * e) = ii"
    "(ii * 8 * e + jj * 8 + kk) mod 8 = kk"
    if "jj < e" "ii < nr" "kk < 8" for jj ii kk
  proof -
    have j: "jj * 8 + kk < 8 * e" using index_lt'[of kk 8 jj e] that by simp
    have eq: "ii * 8 * e + jj * 8 + kk = ii * (8 * e) + (jj * 8 + kk)" by simp
    show "ii * 8 * e + jj * 8 + kk < sz * e"
      using index_lt[OF j that(2)] n8(1) eq by simp
    show "(jj * 8 + kk) * nr + ii < sz * e"
      using index_lt[of ii nr "jj * 8 + kk" "8 * e"] j that(2) n8(1) by (simp only: mult.commute)
    show "(ii * 8 * e + jj * 8 + kk) mod (8 * e) = jj * 8 + kk"
      "(ii * 8 * e + jj * 8 + kk) div (8 * e) = ii"
      unfolding eq using j by simp_all
    show "(ii * 8 * e + jj * 8 + kk) mod 8 = kk"
      using that(3) by (simp add: mod_add_eq[symmetric] mult.assoc mult.left_commute)
  qed
  have "gathers (for_range 0 e (\<lambda>jj. for_range 0 nr (\<lambda>ii. for_range 0 8 (\<lambda>kk out. do {
       v \<leftarrow> load inb ((jj * 8 + kk) * nr + ii); store out (ii * 8 * e + jj * 8 + kk) v }))))
     (length out) ?A ?g"
  proof (intro gathers_for_range gathers_load_store)
    fix jj ii kk assume "0 \<le> jj" "jj < e" "0 \<le> ii" "ii < nr" "0 \<le> kk" "kk < (8::nat)"
    then show "(jj * 8 + kk) * nr + ii < length inb" "ii * 8 * e + jj * 8 + kk < length out"
      "inb ! ((jj * 8 + kk) * nr + ii) = ?g (ii * 8 * e + jj * 8 + kk)"
      using ix[of jj ii kk] assms(2,3) by simp_all
  qed
  moreover have "{..<sz * e} \<subseteq> ?A"
  proof
    fix k assume "k \<in> {..<sz * e}"
    then have "k < nr * (e * 8)" using n8(1) by (simp only: lessThan_iff mult.commute)
    then obtain ii r where k: "ii < nr" "r < e * 8" "k = ii * (e * 8) + r"
      using index_split by blast
    obtain jj kk where "jj < e" "kk < 8" "r = jj * 8 + kk" using index_split[OF k(2)] by auto
    with k show "k \<in> ?A" by (intro UN_I[of jj] UN_I[of ii] UN_I[of kk]) auto
  qed
  moreover have "?A \<inter> {sz * e..<length out} = {}"
    using ix(1) by (force simp: disjoint_iff)
  ultimately have "for_range 0 e (\<lambda>jj. for_range 0 nr (\<lambda>ii. for_range 0 8 (\<lambda>kk out. do {
       v \<leftarrow> load inb ((jj * 8 + kk) * nr + ii); store out (ii * 8 * e + jj * 8 + kk) v }))) out
     = Some (map ?g [0..<sz * e] @ drop (sz * e) out)"
    using assms(3) by (intro gathers_all) auto
  with assms(1) show ?thesis
    by (simp add: bshuf_trans_byte_bitrow_scal_def Let_def flip: nr_def)
qed

lemma shuffle_bit_eightelem_eq:
  assumes "sz mod 8 = 0" "sz * e \<le> length inb" "sz * e \<le> length out"
  shows "bshuf_shuffle_bit_eightelem_scal le inb out sz e = Some (int (sz * e),
     map (\<lambda>k. bitcol (take 8 (drop (8 * e * (k div e div 8) + 8 * (k mod e)) inb)) (k div e mod 8))
       [0..<sz * e] @ drop (sz * e) out)"
proof (cases "e = 0")
  case True
  with assms show ?thesis
    by (simp add: bshuf_shuffle_bit_eightelem_scal_def for_step.simps)
next
  case False
  let ?g = "\<lambda>k. bitcol (take 8 (drop (8 * e * (k div e div 8) + 8 * (k mod e)) inb)) (k div e mod 8)"
  let ?J = "{m. 0 + 8 * m + (8 - 1) < 8 * e}" and ?I = "{m. 0 + 8 * e * m + (8 * e - 1) < e * sz}"
  let ?A = "\<Union>j\<in>?J. \<Union>a\<in>?I.
      (\<lambda>kk. (0 + 8 * e * a) + (0 + 8 * j) div 8 + kk * e) ` {..<8}"
  obtain nr where sz: "sz = 8 * nr" using assms(1) by auto
  have J: "m \<in> ?J \<longleftrightarrow> m < e" for m by auto
  have I: "m \<in> ?I \<longleftrightarrow> m < nr" for m
  proof -
    have "m \<in> ?I \<longleftrightarrow> 8 * e * Suc m \<le> 8 * e * nr" using False by (auto simp: sz algebra_simps)
    also have "\<dots> \<longleftrightarrow> m < nr" using False by (subst mult_le_cancel1) auto
    finally show ?thesis .
  qed
  have eq: "8 * e * a + j + kk * e = (a * 8 + kk) * e + j" for a j kk
    by (simp add: algebra_simps)
  have ix: "(a * 8 + kk) * e + j < sz * e" "8 * e * a + 8 * j + 8 \<le> sz * e"
    if "a < nr" "kk < 8" "j < e" for a kk j
  proof -
    have "a * 8 + kk < nr * 8" using that by (auto intro: index_lt)
    then show "(a * 8 + kk) * e + j < sz * e"
      using index_lt[of j e "a * 8 + kk" "nr * 8"] that(3) by (simp add: sz mult.commute)
    have "8 * (a * e + Suc j) \<le> 8 * (nr * e)"
      using index_lt[of j e a nr] that by (intro mult_le_mono2) simp
    then show "8 * e * a + 8 * j + 8 \<le> sz * e" by (simp add: sz algebra_simps)
  qed
  have G: "gathers (for_step 8 0 (8 * e) (\<lambda>jj. for_step (8 * e) 0 (e * sz) (\<lambda>ii out. do {
           x \<leftarrow> load_u64 le inb (ii + jj);
           let x = (if le then TRANS_BIT_8X8 x else TRANS_BIT_8X8_BE x);
           (x, out) \<leftarrow> for_range 0 8 (\<lambda>kk (x, out). do {
             out \<leftarrow> store out (ii + jj div 8 + (if le then kk else 7 - kk) * e) (ucast x);
             Some (drop_bit 8 x, out) }) (x, out);
           Some out }))) (length out) ?A ?g"
  proof (rule gathers_for_step, simp, rule gathers_for_step, use False in simp,
      rule transpose_gathers[where d = "\<lambda>kk. _ + _ + kk * e"])
    fix j a assume "0 + 8 * j + (8 - 1) < 8 * e" "0 + 8 * e * a + (8 * e - 1) < e * sz"
    then have ja: "j < e" "a < nr" using J I by auto
    show "(0 + 8 * e * a) + (0 + 8 * j) + 8 \<le> length inb" using ix(2)[of a 0 j] ja assms(2) by simp
    fix k :: nat assume k: "k < 8"
    have "(0 + 8 * e * a) + (0 + 8 * j) div 8 + k * e = (a * 8 + k) * e + j"
      using eq[of a j k] by simp
    then show "(0 + 8 * e * a) + (0 + 8 * j) div 8 + k * e < length out \<and>
       bitcol (take 8 (drop ((0 + 8 * e * a) + (0 + 8 * j)) inb)) k =
         ?g ((0 + 8 * e * a) + (0 + 8 * j) div 8 + k * e)"
      using ix(1)[of a k j] ja assms(3) k by (simp only:) simp
  qed
  have cov: "{..<sz * e} \<subseteq> ?A"
  proof
    fix k assume "k \<in> {..<sz * e}"
    then obtain p j where k: "p < nr * 8" "j < e" "k = p * e + j"
      using index_split[of k sz e] by (auto simp: sz mult.commute)
    obtain a kk where "a < nr" "kk < 8" "p = a * 8 + kk" using index_split[OF k(1)] by auto
    with k show "k \<in> ?A" using J I
      by (intro UN_I[of j] UN_I[of a] image_eqI[of _ _ kk]) (auto simp: algebra_simps)
  qed
  have dis: "?A \<inter> {sz * e..<length out} = {}"
  proof -
    have "k < sz * e" if k: "k \<in> ?A" for k
    proof -
      from k obtain j a kk where "j \<in> ?J" "a \<in> ?I" "kk < 8" "k = 8 * e * a + j + kk * e" by auto
      then show ?thesis using ix(1)[of a kk j] J I eq by metis
    qed
    then show ?thesis by fastforce
  qed
  show ?thesis
    unfolding bshuf_shuffle_bit_eightelem_scal_def Let_def[of "\<lambda>kk ii jj. _ kk ii jj"]
      Let_def[of "e * sz"]
    using gathers_all[OF G cov dis refl assms(3)] assms(1) by simp
qed

section \<open>The composed transforms\<close>

text \<open>
  In bit-shuffled form, row \<open>8 * j + b\<close> holds bit \<open>b\<close> of byte \<open>j\<close> of every element, eight
  elements to the byte.
\<close>

definition bitshuffle_byte :: "buf \<Rightarrow> nat \<Rightarrow> nat \<Rightarrow> nat \<Rightarrow> byte" where
  "bitshuffle_byte inb sz e k =
    (let nr = sz div 8 in
     bitcol (map (\<lambda>c. inb ! ((8 * (k mod nr) + c) * e + k div nr div 8)) [0..<8]) (k div nr mod 8))"

definition bitunshuffle_byte :: "buf \<Rightarrow> nat \<Rightarrow> nat \<Rightarrow> nat \<Rightarrow> byte" where
  "bitunshuffle_byte inb sz e k =
     bitcol (map (\<lambda>c. inb ! ((8 * (k mod e) + c) * (sz div 8) + k div e div 8)) [0..<8]) (k div e mod 8)"

lemma take_drop_map: "p + n \<le> length xs \<Longrightarrow> take n (drop p xs) = map (\<lambda>c. xs ! (p + c)) [0..<n]"
  by (intro nth_equalityI) auto

lemma trans_bit_elem_eq:
  assumes sz: "sz mod 8 = 0"
    and len: "sz * e \<le> length inb" "sz * e \<le> length out" "length tmp = sz * e"
  shows "bshuf_trans_bit_elem_scal le (Some tmp) inb out sz e = Some (int (sz * e),
     map (bitshuffle_byte inb sz e) [0..<sz * e] @ drop (sz * e) out)"
proof -
  define nr where "nr = sz div 8"
  have nr: "sz = 8 * nr" using sz by (auto simp: nr_def)
  define o1 where "o1 = map (\<lambda>k. inb ! ((k mod sz) * e + k div sz)) [0..<sz * e] @ drop (sz * e) out"
  define t where "t = map (\<lambda>k. bitcol (take 8 (drop (8 * (k mod (e * nr))) o1)) (k div (e * nr)))
    [0..<sz * e]"
  have l1: "length o1 = length out" using len by (simp add: o1_def)
  have A: "bshuf_trans_byte_elem_scal inb out sz e = Some (int (sz * e), o1)"
    using trans_byte_elem_eq[OF len(1,2)] by (simp add: o1_def)
  have nb: "e * sz div 8 = e * nr" by (simp add: nr)
  have B: "bshuf_trans_bit_byte_scal le o1 tmp sz e = Some (int (sz * e), t)"
    using trans_bit_byte_eq[of e sz o1 tmp le] len l1 nb sz
    by (simp add: t_def mod_mult_right_eq[symmetric])
  have C: "bshuf_trans_bitrow_eight t o1 sz e = Some (int (sz * e),
      map (\<lambda>k. t ! (((k div nr) mod 8 * e + k div nr div 8) * nr + k mod nr)) [0..<sz * e]
        @ drop (sz * e) o1)"
    using trans_elem_eq[of 8 e nr t o1] len l1 sz
    by (simp add: bshuf_trans_bitrow_eight_def nr t_def algebra_simps)
  have "t ! (((k div nr) mod 8 * e + k div nr div 8) * nr + k mod nr) = bitshuffle_byte inb sz e k"
    if k: "k < sz * e" for k
  proof -
    have "k < (e * 8) * nr" using k by (simp add: nr algebra_simps)
    then obtain r m where r: "r < e * 8" "m < nr" "k = r * nr + m" using index_split by blast
    obtain j b where j: "j < e" "b < 8" "r = j * 8 + b" using index_split[OF r(1)] by blast
    have jm: "j * nr + m < e * nr" using j r by (auto intro: index_lt)
    have bjm: "b * (e * nr) + (j * nr + m) < sz * e"
      using index_lt[OF jm j(2)] by (simp add: nr algebra_simps)
    have kk: "k mod nr = m" "k div nr div 8 = j" "k div nr mod 8 = b" using r j by simp_all
    have "((k div nr) mod 8 * e + k div nr div 8) * nr + k mod nr = b * (e * nr) + (j * nr + m)"
      unfolding kk by (simp add: algebra_simps)
    then have "t ! (((k div nr) mod 8 * e + k div nr div 8) * nr + k mod nr) =
        bitcol (take 8 (drop (8 * (j * nr + m)) o1)) b"
      using bjm jm by (simp add: t_def)
    also have "take 8 (drop (8 * (j * nr + m)) o1) = map (\<lambda>c. inb ! ((8 * m + c) * e + j)) [0..<8]"
    proof -
      have mc: "8 * m + c < sz" if "c < 8" for c using r(2) that by (simp add: nr)
      have ix: "8 * (j * nr + m) + c = j * sz + (8 * m + c)" for c by (simp add: nr algebra_simps)
      have "8 * (j * nr + m) + 8 \<le> length o1"
        using index_lt'[OF mc[of 7] j(1)] ix[of 7] l1 len(2) by linarith
      moreover have "o1 ! (8 * (j * nr + m) + c) = inb ! ((8 * m + c) * e + j)" if "c < 8" for c
        unfolding ix using index_lt'[OF mc[OF that] j(1)] mc[OF that] by (simp add: o1_def nth_append)
      ultimately show ?thesis by (subst take_drop_map) auto
    qed
    finally show ?thesis by (simp add: bitshuffle_byte_def kk flip: nr_def)
  qed
  then have eq: "map (\<lambda>k. t ! (((k div nr) mod 8 * e + k div nr div 8) * nr + k mod nr)) [0..<sz * e]
      = map (bitshuffle_byte inb sz e) [0..<sz * e]"
    by (intro map_cong) auto
  have "drop (sz * e) o1 = drop (sz * e) out" by (simp add: o1_def)
  with C eq show ?thesis
    using sz by (simp add: bshuf_trans_bit_elem_scal_def A B not_less flip: of_nat_mult)
qed

lemma untrans_bit_elem_eq:
  assumes sz: "sz mod 8 = 0"
    and len: "sz * e \<le> length inb" "sz * e \<le> length out" "length tmp = sz * e"
  shows "bshuf_untrans_bit_elem_scal le (Some tmp) inb out sz e = Some (int (sz * e),
     map (bitunshuffle_byte inb sz e) [0..<sz * e] @ drop (sz * e) out)"
proof -
  define nr where "nr = sz div 8"
  have nr: "sz = 8 * nr" using sz by (auto simp: nr_def)
  define t where "t = map (\<lambda>k. inb ! ((k mod (8 * e) div 8 * 8 + k mod 8) * nr + k div (8 * e)))
    [0..<sz * e]"
  have D: "bshuf_trans_byte_bitrow_scal inb tmp sz e = Some (int (sz * e), t)"
    using trans_byte_bitrow_eq[of sz e inb tmp] len sz by (simp add: t_def nr_def)
  have E: "bshuf_shuffle_bit_eightelem_scal le t out sz e = Some (int (sz * e),
     map (\<lambda>k. bitcol (take 8 (drop (8 * e * (k div e div 8) + 8 * (k mod e)) t)) (k div e mod 8))
       [0..<sz * e] @ drop (sz * e) out)"
    using sz len by (intro shuffle_bit_eightelem_eq) (auto simp: t_def)
  have "bitcol (take 8 (drop (8 * e * (k div e div 8) + 8 * (k mod e)) t)) (k div e mod 8) =
      bitunshuffle_byte inb sz e k" if k: "k < sz * e" for k
  proof -
    have "take 8 (drop (8 * e * (k div e div 8) + 8 * (k mod e)) t) =
        map (\<lambda>c. inb ! ((8 * (k mod e) + c) * nr + k div e div 8)) [0..<8]"
    proof -
      have e: "0 < e" using k by (cases e) auto
      have "k div e < nr * 8" using k by (simp add: nr less_mult_imp_div_less mult.commute)
      then have a: "k div e div 8 < nr" by (simp add: less_mult_imp_div_less)
      have j: "8 * (k mod e) + c < 8 * e" if "c < 8" for c
        using mod_less_divisor[OF e, of k] that by linarith
      have ix: "8 * e * (k div e div 8) + 8 * (k mod e) + c = k div e div 8 * (8 * e) + (8 * (k mod e) + c)"
        for c by simp
      have b: "k div e div 8 * (8 * e) + (8 * (k mod e) + c) < sz * e" if "c < 8" for c
        using index_lt[OF j[OF that] a] by (simp add: nr algebra_simps)
      have "8 * e * (k div e div 8) + 8 * (k mod e) + 8 \<le> length t"
        using b[of 7] ix[of 7] unfolding t_def length_map length_upt by linarith
      moreover have "t ! (8 * e * (k div e div 8) + 8 * (k mod e) + c) =
          inb ! ((8 * (k mod e) + c) * nr + k div e div 8)" if "c < 8" for c
      proof -
        have "(k div e div 8 * (8 * e) + (8 * (k mod e) + c)) mod 8 = c"
          using that by (simp add: mod_add_eq[symmetric] mult.left_commute)
        then show ?thesis
          unfolding ix using b[OF that] j[OF that] that by (simp add: t_def mult.commute[of _ 8])
      qed
      ultimately show ?thesis by (subst take_drop_map) auto
    qed
    then show ?thesis by (simp add: bitunshuffle_byte_def nr_def)
  qed
  then have "map (\<lambda>k. bitcol (take 8 (drop (8 * e * (k div e div 8) + 8 * (k mod e)) t)) (k div e mod 8))
      [0..<sz * e] = map (bitunshuffle_byte inb sz e) [0..<sz * e]"
    by (intro map_cong) auto
  with E sz show ?thesis by (simp add: bshuf_untrans_bit_elem_scal_def D not_less flip: of_nat_mult)
qed

lemma bitunshuffle_bitshuffle_byte:
  assumes "sz mod 8 = 0" "k < sz * e" "sz * e \<le> length inb" "sz * e \<le> length shuf"
    and "\<And>i. i < sz * e \<Longrightarrow> shuf ! i = bitshuffle_byte inb sz e i"
  shows "bitunshuffle_byte shuf sz e k = inb ! k"
proof (rule bit_word_eqI)
  fix c assume "c < LENGTH(8)"
  then have c: "c < 8" by simp
  obtain nr where nr: "sz = 8 * nr" using assms(1) by auto
  obtain p j where p: "p < nr * 8" "j < e" "k = p * e + j"
    using index_split[OF assms(2)] by (auto simp: nr mult.commute)
  obtain a b where a: "a < nr" "b < 8" "p = a * 8 + b" using index_split[OF p(1)] by blast
  have "8 * j + c < 8 * e" using p(2) c by linarith
  then have i: "(8 * j + c) * nr + a < sz * e"
    using index_lt[OF a(1), of "8 * j + c" "8 * e"] by (simp add: nr algebra_simps)
  have "bit (bitunshuffle_byte shuf sz e k) c = bit (shuf ! ((8 * j + c) * nr + a)) b"
    using p a c by (simp add: bitunshuffle_byte_def bit_bitcol nr)
  also have "\<dots> = bit (inb ! ((8 * a + b) * e + j)) c"
    using a c by (simp add: assms(5)[OF i] bitshuffle_byte_def bit_bitcol nr)
  finally show "bit (bitunshuffle_byte shuf sz e k) c = bit (inb ! k) c"
    using p a by (simp add: algebra_simps)
qed

text \<open>
  C31. The bit unshuffle inverts the bit shuffle, for any number of elements that is a
  multiple of eight, whatever byte order the two hosts have: a block bit-shuffled on one is
  restored on the other. Neither routine accesses memory outside its buffers.
\<close>

lemma bitunshuffle_bitshuffle:
  assumes "sz mod 8 = 0" "sz * e \<le> length inb" "sz * e \<le> length mid" "sz * e \<le> length out"
    and "length tmp = sz * e" "length tmp' = sz * e"
  shows "do { (n, mid) \<leftarrow> bshuf_trans_bit_elem_scal le (Some tmp) inb mid sz e;
              bshuf_untrans_bit_elem_scal le' (Some tmp') mid out sz e } =
     Some (int (sz * e), take (sz * e) inb @ drop (sz * e) out)"
proof -
  let ?s = "map (bitshuffle_byte inb sz e) [0..<sz * e] @ drop (sz * e) mid"
  have "map (bitunshuffle_byte ?s sz e) [0..<sz * e] = take (sz * e) inb"
  proof (rule nth_equalityI)
    fix k assume "k < length (map (bitunshuffle_byte ?s sz e) [0..<sz * e])"
    then have k: "k < sz * e" by simp
    have "bitunshuffle_byte ?s sz e k = inb ! k"
      by (rule bitunshuffle_bitshuffle_byte) (use assms k in \<open>auto simp: nth_append\<close>)
    with k show "map (bitunshuffle_byte ?s sz e) [0..<sz * e] ! k = take (sz * e) inb ! k" by simp
  qed (use assms in simp)
  with assms show ?thesis
    by (simp add: trans_bit_elem_eq untrans_bit_elem_eq)
qed

lemma bitunshuffle_bitshuffle_witness:
  "do { (n, mid) \<leftarrow> bshuf_trans_bit_elem_scal True (Some (replicate 8 0)) [1, 2, 3, 4, 5, 6, 7, 8]
          (replicate 8 0) 8 1;
        bshuf_untrans_bit_elem_scal False (Some (replicate 8 0)) mid (replicate 9 7) 8 1 } =
     Some (8, [1, 2, 3, 4, 5, 6, 7, 8, 7])"
  using bitunshuffle_bitshuffle[of 8 1 "[1, 2, 3, 4, 5, 6, 7, 8]" "replicate 8 0" "replicate 9 7"
      "replicate 8 0" "replicate 8 0" True False]
  by (simp add: eval_nat_numeral)

end
