(* ===== verification/Shuffle_Dispatch.thy ===== *)
theory Shuffle_Dispatch
  imports Blosc_Constants Shuffle_Generic Bitshuffle_Generic
begin

text \<open>
  \<open>blosc/shuffle.c\<close>: the table of routines chosen for the host and the four public entry
  points that dispatch to it. The table is a record of functions as in the source. What an
  entry of the table owes its callers is the locale \<open>shuffle_host\<close>; the portable table, the
  one a processor without any of the vector extensions gets, is its interpretation.
\<close>

record shuffle_implementation =
  impl_name :: string
  impl_shuffle :: "nat \<Rightarrow> nat \<Rightarrow> buf \<Rightarrow> buf \<Rightarrow> buf option"
  impl_unshuffle :: "nat \<Rightarrow> nat \<Rightarrow> buf \<Rightarrow> buf \<Rightarrow> buf option"
  impl_bitshuffle :: "buf \<Rightarrow> buf \<Rightarrow> nat \<Rightarrow> nat \<Rightarrow> (int \<times> buf) option"
  impl_bitunshuffle :: "buf \<Rightarrow> buf \<Rightarrow> nat \<Rightarrow> nat \<Rightarrow> (int \<times> buf) option"

text \<open>
  \<open>get_shuffle_implementation\<close> when no vector extension is compiled in or supported. The
  scalar bit shuffle allocates its work buffer: \<open>malloc n\<close> is \<open>None\<close> or \<open>n\<close> bytes.
\<close>

definition get_shuffle_implementation :: "bool \<Rightarrow> (nat \<Rightarrow> buf option) \<Rightarrow> shuffle_implementation" where
  "get_shuffle_implementation little_endian malloc =
    \<lparr>impl_name = ''generic'',
     impl_shuffle = shuffle_generic,
     impl_unshuffle = unshuffle_generic,
     impl_bitshuffle = (\<lambda>inb out sz elem_size.
       bshuf_trans_bit_elem_scal little_endian (malloc (sz * elem_size)) inb out sz elem_size),
     impl_bitunshuffle = (\<lambda>inb out sz elem_size.
       bshuf_untrans_bit_elem_scal little_endian (malloc (sz * elem_size)) inb out sz elem_size)\<rparr>"

section \<open>The entry points\<close>

text \<open>
  The parameters are \<open>int32_t\<close>. The result pairs the returned code with the destination.
  \<open>blosc2_bitshuffle\<close> divides \<open>blocksize\<close> by \<open>typesize\<close> before it validates them, so a zero \<open>typesize\<close>
  is undefined behaviour there, and so is \<open>INT32_MIN\<close> by \<open>- 1\<close>. \<open>bitunshuffle\<close> does not validate at all,
  and the model leaves it undefined for every negative \<open>blocksize\<close> and every \<open>typesize\<close> that is not positive.
\<close>

definition blosc2_shuffle ::
  "shuffle_implementation \<Rightarrow> int \<Rightarrow> int \<Rightarrow> buf \<Rightarrow> buf \<Rightarrow> (int \<times> buf) option" where
  "blosc2_shuffle host typesize blocksize src dest =
    (if typesize < 1 \<or> typesize > 256 \<or> blocksize < 0
     then Some (BLOSC2_ERROR_INVALID_PARAM, dest)
     else do {
       dest \<leftarrow> impl_shuffle host (nat typesize) (nat blocksize) src dest;
       Some (blocksize, dest) })"

definition blosc2_unshuffle ::
  "shuffle_implementation \<Rightarrow> int \<Rightarrow> int \<Rightarrow> buf \<Rightarrow> buf \<Rightarrow> (int \<times> buf) option" where
  "blosc2_unshuffle host typesize blocksize src dest =
    (if typesize < 1 \<or> typesize > 256 \<or> blocksize < 0
     then Some (BLOSC2_ERROR_INVALID_PARAM, dest)
     else do {
       dest \<leftarrow> impl_unshuffle host (nat typesize) (nat blocksize) src dest;
       Some (blocksize, dest) })"

definition blosc2_bitshuffle ::
  "shuffle_implementation \<Rightarrow> int \<Rightarrow> int \<Rightarrow> buf \<Rightarrow> buf \<Rightarrow> (int \<times> buf) option" where
  "blosc2_bitshuffle host typesize blocksize src dest =
    (if typesize = 0 \<or> blocksize = - (2 ^ 31) \<and> typesize = - 1 then None
     else if typesize < 1 \<or> typesize > 256 \<or> blocksize < 0
     then Some (BLOSC2_ERROR_INVALID_PARAM, dest)
     else
       let sz = nat blocksize div nat typesize;
           sz = sz - sz mod 8
       in do {
         (ret, dest) \<leftarrow> impl_bitshuffle host src dest sz (nat typesize);
         if ret < 0 then Some (ret, dest) else
           let off = sz * nat typesize
           in do {
             dest \<leftarrow> memcpy dest off src off (nat blocksize - off);
             Some (blocksize, dest) } })"

definition bitunshuffle ::
  "shuffle_implementation \<Rightarrow> int \<Rightarrow> int \<Rightarrow> buf \<Rightarrow> buf \<Rightarrow> byte \<Rightarrow> (int \<times> buf) option" where
  "bitunshuffle host typesize blocksize src dest format_version =
    (if typesize \<le> 0 \<or> blocksize < 0 then None
     else
       let sz = nat blocksize div nat typesize
       in if format_version = BLOSC1_VERSION_FORMAT then
            (if sz mod 8 = 0 then do {
               (ret, dest) \<leftarrow> impl_bitunshuffle host src dest sz (nat typesize);
               if ret < 0 then Some (ret, dest) else Some (blocksize, dest) }
             else do {
               dest \<leftarrow> memcpy dest 0 src 0 (nat blocksize);
               Some (blocksize, dest) })
          else
            let sz = sz - sz mod 8
            in do {
              (ret, dest) \<leftarrow> impl_bitunshuffle host src dest sz (nat typesize);
              if ret < 0 then Some (ret, dest) else
                let off = sz * nat typesize
                in do {
                  dest \<leftarrow> memcpy dest off src off (nat blocksize - off);
                  Some (blocksize, dest) } })"

definition blosc2_bitunshuffle ::
  "shuffle_implementation \<Rightarrow> int \<Rightarrow> int \<Rightarrow> buf \<Rightarrow> buf \<Rightarrow> (int \<times> buf) option" where
  "blosc2_bitunshuffle host typesize blocksize src dest =
     bitunshuffle host typesize blocksize src dest BLOSC2_VERSION_FORMAT"

section \<open>What a table of routines owes its callers\<close>

locale shuffle_host =
  fixes host :: shuffle_implementation
  assumes host_shuffle:
    "0 < t \<Longrightarrow> n \<le> length src \<Longrightarrow> n \<le> length dest \<Longrightarrow>
     impl_shuffle host t n src dest =
       Some (map (\<lambda>k. src ! shuffle_ix t n k) [0..<n] @ drop n dest)"
    and host_unshuffle:
    "0 < t \<Longrightarrow> n \<le> length src \<Longrightarrow> n \<le> length dest \<Longrightarrow>
     impl_unshuffle host t n src dest =
       Some (map (\<lambda>k. src ! unshuffle_ix t n k) [0..<n] @ drop n dest)"
    and host_bitshuffle:
    "sz mod 8 = 0 \<Longrightarrow> sz * e \<le> length src \<Longrightarrow> sz * e \<le> length dest \<Longrightarrow>
     impl_bitshuffle host src dest sz e =
       Some (int (sz * e), map (bitshuffle_byte src sz e) [0..<sz * e] @ drop (sz * e) dest)"
    and host_bitunshuffle:
    "sz mod 8 = 0 \<Longrightarrow> sz * e \<le> length src \<Longrightarrow> sz * e \<le> length dest \<Longrightarrow>
     impl_bitunshuffle host src dest sz e =
       Some (int (sz * e), map (bitunshuffle_byte src sz e) [0..<sz * e] @ drop (sz * e) dest)"
begin

lemma shuffle_roundtrip:
  assumes "1 \<le> t" "t \<le> 256" "0 \<le> n"
    and "nat n \<le> length src" "nat n \<le> length mid" "nat n \<le> length dest"
  shows "do { (r, mid) \<leftarrow> blosc2_shuffle host t n src mid; blosc2_unshuffle host t n mid dest } =
     Some (n, take (nat n) src @ drop (nat n) dest)"
proof -
  let ?s = "map (\<lambda>k. src ! shuffle_ix (nat t) (nat n) k) [0..<nat n] @ drop (nat n) mid"
  have "map (\<lambda>k. ?s ! unshuffle_ix (nat t) (nat n) k) [0..<nat n] = take (nat n) src"
    using assms
    by (intro nth_equalityI) (auto simp: nth_append unshuffle_ix_less shuffle_unshuffle_ix)
  with assms show ?thesis
    by (simp add: blosc2_shuffle_def blosc2_unshuffle_def host_shuffle host_unshuffle)
qed

text \<open>The bit shuffle on the whole groups of eight elements, and the bytes after them.\<close>

lemma bitshuffle_eq:
  assumes "1 \<le> t" "t \<le> 256" "0 \<le> n" "nat n \<le> length src" "nat n \<le> length dest"
  defines "sz \<equiv> nat n div nat t - nat n div nat t mod 8"
  shows "blosc2_bitshuffle host t n src dest =
     Some (n, map (\<lambda>k. if k < sz * nat t then bitshuffle_byte src sz (nat t) k else src ! k) [0..<nat n]
       @ drop (nat n) dest)"
    and "v \<noteq> BLOSC1_VERSION_FORMAT \<Longrightarrow> bitunshuffle host t n src dest v =
     Some (n, map (\<lambda>k. if k < sz * nat t then bitunshuffle_byte src sz (nat t) k else src ! k) [0..<nat n]
       @ drop (nat n) dest)"
proof -
  have m: "sz mod 8 = 0" by (simp add: sz_def minus_mod_eq_mult_div)
  have "sz * nat t \<le> nat n div nat t * nat t" by (intro mult_le_mono1) (simp add: sz_def)
  also have "\<dots> \<le> nat n" by simp
  finally have le: "sz * nat t \<le> nat n" .
  have copy: "memcpy (map f [0..<sz * nat t] @ drop (sz * nat t) dest) (sz * nat t) src (sz * nat t)
      (nat n - sz * nat t) =
    Some (map (\<lambda>k. if k < sz * nat t then f k else src ! k) [0..<nat n] @ drop (nat n) dest)" for f
    using le assms(4,5)
    by (simp add: memcpy_Some del: append_assoc, intro nth_equalityI) (auto simp: nth_append)
  show "blosc2_bitshuffle host t n src dest =
     Some (n, map (\<lambda>k. if k < sz * nat t then bitshuffle_byte src sz (nat t) k else src ! k) [0..<nat n]
       @ drop (nat n) dest)"
    using assms(1-5) m le
    by (simp add: blosc2_bitshuffle_def host_bitshuffle copy not_less flip: sz_def of_nat_mult)
  show "bitunshuffle host t n src dest v =
     Some (n, map (\<lambda>k. if k < sz * nat t then bitunshuffle_byte src sz (nat t) k else src ! k) [0..<nat n]
       @ drop (nat n) dest)" if "v \<noteq> BLOSC1_VERSION_FORMAT"
    using assms(1-5) m le that
    by (simp add: bitunshuffle_def host_bitunshuffle copy not_less flip: sz_def of_nat_mult)
qed

lemma bitshuffle_roundtrip:
  assumes "1 \<le> t" "t \<le> 256" "0 \<le> n"
    and "nat n \<le> length src" "nat n \<le> length mid" "nat n \<le> length dest" "v \<noteq> BLOSC1_VERSION_FORMAT"
  shows "do { (r, mid) \<leftarrow> blosc2_bitshuffle host t n src mid; bitunshuffle host t n mid dest v } =
     Some (n, take (nat n) src @ drop (nat n) dest)"
proof -
  let ?sz = "nat n div nat t - nat n div nat t mod 8" and ?t = "nat t"
  let ?s = "map (\<lambda>k. if k < ?sz * ?t then bitshuffle_byte src ?sz ?t k else src ! k) [0..<nat n]
    @ drop (nat n) mid"
  have m: "?sz mod 8 = 0" by (simp add: minus_mod_eq_mult_div)
  have "?sz * ?t \<le> nat n div ?t * ?t" by (intro mult_le_mono1) simp
  also have "\<dots> \<le> nat n" by simp
  finally have le: "?sz * ?t \<le> nat n" .
  have "map (\<lambda>k. if k < ?sz * ?t then bitunshuffle_byte ?s ?sz ?t k else ?s ! k) [0..<nat n]
      = take (nat n) src"
  proof (rule nth_equalityI)
    fix k assume "k < length (map (\<lambda>k. if k < ?sz * ?t then bitunshuffle_byte ?s ?sz ?t k else ?s ! k)
      [0..<nat n])"
    then have k: "k < nat n" by simp
    have "bitunshuffle_byte ?s ?sz ?t k = src ! k" if "k < ?sz * ?t"
      by (rule bitunshuffle_bitshuffle_byte[OF m that]) (use assms le in \<open>auto simp: nth_append\<close>)
    with k show "map (\<lambda>k. if k < ?sz * ?t then bitunshuffle_byte ?s ?sz ?t k else ?s ! k)
        [0..<nat n] ! k = take (nat n) src ! k"
      by (simp add: nth_append)
  qed (use assms in simp)
  with assms show ?thesis
    by (simp add: bitshuffle_eq)
qed

end

text \<open>The portable table meets the contract whenever memory can be allocated.\<close>

lemma generic_shuffle_host:
  assumes "\<And>n. \<exists>b. malloc n = Some b \<and> length b = n"
  shows "shuffle_host (get_shuffle_implementation le malloc)"
proof
  fix sz e :: nat and src dest :: buf
  assume *: "sz mod 8 = 0" "sz * e \<le> length src" "sz * e \<le> length dest"
  obtain tmp where "malloc (sz * e) = Some tmp" "length tmp = sz * e" using assms by blast
  with * show
    "impl_bitshuffle (get_shuffle_implementation le malloc) src dest sz e =
       Some (int (sz * e), map (bitshuffle_byte src sz e) [0..<sz * e] @ drop (sz * e) dest)"
    "impl_bitunshuffle (get_shuffle_implementation le malloc) src dest sz e =
       Some (int (sz * e), map (bitunshuffle_byte src sz e) [0..<sz * e] @ drop (sz * e) dest)"
    by (simp_all add: get_shuffle_implementation_def trans_bit_elem_eq untrans_bit_elem_eq)
qed (simp_all add: get_shuffle_implementation_def shuffle_generic_eq unshuffle_generic_eq)

definition calloc_ok :: "nat \<Rightarrow> buf option" where
  "calloc_ok n = Some (replicate n 0)"

interpretation generic_host: shuffle_host "get_shuffle_implementation le calloc_ok" for le
  by (rule generic_shuffle_host) (simp add: calloc_ok_def)

text \<open>
  C40. Through the dispatching entry points, a block of any
  length bit-shuffled with a valid element size is restored by the bit unshuffle of the
  current format: the elements beyond the last group of eight and the trailing bytes too.
\<close>

lemma dispatch_bitshuffle_roundtrip:
  assumes "\<And>n. \<exists>b. malloc n = Some b \<and> length b = n"
    and "1 \<le> t" "t \<le> 256" "0 \<le> n"
    and "nat n \<le> length src" "nat n \<le> length mid" "nat n \<le> length dest"
  shows "do { (r, mid) \<leftarrow> blosc2_bitshuffle (get_shuffle_implementation le malloc) t n src mid;
              blosc2_bitunshuffle (get_shuffle_implementation le malloc) t n mid dest } =
     Some (n, take (nat n) src @ drop (nat n) dest)"
  unfolding blosc2_bitunshuffle_def
  by (rule shuffle_host.bitshuffle_roundtrip[OF generic_shuffle_host[OF assms(1)]])
     (use assms in simp_all)

lemma dispatch_bitshuffle_roundtrip_witness:
  "do { (r, mid) \<leftarrow> blosc2_bitshuffle (get_shuffle_implementation True calloc_ok) 1 9
          [1, 2, 3, 4, 5, 6, 7, 8, 9] (replicate 9 0);
        blosc2_bitunshuffle (get_shuffle_implementation True calloc_ok) 1 9 mid (replicate 9 0) } =
     Some (9, [1, 2, 3, 4, 5, 6, 7, 8, 9])"
  using dispatch_bitshuffle_roundtrip[of calloc_ok 1 9 "[1, 2, 3, 4, 5, 6, 7, 8, 9]"
      "replicate 9 0" "replicate 9 0" True]
  by (simp add: calloc_ok_def)

end
