(* ===== verification/Delta.thy ===== *)
theory Delta
  imports Prelude
begin

text \<open>
  \<open>blosc/delta.c\<close>: the delta filter. Within the reference block (\<open>offset = 0\<close>) an element is
  XORed with its predecessor, in the other blocks with the element at the same place of the
  reference block. The element width is 1, 2, 4 or 8; XOR acts on each byte of an element by
  itself, so an element is kept as its bytes. The decoder works in place, and for the reference
  block its reference is the very buffer it is decoding: both are positions in one memory.
\<close>

definition xor_el :: "buf \<Rightarrow> buf \<Rightarrow> buf" where
  "xor_el a b = map2 (XOR) a b"

section \<open>The encoder\<close>

text \<open>One \<open>case\<close> of the switch, for elements of \<open>w\<close> bytes.\<close>

definition delta_encode_els :: "nat \<Rightarrow> buf \<Rightarrow> int \<Rightarrow> nat \<Rightarrow> buf \<Rightarrow> buf \<Rightarrow> buf option" where
  "delta_encode_els w dref offset nbytes src dest =
    (if offset = 0 then do {
       v \<leftarrow> load_el w dref 0;
       dest \<leftarrow> store_el dest 0 v;
       for_range 1 (nbytes div w) (\<lambda>i dest. do {
         a \<leftarrow> load_el w src (i * w);
         b \<leftarrow> load_el w dref ((i - 1) * w);
         store_el dest (i * w) (xor_el a b) }) dest }
     else
       for_range 0 (nbytes div w) (\<lambda>i dest. do {
         a \<leftarrow> load_el w src (i * w);
         b \<leftarrow> load_el w dref (i * w);
         store_el dest (i * w) (xor_el a b) }) dest)"

text \<open>The width a type size is coded with: the cases of the switch and its recursive default.\<close>

definition delta_width :: "int \<Rightarrow> nat" where
  "delta_width typesize =
    (if typesize = 1 then 1 else if typesize = 2 then 2 else if typesize = 4 then 4
     else if typesize = 8 then 8 else if typesize mod 8 = 0 then 8 else 1)"

definition delta_encoder :: "buf \<Rightarrow> int \<Rightarrow> nat \<Rightarrow> int \<Rightarrow> buf \<Rightarrow> buf \<Rightarrow> buf option" where
  "delta_encoder dref offset nbytes typesize src dest =
     delta_encode_els (delta_width typesize) dref offset nbytes src dest"

section \<open>The decoder\<close>

definition delta_decode_els :: "nat \<Rightarrow> nat \<Rightarrow> int \<Rightarrow> nat \<Rightarrow> nat \<Rightarrow> buf \<Rightarrow> buf option" where
  "delta_decode_els w dref offset nbytes dest mem =
    (if offset = 0 then
       for_range 1 (nbytes div w) (\<lambda>i mem. do {
         a \<leftarrow> load_el w mem (dest + i * w);
         b \<leftarrow> load_el w mem (dref + (i - 1) * w);
         store_el mem (dest + i * w) (xor_el a b) }) mem
     else
       for_range 0 (nbytes div w) (\<lambda>i mem. do {
         a \<leftarrow> load_el w mem (dest + i * w);
         b \<leftarrow> load_el w mem (dref + i * w);
         store_el mem (dest + i * w) (xor_el a b) }) mem)"

definition delta_decoder :: "nat \<Rightarrow> int \<Rightarrow> nat \<Rightarrow> int \<Rightarrow> nat \<Rightarrow> buf \<Rightarrow> buf option" where
  "delta_decoder dref offset nbytes typesize dest mem =
     delta_decode_els (delta_width typesize) dref offset nbytes dest mem"

section \<open>What the encoder writes\<close>

lemma delta_width_pos [simp]: "0 < delta_width t"
  by (simp add: delta_width_def)

lemma delta_width_dvd: "0 < t \<Longrightarrow> int (delta_width t) dvd t"
  by (auto simp: delta_width_def)

lemma length_xor_el [simp]: "length (xor_el a b) = min (length a) (length b)"
  by (simp add: xor_el_def)

lemma nth_xor_el: "i < length a \<Longrightarrow> i < length b \<Longrightarrow> xor_el a b ! i = a ! i XOR b ! i"
  by (simp add: xor_el_def)

definition delta_byte :: "nat \<Rightarrow> buf \<Rightarrow> int \<Rightarrow> buf \<Rightarrow> nat \<Rightarrow> byte" where
  "delta_byte w dref offset src k =
    (if offset \<noteq> 0 then src ! k XOR dref ! k
     else if k < w then dref ! k else src ! k XOR dref ! (k - w))"

lemma xor_step_gathers:
  assumes "p + w \<le> length src" "q + w \<le> length dref" "p + w \<le> n"
    and "\<And>k. k < w \<Longrightarrow> g (p + k) = src ! (p + k) XOR dref ! (q + k)"
  shows "gathers (\<lambda>dest. do {
      a \<leftarrow> load_el w src p; b \<leftarrow> load_el w dref q; store_el dest p (xor_el a b) }) n {p..<p + w} g"
proof -
  have "gathers (\<lambda>dest. store_el dest p (xor_el (take w (drop p src)) (take w (drop q dref)))) n
      {p..<p + length (xor_el (take w (drop p src)) (take w (drop q dref)))} g"
    by (rule gathers_store_el) (use assms in \<open>auto simp: nth_xor_el\<close>)
  with assms show ?thesis by (simp add: load_el_Some)
qed

lemma delta_encode_els_eq:
  assumes w: "0 < w" "w \<le> n \<or> offset \<noteq> 0"
    and len: "n \<le> length src" "n \<le> length dref" "n \<le> length dest"
  shows "delta_encode_els w dref offset n src dest =
     Some (map (delta_byte w dref offset src) [0..<n div w * w] @ drop (n div w * w) dest)"
proof -
  define m where "m = n div w"
  let ?g = "delta_byte w dref offset src"
  have blk: "i * w + w \<le> n" if "i < m" for i
    using le_trans[OF block_le[OF that, of w] div_times_less_eq_dividend[of n w, folded m_def]] .
  have mw: "m * w \<le> length dest"
    using le_trans[OF div_times_less_eq_dividend[of n w] len(3)] by (simp add: m_def)
  have disj: "{..<m * w} \<inter> {m * w..<length dest} = {}" by auto
  show ?thesis
  proof (cases "offset = 0")
    case False
    have "gathers (for_range 0 m (\<lambda>i dest. do {
        a \<leftarrow> load_el w src (i * w); b \<leftarrow> load_el w dref (i * w);
        store_el dest (i * w) (xor_el a b) })) (length dest) {..<m * w} ?g"
      unfolding blocks_covered[symmetric]
      by (intro gathers_for_range xor_step_gathers) (use blk len False in \<open>force simp: delta_byte_def\<close>)+
    from gathers_all[OF this subset_refl disj refl mw] False show ?thesis
      by (simp add: delta_encode_els_def m_def)
  next
    case True
    then have "w \<le> n" using w by simp
    then have m: "0 < m" using w by (simp add: m_def div_greater_zero_iff)
    have "gathers (\<lambda>dest. store_el dest 0 (take w dref)) (length dest) {0..<0 + length (take w dref)} ?g"
      by (rule gathers_store_el) (use \<open>w \<le> n\<close> len True in \<open>auto simp: delta_byte_def\<close>)
    moreover have "gathers (for_range 1 m (\<lambda>i dest. do {
        a \<leftarrow> load_el w src (i * w); b \<leftarrow> load_el w dref ((i - 1) * w);
        store_el dest (i * w) (xor_el a b) })) (length dest) (\<Union>i\<in>{1..<m}. {i * w..<i * w + w}) ?g"
    proof (intro gathers_for_range xor_step_gathers)
      fix i assume i: "1 \<le> i" "i < m"
      then obtain i' where i': "i = Suc i'" by (cases i) auto
      have "i' < m" using i i' by simp
      then show "i * w + w \<le> length src" "i * w + w \<le> length dest" "(i - 1) * w + w \<le> length dref"
        using blk[OF i(2)] blk[of i'] len i' by auto
      fix k assume "k < w"
      then show "?g (i * w + k) = src ! (i * w + k) XOR dref ! ((i - 1) * w + k)"
        using True i' by (simp add: delta_byte_def)
    qed
    ultimately have G: "gathers (\<lambda>dest. Option.bind (store_el dest 0 (take w dref)) (for_range 1 m (\<lambda>i dest. do {
        a \<leftarrow> load_el w src (i * w); b \<leftarrow> load_el w dref ((i - 1) * w);
        store_el dest (i * w) (xor_el a b) }))) (length dest)
        ({0..<0 + length (take w dref)} \<union> (\<Union>i\<in>{1..<m}. {i * w..<i * w + w})) ?g"
      by (rule gathers_bind)
    have "{0..<m} = insert 0 {1..<m}" using m by auto
    then have "(\<Union>i\<in>{0..<m}. {i * w..<i * w + w}) = {0..<w} \<union> (\<Union>i\<in>{1..<m}. {i * w..<i * w + w})"
      by simp
    with G \<open>w \<le> n\<close> len have "gathers (\<lambda>dest. Option.bind (store_el dest 0 (take w dref)) (for_range 1 m (\<lambda>i dest. do {
        a \<leftarrow> load_el w src (i * w); b \<leftarrow> load_el w dref ((i - 1) * w);
        store_el dest (i * w) (xor_el a b) }))) (length dest) {..<m * w} ?g"
      by (simp add: blocks_covered min_absorb2)
    from gathers_all[OF this subset_refl disj refl mw] True \<open>w \<le> n\<close> len show ?thesis
      by (simp add: delta_encode_els_def m_def load_el_Some)
  qed
qed

section \<open>What the decoder writes\<close>

lemma xor_el_gather:
  assumes "p + w \<le> length b" "q + w \<le> length b"
  shows "(do { x \<leftarrow> load_el w b p; y \<leftarrow> load_el w b q; store_el b p (xor_el x y) }) =
    Some (gather {p..<p + w} (\<lambda>j. b ! j XOR b ! (q + (j - p))) b)"
proof -
  have "gathers (\<lambda>dest. store_el dest p (xor_el (take w (drop p b)) (take w (drop q b)))) (length b)
      {p..<p + length (xor_el (take w (drop p b)) (take w (drop q b)))}
      (\<lambda>j. b ! j XOR b ! (q + (j - p)))"
    by (rule gathers_store_el) (use assms in \<open>auto simp: nth_xor_el\<close>)
  with assms show ?thesis by (simp add: load_el_Some gathers_def)
qed

text \<open>The decoding loop, for any place the reference of an element is read from.\<close>

lemma decode_loop_eq:
  fixes mem :: buf
  assumes "lo \<le> m" "p + m * w \<le> length mem"
    and q: "\<And>i. lo \<le> i \<Longrightarrow> i < m \<Longrightarrow> q i + w \<le> length mem"
    and val: "\<And>i k. lo \<le> i \<Longrightarrow> i < m \<Longrightarrow> k < w \<Longrightarrow>
      mem ! (p + i * w + k) XOR gather {p + lo * w..<p + i * w} g mem ! (q i + k) = g (p + i * w + k)"
  shows "for_range lo m (\<lambda>i mem. do {
      a \<leftarrow> load_el w mem (p + i * w); b \<leftarrow> load_el w mem (q i);
      store_el mem (p + i * w) (xor_el a b) }) mem = Some (gather {p + lo * w..<p + m * w} g mem)"
proof -
  let ?I = "\<lambda>i s. s = gather {p + lo * w..<p + i * w} g mem"
  have "\<exists>s'. for_range lo m (\<lambda>i mem. do {
      a \<leftarrow> load_el w mem (p + i * w); b \<leftarrow> load_el w mem (q i);
      store_el mem (p + i * w) (xor_el a b) }) mem = Some s' \<and> ?I m s'"
  proof (rule for_range_invariant)
    show "?I lo mem" by simp
    fix i s assume i: "lo \<le> i" "i < m" and s: "?I i s"
    have blk: "p + i * w + w \<le> length mem" using block_le[OF i(2), of w] assms(2) by simp
    have lo: "lo * w \<le> i * w" using i(1) by (rule mult_le_mono1)
    have "gather {p + i * w..<p + i * w + w} (\<lambda>j. s ! j XOR s ! (q i + (j - (p + i * w)))) s
        = gather {p + i * w..<p + i * w + w} g s"
    proof (rule gather_cong[OF refl])
      fix k assume "k < length s" "k \<in> {p + i * w..<p + i * w + w}"
      then have k: "k = p + i * w + (k - (p + i * w))" "k - (p + i * w) < w" "k < length mem" using s by auto
      from val[OF i k(2)] k have "mem ! k XOR s ! (q i + (k - (p + i * w))) = g k" by (simp add: s)
      with k show "s ! k XOR s ! (q i + (k - (p + i * w))) = g k" by (simp add: s nth_gather)
    qed
    moreover have "{p + lo * w..<p + i * w} \<union> {p + i * w..<p + i * w + w} = {p + lo * w..<p + Suc i * w}"
      using ivl_disj_un_two(3)[of "p + lo * w" "p + i * w" "p + i * w + w"] lo by (simp add: add_ac)
    ultimately show "\<exists>s'. (do { a \<leftarrow> load_el w s (p + i * w); b \<leftarrow> load_el w s (q i);
        store_el s (p + i * w) (xor_el a b) }) = Some s' \<and> ?I (Suc i) s'"
      using blk q[OF i] s by (simp add: xor_el_gather gather_gather)
  qed fact
  then show ?thesis by blast
qed

section \<open>Round trips\<close>

text \<open>
  A block outside the reference block: the reference block and the block being decoded lie in one
  memory and do not overlap.
\<close>

lemma delta_roundtrip_other:
  assumes "offset \<noteq> 0" "w * m \<le> length src" "length ref = length src" "length dest = length src"
    and n: "n div w = m" "n \<le> length src" "0 < w"
    and enc: "delta_encode_els w ref offset n src dest = Some d"
  shows "delta_decode_els w (length X) offset n (length (X @ ref @ Y)) (X @ ref @ Y @ d @ Z) =
    Some (X @ ref @ Y @ take (m * w) src @ drop (m * w) d @ Z)"
proof -
  let ?p = "length (X @ ref @ Y)" and ?mem = "X @ ref @ Y @ d @ Z"
  let ?g = "\<lambda>j. src ! (j - ?p)"
  have mw: "m * w \<le> length src" using assms(2) by (simp add: mult.commute)
  have d: "d = map (delta_byte w ref offset src) [0..<m * w] @ drop (m * w) dest"
    using delta_encode_els_eq[of w n offset src ref dest] assms by simp
  then have len: "length d = length src" using mw assms by simp
  have ref: "?mem ! (length X + k) = ref ! k" if "k < length ref" for k
    using that by (simp add: nth_append)
  have at: "?mem ! (?p + k) = d ! k" if "k < length d" for k
    using that by (simp add: nth_append)
  have "for_range 0 m (\<lambda>i mem. do {
      a \<leftarrow> load_el w mem (?p + i * w); b \<leftarrow> load_el w mem (length X + i * w);
      store_el mem (?p + i * w) (xor_el a b) }) ?mem = Some (gather {?p + 0 * w..<?p + m * w} ?g ?mem)"
  proof (rule decode_loop_eq)
    fix i k assume i: "i < m" and k: "k < w"
    have "i * w + k < m * w" using index_lt[OF k i] .
    then have lt: "i * w + k < length src" "i * w + k < length ref" "i * w + k < length d"
      using mw assms len by auto
    have "gather {?p + 0 * w..<?p + i * w} ?g ?mem ! (length X + i * w + k) = ref ! (i * w + k)"
      using lt ref[OF lt(2)] by (simp add: nth_gather add.assoc)
    moreover have "?mem ! (?p + i * w + k) = d ! (i * w + k)"
      using at[OF lt(3)] by (simp only: add.assoc)
    moreover have "d ! (i * w + k) = src ! (i * w + k) XOR ref ! (i * w + k)"
      using \<open>i * w + k < m * w\<close> assms(1) by (simp add: d nth_append delta_byte_def)
    ultimately show "?mem ! (?p + i * w + k) XOR gather {?p + 0 * w..<?p + i * w} ?g ?mem ! (length X + i * w + k)
        = ?g (?p + i * w + k)"
      by (simp add: xor.assoc)
  next
    fix i assume "i < m"
    from block_le[OF this, of w] mw assms show "length X + i * w + w \<le> length ?mem" by simp
  qed (use mw len in auto)
  moreover have "gather {?p + 0 * w..<?p + m * w} ?g ?mem = X @ ref @ Y @ take (m * w) src @ drop (m * w) d @ Z"
    using mw len by (intro nth_equalityI) (auto simp: nth_gather nth_append add.assoc)
  ultimately show ?thesis using assms(1) n by (simp add: delta_decode_els_def)
qed

text \<open>The reference block: it is decoded in place and is its own reference.\<close>

lemma delta_roundtrip_reference:
  assumes "w * m \<le> length src" "length dest = length src"
    and n: "n div w = m" "n \<le> length src" "0 < w" "w \<le> n"
    and enc: "delta_encode_els w src 0 n src dest = Some d"
  shows "delta_decode_els w (length X) 0 n (length X) (X @ d @ Z) =
    Some (X @ take (m * w) src @ drop (m * w) d @ Z)"
proof -
  let ?p = "length X" and ?mem = "X @ d @ Z"
  let ?g = "\<lambda>j. src ! (j - ?p)"
  have mw: "m * w \<le> length src" using assms(1) by (simp add: mult.commute)
  have m: "1 \<le> m" using n by (simp add: n(1)[symmetric] div_greater_zero_iff Suc_le_eq)
  then have wm: "w \<le> m * w" by simp
  have d: "d = map (delta_byte w src 0 src) [0..<m * w] @ drop (m * w) dest"
    using delta_encode_els_eq[of w n 0 src src dest] assms by simp
  then have len: "length d = length src" using mw assms by simp
  have "for_range 1 m (\<lambda>i mem. do {
      a \<leftarrow> load_el w mem (?p + i * w); b \<leftarrow> load_el w mem (?p + (i - 1) * w);
      store_el mem (?p + i * w) (xor_el a b) }) ?mem = Some (gather {?p + 1 * w..<?p + m * w} ?g ?mem)"
  proof (rule decode_loop_eq)
    fix i k assume i: "1 \<le> i" "i < m" and k: "k < w"
    then obtain i' where i': "i = Suc i'" by (cases i) auto
    have "i * w + k < m * w" using index_lt[OF k i(2)] .
    then have lt: "i * w + k < length d" "i' * w + k < length d" "i' * w + k < m * w"
      using mw len i' by auto
    have "gather {?p + 1 * w..<?p + i * w} ?g ?mem ! (?p + (i - 1) * w + k) = src ! (i' * w + k)"
    proof (cases "w \<le> i' * w + k")
      case True
      with lt i' k show ?thesis by (simp add: nth_gather add.assoc)
    next
      case False
      with lt i' have "gather {?p + 1 * w..<?p + i * w} ?g ?mem ! (?p + (i - 1) * w + k) = d ! (i' * w + k)"
        by (simp add: nth_gather nth_append add.assoc)
      also have "\<dots> = src ! (i' * w + k)" using False lt by (simp add: d nth_append delta_byte_def)
      finally show ?thesis .
    qed
    moreover have "?mem ! (?p + i * w + k) = src ! (i * w + k) XOR src ! (i' * w + k)"
      using lt \<open>i * w + k < m * w\<close> i' by (simp add: nth_append add.assoc) (simp add: d nth_append delta_byte_def add.assoc)
    ultimately show "?mem ! (?p + i * w + k) XOR gather {?p + 1 * w..<?p + i * w} ?g ?mem ! (?p + (i - 1) * w + k)
        = ?g (?p + i * w + k)"
      by (simp add: xor.assoc)
  next
    fix i assume i: "1 \<le> i" "i < m"
    then have "(i - 1) * w + w \<le> m * w" by (intro block_le) simp
    with mw len show "?p + (i - 1) * w + w \<le> length ?mem" by simp
  qed (use mw len m in auto)
  moreover have "gather {?p + 1 * w..<?p + m * w} ?g ?mem = X @ take (m * w) src @ drop (m * w) d @ Z"
  proof (intro nth_equalityI)
    fix i assume "i < length (gather {?p + 1 * w..<?p + m * w} ?g ?mem)"
    moreover have "d ! k = src ! k" if "k < w" for k
      using less_le_trans[OF that wm] that by (simp add: d nth_append delta_byte_def)
    ultimately show "gather {?p + 1 * w..<?p + m * w} ?g ?mem ! i = (X @ take (m * w) src @ drop (m * w) d @ Z) ! i"
      using mw len wm by (auto simp: nth_gather nth_append add.assoc)
  qed (use mw len in simp)
  ultimately show ?thesis using n by (simp add: delta_decode_els_def)
qed

text \<open>
  C33. The delta filter is lossless on whole elements. Whatever the type size, when
  the block is a whole number of the elements it is coded with (8, 4, 2 or 1 bytes), decoding what
  the encoder wrote gives the block back and changes nothing else: in place for the reference block
  (offset 0, its own reference), and against the reference block elsewhere in the same memory for
  the other blocks.
\<close>

theorem delta_roundtrip:
  assumes "delta_width t dvd length src" "src \<noteq> []" "length dest = length src"
    and "length ref = length src" "offset \<noteq> 0"
  shows "(\<exists>d. delta_encoder src 0 (length src) t src dest = Some d \<and>
      delta_decoder (length X) 0 (length src) t (length X) (X @ d @ Z) = Some (X @ src @ Z)) \<and>
    (\<exists>d. delta_encoder ref offset (length src) t src dest = Some d \<and>
      delta_decoder (length X) offset (length src) t (length X + length ref + length Y) (X @ ref @ Y @ d @ Z)
        = Some (X @ ref @ Y @ src @ Z))"
proof -
  let ?w = "delta_width t" and ?n = "length src"
  have w: "?w \<le> ?n" using assms(1,2) by (intro dvd_imp_le) auto
  have whole: "?n div ?w * ?w = ?n" using assms(1) by simp
  obtain d where d: "delta_encode_els ?w src 0 ?n src dest = Some d" "length d = ?n"
    using delta_encode_els_eq[of ?w ?n 0 src src dest] w assms whole by auto
  obtain e where e: "delta_encode_els ?w ref offset ?n src dest = Some e" "length e = ?n"
    using delta_encode_els_eq[of ?w ?n offset src ref dest] w assms whole by auto
  have "\<exists>d. delta_encoder src 0 ?n t src dest = Some d \<and>
      delta_decoder (length X) 0 ?n t (length X) (X @ d @ Z) = Some (X @ src @ Z)"
    using delta_roundtrip_reference[OF _ assms(3) refl order_refl delta_width_pos w d(1), of X Z] d whole w
    by (simp add: delta_encoder_def delta_decoder_def mult.commute)
  moreover have "\<exists>d. delta_encoder ref offset ?n t src dest = Some d \<and>
      delta_decoder (length X) offset ?n t (length X + length ref + length Y) (X @ ref @ Y @ d @ Z)
        = Some (X @ ref @ Y @ src @ Z)"
    using delta_roundtrip_other[OF assms(5) _ assms(4,3) refl order_refl delta_width_pos e(1), of X Y Z] e whole
    by (simp add: delta_encoder_def delta_decoder_def mult.commute add.assoc)
  ultimately show ?thesis ..
qed

theorem delta_roundtrip_witness:
  "(\<exists>d. delta_encoder [7, 6, 7, 8] 0 (length [7, 6, 7, 8 :: byte]) 2 [7, 6, 7, 8] [0, 0, 0, 0] = Some d \<and>
      delta_decoder (length [5 :: byte]) 0 (length [7, 6, 7, 8 :: byte]) 2 (length [5 :: byte]) ([5] @ d @ [1])
        = Some ([5] @ [7, 6, 7, 8] @ [1])) \<and>
    (\<exists>d. delta_encoder [1, 2, 3, 4] 4 (length [7, 6, 7, 8 :: byte]) 2 [7, 6, 7, 8] [0, 0, 0, 0] = Some d \<and>
      delta_decoder (length [5 :: byte]) 4 (length [7, 6, 7, 8 :: byte]) 2
          (length [5 :: byte] + length [1, 2, 3, 4 :: byte] + length ([] :: buf)) ([5] @ [1, 2, 3, 4] @ [] @ d @ [1])
        = Some ([5] @ [1, 2, 3, 4] @ [] @ [7, 6, 7, 8] @ [1]))"
  by (rule delta_roundtrip) (simp_all add: delta_width_def)

text \<open>
  What the delta encoder writes, byte for byte: in every whole element the
  XOR with the element before it (with the first element copied from the reference) or with the
  element at the same place of the reference block, and nothing in the incomplete element at the
  end of a block that is no multiple of the element width: there the destination keeps whatever it
  held.
\<close>

theorem delta_encoder_writes:
  fixes w :: nat
  assumes "delta_width t \<le> n \<or> offset \<noteq> 0"
    and "n \<le> length src" "n \<le> length dref" "n \<le> length dest"
  defines "w \<equiv> delta_width t"
  shows "delta_encoder dref offset n t src dest =
    Some (map (\<lambda>k. if offset \<noteq> 0 then src ! k XOR dref ! k
                  else if k < w then dref ! k else src ! k XOR dref ! (k - w)) [0..<n div w * w]
      @ drop (n div w * w) dest)"
  using delta_encode_els_eq[OF delta_width_pos assms(1-4)]
  by (simp add: delta_encoder_def delta_byte_def w_def)

theorem delta_encoder_writes_witness:
  "delta_encoder [1, 2, 3] 0 3 2 [1, 2, 3] [50, 60, 70] = Some [1, 2, 70 :: byte]"
  using delta_encoder_writes[of 2 3 0 "[1, 2, 3]" "[1, 2, 3]" "[50, 60, 70]"]
  by (simp add: delta_width_def upt_rec)

end
