(* ===== verification/Trunc_Prec.thy ===== *)
theory Trunc_Prec
  imports Prelude
begin

text \<open>
  \<open>blosc/trunc-prec.c\<close>: the lossy filter that clears low mantissa bits of IEEE 754 numbers. The
  elements are the machine words stored in the byte buffers in the byte order of the host. The
  masking loop and what it does to the elements is shared with the integer truncation filter.
\<close>

section \<open>The masking loop\<close>

text \<open>\<open>for (int i = 0; i < nelems; i++) dest[i] = src[i] & mask;\<close> on elements of type \<open>'a word\<close>.\<close>

definition mask_elements :: "bool \<Rightarrow> 'a::len word \<Rightarrow> nat \<Rightarrow> buf \<Rightarrow> buf \<Rightarrow> buf option" where
  "mask_elements le msk nelems src dest =
     for_range 0 nelems (\<lambda>i dest. do {
       x \<leftarrow> load_word le src (i * (LENGTH('a) div 8));
       store_word le dest (i * (LENGTH('a) div 8)) (x AND msk) }) dest"

lemma load_word_Some:
  "p + LENGTH('a::len) div 8 \<le> length b \<Longrightarrow>
   load_word le b p = Some (word_of_nat (le_val (host_order le (take (LENGTH('a) div 8) (drop p b)))) :: 'a word)"
  by (simp add: load_word_def Let_def)

text \<open>A word that was stored is loaded back.\<close>

lemma word_of_le_bytes:
  fixes x :: "'a::len word"
  assumes "LENGTH('a) = 8 * n"
  shows "word_of_nat (le_val (le_bytes n (unat x))) = x"
proof -
  have "unat x < 2 ^ LENGTH('a)" by (rule unsigned_less)
  also have "(2::nat) ^ LENGTH('a) = 256 ^ n" by (simp add: assms power_mult)
  finally show ?thesis by (simp add: le_val_le_bytes)
qed

lemma gathers_store_word:
  fixes x :: "'a::len word"
  assumes "p + LENGTH('a) div 8 \<le> n"
    and "\<And>k. k < LENGTH('a) div 8 \<Longrightarrow> g (p + k) = host_order le (le_bytes (LENGTH('a) div 8) (unat x)) ! k"
  shows "gathers (\<lambda>b. store_word le b p x) n {p..<p + LENGTH('a) div 8} g"
proof -
  let ?v = "host_order le (le_bytes (LENGTH('a) div 8) (unat x))"
  have "gathers (\<lambda>b. store_el b p ?v) n {p..<p + length ?v} g"
    by (rule gathers_store_el) (use assms in auto)
  then show ?thesis by (simp add: store_word_def store_el_def Let_def)
qed

lemma mask_elements_eq:
  fixes msk :: "'a::len word" and le :: bool
  assumes len: "nelems * w \<le> length src" "nelems * w \<le> length dest"
    and w: "LENGTH('a) = 8 * w"
  defines "el \<equiv> \<lambda>i. word_of_nat (le_val (host_order le (take w (drop (i * w) src)))) :: 'a word"
  shows "mask_elements le msk nelems src dest =
    Some (map (\<lambda>k. host_order le (le_bytes w (unat (el (k div w) AND msk))) ! (k mod w)) [0..<nelems * w]
      @ drop (nelems * w) dest)"
proof -
  have w8: "LENGTH('a) div 8 = w" by (simp add: w)
  let ?g = "\<lambda>k. host_order le (le_bytes w (unat (el (k div w) AND msk))) ! (k mod w)"
  have "gathers (for_range 0 nelems (\<lambda>i dest. do {
       x \<leftarrow> load_word le src (i * (LENGTH('a) div 8));
       store_word le dest (i * (LENGTH('a) div 8)) (x AND msk) })) (length dest)
     (\<Union>i\<in>{0..<nelems}. {i * w..<i * w + w}) ?g"
  proof (rule gathers_for_range)
    fix i assume i: "i < nelems"
    have blk: "i * w + w \<le> nelems * w" using block_le[OF i] .
    have "gathers (\<lambda>b. store_word le b (i * w) (el i AND msk)) (length dest) {i * w..<i * w + LENGTH('a) div 8} ?g"
      by (rule gathers_store_word) (use blk len in \<open>auto simp: w8\<close>)
    then show "gathers (\<lambda>dest. do {
       x \<leftarrow> load_word le src (i * (LENGTH('a) div 8));
       store_word le dest (i * (LENGTH('a) div 8)) (x AND msk) }) (length dest) {i * w..<i * w + w} ?g"
      using blk len by (simp add: load_word_Some w8 el_def)
  qed
  then have G: "gathers (for_range 0 nelems (\<lambda>i dest. do {
       x \<leftarrow> load_word le src (i * (LENGTH('a) div 8));
       store_word le dest (i * (LENGTH('a) div 8)) (x AND msk) })) (length dest) {..<nelems * w} ?g"
    by (simp add: blocks_covered)
  have disj: "{..<nelems * w} \<inter> {nelems * w..<length dest} = {}" by auto
  from gathers_all[OF G subset_refl disj refl len(2)] show ?thesis
    by (simp add: mask_elements_def)
qed

text \<open>What a reader of the masked buffer sees.\<close>

lemma mask_elements_spec:
  fixes msk :: "'a::len word"
  assumes len: "nelems * w \<le> length src" "nelems * w \<le> length dest"
    and w: "LENGTH('a) = 8 * w"
  shows "\<exists>d. mask_elements le msk nelems src dest = Some d \<and> length d = length dest \<and>
    drop (nelems * w) d = drop (nelems * w) dest \<and>
    (\<forall>i < nelems. \<exists>x :: 'a word. load_word le src (i * w) = Some x \<and> load_word le d (i * w) = Some (x AND msk))"
proof -
  have w8: "LENGTH('a) div 8 = w" by (simp add: w)
  define el where "el = (\<lambda>i. word_of_nat (le_val (host_order le (take w (drop (i * w) src)))) :: 'a word)"
  define d where "d = map (\<lambda>k. host_order le (le_bytes w (unat (el (k div w) AND msk))) ! (k mod w)) [0..<nelems * w]
      @ drop (nelems * w) dest"
  have "load_word le src (i * w) = Some (el i) \<and> load_word le d (i * w) = Some (el i AND msk)" if "i < nelems" for i
  proof -
    have blk: "i * w + w \<le> nelems * w" using block_le[OF that] .
    have "take w (drop (i * w) d) = host_order le (le_bytes w (unat (el i AND msk)))"
    proof (rule nth_equalityI)
      fix k assume "k < length (take w (drop (i * w) d))"
      then have k: "k < w" by simp
      with blk have "d ! (i * w + k) = host_order le (le_bytes w (unat (el i AND msk))) ! k"
        by (simp add: d_def nth_append)
      moreover have "take w (drop (i * w) d) ! k = d ! (i * w + k)"
        using k blk by (subst nth_take, simp, subst nth_drop) (simp_all add: d_def)
      ultimately show "take w (drop (i * w) d) ! k = host_order le (le_bytes w (unat (el i AND msk))) ! k"
        by simp
    qed (use blk len in \<open>simp add: d_def\<close>)
    moreover have "i * w + w \<le> length d" using blk by (simp add: d_def)
    ultimately show ?thesis
      using blk len word_of_le_bytes[OF w, of "el i AND msk"] by (simp add: load_word_Some w8 el_def)
  qed
  moreover have "mask_elements le msk nelems src dest = Some d"
    using mask_elements_eq[OF len w] by (simp add: d_def el_def)
  ultimately show ?thesis using len by (intro exI[of _ d]) (auto simp: d_def)
qed

section \<open>The filter\<close>

text \<open>
  The result is the return code with the destination; an error leaves the destination alone. The
  precision is an \<open>int8_t\<close>: positive, the mantissa bits to keep; negative, those to drop.
\<close>

definition trunc_zeroed_bits :: "int \<Rightarrow> 8 word \<Rightarrow> int" where
  "trunc_zeroed_bits mantissa prec_bits =
    (if 0 \<le> sint prec_bits then mantissa - sint prec_bits else - sint prec_bits)"

definition truncate_precision32 :: "bool \<Rightarrow> 8 word \<Rightarrow> nat \<Rightarrow> buf \<Rightarrow> buf \<Rightarrow> (int \<times> buf) option" where
  "truncate_precision32 le prec_bits nelems src dest =
    (if \<bar>sint prec_bits\<bar> > 23 then Some (-1, dest)
     else if trunc_zeroed_bits 23 prec_bits \<ge> 23 then Some (-1, dest)
     else do {
       dest \<leftarrow> mask_elements le (NOT (push_bit (nat (trunc_zeroed_bits 23 prec_bits)) 1 - 1) :: 32 word) nelems src dest;
       Some (0, dest) })"

definition truncate_precision64 :: "bool \<Rightarrow> 8 word \<Rightarrow> nat \<Rightarrow> buf \<Rightarrow> buf \<Rightarrow> (int \<times> buf) option" where
  "truncate_precision64 le prec_bits nelems src dest =
    (if \<bar>sint prec_bits\<bar> > 52 then Some (-1, dest)
     else if trunc_zeroed_bits 52 prec_bits \<ge> 52 then Some (-1, dest)
     else do {
       dest \<leftarrow> mask_elements le (NOT (push_bit (nat (trunc_zeroed_bits 52 prec_bits)) 1 - 1) :: 64 word) nelems src dest;
       Some (0, dest) })"

definition truncate_precision :: "bool \<Rightarrow> 8 word \<Rightarrow> int \<Rightarrow> nat \<Rightarrow> buf \<Rightarrow> buf \<Rightarrow> (int \<times> buf) option" where
  "truncate_precision le prec_bits typesize nbytes src dest =
    (if typesize = 4 then truncate_precision32 le prec_bits (nbytes div 4) src dest
     else if typesize = 8 then truncate_precision64 le prec_bits (nbytes div 8) src dest
     else Some (-1, dest))"

section \<open>What the filter does\<close>

lemma bit_clear_low:
  "bit (x AND NOT (push_bit z 1 - 1)) k \<longleftrightarrow> z \<le> k \<and> bit (x :: 'a::len word) k"
proof -
  have "push_bit z 1 - 1 = (mask z :: 'a word)" by (simp add: mask_eq_decr_exp push_bit_eq_mult)
  then show ?thesis
    by (auto simp: bit_simps dest: bit_imp_le_length)
qed

text \<open>
  The least precision the filter accepts leaves one mantissa bit: the mantissa sizes 23 and 52 are
  those of an IEEE 754 single and double.
\<close>

lemma trunc_zeroed_bits_range:
  "\<bar>sint p\<bar> \<le> m \<Longrightarrow> trunc_zeroed_bits m p < m \<longleftrightarrow> sint p \<noteq> 0 \<and> - m < sint p"
  "\<bar>sint p\<bar> \<le> m \<Longrightarrow> 0 \<le> trunc_zeroed_bits m p"
  by (auto simp: trunc_zeroed_bits_def)

text \<open>Clearing the \<open>z\<close> low bits of every element, as a reader of the two buffers sees it.\<close>

definition low_bits_cleared ::
    "(buf \<Rightarrow> nat \<Rightarrow> 'a::len word option) \<Rightarrow> nat \<Rightarrow> nat \<Rightarrow> buf \<Rightarrow> buf \<Rightarrow> bool" where
  "low_bits_cleared ld z nelems src d \<longleftrightarrow>
    (\<forall>i < nelems. \<exists>x y. ld src (i * (LENGTH('a) div 8)) = Some x \<and>
       ld d (i * (LENGTH('a) div 8)) = Some y \<and> (\<forall>k. bit y k = (z \<le> k \<and> bit x k)))"

lemma mask_elements_clears_low:
  assumes "nelems * w \<le> length src" "nelems * w \<le> length dest" "LENGTH('a::len) = 8 * w"
  shows "\<exists>d. mask_elements le (NOT (push_bit z 1 - 1) :: 'a word) nelems src dest = Some d \<and>
    length d = length dest \<and> drop (nelems * w) d = drop (nelems * w) dest \<and>
    low_bits_cleared (load_word le :: buf \<Rightarrow> nat \<Rightarrow> 'a word option) z nelems src d"
proof -
  let ?m = "NOT (push_bit z 1 - 1) :: 'a word"
  obtain d where d: "mask_elements le ?m nelems src dest = Some d" "length d = length dest"
    "drop (nelems * w) d = drop (nelems * w) dest"
    and el: "\<And>i. i < nelems \<Longrightarrow> \<exists>x :: 'a word. load_word le src (i * w) = Some x \<and>
      load_word le d (i * w) = Some (x AND ?m)"
    using mask_elements_spec[where msk = ?m and w = w and le = le, OF assms] by blast
  have "low_bits_cleared (load_word le :: buf \<Rightarrow> nat \<Rightarrow> 'a word option) z nelems src d"
    unfolding low_bits_cleared_def
  proof (intro allI impI)
    fix i assume "i < nelems"
    from el[OF this] obtain x :: "'a word" where
      "load_word le src (i * w) = Some x" "load_word le d (i * w) = Some (x AND ?m)" by blast
    then show "\<exists>(x :: 'a word) (y :: 'a word). load_word le src (i * (LENGTH('a) div 8)) = Some x \<and>
       load_word le d (i * (LENGTH('a) div 8)) = Some y \<and> (\<forall>k. bit y k = (z \<le> k \<and> bit x k))"
      using assms(3) bit_clear_low[of x z] by - (rule exI[of _ x], rule exI[of _ "x AND ?m"], simp)
  qed
  with d show ?thesis by blast
qed

lemma truncate_precision32_spec:
  assumes "nelems * 4 \<le> length src" "nelems * 4 \<le> length dest"
  shows "if sint p \<noteq> 0 \<and> -23 < sint p \<and> sint p \<le> 23 then
      \<exists>d. truncate_precision32 le p nelems src dest = Some (0, d) \<and> length d = length dest \<and>
        drop (nelems * 4) d = drop (nelems * 4) dest \<and>
        low_bits_cleared (load_word le :: buf \<Rightarrow> nat \<Rightarrow> 32 word option) (nat (trunc_zeroed_bits 23 p)) nelems src d
    else truncate_precision32 le p nelems src dest = Some (-1, dest)"
  using mask_elements_clears_low[where 'a = 32 and le = le and w = 4 and z = "nat (trunc_zeroed_bits 23 p)", OF assms]
  by (auto simp: truncate_precision32_def trunc_zeroed_bits_def)

lemma truncate_precision64_spec:
  assumes "nelems * 8 \<le> length src" "nelems * 8 \<le> length dest"
  shows "if sint p \<noteq> 0 \<and> -52 < sint p \<and> sint p \<le> 52 then
      \<exists>d. truncate_precision64 le p nelems src dest = Some (0, d) \<and> length d = length dest \<and>
        drop (nelems * 8) d = drop (nelems * 8) dest \<and>
        low_bits_cleared (load_word le :: buf \<Rightarrow> nat \<Rightarrow> 64 word option) (nat (trunc_zeroed_bits 52 p)) nelems src d
    else truncate_precision64 le p nelems src dest = Some (-1, dest)"
  using mask_elements_clears_low[where 'a = 64 and le = le and w = 8 and z = "nat (trunc_zeroed_bits 52 p)", OF assms]
  by (auto simp: truncate_precision64_def trunc_zeroed_bits_def)

text \<open>
  C37. The precision truncation filter, on every input whose buffers hold
  \<open>nbytes\<close> bytes. For doubles (type size 8) with a precision between -51 and 52 and not 0 it succeeds,
  clears exactly the mantissa bits asked for in every whole element and changes no other bit, so
  sign, exponent and the leading mantissa bits are kept, and writes nothing beyond the elements.
  The same holds for singles with a precision between -22 and 23. Any other precision or type size is
  answered by -1, with the destination untouched.
\<close>

theorem truncate_precision_spec:
  assumes "nbytes \<le> length src" "nbytes \<le> length dest"
  shows "if t = 8 \<and> sint p \<noteq> 0 \<and> -52 < sint p \<and> sint p \<le> 52 then
      \<exists>d. truncate_precision le p t nbytes src dest = Some (0, d) \<and> length d = length dest \<and>
        drop (nbytes div 8 * 8) d = drop (nbytes div 8 * 8) dest \<and>
        low_bits_cleared (load_word le :: buf \<Rightarrow> nat \<Rightarrow> 64 word option) (nat (if 0 < sint p then 52 - sint p else - sint p)) (nbytes div 8) src d
    else if t = 4 \<and> sint p \<noteq> 0 \<and> -23 < sint p \<and> sint p \<le> 23 then
      \<exists>d. truncate_precision le p t nbytes src dest = Some (0, d) \<and> length d = length dest \<and>
        drop (nbytes div 4 * 4) d = drop (nbytes div 4 * 4) dest \<and>
        low_bits_cleared (load_word le :: buf \<Rightarrow> nat \<Rightarrow> 32 word option) (nat (if 0 < sint p then 23 - sint p else - sint p)) (nbytes div 4) src d
    else truncate_precision le p t nbytes src dest = Some (-1, dest)"
proof -
  have "nbytes div 4 * 4 \<le> nbytes" "nbytes div 8 * 8 \<le> nbytes" by (rule div_times_less_eq_dividend)+
  with assms have
    "nbytes div 4 * 4 \<le> length src" "nbytes div 4 * 4 \<le> length dest"
    "nbytes div 8 * 8 \<le> length src" "nbytes div 8 * 8 \<le> length dest" by auto
  from truncate_precision32_spec[OF this(1,2), of p le] truncate_precision64_spec[OF this(3,4), of p le]
  show ?thesis
    by (auto simp: truncate_precision_def trunc_zeroed_bits_def split: if_splits)
qed

theorem truncate_precision_spec_witness:
  "\<exists>d. truncate_precision True 3 4 5 [255, 255, 255, 63, 9] [0, 0, 0, 0, 7] = Some (0, d) \<and>
     length d = length [0, 0, 0, 0, 7 :: byte] \<and> drop (5 div 4 * 4) d = drop (5 div 4 * 4) [0, 0, 0, 0, 7] \<and>
     low_bits_cleared (load_word True :: buf \<Rightarrow> nat \<Rightarrow> 32 word option) 20 (5 div 4) [255, 255, 255, 63, 9] d"
  using truncate_precision_spec[of 5 "[255, 255, 255, 63, 9]" "[0, 0, 0, 0, 7]" 4 3 True] by simp

end
