(* ===== verification/Int_Trunc.thy ===== *)
theory Int_Trunc
  imports Trunc_Prec Blosc_Constants
begin

text \<open>
  \<open>plugins/filters/int_trunc/int_trunc.c\<close>: the lossy filter that clears low bits of unsigned
  integers. \<open>zeroed_bits\<close> is a \<open>uint8_t\<close> and wraps. \<open>1 << n\<close> is an \<open>int\<close> shift: it is
  undefined behaviour (\<open>None\<close>) for \<open>n = 31\<close>.
\<close>

definition zeroed_bits :: "8 word \<Rightarrow> 8 word \<Rightarrow> 8 word" where
  "zeroed_bits max_prec_bits prec_bits =
    (if 0 \<le> sint prec_bits then max_prec_bits - prec_bits else - prec_bits)"

text \<open>\<open>~((1 << z) - 1)\<close> computed in \<open>int\<close>.\<close>

definition int_mask :: "8 word \<Rightarrow> 32 word option" where
  "int_mask z = (if unat z < 31 then Some (NOT (push_bit (unat z) 1 - 1)) else None)"

definition truncate_uint8 :: "8 word \<Rightarrow> nat \<Rightarrow> buf \<Rightarrow> buf \<Rightarrow> (int \<times> buf) option" where
  "truncate_uint8 prec_bits nelems src dest =
    (if 8 \<le> zeroed_bits 8 prec_bits then Some (-1, dest)
     else do {
       m \<leftarrow> int_mask (zeroed_bits 8 prec_bits);
       dest \<leftarrow> mask_elements True (ucast m :: 8 word) nelems src dest;
       Some (BLOSC2_ERROR_SUCCESS, dest) })"

definition truncate_uint16 :: "bool \<Rightarrow> 8 word \<Rightarrow> nat \<Rightarrow> buf \<Rightarrow> buf \<Rightarrow> (int \<times> buf) option" where
  "truncate_uint16 le prec_bits nelems src dest =
    (if 16 \<le> zeroed_bits 16 prec_bits then Some (-1, dest)
     else do {
       m \<leftarrow> int_mask (zeroed_bits 16 prec_bits);
       dest \<leftarrow> mask_elements le (ucast m :: 16 word) nelems src dest;
       Some (BLOSC2_ERROR_SUCCESS, dest) })"

definition truncate_uint32 :: "bool \<Rightarrow> 8 word \<Rightarrow> nat \<Rightarrow> buf \<Rightarrow> buf \<Rightarrow> (int \<times> buf) option" where
  "truncate_uint32 le prec_bits nelems src dest =
    (if 32 \<le> zeroed_bits 32 prec_bits then Some (-1, dest)
     else do {
       m \<leftarrow> int_mask (zeroed_bits 32 prec_bits);
       dest \<leftarrow> mask_elements le m nelems src dest;
       Some (BLOSC2_ERROR_SUCCESS, dest) })"

definition truncate_uint64 :: "bool \<Rightarrow> 8 word \<Rightarrow> nat \<Rightarrow> buf \<Rightarrow> buf \<Rightarrow> (int \<times> buf) option" where
  "truncate_uint64 le prec_bits nelems src dest =
    (if 64 \<le> zeroed_bits 64 prec_bits then Some (-1, dest)
     else do {
       dest \<leftarrow> mask_elements le (NOT (push_bit (unat (zeroed_bits 64 prec_bits)) 1 - 1) :: 64 word) nelems src dest;
       Some (BLOSC2_ERROR_SUCCESS, dest) })"

text \<open>The element type is taken from the compression parameters; \<open>length / 0\<close> is undefined.\<close>

definition int_trunc_forward :: "bool \<Rightarrow> buf \<Rightarrow> buf \<Rightarrow> nat \<Rightarrow> 8 word \<Rightarrow> nat \<Rightarrow> (int \<times> buf) option" where
  "int_trunc_forward le input output len meta typesize =
    (if typesize = 0 then None
     else let nelems = len div typesize in
       if typesize = 1 then truncate_uint8 meta nelems input output
       else if typesize = 2 then truncate_uint16 le meta nelems input output
       else if typesize = 4 then truncate_uint32 le meta nelems input output
       else if typesize = 8 then truncate_uint64 le meta nelems input output
       else Some (-1, output))"

definition int_trunc_backward :: "buf \<Rightarrow> buf \<Rightarrow> nat \<Rightarrow> (int \<times> buf) option" where
  "int_trunc_backward input output len = do {
     output \<leftarrow> memcpy output 0 input 0 len;
     Some (BLOSC2_ERROR_SUCCESS, output) }"

section \<open>What the filter does\<close>

lemma sint_byte: "sint (p :: 8 word) = (if uint p < 128 then uint p else uint p - 256)"
proof -
  have p: "0 \<le> uint p" "uint p < 256" using uint_range_size[of p] by (simp_all add: word_size)
  have "sint p = signed_take_bit 7 (uint p)" by (simp add: sint_uint)
  moreover have "uint p div 128 = (if uint p < 128 then 0 else 1)"
    using div_pos_geq[of 128 "uint p"] p by simp
  ultimately show ?thesis using p by (simp add: signed_take_bit_eq_take_bit_minus take_bit_eq_mod bit_iff_odd)
qed

lemma uint_byte_diff:
  "uint (a - b :: 8 word) = (if uint b \<le> uint a then uint a - uint b else uint a - uint b + 256)"
  by (simp add: uint_sub_if_size word_size word_le_def)

lemma zeroed_bits_small:
  assumes "m \<in> {8, 16, 32, 64}"
  shows "zeroed_bits m p < m \<longleftrightarrow> sint p \<noteq> 0 \<and> - int (unat m) < sint p \<and> sint p \<le> int (unat m)"
    and "zeroed_bits m p < m \<Longrightarrow>
      unat (zeroed_bits m p) = nat (if 0 < sint p then int (unat m) - sint p else - sint p)"
proof -
  obtain u where u: "uint p = u" "0 \<le> u" "u < 256" using uint_range_size[of p] by (simp add: word_size)
  have neg: "uint (- p) = (if u = 0 then 0 else 256 - u)"
    using uint_byte_diff[of 0 p] u by auto
  have "uint m = 8 \<or> uint m = 16 \<or> uint m = 32 \<or> uint m = 64" using assms by auto
  then obtain M where m: "uint m = M" "8 \<le> M" "M \<le> 64" by fastforce
  have z: "uint (zeroed_bits m p) = (if u < 128 then if u \<le> M then M - u else M - u + 256 else 256 - u)"
    using u m by (simp add: zeroed_bits_def sint_byte uint_byte_diff neg)
  have p: "sint p = (if u < 128 then u else u - 256)" using u by (simp add: sint_byte)
  show "zeroed_bits m p < m \<longleftrightarrow> sint p \<noteq> 0 \<and> - int (unat m) < sint p \<and> sint p \<le> int (unat m)"
    unfolding word_less_def z p unat_eq_nat_uint m(1) using u m by (simp split: if_splits) linarith
  show "unat (zeroed_bits m p) = nat (if 0 < sint p then int (unat m) - sint p else - sint p)"
    if "zeroed_bits m p < m"
    using that unfolding word_less_def p unat_eq_nat_uint z m(1) using u m by (simp split: if_splits)
qed

text \<open>The value of element \<open>i\<close>, of \<open>w\<close> bytes in host order.\<close>

definition el_val :: "bool \<Rightarrow> nat \<Rightarrow> buf \<Rightarrow> nat \<Rightarrow> nat" where
  "el_val le w b i = le_val (host_order le (take w (drop (i * w) b)))"

lemma unat_low_cleared:
  fixes x y :: "'a::len word"
  assumes "\<And>k. bit y k = (z \<le> k \<and> bit x k)"
  shows "unat y = unat x div 2 ^ z * 2 ^ z"
proof -
  have "unat y = push_bit z (drop_bit z (unat x))"
    by (rule bit_eqI) (simp add: bit_unsigned_iff bit_push_bit_iff bit_drop_bit_eq assms le_less_trans[OF _ bit_imp_le_length], use bit_imp_le_length[of x] in auto)
  then show ?thesis by (simp add: push_bit_eq_mult drop_bit_eq_div)
qed

lemma el_val_load_word:
  assumes "LENGTH('a) = 8 * w" "load_word le b (i * w) = Some (x :: 'a::len word)"
  shows "el_val le w b i = unat x"
proof -
  have len: "length (host_order le (take w (drop (i * w) b))) = w"
    using assms by (auto simp: load_word_def Let_def split: if_splits)
  have "le_val (host_order le (take w (drop (i * w) b))) < 256 ^ w"
    using le_val_less[of "host_order le (take w (drop (i * w) b))"] unfolding len .
  also have "(256::nat) ^ w = 2 ^ LENGTH('a)" by (simp add: assms(1) power_mult)
  finally show ?thesis
    using assms by (auto simp: load_word_def Let_def el_val_def unat_of_nat split: if_splits)
qed

lemma low_bits_cleared_values:
  assumes "LENGTH('a) = 8 * w" "i < nelems"
    and "low_bits_cleared (load_word le :: buf \<Rightarrow> nat \<Rightarrow> 'a::len word option) z nelems src d"
  shows "el_val le w d i = el_val le w src i div 2 ^ z * 2 ^ z"
proof -
  have w8: "LENGTH('a) div 8 = w" by (simp add: assms(1))
  from assms(2,3) obtain x y :: "'a word" where xy: "load_word le src (i * w) = Some x"
    "load_word le d (i * w) = Some y" "\<And>k. bit y k = (z \<le> k \<and> bit x k)"
    unfolding low_bits_cleared_def w8 by blast
  from unat_low_cleared[of y z x] xy el_val_load_word[OF assms(1) xy(1)] el_val_load_word[OF assms(1) xy(2)]
  show ?thesis by simp
qed

text \<open>What the filter promises for elements of \<open>w\<close> bytes whose \<open>z\<close> low bits are to be cleared.\<close>

definition cleared_result :: "bool \<Rightarrow> nat \<Rightarrow> nat \<Rightarrow> nat \<Rightarrow> buf \<Rightarrow> buf \<Rightarrow> buf \<Rightarrow> bool" where
  "cleared_result le w z nelems src dest d \<longleftrightarrow>
    length d = length dest \<and> drop (nelems * w) d = drop (nelems * w) dest \<and>
    (\<forall>i < nelems. el_val le w d i = el_val le w src i div 2 ^ z * 2 ^ z)"

lemma mask_elements_cleared:
  assumes "nelems * w \<le> length src" "nelems * w \<le> length dest" "LENGTH('a::len) = 8 * w"
    and "msk = (NOT (push_bit z 1 - 1) :: 'a word)"
  shows "\<exists>d. mask_elements le msk nelems src dest = Some d \<and> cleared_result le w z nelems src dest d"
proof -
  from mask_elements_clears_low[where z = z and le = le, OF assms(1-3)]
  obtain d where d: "mask_elements le msk nelems src dest = Some d" "length d = length dest"
    "drop (nelems * w) d = drop (nelems * w) dest"
    "low_bits_cleared (load_word le :: buf \<Rightarrow> nat \<Rightarrow> 'a word option) z nelems src d"
    unfolding assms(4) by blast
  with low_bits_cleared_values[OF assms(3) _ d(4)] show ?thesis
    unfolding cleared_result_def by blast
qed

text \<open>The \<open>int\<close> mask narrowed to the element type.\<close>

lemma ucast_int_mask:
  assumes "LENGTH('a::len) \<le> 32"
  shows "ucast (NOT (push_bit z 1 - 1) :: 32 word) = (NOT (push_bit z 1 - 1) :: 'a word)"
proof -
  have m: "push_bit z 1 - 1 = (mask z :: 'b::len word)" for z
    by (simp add: mask_eq_decr_exp push_bit_eq_mult)
  show ?thesis unfolding m
    by (rule bit_word_eqI) (use assms in \<open>auto simp: bit_simps\<close>)
qed

section \<open>The filter as a whole\<close>

definition int_trunc_bits :: "nat \<Rightarrow> 8 word \<Rightarrow> nat" where
  "int_trunc_bits w p = nat (if 0 < sint p then 8 * int w - sint p else - sint p)"

definition int_trunc_ok :: "nat \<Rightarrow> 8 word \<Rightarrow> bool" where
  "int_trunc_ok w p \<longleftrightarrow> sint p \<noteq> 0 \<and> - (8 * int w) < sint p \<and> sint p \<le> 8 * int w"

lemma int_trunc_ok_bits: "int_trunc_ok w p \<Longrightarrow> int_trunc_bits w p < 8 * w"
  by (auto simp: int_trunc_ok_def int_trunc_bits_def)

lemma zeroed_bits_ok:
  assumes "m \<in> {8, 16, 32, 64}" "unat m = 8 * w"
  shows "m \<le> zeroed_bits m p \<longleftrightarrow> \<not> int_trunc_ok w p"
    and "int_trunc_ok w p \<Longrightarrow> unat (zeroed_bits m p) = int_trunc_bits w p"
  using zeroed_bits_small[OF assms(1), of p]
  by (auto simp: assms(2) int_trunc_ok_def int_trunc_bits_def not_less[symmetric])

lemma truncate_uint_spec:
  assumes len: "n * w \<le> length src" "n * w \<le> length dest"
  shows
    "w = 1 \<Longrightarrow> if int_trunc_ok 1 p then \<exists>d. truncate_uint8 p n src dest = Some (0, d) \<and>
        cleared_result True 1 (int_trunc_bits 1 p) n src dest d else truncate_uint8 p n src dest = Some (-1, dest)"
    "w = 2 \<Longrightarrow> if int_trunc_ok 2 p then \<exists>d. truncate_uint16 le p n src dest = Some (0, d) \<and>
        cleared_result le 2 (int_trunc_bits 2 p) n src dest d else truncate_uint16 le p n src dest = Some (-1, dest)"
    "w = 8 \<Longrightarrow> if int_trunc_ok 8 p then \<exists>d. truncate_uint64 le p n src dest = Some (0, d) \<and>
        cleared_result le 8 (int_trunc_bits 8 p) n src dest d else truncate_uint64 le p n src dest = Some (-1, dest)"
    "w = 4 \<Longrightarrow> if int_trunc_ok 4 p then
        if int_trunc_bits 4 p = 31 then truncate_uint32 le p n src dest = None
        else \<exists>d. truncate_uint32 le p n src dest = Some (0, d) \<and>
          cleared_result le 4 (int_trunc_bits 4 p) n src dest d
      else truncate_uint32 le p n src dest = Some (-1, dest)"
proof -
  note mask = mask_elements_cleared[OF len]
  show "if int_trunc_ok 1 p then \<exists>d. truncate_uint8 p n src dest = Some (0, d) \<and>
        cleared_result True 1 (int_trunc_bits 1 p) n src dest d else truncate_uint8 p n src dest = Some (-1, dest)"
    if "w = 1"
    using zeroed_bits_ok[of 8 1 p] int_trunc_ok_bits[of 1 p] that
      mask[OF _ ucast_int_mask, where 'a = 8 and z = "int_trunc_bits 1 p" and le = True]
    by (cases "int_trunc_ok 1 p") (auto simp: truncate_uint8_def int_mask_def simp del: push_bit_of_1)
  show "if int_trunc_ok 2 p then \<exists>d. truncate_uint16 le p n src dest = Some (0, d) \<and>
        cleared_result le 2 (int_trunc_bits 2 p) n src dest d else truncate_uint16 le p n src dest = Some (-1, dest)"
    if "w = 2"
    using zeroed_bits_ok[of 16 2 p] int_trunc_ok_bits[of 2 p] that
      mask[OF _ ucast_int_mask, where 'a = 16 and z = "int_trunc_bits 2 p" and le = le]
    by (cases "int_trunc_ok 2 p") (auto simp: truncate_uint16_def int_mask_def simp del: push_bit_of_1)
  show "if int_trunc_ok 8 p then \<exists>d. truncate_uint64 le p n src dest = Some (0, d) \<and>
        cleared_result le 8 (int_trunc_bits 8 p) n src dest d else truncate_uint64 le p n src dest = Some (-1, dest)"
    if "w = 8"
    using zeroed_bits_ok[of 64 8 p] that
      mask[OF _ refl, where 'a = 64 and z = "int_trunc_bits 8 p" and le = le]
    by (cases "int_trunc_ok 8 p") (auto simp: truncate_uint64_def simp del: push_bit_of_1)
  show "if int_trunc_ok 4 p then
        if int_trunc_bits 4 p = 31 then truncate_uint32 le p n src dest = None
        else \<exists>d. truncate_uint32 le p n src dest = Some (0, d) \<and>
          cleared_result le 4 (int_trunc_bits 4 p) n src dest d
      else truncate_uint32 le p n src dest = Some (-1, dest)" if "w = 4"
    using zeroed_bits_ok[of 32 4 p] int_trunc_ok_bits[of 4 p] that
      mask[OF _ refl, where 'a = 32 and z = "int_trunc_bits 4 p" and le = le]
    by (cases "int_trunc_ok 4 p") (auto simp: truncate_uint32_def int_mask_def simp del: push_bit_of_1)
qed

text \<open>
  C38. The integer truncation filter on every type size, precision and buffer
  that holds \<open>len\<close> bytes. For elements of 1, 2, 4 or 8 bytes and a precision between \<open>1 - 8w\<close> and
  \<open>8w\<close> other than 0 it succeeds and rounds every whole element down to a multiple of \<open>2^z\<close>, \<open>z\<close>
  being the number of bits asked to drop, and writes nothing else; with any other precision or type
  size it answers -1 and writes nothing. The one exception is a 4-byte element whose 31 low bits
  are to be dropped, which the code computes with the undefined shift \<open>1 << 31\<close>; type size 0 divides
  by zero.
\<close>

theorem int_trunc_forward_spec:
  assumes "len \<le> length input" "len \<le> length output"
  shows "int_trunc_forward le input output len p 0 = None \<and>
    (w \<notin> {0, 1, 2, 4, 8} \<longrightarrow> int_trunc_forward le input output len p w = Some (-1, output)) \<and>
    (w \<in> {1, 2, 4, 8} \<longrightarrow>
      (if \<not> int_trunc_ok w p then int_trunc_forward le input output len p w = Some (-1, output)
       else if w = 4 \<and> int_trunc_bits 4 p = 31 then int_trunc_forward le input output len p w = None
       else \<exists>d. int_trunc_forward le input output len p w = Some (0, d) \<and>
         length d = length output \<and> drop (len div w * w) d = drop (len div w * w) output \<and>
         (\<forall>i < len div w. el_val (le \<or> w = 1) w d i =
            el_val (le \<or> w = 1) w input i div 2 ^ int_trunc_bits w p * 2 ^ int_trunc_bits w p)))"
proof -
  have "len div w * w \<le> len" by (rule div_times_less_eq_dividend)
  then have l: "len div w * w \<le> length input" "len div w * w \<le> length output"
    using assms le_trans by blast+
  have "if \<not> int_trunc_ok w p then int_trunc_forward le input output len p w = Some (-1, output)
       else if w = 4 \<and> int_trunc_bits 4 p = 31 then int_trunc_forward le input output len p w = None
       else \<exists>d. int_trunc_forward le input output len p w = Some (0, d) \<and>
         cleared_result (le \<or> w = 1) w (int_trunc_bits w p) (len div w) input output d"
    if "w \<in> {1, 2, 4, 8}"
    using that truncate_uint_spec(1)[OF l, where p = p] truncate_uint_spec(2-4)[OF l, where p = p and le = le]
    by (elim insertE emptyE) (simp_all add: int_trunc_forward_def Let_def split: if_splits)
  moreover have "int_trunc_forward le input output len p w = Some (-1, output)" if "w \<notin> {0, 1, 2, 4, 8}"
    using that by (simp add: int_trunc_forward_def Let_def)
  moreover have "int_trunc_forward le input output len p 0 = None" by (simp add: int_trunc_forward_def)
  ultimately show ?thesis unfolding cleared_result_def by blast
qed

theorem int_trunc_forward_spec_witness:
  "\<exists>d. int_trunc_forward True [255, 255, 7] [0, 0, 9] 3 4 2 = Some (0, d) \<and> length d = length [0, 0, 9 :: byte] \<and>
     drop (3 div 2 * 2) d = drop (3 div 2 * 2) [0, 0, 9] \<and>
     (\<forall>i < 3 div 2. el_val (True \<or> 2 = (1 :: nat)) 2 d i =
        el_val (True \<or> 2 = (1 :: nat)) 2 [255, 255, 7] i div 2 ^ int_trunc_bits 2 4 * 2 ^ int_trunc_bits 2 4)"
proof -
  have "int_trunc_ok 2 4" by (simp add: int_trunc_ok_def)
  with int_trunc_forward_spec[of 3 "[255, 255, 7]" "[0, 0, 9]" True 4 2] show ?thesis by simp
qed

end
