(* ===== verification/Bytedelta.thy ===== *)
theory Bytedelta
  imports Prelude Blosc_Constants
begin

text \<open>
  \<open>plugins/filters/bytedelta/bytedelta.c\<close>, in the build without SIMD: the byte delta filter, which
  codes each of the \<open>typesize\<close> byte streams a shuffle makes as differences between neighbours. The
  functions with suffix \<open>_buggy\<close> are the first version of the filter, kept for old data: they leave
  the bytes after the last stream alone.

  \<open>input\<close> and \<open>output\<close> advance together, so one position stands for both pointers.
\<close>

section \<open>The operations\<close>

text \<open>The loop over the streams; \<open>step\<close> gives the byte written and the new \<open>_v2\<close>.\<close>

definition bytedelta_stream ::
    "(byte \<Rightarrow> byte \<Rightarrow> byte \<times> byte) \<Rightarrow> nat \<Rightarrow> buf \<Rightarrow> nat \<times> buf \<Rightarrow> (nat \<times> buf) option" where
  "bytedelta_stream step stream_len input s = do {
     (p, v2, output) \<leftarrow> for_range 0 stream_len (\<lambda>ip (p, v2, output). do {
       v \<leftarrow> load input p;
       output \<leftarrow> store output p (fst (step v v2));
       Some (p + 1, snd (step v v2), output) }) (fst s, 0, snd s);
     Some (p, output) }"

definition bytedelta_streams ::
    "(byte \<Rightarrow> byte \<Rightarrow> byte \<times> byte) \<Rightarrow> nat \<Rightarrow> nat \<Rightarrow> buf \<Rightarrow> buf \<Rightarrow> (nat \<times> buf) option" where
  "bytedelta_streams step typesize stream_len input output =
     for_range 0 typesize (\<lambda>ich. bytedelta_stream step stream_len input) (0, output)"

definition delta_step :: "byte \<Rightarrow> byte \<Rightarrow> byte \<times> byte" where
  "delta_step v v2 = (v - v2, v)"

definition undelta_step :: "byte \<Rightarrow> byte \<Rightarrow> byte \<times> byte" where
  "undelta_step v v2 = (v + v2, v + v2)"

text \<open>The type size: the filter's meta byte or, when that is 0, the one of the super-chunk if any.\<close>

definition bytedelta_typesize :: "byte \<Rightarrow> nat option \<Rightarrow> nat option" where
  "bytedelta_typesize meta schunk_typesize = (if meta = 0 then schunk_typesize else Some (unat meta))"

definition bytedelta_run ::
    "(byte \<Rightarrow> byte \<Rightarrow> byte \<times> byte) \<Rightarrow> buf \<Rightarrow> buf \<Rightarrow> nat \<Rightarrow> byte \<Rightarrow> nat option \<Rightarrow> (int \<times> buf) option" where
  "bytedelta_run step input output len meta schunk_typesize =
    (case bytedelta_typesize meta schunk_typesize of
       None \<Rightarrow> Some (BLOSC2_ERROR_FAILURE, output)
     | Some typesize \<Rightarrow>
       if typesize = 0 then None
       else do {
         (p, output) \<leftarrow> bytedelta_streams step typesize (len div typesize) input output;
         output \<leftarrow> memcpy output p input p (len - len div typesize * typesize);
         Some (BLOSC2_ERROR_SUCCESS, output) })"

definition bytedelta_forward :: "buf \<Rightarrow> buf \<Rightarrow> nat \<Rightarrow> byte \<Rightarrow> nat option \<Rightarrow> (int \<times> buf) option" where
  "bytedelta_forward = bytedelta_run delta_step"

definition bytedelta_backward :: "buf \<Rightarrow> buf \<Rightarrow> nat \<Rightarrow> byte \<Rightarrow> nat option \<Rightarrow> (int \<times> buf) option" where
  "bytedelta_backward = bytedelta_run undelta_step"

definition bytedelta_run_buggy ::
    "(byte \<Rightarrow> byte \<Rightarrow> byte \<times> byte) \<Rightarrow> buf \<Rightarrow> buf \<Rightarrow> nat \<Rightarrow> byte \<Rightarrow> nat option \<Rightarrow> (int \<times> buf) option" where
  "bytedelta_run_buggy step input output len meta schunk_typesize =
    (case bytedelta_typesize meta schunk_typesize of
       None \<Rightarrow> Some (BLOSC2_ERROR_FAILURE, output)
     | Some typesize \<Rightarrow>
       if typesize = 0 then None
       else do {
         (p, output) \<leftarrow> bytedelta_streams step typesize (len div typesize) input output;
         Some (BLOSC2_ERROR_SUCCESS, output) })"

definition bytedelta_forward_buggy :: "buf \<Rightarrow> buf \<Rightarrow> nat \<Rightarrow> byte \<Rightarrow> nat option \<Rightarrow> (int \<times> buf) option" where
  "bytedelta_forward_buggy = bytedelta_run_buggy delta_step"

definition bytedelta_backward_buggy :: "buf \<Rightarrow> buf \<Rightarrow> nat \<Rightarrow> byte \<Rightarrow> nat option \<Rightarrow> (int \<times> buf) option" where
  "bytedelta_backward_buggy = bytedelta_run_buggy undelta_step"

section \<open>Closed forms\<close>

text \<open>
  \<open>g\<close> is what is written, \<open>w\<close> what \<open>_v2\<close> is after a byte: the streams are \<open>g\<close> when each step
  agrees with them.
\<close>

definition agrees :: "(byte \<Rightarrow> byte \<Rightarrow> byte \<times> byte) \<Rightarrow> nat \<Rightarrow> nat \<Rightarrow> buf \<Rightarrow> (nat \<Rightarrow> byte) \<Rightarrow> (nat \<Rightarrow> byte) \<Rightarrow> bool" where
  "agrees step t n input g w \<longleftrightarrow> (\<forall>c < t. \<forall>i < n.
     step (input ! (c * n + i)) (if i = 0 then 0 else w (c * n + i - 1)) = (g (c * n + i), w (c * n + i)))"

lemma bytedelta_stream_eq:
  assumes "agrees step t n input g w" "c < t" "t * n \<le> length input" "t * n \<le> length out0"
    and "output = gather {..<c * n} g out0"
  shows "bytedelta_stream step n input (c * n, output) = Some (Suc c * n, gather {..<Suc c * n} g out0)"
proof -
  let ?I = "\<lambda>i s. s = (c * n + i, if i = 0 then 0 else w (c * n + i - 1), gather {..<c * n + i} g out0)"
  have "\<exists>s'. for_range 0 n (\<lambda>ip (p, v2, output). do {
       v \<leftarrow> load input p;
       output \<leftarrow> store output p (fst (step v v2));
       Some (p + 1, snd (step v v2), output) }) (c * n, 0, output) = Some s' \<and> ?I n s'"
  proof (rule for_range_invariant[where I = ?I])
    fix i s assume i: "i < n" and s: "?I i s"
    have lt: "c * n + i < t * n" using index_lt[OF i assms(2)] .
    have "(gather {..<c * n + i} g out0)[c * n + i := g (c * n + i)] = gather {..<c * n + Suc i} g out0"
      by (intro nth_equalityI) (auto simp: nth_gather nth_list_update less_Suc_eq)
    with assms(1-4) i lt s show "\<exists>s'. (\<lambda>(p, v2, output). do {
       v \<leftarrow> load input p;
       output \<leftarrow> store output p (fst (step v v2));
       Some (p + 1, snd (step v v2), output) }) s = Some s' \<and> ?I (Suc i) s'"
      by (auto simp: load_Some store_Some agrees_def)
  qed (use assms(5) in simp_all)
  then show ?thesis by (auto simp: bytedelta_stream_def add.commute)
qed

lemma bytedelta_streams_eq:
  assumes "agrees step t n input g w" "t * n \<le> length input" "t * n \<le> length output"
  shows "bytedelta_streams step t n input output = Some (t * n, gather {..<t * n} g output)"
proof -
  let ?I = "\<lambda>c s. s = (c * n, gather {..<c * n} g output)"
  have "\<exists>s'. for_range 0 t (\<lambda>ich. bytedelta_stream step n input) (0, output) = Some s' \<and> ?I t s'"
  proof (rule for_range_invariant[where I = ?I])
    fix c s assume "c < t" "?I c s"
    with bytedelta_stream_eq[OF assms(1) _ assms(2,3) refl]
    show "\<exists>s'. bytedelta_stream step n input s = Some s' \<and> ?I (Suc c) s'" by auto
  qed (simp_all add: lessThan_def)
  then show ?thesis by (simp add: bytedelta_streams_def)
qed

lemma bytedelta_run_eq:
  assumes "bytedelta_typesize meta st = Some t" "0 < t"
    and "agrees step t (len div t) input g w" "len \<le> length input" "len \<le> length out"
  shows "bytedelta_run step input out len meta st =
    Some (0, map (\<lambda>k. if k < t * (len div t) then g k else input ! k) [0..<len] @ drop len out)"
proof -
  let ?m = "t * (len div t)"
  have m: "?m \<le> len" by simp
  with assms have le: "?m \<le> length input" "?m \<le> length out" by linarith+
  have "memcpy (gather {..<?m} g out) ?m input ?m (len - ?m) =
     Some (gather {?m..<?m + (len - ?m)} (\<lambda>k. input ! k) (gather {..<?m} g out))"
    by (rule gathersD[OF gathers_memcpy]) (use assms m in auto)
  moreover have "gather {?m..<?m + (len - ?m)} (\<lambda>k. input ! k) (gather {..<?m} g out)
      = map (\<lambda>k. if k < ?m then g k else input ! k) [0..<len] @ drop len out"
    by (intro nth_equalityI) (use assms less_le_trans[OF _ m] in \<open>auto simp: nth_gather nth_append\<close>)
  ultimately show ?thesis
    using assms bytedelta_streams_eq[OF assms(3) le]
    by (simp add: bytedelta_run_def mult.commute)
qed

text \<open>What each direction writes.\<close>

definition bytedelta_byte :: "nat \<Rightarrow> buf \<Rightarrow> nat \<Rightarrow> byte" where
  "bytedelta_byte n src k = src ! k - (if k mod n = 0 then 0 else src ! (k - 1))"

lemma agrees_delta: "agrees delta_step t n src (bytedelta_byte n src) (\<lambda>k. src ! k)"
  by (auto simp: agrees_def delta_step_def bytedelta_byte_def)

lemma agrees_undelta:
  assumes "\<And>k. k < t * n \<Longrightarrow> d ! k = bytedelta_byte n src k"
  shows "agrees undelta_step t n d (\<lambda>k. src ! k) (\<lambda>k. src ! k)"
  unfolding agrees_def
proof (intro allI impI)
  fix c i assume "c < t" "i < n"
  then have "d ! (c * n + i) = src ! (c * n + i) - (if i = 0 then 0 else src ! (c * n + i - 1))"
    using index_lt[of i n c t] by (simp add: assms bytedelta_byte_def)
  then show "undelta_step (d ! (c * n + i)) (if i = 0 then 0 else src ! (c * n + i - 1)) =
      (src ! (c * n + i), src ! (c * n + i))"
    by (simp add: undelta_step_def)
qed

text \<open>
  C34. The byte delta filter is lossless on every buffer and for every type size
  it is given, whether by its meta byte or by the super-chunk, complete elements or not: the backward
  pass on what the forward pass wrote returns the input and leaves the rest of its output alone. With
  neither a meta byte nor a super-chunk both directions fail with -1 and write nothing, and with a type size
  of 0 both divide by zero.
\<close>

theorem bytedelta_roundtrip:
  assumes "length d0 = length src" "length src \<le> length output"
  shows "case bytedelta_typesize meta st of
      None \<Rightarrow> bytedelta_forward src d0 (length src) meta st = Some (-1, d0) \<and>
        bytedelta_backward src d0 (length src) meta st = Some (-1, d0)
    | Some t \<Rightarrow> if t = 0 then bytedelta_forward src d0 (length src) meta st = None \<and>
          bytedelta_backward src d0 (length src) meta st = None
        else \<exists>d. bytedelta_forward src d0 (length src) meta st = Some (0, d) \<and> length d = length src \<and>
          bytedelta_backward d output (length src) meta st = Some (0, src @ drop (length src) output)"
proof (cases "bytedelta_typesize meta st")
  case None
  then show ?thesis by (simp add: bytedelta_forward_def bytedelta_backward_def bytedelta_run_def)
next
  case (Some t)
  show ?thesis
  proof (cases "t = 0")
    case True
    with Some show ?thesis by (simp add: bytedelta_forward_def bytedelta_backward_def bytedelta_run_def)
  next
    case False
    let ?n = "length src div t"
    define d where "d = map (\<lambda>k. if k < t * ?n then bytedelta_byte ?n src k else src ! k) [0..<length src]"
    have len: "length d = length src" and m: "t * ?n \<le> length src" by (simp_all add: d_def)
    have "bytedelta_forward src d0 (length src) meta st = Some (0, d)"
      unfolding bytedelta_forward_def d_def
      using bytedelta_run_eq[OF Some _ agrees_delta, where len = "length src" and out = d0] False assms by simp
    moreover have "agrees undelta_step t ?n d (\<lambda>k. src ! k) (\<lambda>k. src ! k)"
      by (rule agrees_undelta) (simp add: d_def less_le_trans[OF _ m])
    from bytedelta_run_eq[OF Some _ this, where out = "output"] False assms len
    have "bytedelta_backward d output (length src) meta st =
      Some (0, map (\<lambda>k. if k < t * ?n then src ! k else d ! k) [0..<length src] @ drop (length src) output)"
      by (simp add: bytedelta_backward_def)
    moreover have "map (\<lambda>k. if k < t * ?n then src ! k else d ! k) [0..<length src] = src"
      by (intro nth_equalityI) (auto simp: d_def)
    ultimately show ?thesis using Some False len by simp
  qed
qed

theorem bytedelta_roundtrip_witness:
  "\<exists>d. bytedelta_forward [7, 9, 1, 200, 5] [0, 0, 0, 0, 0] 5 2 None = Some (0, d) \<and> length d = 5 \<and>
     bytedelta_backward d [0, 0, 0, 0, 0, 3] 5 2 None = Some (0, [7, 9, 1, 200, 5, 3])"
  using bytedelta_roundtrip[of "[0, 0, 0, 0, 0]" "[7, 9, 1, 200, 5]" "[0, 0, 0, 0, 0, 3]" 2 None]
  by (simp add: bytedelta_typesize_def numeral_2_eq_2 [symmetric])

end
