(* ===== verification/Context.thy ===== *)
theory Context
  imports Prelude Blosc_Constants "HOL-Library.Signed_Division"
begin

text \<open>
  The compression context of \<open>blosc/context.h\<close> and the integer conventions of the code that uses it.
  An \<open>int32_t\<close> is an \<open>int\<close>; where the code can leave the range the operation is checked with
  \<open>i32\<close>, and signed overflow, which is undefined in C, is \<open>None\<close>. C division truncates towards 0,
  \<open>sdiv\<close> and \<open>smod\<close>.

  Only the fields the modelled operations read or write are kept: the pointers to source and
  destination are arguments of the operations, and the handles of threads and external codecs are
  not part of the model. A field \<open>f\<close> of the C structure is \<open>ctx_f\<close>
  here; \<open>ctx_bstarts\<close> is the offset of the block starts in the chunk.
\<close>

section \<open>Checked 32-bit integers\<close>

definition i32_range :: "int \<Rightarrow> bool" where
  "i32_range x \<longleftrightarrow> - (2 ^ 31) \<le> x \<and> x < 2 ^ 31"

definition i32 :: "int \<Rightarrow> int option" where
  "i32 x = (if i32_range x then Some x else None)"

lemma i32_Some [simp]: "- (2 ^ 31) \<le> x \<Longrightarrow> x < 2 ^ 31 \<Longrightarrow> i32 x = Some x"
  by (simp add: i32_def i32_range_def)

lemma i32_eq_Some: "i32 x = Some y \<longleftrightarrow> y = x \<and> i32_range x"
  by (auto simp: i32_def)

lemma sdiv_nonneg [simp]: "0 \<le> a \<Longrightarrow> 0 < b \<Longrightarrow> a sdiv b = a div (b :: int)"
  by (cases "a = 0") (simp_all add: signed_divide_int_def)

lemma smod_nonneg [simp]: "0 \<le> a \<Longrightarrow> 0 < b \<Longrightarrow> a smod b = a mod (b :: int)"
  by (cases "a = 0") (simp_all add: signed_modulo_int_def)

section \<open>The context\<close>

record blosc2_context =
  ctx_header_flags :: "8 word"
  ctx_blosc2_flags :: "8 word"
  ctx_blosc2_flags2 :: "8 word"
  ctx_sourcesize :: int
  ctx_header_overhead :: int
  ctx_nblocks :: int
  ctx_leftover :: int
  ctx_blocksize :: int
  ctx_header_blocksize :: int
  ctx_splitmode :: int
  ctx_output_bytes :: int
  ctx_srcsize :: int
  ctx_destsize :: int
  ctx_typesize :: int
  ctx_special_type :: int
  ctx_compcode :: int
  ctx_compcode_meta :: "8 word"
  ctx_clevel :: int
  ctx_use_dict :: bool
  ctx_has_cdict :: bool
  ctx_filter_flags :: "8 word"
  ctx_filters :: "byte list"
  ctx_filters_meta :: "byte list"
  ctx_do_compress :: bool
  ctx_bstarts :: "nat option"

end
