(* ===== verification/Stune.thy ===== *)
theory Stune
  imports Context
begin

text \<open>
  \<open>blosc/stune.c\<close>: the default tuner. It chooses the block size of a chunk from the compression
  level, the codec and the type size, and decides whether blocks are split into one stream per byte
  of the type.
\<close>

section \<open>The operations\<close>

definition is_HCR :: "blosc2_context \<Rightarrow> bool" where
  "is_HCR context =
    (if ctx_compcode context = BLOSC_BLOSCLZ then False
     else if ctx_compcode context = BLOSC_LZ4 then False
     else ctx_compcode context = BLOSC_LZ4HC \<or> ctx_compcode context = BLOSC_ZLIB \<or> ctx_compcode context = BLOSC_ZSTD)"

text \<open>The constants of \<open>stune.h\<close>.\<close>

definition L1 :: int where "L1 = 32 * 1024"

definition MAX_STREAMS :: int where "MAX_STREAMS = 16"

text \<open>\<open>BLOSC_CODEC_OPENZL\<close> of \<open>include/blosc2/codecs-registry.h\<close>.\<close>

definition BLOSC_CODEC_OPENZL :: int where "BLOSC_CODEC_OPENZL = 38"

definition split_block :: "blosc2_context \<Rightarrow> int \<Rightarrow> int \<Rightarrow> bool" where
  "split_block context typesize blocksize =
    (if ctx_splitmode context = BLOSC_ALWAYS_SPLIT then True
     else if ctx_splitmode context = BLOSC_NEVER_SPLIT then False
     else let compcode = ctx_compcode context in
       if compcode = BLOSC_CODEC_OPENZL then False
       else (compcode = BLOSC_BLOSCLZ \<or> compcode = BLOSC_LZ4 \<or> (compcode = BLOSC_ZSTD \<and> ctx_clevel context \<le> 5))
         \<and> ctx_filter_flags context AND BLOSC_DOSHUFFLE \<noteq> 0
         \<and> typesize \<le> MAX_STREAMS
         \<and> blocksize sdiv typesize \<ge> BLOSC_MIN_BUFFERSIZE)"

text \<open>The block size for a buffer of at least \<open>L1\<close> bytes, before splitting is considered.\<close>

definition level_blocksize :: "blosc2_context \<Rightarrow> int" where
  "level_blocksize context =
    (let blocksize = L1 * (if is_HCR context then 2 else 1); clevel = ctx_clevel context in
     if clevel = 0 then blocksize div 4
     else if clevel = 1 then blocksize div 2
     else if clevel = 2 then blocksize * 1
     else if clevel = 3 then blocksize * 2
     else if clevel = 4 \<or> clevel = 5 then blocksize * 4
     else if clevel = 6 \<or> clevel = 7 \<or> clevel = 8 then blocksize * 8
     else if clevel = 9 then (if is_HCR context then blocksize * 8 * 2 else blocksize * 8)
     else blocksize)"

text \<open>The block size for splittable codecs; \<open>blocksize *= typesize\<close> may overflow.\<close>

definition split_blocksize :: "int \<Rightarrow> int \<Rightarrow> int option" where
  "split_blocksize clevel typesize = do {
     blocksize \<leftarrow> i32 ((if clevel = 1 \<or> clevel = 2 \<or> clevel = 3 then 32 * 1024
        else if clevel = 4 \<or> clevel = 5 \<or> clevel = 6 then 64 * 1024
        else if clevel = 7 then 128 * 1024
        else if clevel = 8 then 256 * 1024
        else 512 * 1024) * typesize);
     let blocksize = (if blocksize > 4 * 1024 * 1024 then 4 * 1024 * 1024 else blocksize);
     Some (if blocksize < 32 * 1024 then 32 * 1024 else blocksize) }"

text \<open>The code after the label \<open>last\<close>.\<close>

definition clip_blocksize :: "int \<Rightarrow> int \<Rightarrow> int \<Rightarrow> int" where
  "clip_blocksize nbytes typesize blocksize =
    (let blocksize = (if blocksize > nbytes then nbytes else blocksize)
     in if blocksize > typesize then blocksize sdiv typesize * typesize else blocksize)"

definition blosc_stune_next_blocksize :: "blosc2_context \<Rightarrow> (int \<times> blosc2_context) option" where
  "blosc_stune_next_blocksize context =
    (let clevel = ctx_clevel context; typesize = ctx_typesize context; nbytes = ctx_sourcesize context;
         user_blocksize = ctx_blocksize context
     in if nbytes < typesize then Some (BLOSC2_ERROR_SUCCESS, context\<lparr>ctx_blocksize := 1\<rparr>)
     else let splitmode = split_block context typesize nbytes
     in if user_blocksize \<noteq> 0
     then Some (BLOSC2_ERROR_SUCCESS, context\<lparr>ctx_blocksize := clip_blocksize nbytes typesize user_blocksize\<rparr>)
     else do {
       blocksize \<leftarrow> (if clevel > 0 \<and> splitmode then split_blocksize clevel typesize
                    else Some (if nbytes \<ge> L1 then level_blocksize context else nbytes));
       Some (BLOSC2_ERROR_SUCCESS, context\<lparr>ctx_blocksize := clip_blocksize nbytes typesize blocksize\<rparr>) })"

section \<open>The block size it chooses\<close>

lemma clip_blocksize_bounds:
  assumes "0 < t" "t \<le> n" "0 < b"
  shows "0 < clip_blocksize n t b \<and> clip_blocksize n t b \<le> n \<and> clip_blocksize n t b \<le> b"
proof -
  define c where "c = (if b > n then n else b)"
  have c: "0 < c" "c \<le> n" "c \<le> b" using assms by (auto simp: c_def)
  have "c div t * t \<le> c" using assms(1) by (simp add: minus_mod_eq_div_mult[symmetric])
  moreover have "0 < c div t * t" if "c > t"
    using that assms(1) by (intro mult_pos_pos) (auto simp: pos_imp_zdiv_pos_iff)
  ultimately show ?thesis using c assms unfolding clip_blocksize_def Let_def c_def[symmetric] by auto
qed

lemma clip_blocksize_multiple:
  assumes "0 < t" "t \<le> n" "t \<le> b"
  shows "t dvd clip_blocksize n t b"
proof -
  have "(if b > n then n else b) \<ge> t" using assms by simp
  with assms(1) show ?thesis by (auto simp: clip_blocksize_def Let_def)
qed

lemma level_blocksize_bounds: "8192 \<le> level_blocksize context" "level_blocksize context \<le> 2 ^ 20"
  by (simp_all add: level_blocksize_def Let_def L1_def)

lemma split_blocksize_Some:
  assumes "0 < t" "t \<le> 255"
  shows "\<exists>b. split_blocksize clevel t = Some b \<and> 32 * 1024 \<le> b \<and> b \<le> 4 * 1024 * 1024"
  using assms by (auto simp: split_blocksize_def Let_def)

text \<open>
  C35. The tuner gives every chunk a usable block size. For a type size between 1 and
  255 and any buffer, level, codec and split mode it succeeds without integer overflow, changes only
  the block size of the context, and the block size is positive and at most the buffer size (1 for a
  buffer shorter than one element). Whenever the caller leaves the choice to the tuner, or asks for at
  least one element, the block size of a buffer holding an element is a multiple of the type size, as
  the code demands; a block size chosen by the tuner is at most 4 MB when it cuts the buffer.
\<close>

theorem stune_blocksize:
  assumes "0 < ctx_typesize c" "ctx_typesize c \<le> 255" "0 \<le> ctx_sourcesize c" "ctx_sourcesize c < 2 ^ 31" "0 \<le> ctx_blocksize c"
  shows "\<exists>b. blosc_stune_next_blocksize c = Some (0, c\<lparr>ctx_blocksize := b\<rparr>) \<and> 0 < b \<and>
    (ctx_sourcesize c < ctx_typesize c \<longrightarrow> b = 1) \<and>
    (ctx_typesize c \<le> ctx_sourcesize c \<longrightarrow> b \<le> ctx_sourcesize c \<and>
      (ctx_blocksize c = 0 \<or> ctx_typesize c \<le> ctx_blocksize c \<longrightarrow> ctx_typesize c dvd b) \<and>
      (ctx_blocksize c \<noteq> 0 \<longrightarrow> b \<le> ctx_blocksize c) \<and>
      (ctx_blocksize c = 0 \<and> 2 ^ 15 \<le> ctx_sourcesize c \<longrightarrow> b \<le> 2 ^ 22))"
proof -
  let ?t = "ctx_typesize c" and ?n = "ctx_sourcesize c" and ?u = "ctx_blocksize c"
  let ?split = "0 < ctx_clevel c \<and> split_block c ?t ?n"
  have pow: "(2::int) ^ 15 = 32768" "(2::int) ^ 20 = 1048576" "(2::int) ^ 22 = 4194304" by simp_all
  consider "?n < ?t" | "?t \<le> ?n" "?u \<noteq> 0" | "?t \<le> ?n" "?u = 0" by linarith
  then show ?thesis
  proof cases
    case 1
    then show ?thesis by (intro exI[of _ 1]) (simp add: blosc_stune_next_blocksize_def)
  next
    case 2
    then have "0 < ?u" using assms(5) by simp
    with 2 show ?thesis
      using clip_blocksize_bounds[OF assms(1) 2(1), of ?u] clip_blocksize_multiple[OF assms(1) 2(1), of ?u]
      by (intro exI[of _ "clip_blocksize ?n ?t ?u"]) (simp add: blosc_stune_next_blocksize_def Let_def)
  next
    case 3
    obtain b where b: "(if ?split then split_blocksize (ctx_clevel c) ?t
        else Some (if L1 \<le> ?n then level_blocksize c else ?n)) = Some b"
      and B: "0 < b" "?t \<le> b" "2 ^ 15 \<le> ?n \<Longrightarrow> b \<le> 2 ^ 22"
    proof (cases ?split)
      case True
      obtain b where "split_blocksize (ctx_clevel c) ?t = Some b" "32 * 1024 \<le> b" "b \<le> 4 * 1024 * 1024"
        using split_blocksize_Some[OF assms(1,2)] by blast
      with True assms(2) show ?thesis by (intro that[of b]) simp_all
    next
      case False
      with level_blocksize_bounds[of c] assms(1,2) 3 show ?thesis
        by (intro that[of "if L1 \<le> ?n then level_blocksize c else ?n"]) (auto simp: L1_def)
    qed
    have "blosc_stune_next_blocksize c = Some (0, c\<lparr>ctx_blocksize := clip_blocksize ?n ?t b\<rparr>)"
      using 3 b by (simp add: blosc_stune_next_blocksize_def Let_def)
    with clip_blocksize_bounds[OF assms(1) 3(1) B(1)] clip_blocksize_multiple[OF assms(1) 3(1) B(2)] B(3) 3
    show ?thesis by (intro exI[of _ "clip_blocksize ?n ?t b"]) auto
  qed
qed

text \<open>A context with the given codec, level, type size, buffer size and requested block size.\<close>

definition sample_context :: "int \<Rightarrow> int \<Rightarrow> int \<Rightarrow> int \<Rightarrow> int \<Rightarrow> blosc2_context" where
  "sample_context code level tsize nbytes bsize =
    \<lparr> ctx_header_flags = 0, ctx_blosc2_flags = 0, ctx_blosc2_flags2 = 0, ctx_sourcesize = nbytes,
      ctx_header_overhead = 0, ctx_nblocks = 0, ctx_leftover = 0, ctx_blocksize = bsize,
      ctx_header_blocksize = 0, ctx_splitmode = BLOSC_FORWARD_COMPAT_SPLIT, ctx_output_bytes = 0,
      ctx_srcsize = nbytes, ctx_destsize = nbytes + BLOSC2_MAX_OVERHEAD, ctx_typesize = tsize,
      ctx_special_type = 0, ctx_compcode = code, ctx_compcode_meta = 0, ctx_clevel = level,
      ctx_use_dict = False, ctx_has_cdict = False, ctx_filter_flags = BLOSC_DOSHUFFLE,
      ctx_filters = [0, 0, 0, 0, 0, 1], ctx_filters_meta = [0, 0, 0, 0, 0, 0], ctx_do_compress = True,
      ctx_bstarts = None \<rparr>"

theorem stune_blocksize_witness:
  defines "c \<equiv> sample_context BLOSC_BLOSCLZ 5 7 1000000 0"
  shows "\<exists>b. blosc_stune_next_blocksize c = Some (0, c\<lparr>ctx_blocksize := b\<rparr>) \<and> 0 < b \<and> 7 dvd b \<and> b \<le> 2 ^ 22"
  using stune_blocksize[of c] by (auto simp: c_def sample_context_def)

end
