(* ===== verification/Endian.thy ===== *)
theory Endian
  imports Context
begin

text \<open>
  \<open>blosc/blosc-private.h\<close>: integers in memory and the byte-order helpers. The host's byte order is
  the argument \<open>le\<close>; chunk integers are little-endian and frame and metalayer integers big-endian
  whatever the host.
\<close>

section \<open>The \<open>int32_t\<close> of a host\<close>

definition wrap32 :: "int \<Rightarrow> int" where
  "wrap32 x = (x + 2 ^ 31) mod 2 ^ 32 - 2 ^ 31"

definition int32_bytes :: "bool \<Rightarrow> int \<Rightarrow> buf" where
  "int32_bytes le x = host_order le (le_bytes 4 (nat (x mod 2 ^ 32)))"

definition int32_of_bytes :: "bool \<Rightarrow> buf \<Rightarrow> int" where
  "int32_of_bytes le bs = wrap32 (int (le_val (host_order le bs)))"

lemma wrap32_range [simp]: "i32_range (wrap32 x)"
  using pos_mod_sign[of "4294967296" "x + 2147483648"] pos_mod_bound[of "4294967296" "x + 2147483648"]
  unfolding wrap32_def i32_range_def by simp

lemma wrap32_id: "i32_range x \<Longrightarrow> wrap32 x = x"
  by (simp add: wrap32_def i32_range_def)

lemma wrap32_mod: "wrap32 (x mod 2 ^ 32) = wrap32 x"
  by (simp add: wrap32_def mod_add_left_eq)

lemma length_int32_bytes [simp]: "length (int32_bytes le x) = 4"
  by (simp add: int32_bytes_def)

lemma int32_of_bytes_range [simp]: "i32_range (int32_of_bytes le bs)"
  by (simp add: int32_of_bytes_def)

lemma int32_of_bytes_int32_bytes: "i32_range x \<Longrightarrow> int32_of_bytes le (int32_bytes le x) = x"
proof -
  assume x: "i32_range x"
  have "0 \<le> x mod 2 ^ 32" "x mod 2 ^ 32 < 2 ^ 32" by (rule pos_mod_sign pos_mod_bound; simp)+
  then have "int (nat (x mod 2 ^ 32) mod 256 ^ 4) = x mod 2 ^ 32"
    by (simp add: zmod_int)
  then have "int32_of_bytes le (int32_bytes le x) = wrap32 (x mod 2 ^ 32)"
    by (simp add: int32_of_bytes_def int32_bytes_def le_val_le_bytes)
  also have "\<dots> = x" unfolding wrap32_mod by (rule wrap32_id[OF x])
  finally show ?thesis .
qed

lemma int32_bytes_int32_of_bytes: "length bs = 4 \<Longrightarrow> int32_bytes le (int32_of_bytes le bs) = bs"
proof -
  assume len: "length bs = 4"
  let ?v = "le_val (host_order le bs)"
  have "?v < 256 ^ 4" using le_val_less[of "host_order le bs"] len by simp
  then have "nat (wrap32 (int ?v) mod 2 ^ 32) = ?v"
    by (simp add: wrap32_def mod_diff_left_eq)
  then have "int32_bytes le (int32_of_bytes le bs) = host_order le (le_bytes (length (host_order le bs)) ?v)"
    by (simp add: int32_bytes_def int32_of_bytes_def len)
  then show ?thesis by (simp only: le_bytes_le_val host_order_host_order)
qed

section \<open>The operations\<close>

definition bswap32 :: "int \<Rightarrow> int" where
  "bswap32 a = int32_of_bytes True (rev (int32_bytes True a))"

text \<open>\<open>sw32_\<close> and \<open>_sw32\<close>.\<close>

definition load_sw32 :: "bool \<Rightarrow> buf \<Rightarrow> nat \<Rightarrow> int option" where
  "load_sw32 le b p = do {
     bs \<leftarrow> load_el 4 b p;
     Some (if le then int32_of_bytes le bs else bswap32 (int32_of_bytes le bs)) }"

definition store_sw32 :: "bool \<Rightarrow> buf \<Rightarrow> nat \<Rightarrow> int \<Rightarrow> buf option" where
  "store_sw32 le dest p a = store_el dest p (int32_bytes le (if le then a else bswap32 a))"

text \<open>
  \<open>endian_handler\<close> with its four macros \<open>to_little\<close>, \<open>from_little\<close>, \<open>to_big\<close> and \<open>from_big\<close>. For a
  size it does not know, the swapping branch copies an uninitialised array, which is left
  undefined here.
\<close>

definition endian_handler :: "bool \<Rightarrow> bool \<Rightarrow> buf \<Rightarrow> nat \<Rightarrow> buf \<Rightarrow> nat \<Rightarrow> nat \<Rightarrow> buf option" where
  "endian_handler le little dest di pa si sz =
    (if le = little then memcpy dest di pa si sz
     else if sz = 8 \<or> sz = 4 \<or> sz = 2 \<or> sz = 1 then do {
       bs \<leftarrow> load_el sz pa si;
       store_el dest di (rev bs) }
     else None)"

definition blosc2_nchunks_to_offsets_nbytes :: "int \<Rightarrow> int option" where
  "blosc2_nchunks_to_offsets_nbytes nchunks =
    (if nchunks < 0 \<or> nchunks > INT_MAX sdiv 8 then None else Some (nchunks * 8))"

section \<open>Little-endian on disk\<close>

lemma host_order_le_bytes: "host_order le (le_bytes 4 v) = (if le then le_bytes 4 v else rev (le_bytes 4 v))"
  by (simp add: host_order_def)

lemma bswap_host:
  assumes "length bs = 4"
  shows "(if le then int32_of_bytes le bs else bswap32 (int32_of_bytes le bs)) = int32_of_bytes True bs"
proof (cases le)
  case False
  have "int32_of_bytes False bs = int32_of_bytes True (rev bs)"
    by (simp add: int32_of_bytes_def host_order_def)
  with False int32_bytes_int32_of_bytes[of "rev bs" True] assms show ?thesis
    by (simp add: bswap32_def)
qed simp

lemma bswap_bytes:
  assumes "i32_range a"
  shows "int32_bytes le (if le then a else bswap32 a) = int32_bytes True a"
proof (cases le)
  case False
  have "int32_bytes False x = rev (int32_bytes True x)" for x
    by (simp add: int32_bytes_def host_order_def)
  with False int32_bytes_int32_of_bytes[of "rev (int32_bytes True a)" True] show ?thesis
    by (simp add: bswap32_def)
qed simp

lemma sw32_eq: "p + 4 \<le> length b \<Longrightarrow> load_sw32 le b p = Some (int32_of_bytes True (take 4 (drop p b)))"
  using bswap_host[of "take 4 (drop p b)" le] by (simp add: load_sw32_def load_el_Some)

lemma store_sw32_eq:
  assumes "i32_range a"
  shows "store_sw32 le dest p a = store_el dest p (int32_bytes True a)"
  using bswap_bytes[OF assms, of le] by (simp add: store_sw32_def)

lemma store_el_Some [mem_simps]:
  "p + length v \<le> length b \<Longrightarrow> store_el b p v = Some (take p b @ v @ drop (p + length v) b)"
  by (simp add: store_el_def memcpy_Some)

lemma load_store_el:
  assumes "p + length v \<le> length b" "store_el b p v = Some b'"
  shows "load_el (length v) b' p = Some v"
  using assms by (auto simp: store_el_Some load_el_def)

text \<open>
  A 32-bit integer written into a chunk by a host of one byte order is read back by a
  host of any byte order, and the bytes in the chunk are the little-endian ones whoever writes them.
\<close>

theorem sw32_roundtrip:
  assumes "- (2 ^ 31) \<le> a" "a < 2 ^ 31" "p + 4 \<le> length dest"
  shows "\<exists>d. store_sw32 le dest p a = Some d \<and> length d = length dest \<and> load_sw32 le' d p = Some a \<and>
    take 4 (drop p d) = le_bytes 4 (nat (a mod 2 ^ 32))"
proof -
  have a: "i32_range a" using assms by (simp add: i32_range_def)
  have b: "int32_bytes True a = le_bytes 4 (nat (a mod 2 ^ 32))"
    by (simp add: int32_bytes_def host_order_def)
  let ?d = "take p dest @ int32_bytes True a @ drop (p + 4) dest"
  have "store_sw32 le dest p a = Some ?d"
    using assms(3) by (simp add: store_sw32_eq[OF a] store_el_Some)
  moreover have at: "take 4 (drop p ?d) = int32_bytes True a" using assms(3) by simp
  moreover have "load_sw32 le' ?d p = Some a"
    using assms(3) by (subst sw32_eq) (simp_all add: at int32_of_bytes_int32_bytes[OF a])
  ultimately show ?thesis using assms(3) b by (intro exI[of _ ?d]) simp
qed

theorem sw32_roundtrip_witness:
  "\<exists>d. store_sw32 False [0, 0, 0, 0, 7] 0 (-2) = Some d \<and> length d = length [0, 0, 0, 0, 7 :: byte] \<and>
     load_sw32 True d 0 = Some (-2) \<and> take 4 (drop 0 d) = le_bytes 4 (nat (-2 mod 2 ^ 32))"
  by (rule sw32_roundtrip) simp_all

end
