(* ===== verification/Chunk_Header.thy ===== *)
theory Chunk_Header
  imports Endian Stune
begin

text \<open>
  The chunk header of \<open>blosc/blosc2.c\<close>: the filter pipeline and its flags, reading and checking a
  header, the context a header describes and the header a context is written as.

  A function that fills a structure and returns a code is modelled with result \<open>Inl\<close> code or \<open>Inr\<close>
  structure; no caller of the code looks at the structure after an error.
\<close>

section \<open>Filter pipelines and filter flags\<close>

text \<open>The mode is \<open>'c'\<close> (\<open>True\<close>) or \<open>'d'\<close>.\<close>

definition do_nothing :: "byte \<Rightarrow> bool \<Rightarrow> bool" where
  "do_nothing f cmode_c =
    (if cmode_c then f = BLOSC_NOFILTER else f = BLOSC_NOFILTER \<or> f = BLOSC_TRUNC_PREC)"

text \<open>The loop over \<open>current_filter - 1\<close> down to 0.\<close>

fun next_filter :: "byte list \<Rightarrow> nat \<Rightarrow> bool \<Rightarrow> byte" where
  "next_filter filters 0 cmode = BLOSC_NOFILTER"
| "next_filter filters (Suc i) cmode =
    (if \<not> do_nothing (filters ! i) cmode then filters ! i else next_filter filters i cmode)"

text \<open>The loop over all filters, from the last down; the smallest index is what remains.\<close>

fun last_filter_from :: "byte list \<Rightarrow> bool \<Rightarrow> nat \<Rightarrow> int \<Rightarrow> int" where
  "last_filter_from filters cmode 0 last_index = last_index"
| "last_filter_from filters cmode (Suc i) last_index =
    last_filter_from filters cmode i (if \<not> do_nothing (filters ! i) cmode then int i else last_index)"

definition last_filter :: "byte list \<Rightarrow> bool \<Rightarrow> int" where
  "last_filter filters cmode = last_filter_from filters cmode BLOSC2_MAX_FILTERS (- 1)"

definition filter_flag :: "byte \<Rightarrow> byte" where
  "filter_flag f =
    (if f = BLOSC_SHUFFLE then BLOSC_DOSHUFFLE
     else if f = BLOSC_BITSHUFFLE then BLOSC_DOBITSHUFFLE
     else if f = BLOSC_DELTA then BLOSC_DODELTA else 0)"

definition filters_to_flags :: "byte list \<Rightarrow> byte" where
  "filters_to_flags filters = foldl (\<lambda>flags i. flags OR filter_flag (filters ! i)) 0 [0..<BLOSC2_MAX_FILTERS]"

definition flags_to_filters :: "byte \<Rightarrow> byte list" where
  "flags_to_filters flags =
    (let filters = replicate BLOSC2_MAX_FILTERS 0;
         filters = (if flags AND BLOSC_DOSHUFFLE \<noteq> 0 then filters[BLOSC2_MAX_FILTERS - 1 := BLOSC_SHUFFLE] else filters);
         filters = (if flags AND BLOSC_DOBITSHUFFLE \<noteq> 0 then filters[BLOSC2_MAX_FILTERS - 1 := BLOSC_BITSHUFFLE] else filters)
     in if flags AND BLOSC_DODELTA \<noteq> 0 then filters[BLOSC2_MAX_FILTERS - 2 := BLOSC_DELTA] else filters)"

definition get_filter_flags :: "byte \<Rightarrow> int \<Rightarrow> byte" where
  "get_filter_flags header_flags typesize =
    (let flags = (if header_flags AND BLOSC_DOSHUFFLE \<noteq> 0 \<and> typesize > 1 then BLOSC_DOSHUFFLE else 0);
         flags = (if header_flags AND BLOSC_DOBITSHUFFLE \<noteq> 0 then flags OR BLOSC_DOBITSHUFFLE else flags);
         flags = (if header_flags AND BLOSC_DODELTA \<noteq> 0 then flags OR BLOSC_DODELTA else flags)
     in if header_flags AND BLOSC_MEMCPYED \<noteq> 0 then flags OR BLOSC_MEMCPYED else flags)"

section \<open>The header\<close>

record blosc_header =
  hdr_version :: byte
  hdr_versionlz :: byte
  hdr_flags :: byte
  hdr_typesize :: byte
  hdr_nbytes :: int
  hdr_blocksize :: int
  hdr_cbytes :: int
  hdr_filters :: "byte list"
  hdr_udcompcode :: byte
  hdr_compcode_meta :: byte
  hdr_filters_meta :: "byte list"
  hdr_blosc2_flags2 :: byte
  hdr_blosc2_flags :: byte

text \<open>The memory image of the structure: no padding, integers in host order.\<close>

definition min_header_image :: "bool \<Rightarrow> blosc_header \<Rightarrow> buf" where
  "min_header_image le h = [hdr_version h, hdr_versionlz h, hdr_flags h, hdr_typesize h]
     @ int32_bytes le (hdr_nbytes h) @ int32_bytes le (hdr_blocksize h) @ int32_bytes le (hdr_cbytes h)"

definition ext_header_image :: "blosc_header \<Rightarrow> buf" where
  "ext_header_image h = hdr_filters h @ [hdr_udcompcode h, hdr_compcode_meta h] @ hdr_filters_meta h
     @ [hdr_blosc2_flags2 h, hdr_blosc2_flags h]"

definition zero_header :: blosc_header where
  "zero_header = \<lparr> hdr_version = 0, hdr_versionlz = 0, hdr_flags = 0, hdr_typesize = 0, hdr_nbytes = 0,
     hdr_blocksize = 0, hdr_cbytes = 0, hdr_filters = replicate 6 0, hdr_udcompcode = 0,
     hdr_compcode_meta = 0, hdr_filters_meta = replicate 6 0, hdr_blosc2_flags2 = 0, hdr_blosc2_flags = 0 \<rparr>"

text \<open>\<open>memcpy\<close> of the first 16 bytes into a zeroed header and of the next 16 into a header.\<close>

definition min_header_of_image :: "bool \<Rightarrow> buf \<Rightarrow> blosc_header" where
  "min_header_of_image le b = zero_header\<lparr> hdr_version := b ! 0, hdr_versionlz := b ! 1, hdr_flags := b ! 2,
     hdr_typesize := b ! 3, hdr_nbytes := int32_of_bytes le (take 4 (drop 4 b)),
     hdr_blocksize := int32_of_bytes le (take 4 (drop 8 b)), hdr_cbytes := int32_of_bytes le (take 4 (drop 12 b)) \<rparr>"

definition ext_header_of_image :: "buf \<Rightarrow> blosc_header \<Rightarrow> blosc_header" where
  "ext_header_of_image b h = h\<lparr> hdr_filters := take 6 b, hdr_udcompcode := b ! 6, hdr_compcode_meta := b ! 7,
     hdr_filters_meta := take 6 (drop 8 b), hdr_blosc2_flags2 := b ! 14, hdr_blosc2_flags := b ! 15 \<rparr>"

section \<open>Reading a header\<close>

definition special_type :: "byte \<Rightarrow> int" where
  "special_type blosc2_flags = uint (drop_bit 4 blosc2_flags) mod (BLOSC2_SPECIAL_MASK + 1)"

text \<open>The checks of the extended header; the code in braces of the \<open>if (extended_header && ...)\<close>.\<close>

definition check_special :: "blosc_header \<Rightarrow> int + blosc_header" where
  "check_special h =
    (let special = special_type (hdr_blosc2_flags h) in
     if hdr_blosc2_flags2 h AND BLOSC2_VL_BLOCKS \<noteq> 0 \<and> hdr_blosc2_flags h \<noteq> 0 \<and> special \<noteq> 0
     then Inl BLOSC2_ERROR_INVALID_HEADER
     else if special \<noteq> 0 \<and> special = BLOSC2_SPECIAL_VALUE \<and>
       (let typesize = hdr_cbytes h - BLOSC_EXTENDED_HEADER_LENGTH in
        typesize \<le> 0 \<or> typesize > BLOSC2_MAXTYPESIZE \<or> typesize > hdr_nbytes h \<or> hdr_nbytes h smod typesize \<noteq> 0)
     then Inl BLOSC2_ERROR_INVALID_HEADER
     else if special \<noteq> 0 \<and> special \<noteq> BLOSC2_SPECIAL_VALUE \<and>
       special \<noteq> BLOSC2_SPECIAL_ZERO \<and> hdr_nbytes h smod uint (hdr_typesize h) \<noteq> 0
     then Inl BLOSC2_ERROR_INVALID_HEADER
     else if hdr_version h = BLOSC2_VERSION_FORMAT_ALPHA
     then Inr (h\<lparr> hdr_filters := (hdr_filters h)[5 := 0], hdr_filters_meta := (hdr_filters_meta h)[5 := 0] \<rparr>)
     else Inr h)"

text \<open>The checks at the end of the function.\<close>

definition check_version :: "blosc_header \<Rightarrow> int + blosc_header" where
  "check_version h =
    (if hdr_version h > BLOSC2_VERSION_FORMAT \<and> hdr_blosc2_flags2 h AND NOT BLOSC2_VL_BLOCKS \<noteq> 0
     then Inl BLOSC2_ERROR_VERSION_SUPPORT
     else if hdr_blosc2_flags2 h AND BLOSC2_VL_BLOCKS \<noteq> 0 \<and> hdr_flags h AND BLOSC_MEMCPYED \<noteq> 0
     then Inl BLOSC2_ERROR_INVALID_HEADER
     else if hdr_blosc2_flags2 h AND BLOSC2_VL_BLOCKS = 0 \<and> hdr_nbytes h > 0 \<and> hdr_blocksize h > hdr_nbytes h
     then Inr (h\<lparr> hdr_blocksize := hdr_nbytes h \<rparr>)
     else Inr h)"

definition read_chunk_header :: "bool \<Rightarrow> buf \<Rightarrow> int \<Rightarrow> bool \<Rightarrow> (int + blosc_header) option" where
  "read_chunk_header le src srcsize extended_header =
    (if srcsize < BLOSC_MIN_HEADER_LENGTH then Some (Inl BLOSC2_ERROR_READ_BUFFER)
     else do {
       b \<leftarrow> load_el 16 src 0;
       let h = min_header_of_image le b;
       let h = (if le then h else h\<lparr> hdr_nbytes := bswap32 (hdr_nbytes h), hdr_blocksize := bswap32 (hdr_blocksize h),
                  hdr_cbytes := bswap32 (hdr_cbytes h) \<rparr>);
       if hdr_cbytes h < BLOSC_MIN_HEADER_LENGTH then Some (Inl BLOSC2_ERROR_INVALID_HEADER)
       else if hdr_blocksize h \<le> 0 then Some (Inl BLOSC2_ERROR_INVALID_HEADER)
       else if hdr_blocksize h > BLOSC2_MAXBLOCKSIZE then Some (Inl BLOSC2_ERROR_INVALID_HEADER)
       else if hdr_typesize h = 0 then Some (Inl BLOSC2_ERROR_INVALID_HEADER)
       else if extended_header \<and> hdr_flags h AND BLOSC_DOSHUFFLE \<noteq> 0 \<and> hdr_flags h AND BLOSC_DOBITSHUFFLE \<noteq> 0 then
         if hdr_cbytes h < BLOSC_EXTENDED_HEADER_LENGTH then Some (Inl BLOSC2_ERROR_INVALID_HEADER)
         else if srcsize < BLOSC_EXTENDED_HEADER_LENGTH then Some (Inl BLOSC2_ERROR_READ_BUFFER)
         else do {
           e \<leftarrow> load_el 16 src 16;
           case check_special (ext_header_of_image e h) of
             Inl err \<Rightarrow> Some (Inl err)
           | Inr h \<Rightarrow> Some (check_version h) }
       else Some (check_version (h\<lparr> hdr_filters := flags_to_filters (hdr_flags h) \<rparr>)) })"

definition blosc2_cbuffer_sizes :: "bool \<Rightarrow> buf \<Rightarrow> (int \<times> int \<times> int \<times> int) option" where
  "blosc2_cbuffer_sizes le cbuffer = do {
     r \<leftarrow> read_chunk_header le cbuffer BLOSC_MIN_HEADER_LENGTH False;
     Some (case r of Inl err \<Rightarrow> (err, 0, 0, 0)
           | Inr h \<Rightarrow> (0, hdr_nbytes h, hdr_cbytes h, hdr_blocksize h)) }"

text \<open>The result is the code and \<open>*nbytes\<close>, a \<open>size_t\<close>.\<close>

definition blosc1_cbuffer_validate :: "bool \<Rightarrow> buf \<Rightarrow> 64 word \<Rightarrow> (int \<times> 64 word) option" where
  "blosc1_cbuffer_validate le cbuffer cbytes =
    (if cbytes < 16 then Some (BLOSC2_ERROR_WRITE_BUFFER, 0)
     else do {
       (rc, header_nbytes, header_cbytes, _) \<leftarrow> blosc2_cbuffer_sizes le cbuffer;
       if rc < 0 then Some (rc, 0)
       else if header_cbytes \<noteq> wrap32 (uint cbytes) then Some (BLOSC2_ERROR_INVALID_HEADER, 0)
       else if uint (word_of_int header_nbytes :: 64 word) > BLOSC2_MAX_BUFFERSIZE then Some (BLOSC2_ERROR_MEMORY_ALLOC, 0)
       else Some (0, word_of_int header_nbytes) })"

definition blosc1_cbuffer_metainfo :: "bool \<Rightarrow> buf \<Rightarrow> (int \<times> int) option" where
  "blosc1_cbuffer_metainfo le cbuffer = do {
     r \<leftarrow> read_chunk_header le cbuffer BLOSC_MIN_HEADER_LENGTH False;
     Some (case r of Inl err \<Rightarrow> (0, 0) | Inr h \<Rightarrow> (uint (hdr_typesize h), uint (hdr_flags h))) }"

definition blosc2_cbuffer_versions :: "bool \<Rightarrow> buf \<Rightarrow> (int \<times> int) option" where
  "blosc2_cbuffer_versions le cbuffer = do {
     r \<leftarrow> read_chunk_header le cbuffer BLOSC_MIN_HEADER_LENGTH False;
     Some (case r of Inl err \<Rightarrow> (0, 0) | Inr h \<Rightarrow> (uint (hdr_version h), uint (hdr_versionlz h))) }"

section \<open>What reading a header guarantees\<close>

lemma last_filter_from_eq:
  "last_filter_from fs c n l =
    (if \<exists>i < n. \<not> do_nothing (fs ! i) c then int (LEAST i. \<not> do_nothing (fs ! i) c) else l)"
proof (induction n arbitrary: l)
  case 0
  then show ?case by simp
next
  case (Suc n)
  show ?case
  proof (cases "\<exists>i < n. \<not> do_nothing (fs ! i) c")
    case True
    with Suc show ?thesis by (auto simp: less_Suc_eq)
  next
    case False
    then have "(LEAST i. \<not> do_nothing (fs ! i) c) = n" if "\<not> do_nothing (fs ! n) c"
      using that by (intro Least_equality) (auto simp: not_less[symmetric])
    with False Suc show ?thesis by (auto simp: less_Suc_eq)
  qed
qed

lemma next_filter_eq:
  "next_filter fs n c = (if \<exists>i < n. \<not> do_nothing (fs ! i) c
     then fs ! (GREATEST i. i < n \<and> \<not> do_nothing (fs ! i) c) else BLOSC_NOFILTER)"
proof (induction n)
  case 0
  then show ?case by simp
next
  case (Suc n)
  show ?case
  proof (cases "do_nothing (fs ! n) c")
    case True
    then have "(\<lambda>i. i < Suc n \<and> \<not> do_nothing (fs ! i) c) = (\<lambda>i. i < n \<and> \<not> do_nothing (fs ! i) c)"
      by (auto simp: less_Suc_eq)
    with True Suc show ?thesis by (auto simp: less_Suc_eq)
  next
    case False
    then have "(GREATEST i. i < Suc n \<and> \<not> do_nothing (fs ! i) c) = n"
      by (intro Greatest_equality) auto
    with False show ?thesis by auto
  qed
qed

text \<open>What a checked header promises to its readers.\<close>

definition header_ok :: "bool \<Rightarrow> blosc_header \<Rightarrow> bool" where
  "header_ok extended_header h \<longleftrightarrow>
    BLOSC_MIN_HEADER_LENGTH \<le> hdr_cbytes h \<and> 0 < hdr_blocksize h \<and> hdr_blocksize h \<le> BLOSC2_MAXBLOCKSIZE \<and>
    hdr_typesize h \<noteq> 0 \<and> length (hdr_filters h) = 6 \<and> length (hdr_filters_meta h) = 6 \<and>
    i32_range (hdr_nbytes h) \<and> i32_range (hdr_cbytes h) \<and>
    (hdr_blosc2_flags2 h AND BLOSC2_VL_BLOCKS = 0 \<longrightarrow> 0 < hdr_nbytes h \<longrightarrow> hdr_blocksize h \<le> hdr_nbytes h) \<and>
    \<not> (hdr_blosc2_flags2 h AND BLOSC2_VL_BLOCKS \<noteq> 0 \<and> hdr_flags h AND BLOSC_MEMCPYED \<noteq> 0) \<and>
    (extended_header \<and> hdr_flags h AND BLOSC_DOSHUFFLE \<noteq> 0 \<and> hdr_flags h AND BLOSC_DOBITSHUFFLE \<noteq> 0 \<longrightarrow>
      BLOSC_EXTENDED_HEADER_LENGTH \<le> hdr_cbytes h \<and>
      (special_type (hdr_blosc2_flags h) \<noteq> 0 \<longrightarrow> hdr_blosc2_flags2 h AND BLOSC2_VL_BLOCKS = 0) \<and>
      (special_type (hdr_blosc2_flags h) = BLOSC2_SPECIAL_VALUE \<longrightarrow>
        BLOSC_EXTENDED_HEADER_LENGTH < hdr_cbytes h \<and> hdr_cbytes h - 32 \<le> hdr_nbytes h \<and>
        (hdr_cbytes h - 32) dvd hdr_nbytes h) \<and>
      (special_type (hdr_blosc2_flags h) \<notin> {0, BLOSC2_SPECIAL_VALUE, BLOSC2_SPECIAL_ZERO} \<longrightarrow>
        uint (hdr_typesize h) dvd hdr_nbytes h))"

lemma length_flags_to_filters [simp]: "length (flags_to_filters f) = 6"
  by (simp add: flags_to_filters_def Let_def)

lemma smod_dvd: "n smod t = 0 \<longleftrightarrow> t dvd (n :: int)"
  by (simp add: signed_modulo_int_def mod_eq_0_iff_dvd) (auto simp: sgn_if dvd_if_abs_eq)

lemma min_header_host:
  assumes "length b = 16"
  shows "(let h = min_header_of_image le b in if le then h
      else h\<lparr> hdr_nbytes := bswap32 (hdr_nbytes h), hdr_blocksize := bswap32 (hdr_blocksize h),
              hdr_cbytes := bswap32 (hdr_cbytes h) \<rparr>) = min_header_of_image True b"
proof (cases le)
  case False
  have "bswap32 (int32_of_bytes False (take 4 (drop p b))) = int32_of_bytes True (take 4 (drop p b))"
    if "p + 4 \<le> 16" for p
    using bswap_host[of "take 4 (drop p b)" False] that assms by simp
  with False show ?thesis by (simp add: min_header_of_image_def)
qed simp

text \<open>What a header that passes the first checks is, and reading it on any host.\<close>

definition min_header_ok :: "blosc_header \<Rightarrow> bool" where
  "min_header_ok h \<longleftrightarrow> BLOSC_MIN_HEADER_LENGTH \<le> hdr_cbytes h \<and> 0 < hdr_blocksize h \<and>
     hdr_blocksize h \<le> BLOSC2_MAXBLOCKSIZE \<and> hdr_typesize h \<noteq> 0"

definition is_extended :: "bool \<Rightarrow> byte \<Rightarrow> bool" where
  "is_extended extended_header flags \<longleftrightarrow>
     extended_header \<and> flags AND BLOSC_DOSHUFFLE \<noteq> 0 \<and> flags AND BLOSC_DOBITSHUFFLE \<noteq> 0"

lemma read_chunk_header_eq:
  assumes "nat srcsize \<le> length src"
  defines "h \<equiv> min_header_of_image True (take 16 src)"
  shows "read_chunk_header le src srcsize ext = Some (
    if srcsize < BLOSC_MIN_HEADER_LENGTH then Inl BLOSC2_ERROR_READ_BUFFER
    else if \<not> min_header_ok h then Inl BLOSC2_ERROR_INVALID_HEADER
    else if is_extended ext (hdr_flags h) then
      if hdr_cbytes h < BLOSC_EXTENDED_HEADER_LENGTH then Inl BLOSC2_ERROR_INVALID_HEADER
      else if srcsize < BLOSC_EXTENDED_HEADER_LENGTH then Inl BLOSC2_ERROR_READ_BUFFER
      else case check_special (ext_header_of_image (take 16 (drop 16 src)) h) of
          Inl err \<Rightarrow> Inl err | Inr h \<Rightarrow> check_version h
    else check_version (h\<lparr> hdr_filters := flags_to_filters (hdr_flags h) \<rparr>))"
proof (cases "srcsize < BLOSC_MIN_HEADER_LENGTH")
  case True
  then show ?thesis by (simp add: read_chunk_header_def)
next
  case False
  then have len: "16 \<le> length src" using assms(1) by simp
  then have h: "(let h = min_header_of_image le (take 16 src) in if le then h
      else h\<lparr> hdr_nbytes := bswap32 (hdr_nbytes h), hdr_blocksize := bswap32 (hdr_blocksize h),
              hdr_cbytes := bswap32 (hdr_cbytes h) \<rparr>) = h"
    using min_header_host[of "take 16 src" le] by (simp add: h_def)
  have e: "load_el 16 src 16 = Some (take 16 (drop 16 src))" if "\<not> srcsize < BLOSC_EXTENDED_HEADER_LENGTH"
    using that assms(1) by (simp add: load_el_Some)
  have m: "load_el 16 src 0 = Some (take 16 src)" using len by (simp add: load_el_Some)
  show ?thesis
    unfolding read_chunk_header_def m Option.bind.bind_lunit h[unfolded Let_def] Let_def is_extended_def min_header_ok_def
    using False e by (auto split: sum.split)
qed

lemma check_special_Inr:
  assumes "check_special h = Inr h'"
  shows "\<exists>fs ms. h' = h\<lparr> hdr_filters := fs, hdr_filters_meta := ms \<rparr> \<and>
      length fs = length (hdr_filters h) \<and> length ms = length (hdr_filters_meta h)"
    and "special_type (hdr_blosc2_flags h) \<noteq> 0 \<Longrightarrow> hdr_blosc2_flags2 h AND BLOSC2_VL_BLOCKS = 0"
    and "special_type (hdr_blosc2_flags h) = BLOSC2_SPECIAL_VALUE \<Longrightarrow>
      32 < hdr_cbytes h \<and> hdr_cbytes h - 32 \<le> hdr_nbytes h \<and> (hdr_cbytes h - 32) dvd hdr_nbytes h"
    and "special_type (hdr_blosc2_flags h) \<notin> {0, BLOSC2_SPECIAL_VALUE, BLOSC2_SPECIAL_ZERO} \<Longrightarrow>
      uint (hdr_typesize h) dvd hdr_nbytes h"
proof -
  have zero: "special_type 0 = 0" by (simp add: special_type_def)
  let ?fs = "if hdr_version h = BLOSC2_VERSION_FORMAT_ALPHA then (hdr_filters h)[5 := 0] else hdr_filters h"
  let ?ms = "if hdr_version h = BLOSC2_VERSION_FORMAT_ALPHA then (hdr_filters_meta h)[5 := 0] else hdr_filters_meta h"
  have "h' = h\<lparr> hdr_filters := ?fs, hdr_filters_meta := ?ms \<rparr>"
    using assms unfolding check_special_def Let_def by (simp split: if_split_asm)
  then show "\<exists>fs ms. h' = h\<lparr> hdr_filters := fs, hdr_filters_meta := ms \<rparr> \<and>
      length fs = length (hdr_filters h) \<and> length ms = length (hdr_filters_meta h)"
    by (intro exI[of _ ?fs] exI[of _ ?ms]) simp
  show "hdr_blosc2_flags2 h AND BLOSC2_VL_BLOCKS = 0" if "special_type (hdr_blosc2_flags h) \<noteq> 0"
    using assms that zero by (auto simp: check_special_def Let_def split: if_splits)
  show "32 < hdr_cbytes h \<and> hdr_cbytes h - 32 \<le> hdr_nbytes h \<and> (hdr_cbytes h - 32) dvd hdr_nbytes h"
    if "special_type (hdr_blosc2_flags h) = BLOSC2_SPECIAL_VALUE"
    using assms that by (auto simp: check_special_def Let_def smod_dvd split: if_splits)
  show "uint (hdr_typesize h) dvd hdr_nbytes h"
    if "special_type (hdr_blosc2_flags h) \<notin> {0, BLOSC2_SPECIAL_VALUE, BLOSC2_SPECIAL_ZERO}"
    using assms that by (auto simp: check_special_def Let_def smod_dvd split: if_splits)
qed

lemma check_version_Inr:
  assumes "check_version h = Inr h'"
  shows "\<not> (hdr_blosc2_flags2 h AND BLOSC2_VL_BLOCKS \<noteq> 0 \<and> hdr_flags h AND BLOSC_MEMCPYED \<noteq> 0)"
    and "h' = h\<lparr> hdr_blocksize := (if hdr_blosc2_flags2 h AND BLOSC2_VL_BLOCKS = 0 \<and> hdr_nbytes h > 0 \<and>
        hdr_blocksize h > hdr_nbytes h then hdr_nbytes h else hdr_blocksize h) \<rparr>"
  using assms unfolding check_version_def by (simp_all split: if_split_asm) auto

lemma check_version_ok:
  assumes "check_version h = Inr h'" "min_header_ok h" "i32_range (hdr_nbytes h)" "i32_range (hdr_cbytes h)"
    and "length (hdr_filters h) = 6" "length (hdr_filters_meta h) = 6"
    and "is_extended ext (hdr_flags h) \<Longrightarrow> 32 \<le> hdr_cbytes h \<and>
      (special_type (hdr_blosc2_flags h) \<noteq> 0 \<longrightarrow> hdr_blosc2_flags2 h AND BLOSC2_VL_BLOCKS = 0) \<and>
      (special_type (hdr_blosc2_flags h) = BLOSC2_SPECIAL_VALUE \<longrightarrow>
        32 < hdr_cbytes h \<and> hdr_cbytes h - 32 \<le> hdr_nbytes h \<and> (hdr_cbytes h - 32) dvd hdr_nbytes h) \<and>
      (special_type (hdr_blosc2_flags h) \<notin> {0, BLOSC2_SPECIAL_VALUE, BLOSC2_SPECIAL_ZERO} \<longrightarrow>
        uint (hdr_typesize h) dvd hdr_nbytes h)"
  shows "header_ok ext h'"
proof -
  note v = check_version_Inr[OF assms(1)]
  let ?b = "hdr_blocksize h'"
  have b: "0 < ?b" "?b \<le> BLOSC2_MAXBLOCKSIZE"
    "hdr_blosc2_flags2 h AND BLOSC2_VL_BLOCKS = 0 \<longrightarrow> 0 < hdr_nbytes h \<longrightarrow> ?b \<le> hdr_nbytes h"
    using assms(2) by (auto simp: v(2) min_header_ok_def)
  have same: "hdr_cbytes h' = hdr_cbytes h" "hdr_nbytes h' = hdr_nbytes h" "hdr_typesize h' = hdr_typesize h"
    "hdr_flags h' = hdr_flags h" "hdr_blosc2_flags h' = hdr_blosc2_flags h" "hdr_blosc2_flags2 h' = hdr_blosc2_flags2 h"
    "hdr_filters h' = hdr_filters h" "hdr_filters_meta h' = hdr_filters_meta h"
    by (simp_all add: v(2))
  show ?thesis
    unfolding header_ok_def same is_extended_def[symmetric]
    using b assms(2-7) v(1) by (auto simp: min_header_ok_def is_extended_def)
qed

lemma read_chunk_header_total:
  assumes "nat srcsize \<le> length src"
  shows "\<exists>r. (\<forall>le. read_chunk_header le src srcsize ext = Some r) \<and>
    (case r of
       Inl err \<Rightarrow> err = BLOSC2_ERROR_READ_BUFFER \<or> err = BLOSC2_ERROR_INVALID_HEADER \<or>
         err = BLOSC2_ERROR_VERSION_SUPPORT
     | Inr h \<Rightarrow> header_ok ext h \<and> 16 \<le> srcsize \<and> (is_extended ext (hdr_flags h) \<longrightarrow> 32 \<le> srcsize))"
proof -
  define h where "h = min_header_of_image True (take 16 src)"
  define e where "e = ext_header_of_image (take 16 (drop 16 src)) h"
  define r where "r = (if srcsize < BLOSC_MIN_HEADER_LENGTH then Inl BLOSC2_ERROR_READ_BUFFER
    else if \<not> min_header_ok h then Inl BLOSC2_ERROR_INVALID_HEADER
    else if is_extended ext (hdr_flags h) then
      if hdr_cbytes h < BLOSC_EXTENDED_HEADER_LENGTH then Inl BLOSC2_ERROR_INVALID_HEADER
      else if srcsize < BLOSC_EXTENDED_HEADER_LENGTH then Inl BLOSC2_ERROR_READ_BUFFER
      else case check_special e of Inl err \<Rightarrow> Inl err | Inr h \<Rightarrow> check_version h
    else check_version (h\<lparr> hdr_filters := flags_to_filters (hdr_flags h) \<rparr>))"
  have rd: "read_chunk_header le src srcsize ext = Some r" for le
    unfolding read_chunk_header_eq[OF assms] h_def[symmetric] r_def e_def ..
  have rng: "i32_range (hdr_nbytes h)" "i32_range (hdr_cbytes h)" "length (hdr_filters_meta h) = 6"
    by (simp_all add: h_def min_header_of_image_def zero_header_def)
  have err: "x = BLOSC2_ERROR_INVALID_HEADER \<or> x = BLOSC2_ERROR_VERSION_SUPPORT"
    if "check_version g = Inl x" for g x
    using that unfolding check_version_def by (simp split: if_split_asm)
  have err': "x = BLOSC2_ERROR_INVALID_HEADER" if "check_special g = Inl x" for g x
    using that unfolding check_special_def Let_def by (simp split: if_split_asm)
  have flags: "hdr_flags g' = hdr_flags g" if "check_version g = Inr g'" for g g'
    by (simp add: check_version_Inr(2)[OF that])
  have ext_ok: "header_ok ext g' \<and> hdr_flags g' = hdr_flags h"
    if s: "check_special e = Inr g" and v: "check_version g = Inr g'" and m: "min_header_ok h"
      and c: "32 \<le> hdr_cbytes h" and l: "32 \<le> srcsize" for g g'
  proof -
    obtain fs ms where g: "g = e\<lparr> hdr_filters := fs, hdr_filters_meta := ms \<rparr>"
      "length fs = length (hdr_filters e)" "length ms = length (hdr_filters_meta e)"
      using check_special_Inr(1)[OF s] by blast
    have len: "32 \<le> length src" using assms l by simp
    have eq: "hdr_flags e = hdr_flags h" "hdr_cbytes e = hdr_cbytes h" "hdr_nbytes e = hdr_nbytes h"
      "hdr_blocksize e = hdr_blocksize h" "hdr_typesize e = hdr_typesize h"
      "length (hdr_filters e) = 6" "length (hdr_filters_meta e) = 6"
      using len by (simp_all add: e_def ext_header_of_image_def)
    have "header_ok ext g'"
      by (rule check_version_ok[OF v])
        (use m c rng eq check_special_Inr(2-4)[OF s] in \<open>simp_all add: g min_header_ok_def\<close>)
    with flags[OF v] eq g show ?thesis by simp
  qed
  have min_ok: "header_ok ext g'"
    if v: "check_version (h\<lparr> hdr_filters := flags_to_filters (hdr_flags h) \<rparr>) = Inr g'" and m: "min_header_ok h"
      and n: "\<not> is_extended ext (hdr_flags h)" for g'
    by (rule check_version_ok[OF v]) (use m n rng in \<open>simp_all add: min_header_ok_def\<close>)
  have "case r of
       Inl err \<Rightarrow> err = BLOSC2_ERROR_READ_BUFFER \<or> err = BLOSC2_ERROR_INVALID_HEADER \<or> err = BLOSC2_ERROR_VERSION_SUPPORT
     | Inr h \<Rightarrow> header_ok ext h \<and> 16 \<le> srcsize \<and> (is_extended ext (hdr_flags h) \<longrightarrow> 32 \<le> srcsize)"
    unfolding r_def
    by (auto split: sum.split dest: err err' ext_ok min_ok flags)
  with rd show ?thesis by blast
qed

text \<open>
  C24. Reading a chunk header is memory safe and checks what its users rely on. On
  any bytes, of which at least \<open>srcsize\<close> are there to read, it returns without reading beyond them,
  with one of three error codes or a header that satisfies \<open>header_ok\<close>: compressed size at least that of
  the header, block size between 1 and the maximum and, for a non-empty chunk of fixed-size blocks, at
  most the uncompressed size, a type size, six filters, no special encoding of variable-length blocks,
  and for special chunks, those of zeros excepted, sizes that are whole numbers of items: a chunk of zeros is taken with
  any size. The host's byte order makes no difference.
\<close>

theorem read_chunk_header_sound:
  assumes "nat srcsize \<le> length src"
  shows "\<exists>r. (\<forall>le. read_chunk_header le src srcsize ext = Some r) \<and>
    (case r of
       Inl err \<Rightarrow> err = BLOSC2_ERROR_READ_BUFFER \<or> err = BLOSC2_ERROR_INVALID_HEADER \<or>
         err = BLOSC2_ERROR_VERSION_SUPPORT
     | Inr h \<Rightarrow> header_ok ext h \<and> 16 \<le> srcsize \<and> (is_extended ext (hdr_flags h) \<longrightarrow> 32 \<le> srcsize))"
  by (rule read_chunk_header_total[OF assms])

theorem read_chunk_header_sound_witness:
  "\<exists>r. (\<forall>le. read_chunk_header le (replicate 40 1) 40 True = Some r) \<and>
    (case r of
       Inl err \<Rightarrow> err = BLOSC2_ERROR_READ_BUFFER \<or> err = BLOSC2_ERROR_INVALID_HEADER \<or>
         err = BLOSC2_ERROR_VERSION_SUPPORT
     | Inr h \<Rightarrow> header_ok True h \<and> 16 \<le> (40 :: int) \<and> (is_extended True (hdr_flags h) \<longrightarrow> 32 \<le> (40 :: int)))"
  by (rule read_chunk_header_sound) simp

text \<open>
  C36. Validating a compressed buffer of which at least 16 bytes are readable: \<open>blosc1_cbuffer_validate\<close> answers
  0 exactly when the size given is at least 16, the header is well formed, the compressed size in the header is the size given
  truncated to 32 bits, and the uncompressed size lies between 0 and the maximum buffer size, and then returns that size; in every other
  case it returns a negative code and the size 0. Since the size is truncated, it accepts a buffer whose size is
  wrong by a multiple of 2 to the power of 32.
\<close>

theorem cbuffer_validate_sound:
  assumes "16 \<le> length cbuffer"
  shows "\<exists>rc nbytes. blosc1_cbuffer_validate le cbuffer cbytes = Some (rc, nbytes) \<and> (rc = 0 \<or> rc < 0 \<and> nbytes = 0) \<and>
    (rc = 0 \<longleftrightarrow> 16 \<le> cbytes \<and> (\<exists>h. read_chunk_header le cbuffer 16 False = Some (Inr h) \<and> header_ok False h \<and>
       hdr_cbytes h = wrap32 (uint cbytes) \<and> 0 \<le> hdr_nbytes h \<and> hdr_nbytes h \<le> BLOSC2_MAX_BUFFERSIZE)) \<and>
    (rc = 0 \<longrightarrow> (\<exists>h. read_chunk_header le cbuffer 16 False = Some (Inr h) \<and> uint nbytes = hdr_nbytes h))"
proof (cases "cbytes < 16")
  case True
  then show ?thesis by (simp add: blosc1_cbuffer_validate_def linorder_not_le)
next
  case False
  then have c: "16 \<le> cbytes" by simp
  obtain r where r: "read_chunk_header le cbuffer 16 False = Some r"
    "case r of Inl err \<Rightarrow> err = BLOSC2_ERROR_READ_BUFFER \<or> err = BLOSC2_ERROR_INVALID_HEADER \<or> err = BLOSC2_ERROR_VERSION_SUPPORT
     | Inr h \<Rightarrow> header_ok False h \<and> 16 \<le> (16 :: int) \<and> (is_extended False (hdr_flags h) \<longrightarrow> 32 \<le> (16 :: int))"
    using read_chunk_header_total[of 16 cbuffer False] assms(1) by auto
  show ?thesis
  proof (cases r)
    case (Inl err)
    with r False show ?thesis by (auto simp: blosc1_cbuffer_validate_def blosc2_cbuffer_sizes_def)
  next
    case (Inr h)
    have n: "hdr_nbytes h < 2147483648" "- 2147483648 \<le> hdr_nbytes h"
      using r Inr by (auto simp: header_ok_def i32_range_def)
    have u: "uint (word_of_int (hdr_nbytes h) :: 64 word) =
        (if 0 \<le> hdr_nbytes h then hdr_nbytes h else hdr_nbytes h + 2 ^ 64)"
    proof (cases "0 \<le> hdr_nbytes h")
      case False
      have "hdr_nbytes h mod 2 ^ 64 = (hdr_nbytes h + 2 ^ 64) mod 2 ^ 64" by simp
      also have "\<dots> = hdr_nbytes h + 2 ^ 64" using n False by (intro mod_pos_pos_trivial) simp_all
      finally show ?thesis using False by (simp add: uint_word_of_int)
    qed (use n in \<open>simp add: uint_word_of_int\<close>)
    from r Inr False c n show ?thesis
      by (simp add: blosc1_cbuffer_validate_def blosc2_cbuffer_sizes_def u)
  qed
qed

text \<open>A header of 16 bytes for five stored bytes, whose size is given as \<open>2 ^ 32 + 16\<close>.\<close>

theorem cbuffer_validate_sound_witness:
  "blosc1_cbuffer_validate True [5, 1, 2, 1, 5, 0, 0, 0, 5, 0, 0, 0, 16, 0, 0, 0] 4294967312 = Some (0, 5)"
proof -
  let ?b = "[5, 1, 2, 1, 5, 0, 0, 0, 5, 0, 0, 0, 16, 0, 0, 0] :: buf"
  have "case read_chunk_header True ?b 16 False of Some (Inr h) \<Rightarrow> hdr_cbytes h = 16 \<and> hdr_nbytes h = 5 | _ \<Rightarrow> False"
    by code_simp
  then obtain h where h: "read_chunk_header True ?b 16 False = Some (Inr h)" "hdr_cbytes h = 16" "hdr_nbytes h = 5"
    by (auto split: option.splits sum.splits)
  have "header_ok False h" using read_chunk_header_total[of 16 ?b False] h(1) by auto
  with h cbuffer_validate_sound[of ?b True 4294967312] show ?thesis
    by (auto simp: wrap32_def word_uint_eq_iff)
qed

end
