(* ===== verification/Chunk_Setup.thy ===== *)
theory Chunk_Setup
  imports Chunk_Header
begin

text \<open>
  Setting up a context in \<open>blosc/blosc2.c\<close>: the context a chunk header describes, the context of a
  compression call, and the header that call writes. The tuner is the default one, without parameters;
  ZLIB and ZSTD are compiled in. The format version of a codec registered by the user is the argument
  \<open>udcodec_version\<close>.
\<close>

section \<open>Codec codes\<close>

definition compcode_to_compformat :: "int \<Rightarrow> int" where
  "compcode_to_compformat compcode =
    (if compcode = BLOSC_BLOSCLZ then BLOSC_BLOSCLZ_FORMAT
     else if compcode = BLOSC_LZ4 then BLOSC_LZ4_FORMAT
     else if compcode = BLOSC_LZ4HC then BLOSC_LZ4HC_FORMAT
     else if compcode = BLOSC_ZLIB then BLOSC_ZLIB_FORMAT
     else if compcode = BLOSC_ZSTD then BLOSC_ZSTD_FORMAT
     else BLOSC_UDCODEC_FORMAT)"

definition compcode_to_compversion :: "(int \<Rightarrow> int option) \<Rightarrow> int \<Rightarrow> int" where
  "compcode_to_compversion udcodec_version compcode =
    (if compcode = BLOSC_BLOSCLZ \<or> compcode = BLOSC_LZ4 \<or> compcode = BLOSC_LZ4HC \<or> compcode = BLOSC_ZLIB
        \<or> compcode = BLOSC_ZSTD then 1
     else case udcodec_version compcode of Some v \<Rightarrow> v | None \<Rightarrow> BLOSC2_ERROR_FAILURE)"

section \<open>Blocks\<close>

definition blosc2_calculate_blocks :: "blosc2_context \<Rightarrow> blosc2_context option" where
  "blosc2_calculate_blocks context =
    (if ctx_blocksize context = 0 then None
     else let nblocks = ctx_sourcesize context sdiv ctx_blocksize context;
              leftover = ctx_sourcesize context smod ctx_blocksize context
          in Some (context\<lparr> ctx_nblocks := (if leftover > 0 then nblocks + 1 else nblocks), ctx_leftover := leftover \<rparr>))"

section \<open>From a header to a context\<close>

definition blosc2_initialize_context_from_header ::
    "blosc2_context \<Rightarrow> blosc_header \<Rightarrow> (int \<times> blosc2_context) option" where
  "blosc2_initialize_context_from_header context header = do {
     let context = context\<lparr> ctx_header_flags := hdr_flags header, ctx_typesize := uint (hdr_typesize header),
       ctx_sourcesize := hdr_nbytes header, ctx_header_blocksize := hdr_blocksize header,
       ctx_blocksize := hdr_blocksize header, ctx_blosc2_flags2 := hdr_blosc2_flags2 header,
       ctx_blosc2_flags := hdr_blosc2_flags header,
       ctx_compcode := (let compcode = uint (drop_bit 5 (hdr_flags header))
          in if compcode = BLOSC_UDCODEC_FORMAT then uint (hdr_udcompcode header) else compcode) \<rparr>;
     context \<leftarrow> (if ctx_blosc2_flags2 context AND BLOSC2_VL_BLOCKS \<noteq> 0
       then Some (context\<lparr> ctx_nblocks := hdr_blocksize header, ctx_leftover := 0, ctx_blocksize := 0 \<rparr>)
       else blosc2_calculate_blocks context);
     let extended = ctx_header_flags context AND BLOSC_DOSHUFFLE \<noteq> 0 \<and> ctx_header_flags context AND BLOSC_DOBITSHUFFLE \<noteq> 0;
     let context = (if extended
       then context\<lparr> ctx_header_overhead := BLOSC_EXTENDED_HEADER_LENGTH,
         ctx_filters := take BLOSC2_MAX_FILTERS (hdr_filters header),
         ctx_filters_meta := take BLOSC2_MAX_FILTERS (hdr_filters_meta header),
         ctx_compcode_meta := hdr_compcode_meta header,
         ctx_filter_flags := filters_to_flags (hdr_filters header),
         ctx_special_type := special_type (hdr_blosc2_flags header) \<rparr>
       else context\<lparr> ctx_header_overhead := BLOSC_MIN_HEADER_LENGTH,
         ctx_filter_flags := get_filter_flags (ctx_header_flags context) (ctx_typesize context),
         ctx_filters := flags_to_filters (ctx_header_flags context) \<rparr>);
     let is_lazy = extended \<and> ctx_blosc2_flags context AND 8 \<noteq> 0;
     if \<not> is_lazy \<and> hdr_cbytes header > ctx_srcsize context then Some (BLOSC2_ERROR_INVALID_HEADER, context)
     else Some (0, context) }"

section \<open>The context of a compression\<close>

definition initialize_context_compression ::
    "blosc2_context \<Rightarrow> bool \<Rightarrow> int \<Rightarrow> int \<Rightarrow> int \<Rightarrow> byte list \<Rightarrow> byte list \<Rightarrow> int \<Rightarrow> int \<Rightarrow> int \<Rightarrow> int \<Rightarrow>
     (int \<times> blosc2_context) option" where
  "initialize_context_compression context src_null srcsize destsize clevel filters filters_meta typesize
      compressor blocksize splitmode = do {
     let context = context\<lparr> ctx_do_compress := True, ctx_srcsize := srcsize, ctx_output_bytes := 0,
       ctx_destsize := destsize, ctx_sourcesize := srcsize, ctx_typesize := typesize,
       ctx_filter_flags := filters_to_flags filters, ctx_filters := take BLOSC2_MAX_FILTERS filters,
       ctx_filters_meta := take BLOSC2_MAX_FILTERS filters_meta, ctx_compcode := compressor,
       ctx_clevel := clevel, ctx_splitmode := splitmode, ctx_header_blocksize := blocksize,
       ctx_blosc2_flags2 := 0, ctx_blocksize := blocksize \<rparr>;
     (rc, context) \<leftarrow> blosc_stune_next_blocksize context;
     if rc < 0 then Some (BLOSC2_ERROR_TUNER, context)
     else if srcsize > BLOSC2_MAX_BUFFERSIZE then Some (BLOSC2_ERROR_MAX_BUFSIZE_EXCEEDED, context)
     else if destsize < BLOSC2_MAX_OVERHEAD then Some (BLOSC2_ERROR_MAX_BUFSIZE_EXCEEDED, context)
     else if clevel < 0 \<or> clevel > 9 then Some (BLOSC2_ERROR_CODEC_PARAM, context)
     else if \<not> src_null \<and> ctx_use_dict context \<and> ctx_compcode context \<noteq> BLOSC_ZSTD \<and>
       ctx_compcode context \<noteq> BLOSC_LZ4 \<and> ctx_compcode context \<noteq> BLOSC_LZ4HC
     then Some (BLOSC2_ERROR_CODEC_PARAM, context)
     else if ctx_typesize context > BLOSC2_MAXTYPESIZE then Some (BLOSC2_ERROR_INVALID_PARAM, context)
     else do {
       let context = (if ctx_typesize context > BLOSC_MAX_TYPESIZE then context\<lparr> ctx_typesize := 1 \<rparr> else context);
       context \<leftarrow> blosc2_calculate_blocks context;
       Some (1, context) } }"

section \<open>From a context to a header\<close>

definition blosc2_initialize_header_from_context ::
    "bool \<Rightarrow> (int \<Rightarrow> int option) \<Rightarrow> blosc2_context \<Rightarrow> bool \<Rightarrow> blosc_header" where
  "blosc2_initialize_header_from_context le udcodec_version context extended_header =
    (let vl = ctx_blosc2_flags2 context AND BLOSC2_VL_BLOCKS \<noteq> 0;
         header_blocksize = (if ctx_header_blocksize context > 0 then ctx_header_blocksize context else ctx_blocksize context);
         header_blocksize = (if \<not> vl \<and> ctx_sourcesize context > 0 \<and> header_blocksize > ctx_sourcesize context
           then ctx_sourcesize context else header_blocksize);
         header = zero_header\<lparr>
           hdr_version := (if vl then BLOSC2_VERSION_FORMAT_VL_BLOCKS else BLOSC2_VERSION_FORMAT_STABLE),
           hdr_versionlz := word_of_int (compcode_to_compversion udcodec_version (ctx_compcode context)),
           hdr_flags := ctx_header_flags context,
           hdr_typesize := word_of_int (ctx_typesize context),
           hdr_nbytes := (if le then ctx_sourcesize context else bswap32 (ctx_sourcesize context)),
           hdr_blocksize := (if le then header_blocksize else bswap32 header_blocksize) \<rparr>
     in if extended_header
        then header\<lparr> hdr_filters := take BLOSC2_MAX_FILTERS (ctx_filters context),
          hdr_filters_meta := take BLOSC2_MAX_FILTERS (ctx_filters_meta context),
          hdr_udcompcode := word_of_int (ctx_compcode context),
          hdr_compcode_meta := ctx_compcode_meta context,
          hdr_blosc2_flags2 := ctx_blosc2_flags2 context,
          hdr_blosc2_flags := (if le then 0 else BLOSC2_BIGENDIAN) OR
            (if ctx_use_dict context then BLOSC2_USEDICT else 0) OR
            (if ctx_blosc2_flags context AND BLOSC2_INSTR_CODEC \<noteq> 0 then BLOSC2_INSTR_CODEC else 0) \<rparr>
        else header)"

text \<open>\<open>write_compression_header\<close>: the flags first, then the header into the destination.\<close>

definition memcpyed_flag :: "blosc2_context \<Rightarrow> byte" where
  "memcpyed_flag context =
    (let vlblocks = ctx_blosc2_flags2 context AND BLOSC2_VL_BLOCKS \<noteq> 0
     in (if \<not> vlblocks \<and> ctx_clevel context = 0 then BLOSC_MEMCPYED else 0) OR
        (if \<not> vlblocks \<and> ctx_sourcesize context < BLOSC_MIN_BUFFERSIZE then BLOSC_MEMCPYED else 0))"

definition header_start :: "blosc2_context \<Rightarrow> bool \<Rightarrow> blosc2_context" where
  "header_start context extended_header =
    (let context = (if ctx_clevel context = 0 then context\<lparr> ctx_use_dict := False \<rparr> else context);
         flags = memcpyed_flag context
     in context\<lparr> ctx_header_flags := (if extended_header then flags OR (BLOSC_DOSHUFFLE OR BLOSC_DOBITSHUFFLE) else flags),
          ctx_header_overhead := (if extended_header then BLOSC_EXTENDED_HEADER_LENGTH else BLOSC_MIN_HEADER_LENGTH) \<rparr>)"

definition place_bstarts :: "blosc2_context \<Rightarrow> bool \<Rightarrow> bool \<Rightarrow> blosc2_context option" where
  "place_bstarts context extended_header memcpyed =
    (let dict_training = ctx_use_dict context \<and> \<not> ctx_has_cdict context
     in if memcpyed \<or> extended_header \<and> dict_training
       then Some (context\<lparr> ctx_bstarts := None, ctx_output_bytes := ctx_header_overhead context \<rparr>)
       else do {
         bstarts_nbytes \<leftarrow> i32 (4 * ctx_nblocks context);
         output_bytes \<leftarrow> i32 (ctx_header_overhead context + bstarts_nbytes);
         Some (context\<lparr> ctx_bstarts := Some (nat (ctx_header_overhead context)), ctx_output_bytes := output_bytes \<rparr>) })"

text \<open>The flags of a chunk that is not copied: filters, splitting and codec.\<close>

definition codec_flags :: "blosc2_context \<Rightarrow> byte" where
  "codec_flags context =
    (ctx_filter_flags context AND BLOSC_DOSHUFFLE)
     OR (ctx_filter_flags context AND BLOSC_DOBITSHUFFLE)
     OR (ctx_filter_flags context AND BLOSC_DODELTA)
     OR (if ctx_blosc2_flags2 context AND BLOSC2_VL_BLOCKS \<noteq> 0
           \<or> \<not> split_block context (ctx_typesize context) (ctx_blocksize context) then 16 else 0)
     OR word_of_int (compcode_to_compformat (ctx_compcode context) * 2 ^ 5)"

definition prepare_header :: "blosc2_context \<Rightarrow> bool \<Rightarrow> blosc2_context option" where
  "prepare_header context extended_header = do {
     let context = header_start context extended_header;
     let memcpyed = ctx_header_flags context AND BLOSC_MEMCPYED \<noteq> 0;
     context \<leftarrow> place_bstarts context extended_header memcpyed;
     if memcpyed then Some context
     else if ctx_output_bytes context > ctx_destsize context
     then Some (context\<lparr> ctx_header_flags := ctx_header_flags context OR BLOSC_MEMCPYED, ctx_bstarts := None,
       ctx_output_bytes := ctx_header_overhead context \<rparr>)
     else Some (context\<lparr> ctx_header_flags := ctx_header_flags context OR codec_flags context \<rparr>) }"

definition write_compression_header ::
    "bool \<Rightarrow> (int \<Rightarrow> int option) \<Rightarrow> blosc2_context \<Rightarrow> bool \<Rightarrow> buf \<Rightarrow> (int \<times> blosc2_context \<times> buf) option" where
  "write_compression_header le udcodec_version context extended_header dest = do {
     context \<leftarrow> prepare_header context extended_header;
     let header = blosc2_initialize_header_from_context le udcodec_version context extended_header;
     dest \<leftarrow> store_el dest 0 (min_header_image le header @ (if extended_header then ext_header_image header else []));
     Some (1, context, dest) }"

section \<open>The header image\<close>

definition header_range :: "blosc_header \<Rightarrow> bool" where
  "header_range h \<longleftrightarrow> i32_range (hdr_nbytes h) \<and> i32_range (hdr_blocksize h) \<and> i32_range (hdr_cbytes h) \<and>
     length (hdr_filters h) = 6 \<and> length (hdr_filters_meta h) = 6"

lemma length_min_header_image [simp]: "length (min_header_image le h) = 16"
  by (simp add: min_header_image_def)

lemma length_ext_header_image: "header_range h \<Longrightarrow> length (ext_header_image h) = 16"
  by (simp add: ext_header_image_def header_range_def)

lemma min_header_of_image_image:
  assumes "header_range h"
  shows "min_header_of_image True (min_header_image True h) = zero_header\<lparr> hdr_version := hdr_version h,
    hdr_versionlz := hdr_versionlz h, hdr_flags := hdr_flags h, hdr_typesize := hdr_typesize h,
    hdr_nbytes := hdr_nbytes h, hdr_blocksize := hdr_blocksize h, hdr_cbytes := hdr_cbytes h \<rparr>"
proof -
  let ?b = "min_header_image True h"
  have "?b ! 0 = hdr_version h" "?b ! 1 = hdr_versionlz h" "?b ! 2 = hdr_flags h" "?b ! 3 = hdr_typesize h"
    by (simp_all add: min_header_image_def eval_nat_numeral)
  moreover have "take 4 (drop 4 ?b) = int32_bytes True (hdr_nbytes h)"
    "take 4 (drop 8 ?b) = int32_bytes True (hdr_blocksize h)" "take 4 (drop 12 ?b) = int32_bytes True (hdr_cbytes h)"
    by (simp_all add: min_header_image_def)
  ultimately show ?thesis
    using assms by (simp add: min_header_of_image_def header_range_def int32_of_bytes_int32_bytes)
qed

lemma ext_header_of_image_image:
  assumes "header_range h"
    and "g = zero_header\<lparr> hdr_version := hdr_version h, hdr_versionlz := hdr_versionlz h, hdr_flags := hdr_flags h,
      hdr_typesize := hdr_typesize h, hdr_nbytes := hdr_nbytes h, hdr_blocksize := hdr_blocksize h, hdr_cbytes := hdr_cbytes h \<rparr>"
  shows "ext_header_of_image (ext_header_image h) g = h"
proof -
  have "length (hdr_filters h) = 6" "length (hdr_filters_meta h) = 6" using assms(1) by (auto simp: header_range_def)
  then have "take 6 (ext_header_image h) = hdr_filters h" "ext_header_image h ! 6 = hdr_udcompcode h"
    "ext_header_image h ! 7 = hdr_compcode_meta h" "take 6 (drop 8 (ext_header_image h)) = hdr_filters_meta h"
    "ext_header_image h ! 14 = hdr_blosc2_flags2 h" "ext_header_image h ! 15 = hdr_blosc2_flags h"
    by (simp_all add: ext_header_image_def nth_append)
  then show ?thesis by (simp add: ext_header_of_image_def assms(2))
qed

text \<open>Reading a header image that is extended, long enough and has consistent sizes.\<close>

lemma read_header_image:
  assumes "header_range h" "32 \<le> srcsize" "nat srcsize \<le> length src" "take 32 src = min_header_image True h @ ext_header_image h"
    and "min_header_ok h" "32 \<le> hdr_cbytes h" "is_extended True (hdr_flags h)"
  shows "read_chunk_header le src srcsize True =
    Some (case check_special h of Inl err \<Rightarrow> Inl err | Inr h \<Rightarrow> check_version h)"
proof -
  have "take 16 src = take 16 (take 32 src)" "take 16 (drop 16 src) = drop 16 (take 32 src)"
    by (simp_all add: drop_take)
  then have t: "take 16 src = min_header_image True h" "take 16 (drop 16 src) = ext_header_image h"
    unfolding assms(4) by simp_all
  show ?thesis
    using read_chunk_header_eq[OF assms(3), of le True, unfolded t] assms
    by (simp add: min_header_of_image_image[OF assms(1)] ext_header_of_image_image[OF assms(1) refl] min_header_ok_def)
qed

text \<open>The image written is the little-endian one on every host.\<close>

definition logical_blocksize :: "blosc2_context \<Rightarrow> int" where
  "logical_blocksize c = (let b = (if ctx_header_blocksize c > 0 then ctx_header_blocksize c else ctx_blocksize c)
     in if ctx_blosc2_flags2 c AND BLOSC2_VL_BLOCKS = 0 \<and> ctx_sourcesize c > 0 \<and> b > ctx_sourcesize c
        then ctx_sourcesize c else b)"

definition logical_header :: "bool \<Rightarrow> (int \<Rightarrow> int option) \<Rightarrow> blosc2_context \<Rightarrow> blosc_header" where
  "logical_header le cv c = (blosc2_initialize_header_from_context le cv c True)\<lparr>
     hdr_nbytes := ctx_sourcesize c, hdr_blocksize := logical_blocksize c \<rparr>"

lemma init_header_fields:
  defines "ih \<equiv> \<lambda>le cv c. blosc2_initialize_header_from_context le cv c True"
  shows "hdr_nbytes (ih le cv c) = (if le then ctx_sourcesize c else bswap32 (ctx_sourcesize c))"
    and "hdr_blocksize (ih le cv c) = (if le then logical_blocksize c else bswap32 (logical_blocksize c))"
    and "hdr_cbytes (ih le cv c) = 0"
    and "hdr_flags (ih le cv c) = ctx_header_flags c"
    and "hdr_typesize (ih le cv c) = word_of_int (ctx_typesize c)"
    and "hdr_version (ih le cv c) = (if ctx_blosc2_flags2 c AND BLOSC2_VL_BLOCKS \<noteq> 0 then 6 else 5)"
    and "hdr_filters (ih le cv c) = take 6 (ctx_filters c)"
    and "hdr_filters_meta (ih le cv c) = take 6 (ctx_filters_meta c)"
    and "hdr_udcompcode (ih le cv c) = word_of_int (ctx_compcode c)"
    and "hdr_compcode_meta (ih le cv c) = ctx_compcode_meta c"
    and "hdr_blosc2_flags2 (ih le cv c) = ctx_blosc2_flags2 c"
    and "hdr_blosc2_flags (ih le cv c) = (if le then 0 else BLOSC2_BIGENDIAN) OR
       (if ctx_use_dict c then BLOSC2_USEDICT else 0) OR
       (if ctx_blosc2_flags c AND BLOSC2_INSTR_CODEC \<noteq> 0 then BLOSC2_INSTR_CODEC else 0)"
  by (simp_all add: ih_def blosc2_initialize_header_from_context_def logical_blocksize_def Let_def zero_header_def)

lemma le_bytes_0: "le_bytes n 0 = replicate n 0"
  by (induction n) auto

lemma written_image:
  assumes "i32_range (ctx_sourcesize c)" "i32_range (logical_blocksize c)"
  shows "min_header_image le (blosc2_initialize_header_from_context le cv c True)
      @ ext_header_image (blosc2_initialize_header_from_context le cv c True)
    = min_header_image True (logical_header le cv c) @ ext_header_image (logical_header le cv c)"
proof -
  have "int32_bytes le 0 = int32_bytes True 0"
    by (simp add: int32_bytes_def host_order_def le_bytes_0)
  with bswap_bytes[OF assms(1), of le] bswap_bytes[OF assms(2), of le] show ?thesis
    by (simp add: min_header_image_def ext_header_image_def logical_header_def init_header_fields)
qed

section \<open>Writing a header and reading it back\<close>

lemma special_flags_0:
  "special_type ((if le then 0 else BLOSC2_BIGENDIAN) OR (if d then BLOSC2_USEDICT else 0) OR
     (if i then BLOSC2_INSTR_CODEC else 0)) = 0"
  by (cases le; cases d; cases i) (simp_all add: special_type_def)

text \<open>A header of fixed-size blocks as this version writes it passes all checks.\<close>

lemma check_written:
  assumes "hdr_version h = 5" "special_type (hdr_blosc2_flags h) = 0" "hdr_blosc2_flags2 h = 0"
    and "0 < hdr_nbytes h \<Longrightarrow> hdr_blocksize h \<le> hdr_nbytes h"
  shows "check_special h = Inr h" "check_version h = Inr h"
proof -
  show "check_special h = Inr h"
    using assms(1-3) by (simp add: check_special_def Let_def)
  show "check_version h = Inr h"
    using assms by (auto simp: check_version_def)
qed

text \<open>What \<open>write_compression_header\<close> does to the context.\<close>

lemma flag_bit: "(x :: byte) AND 1 \<noteq> 0 \<longleftrightarrow> bit x 0" "x AND 2 \<noteq> 0 \<longleftrightarrow> bit x 1" "x AND 4 \<noteq> 0 \<longleftrightarrow> bit x 2"
  using and_exp_eq_0_iff_not_bit[of x 0] and_exp_eq_0_iff_not_bit[of x 1] and_exp_eq_0_iff_not_bit[of x 2] by simp_all

definition prepared :: "blosc2_context \<Rightarrow> blosc2_context \<Rightarrow> bool" where
  "prepared c c' \<longleftrightarrow> bit (ctx_header_flags c') 0 \<and> bit (ctx_header_flags c') 2 \<and>
     c'\<lparr> ctx_header_flags := 0, ctx_bstarts := None, ctx_output_bytes := 0, ctx_use_dict := False \<rparr> =
     c\<lparr> ctx_header_flags := 0, ctx_header_overhead := 32, ctx_bstarts := None, ctx_output_bytes := 0, ctx_use_dict := False \<rparr>"

lemma prepared_start: "prepared c (header_start c True)"
  by (simp add: prepared_def header_start_def Let_def bit_or_iff bit_numeral_rec bit_1_iff)

lemma prepared_bstarts: "prepared c d \<Longrightarrow> prepared c (d\<lparr> ctx_bstarts := b, ctx_output_bytes := n \<rparr>)"
  by (simp add: prepared_def)

lemma prepared_flags: "prepared c d \<Longrightarrow> prepared c (d\<lparr> ctx_header_flags := ctx_header_flags d OR x \<rparr>)"
  by (simp add: prepared_def bit_or_iff)

lemma prepared_memcpyed:
  "prepared c d \<Longrightarrow> prepared c (d\<lparr> ctx_header_flags := ctx_header_flags d OR x, ctx_bstarts := b, ctx_output_bytes := n \<rparr>)"
  by (simp add: prepared_def bit_or_iff)

lemma prepared_same:
  assumes "prepared c d"
  shows "ctx_nblocks d = ctx_nblocks c" "ctx_header_overhead d = 32" "ctx_sourcesize d = ctx_sourcesize c"
    "ctx_blocksize d = ctx_blocksize c" "ctx_header_blocksize d = ctx_header_blocksize c"
    "ctx_typesize d = ctx_typesize c" "ctx_filters d = ctx_filters c" "ctx_filters_meta d = ctx_filters_meta c"
    "ctx_compcode d = ctx_compcode c" "ctx_compcode_meta d = ctx_compcode_meta c"
    "ctx_blosc2_flags d = ctx_blosc2_flags c" "ctx_blosc2_flags2 d = ctx_blosc2_flags2 c"
  using arg_cong[OF assms[unfolded prepared_def, THEN conjunct2, THEN conjunct2], of ctx_nblocks]
    arg_cong[OF assms[unfolded prepared_def, THEN conjunct2, THEN conjunct2], of ctx_header_overhead]
    arg_cong[OF assms[unfolded prepared_def, THEN conjunct2, THEN conjunct2], of ctx_sourcesize]
    arg_cong[OF assms[unfolded prepared_def, THEN conjunct2, THEN conjunct2], of ctx_blocksize]
    arg_cong[OF assms[unfolded prepared_def, THEN conjunct2, THEN conjunct2], of ctx_header_blocksize]
    arg_cong[OF assms[unfolded prepared_def, THEN conjunct2, THEN conjunct2], of ctx_typesize]
    arg_cong[OF assms[unfolded prepared_def, THEN conjunct2, THEN conjunct2], of ctx_filters]
    arg_cong[OF assms[unfolded prepared_def, THEN conjunct2, THEN conjunct2], of ctx_filters_meta]
    arg_cong[OF assms[unfolded prepared_def, THEN conjunct2, THEN conjunct2], of ctx_compcode]
    arg_cong[OF assms[unfolded prepared_def, THEN conjunct2, THEN conjunct2], of ctx_compcode_meta]
    arg_cong[OF assms[unfolded prepared_def, THEN conjunct2, THEN conjunct2], of ctx_blosc2_flags]
    arg_cong[OF assms[unfolded prepared_def, THEN conjunct2, THEN conjunct2], of ctx_blosc2_flags2]
  by simp_all

lemma prepare_header_spec:
  assumes "0 \<le> ctx_nblocks c" "32 + 4 * ctx_nblocks c < 2 ^ 31"
  shows "\<exists>c'. prepare_header c True = Some c' \<and> prepared c c'"
proof -
  let ?s = "header_start c True"
  have "\<exists>d. place_bstarts ?s True m = Some d \<and> prepared c d" for m
    using assms prepared_bstarts[OF prepared_start] by (simp add: place_bstarts_def Let_def prepared_same[OF prepared_start])
  then obtain d where "place_bstarts ?s True (ctx_header_flags ?s AND BLOSC_MEMCPYED \<noteq> 0) = Some d" "prepared c d"
    by blast
  then show ?thesis
    by (simp add: prepare_header_def Let_def prepared_flags prepared_memcpyed)
qed

text \<open>The compressed size is written over bytes 12 to 15.\<close>

lemma store_cbytes:
  assumes "i32_range cb"
  shows "store_sw32 le (min_header_image True h @ e) 12 cb = Some (min_header_image True (h\<lparr> hdr_cbytes := cb \<rparr>) @ e)"
  by (simp add: store_sw32_eq[OF assms] store_el_Some min_header_image_def)

text \<open>The context a written header is read into.\<close>

definition described :: "blosc2_context \<Rightarrow> blosc2_context \<Rightarrow> bool" where
  "described c d \<longleftrightarrow> ctx_typesize d = ctx_typesize c \<and> ctx_sourcesize d = ctx_sourcesize c \<and>
     ctx_blocksize d = ctx_blocksize c \<and> ctx_nblocks d = ctx_nblocks c \<and> ctx_leftover d = ctx_leftover c \<and>
     ctx_filters d = ctx_filters c \<and> ctx_filters_meta d = ctx_filters_meta c \<and>
     ctx_compcode_meta d = ctx_compcode_meta c \<and> ctx_filter_flags d = filters_to_flags (ctx_filters c) \<and>
     ctx_header_overhead d = 32 \<and> ctx_special_type d = 0"

lemma context_from_written:
  assumes "hdr_blosc2_flags2 h = 0" "hdr_blocksize h = ctx_blocksize c" "0 < ctx_blocksize c"
    and "uint (hdr_typesize h) = ctx_typesize c" "hdr_nbytes h = ctx_sourcesize c" "hdr_cbytes h \<le> ctx_srcsize d"
    and "hdr_filters h = ctx_filters c" "hdr_filters_meta h = ctx_filters_meta c"
    and "hdr_compcode_meta h = ctx_compcode_meta c" "special_type (hdr_blosc2_flags h) = 0"
    and "bit (hdr_flags h) 0" "bit (hdr_flags h) 2" "length (ctx_filters c) = 6" "length (ctx_filters_meta c) = 6"
    and "blosc2_calculate_blocks c = Some c"
  shows "\<exists>d'. blosc2_initialize_context_from_header d h = Some (0, d') \<and> described c d' \<and> ctx_header_flags d' = hdr_flags h"
proof -
  have blocks: "ctx_nblocks c = (if ctx_sourcesize c smod ctx_blocksize c > 0
      then ctx_sourcesize c sdiv ctx_blocksize c + 1 else ctx_sourcesize c sdiv ctx_blocksize c)"
    "ctx_leftover c = ctx_sourcesize c smod ctx_blocksize c"
    using arg_cong[OF assms(15), of "map_option ctx_nblocks"] arg_cong[OF assms(15), of "map_option ctx_leftover"] assms(3)
    by (simp_all add: blosc2_calculate_blocks_def Let_def)
  have ext: "hdr_flags h AND BLOSC_DOSHUFFLE \<noteq> 0" "hdr_flags h AND BLOSC_DOBITSHUFFLE \<noteq> 0"
    using assms(11,12) by (simp_all add: flag_bit)
  have "ctx_blocksize c \<noteq> 0" using assms(3) by simp
  then show ?thesis
    unfolding blosc2_initialize_context_from_header_def blosc2_calculate_blocks_def described_def
    using assms(1,2,4-10,13,14) ext by (simp add: Let_def blocks)
qed

text \<open>Writing a header, filling in the compressed size and reading it back, for any block size.\<close>

definition header_for :: "blosc2_context \<Rightarrow> blosc2_context \<Rightarrow> int \<Rightarrow> blosc_header \<Rightarrow> bool" where
  "header_for c c' cb h \<longleftrightarrow> header_ok True h \<and> hdr_nbytes h = ctx_sourcesize c \<and>
     hdr_blocksize h = logical_blocksize c \<and> hdr_cbytes h = cb \<and> hdr_flags h = ctx_header_flags c' \<and>
     uint (hdr_typesize h) = ctx_typesize c \<and> hdr_filters h = ctx_filters c \<and>
     hdr_filters_meta h = ctx_filters_meta c \<and> hdr_compcode_meta h = ctx_compcode_meta c \<and>
     hdr_blosc2_flags2 h = 0 \<and> special_type (hdr_blosc2_flags h) = 0"

lemma write_read_header:
  assumes "0 < ctx_typesize c" "ctx_typesize c \<le> 255" "i32_range (ctx_sourcesize c)"
    and "0 < logical_blocksize c" "logical_blocksize c \<le> BLOSC2_MAXBLOCKSIZE"
    and "0 < ctx_sourcesize c \<Longrightarrow> logical_blocksize c \<le> ctx_sourcesize c"
    and "0 \<le> ctx_nblocks c" "32 + 4 * ctx_nblocks c < 2 ^ 31"
    and "length (ctx_filters c) = 6" "length (ctx_filters_meta c) = 6" "ctx_blosc2_flags2 c = 0"
    and "32 \<le> length dest" "32 \<le> cb" "i32_range cb"
  shows "\<exists>c' d d' h. prepared c c' \<and> write_compression_header le cv c True dest = Some (1, c', d) \<and>
    store_sw32 le d 12 cb = Some d' \<and> length d' = length dest \<and> drop 32 d' = drop 32 dest \<and>
    read_chunk_header le' d' (int (length dest)) True = Some (Inr h) \<and> header_for c c' cb h"
proof -
  obtain c' where c': "prepare_header c True = Some c'" and p: "prepared c c'"
    using prepare_header_spec assms(7,8) by blast
  note same = prepared_same[OF p]
  have bsz: "logical_blocksize c' = logical_blocksize c" unfolding logical_blocksize_def same ..
  define g where "g = (logical_header le cv c')\<lparr> hdr_cbytes := cb \<rparr>"
  have sp: "special_type (hdr_blosc2_flags g) = 0"
    using special_flags_0 by (simp add: g_def logical_header_def init_header_fields)
  have ts: "uint (word_of_int (ctx_typesize c) :: byte) = ctx_typesize c"
    using assms(1,2) by (simp add: uint_word_of_int)
  have fields: "hdr_nbytes g = ctx_sourcesize c" "hdr_blocksize g = logical_blocksize c" "hdr_cbytes g = cb"
    "hdr_flags g = ctx_header_flags c'" "uint (hdr_typesize g) = ctx_typesize c" "hdr_version g = 5"
    "hdr_filters g = ctx_filters c" "hdr_filters_meta g = ctx_filters_meta c"
    "hdr_compcode_meta g = ctx_compcode_meta c" "hdr_blosc2_flags2 g = 0"
    using assms(9-11) ts by (simp_all add: g_def logical_header_def init_header_fields same bsz)
  have range: "i32_range (ctx_sourcesize c')" "i32_range (logical_blocksize c')"
    using assms(3-5) by (simp_all add: same bsz i32_range_def)
  have gr: "header_range g" using range assms(9,10,14) by (simp add: header_range_def fields same bsz)
  have ext: "is_extended True (hdr_flags g)" using p by (simp add: fields prepared_def is_extended_def flag_bit)
  have "hdr_typesize g \<noteq> 0" using fields(5) assms(1) by auto
  then have ok: "min_header_ok g" using assms(4,5,13) by (simp add: min_header_ok_def fields)
  have eq: "ext_header_image (logical_header le cv c') = ext_header_image g"
    by (simp add: g_def ext_header_image_def)
  have le16: "length (ext_header_image g) = 16" by (rule length_ext_header_image[OF gr])
  let ?d = "min_header_image True g @ ext_header_image g @ drop 32 dest"
  have "write_compression_header le cv c True dest =
      Some (1, c', min_header_image True (logical_header le cv c') @ ext_header_image g @ drop 32 dest)"
    using assms(12) le16 written_image[OF range, of le cv] eq
    by (simp add: write_compression_header_def c' store_el_Some Let_def)
  moreover have "store_sw32 le (min_header_image True (logical_header le cv c') @ ext_header_image g @ drop 32 dest) 12 cb
      = Some ?d"
    unfolding store_cbytes[OF assms(14)] g_def by simp
  moreover have len: "length ?d = length dest" "drop 32 ?d = drop 32 dest" using assms(12) le16 by simp_all
  moreover have "read_chunk_header le' ?d (int (length dest)) True =
      Some (case check_special g of Inl err \<Rightarrow> Inl err | Inr h \<Rightarrow> check_version h)"
    by (rule read_header_image[OF gr _ _ _ ok _ ext]) (use assms(12,13) len le16 fields in simp_all)
  then have rd: "read_chunk_header le' ?d (int (length dest)) True = Some (Inr g)"
    using check_written[of g] fields sp assms(6) by simp
  moreover have "header_ok True g"
    using read_chunk_header_sound[of "int (length dest)" ?d True] len(1) rd by auto
  ultimately show ?thesis
    using p fields sp unfolding header_for_def by blast
qed

text \<open>
  C18. A reader sees the chunk the writer meant. Take the context of a compression with
  fixed-size blocks whose header block size is unset or the block size in use, as on every call that lets
  the tuner choose it. After the header has been written and the compressed size filled in, a host of any
  byte order reads a valid header from the chunk, and the context it sets up has the writer's type size,
  uncompressed size, block size, number of blocks, length of the last block, filters and their
  parameters. Nothing beyond the 32 bytes of the header is touched.
\<close>

theorem chunk_header_roundtrip:
  assumes "0 < ctx_typesize c" "ctx_typesize c \<le> 255" "0 \<le> ctx_sourcesize c" "ctx_sourcesize c < 2 ^ 31"
    and "0 < ctx_blocksize c" "ctx_blocksize c \<le> max 1 (ctx_sourcesize c)" "ctx_blocksize c \<le> BLOSC2_MAXBLOCKSIZE"
    and "blosc2_calculate_blocks c = Some c" "32 + 4 * ctx_nblocks c < 2 ^ 31" "0 \<le> ctx_nblocks c"
    and "length (ctx_filters c) = 6" "length (ctx_filters_meta c) = 6" "ctx_blosc2_flags2 c = 0"
    and "ctx_header_blocksize c \<le> 0 \<or> ctx_header_blocksize c = ctx_blocksize c"
    and "32 \<le> length dest" "length dest < 2 ^ 31" "32 \<le> cb" "cb \<le> int (length dest)" "cb \<le> ctx_srcsize r"
  shows "\<exists>c' d d' h r'. write_compression_header le cv c True dest = Some (1, c', d) \<and>
    store_sw32 le d 12 cb = Some d' \<and> length d' = length dest \<and> drop 32 d' = drop 32 dest \<and>
    read_chunk_header le' d' (int (length dest)) True = Some (Inr h) \<and> header_ok True h \<and> hdr_cbytes h = cb \<and>
    blosc2_initialize_context_from_header r h = Some (0, r') \<and> described c r' \<and>
    ctx_header_flags r' = ctx_header_flags c'"
proof -
  have bsz: "logical_blocksize c = ctx_blocksize c"
    unfolding logical_blocksize_def Let_def using assms(5,6,13,14) by auto
  have sz: "logical_blocksize c \<le> ctx_sourcesize c" if "0 < ctx_sourcesize c"
    using assms(6) bsz that by simp
  have rng: "i32_range (ctx_sourcesize c)" "i32_range cb" using assms(3,4,16-18) by (simp_all add: i32_range_def)
  obtain c' d d' h where w: "prepared c c'" "write_compression_header le cv c True dest = Some (1, c', d)"
    "store_sw32 le d 12 cb = Some d'" "length d' = length dest" "drop 32 d' = drop 32 dest"
    "read_chunk_header le' d' (int (length dest)) True = Some (Inr h)" and h: "header_for c c' cb h"
    using write_read_header[OF assms(1,2) rng(1) _ _ sz assms(10,9,11-13,15,17) rng(2), of le cv le'] assms(5,7) bsz
    by auto
  have bits: "bit (hdr_flags h) 0" "bit (hdr_flags h) 2" using w(1) h by (simp_all add: prepared_def header_for_def)
  obtain r' where "blosc2_initialize_context_from_header r h = Some (0, r')" "described c r'"
    "ctx_header_flags r' = ctx_header_flags c'"
    using context_from_written[of h c r] h bits assms bsz by (auto simp: header_for_def)
  with w h show ?thesis unfolding header_for_def by blast
qed

text \<open>A context for 10,000 bytes of 4-byte elements in blocks of 1,000 bytes.\<close>

definition sample_blocks :: blosc2_context where
  "sample_blocks = (sample_context BLOSC_BLOSCLZ 5 4 10000 1000)\<lparr> ctx_nblocks := 10 \<rparr>"

theorem chunk_header_roundtrip_witness:
  "\<exists>c' d d' h r'. write_compression_header True (\<lambda>_. None) sample_blocks True (replicate 20000 0) = Some (1, c', d) \<and>
    store_sw32 True d 12 5000 = Some d' \<and> length d' = length (replicate 20000 (0 :: byte)) \<and>
    drop 32 d' = drop 32 (replicate 20000 0) \<and>
    read_chunk_header False d' (int (length (replicate 20000 (0 :: byte)))) True = Some (Inr h) \<and> header_ok True h \<and> hdr_cbytes h = 5000 \<and>
    blosc2_initialize_context_from_header sample_blocks h = Some (0, r') \<and> described sample_blocks r' \<and>
    ctx_header_flags r' = ctx_header_flags c'"
  by (rule chunk_header_roundtrip)
    (simp_all add: sample_blocks_def sample_context_def blosc2_calculate_blocks_def)

section \<open>A block size the caller asks for\<close>

lemma clip_user_blocksize:
  assumes "0 < t" "t < b" "b \<le> n"
  shows "clip_blocksize n t b = b div t * t"
  using assms by (simp add: clip_blocksize_def)

text \<open>
  C39. A block size asked for by the caller that is larger than an element and no
  multiple of the type size is rounded down for cutting the buffer, but the header of the chunk stores it
  as asked for. The context of the compression then works with blocks of \<open>b div t * t\<close> bytes, while every
  reader of the chunk is told blocks of \<open>b\<close> bytes.
\<close>

theorem stored_blocksize_differs:
  assumes "0 < t" "t \<le> 255" "t < b" "\<not> t dvd b" "b \<le> BLOSC2_MAXBLOCKSIZE" "b \<le> n" "n \<le> BLOSC2_MAX_BUFFERSIZE"
    and "32 \<le> destsize" "0 \<le> clevel" "clevel \<le> 9" "\<not> ctx_use_dict c"
    and "length fs = 6" "length ms = 6" "32 \<le> length dest" "length dest < 2 ^ 31"
    and "32 + 4 * (n div (b div t * t) + 1) < 2 ^ 31"
  shows "\<exists>c' c'' d d' h.
    initialize_context_compression c False n destsize clevel fs ms t compressor b split = Some (1, c') \<and>
    write_compression_header le cv c' True dest = Some (1, c'', d) \<and>
    store_sw32 le d 12 32 = Some d' \<and>
    read_chunk_header le' d' (int (length dest)) True = Some (Inr h) \<and>
    ctx_blocksize c' = b div t * t \<and> ctx_blocksize c'' = b div t * t \<and> b div t * t < b \<and> hdr_blocksize h = b"
proof -
  define r where "r = b div t * t"
  have "0 < b div t" using assms(1,3) by (simp add: pos_imp_zdiv_pos_iff)
  then have r0: "0 < r" using assms(1) by (simp add: r_def)
  have "b mod t \<noteq> 0" using assms(4) by (simp add: mod_eq_0_iff_dvd)
  then have "0 < b mod t" using assms(1) by (simp add: le_neq_trans)
  then have rb: "r < b" by (simp add: r_def minus_mod_eq_div_mult[symmetric])
  define c1 where "c1 = c\<lparr> ctx_do_compress := True, ctx_srcsize := n, ctx_output_bytes := 0,
       ctx_destsize := destsize, ctx_sourcesize := n, ctx_typesize := t,
       ctx_filter_flags := filters_to_flags fs, ctx_filters := take BLOSC2_MAX_FILTERS fs,
       ctx_filters_meta := take BLOSC2_MAX_FILTERS ms, ctx_compcode := compressor,
       ctx_clevel := clevel, ctx_splitmode := split, ctx_header_blocksize := b,
       ctx_blosc2_flags2 := 0, ctx_blocksize := b \<rparr>"
  have f: "ctx_sourcesize c1 = n" "ctx_typesize c1 = t" "ctx_blocksize c1 = b" by (simp_all add: c1_def)
  have "blosc_stune_next_blocksize c1 = Some (0, c1\<lparr> ctx_blocksize := r \<rparr>)"
    using assms(1,3,6) clip_user_blocksize[of t b n] by (simp add: blosc_stune_next_blocksize_def f Let_def r_def)
  then obtain c' where c': "initialize_context_compression c False n destsize clevel fs ms t compressor b split = Some (1, c')"
      "blosc2_calculate_blocks (c1\<lparr> ctx_blocksize := r \<rparr>) = Some c'"
    using assms r0 unfolding initialize_context_compression_def c1_def[symmetric]
    by (simp add: c1_def blosc2_calculate_blocks_def Let_def)
  from c'(2) have fields: "ctx_blocksize c' = r" "ctx_header_blocksize c' = b" "ctx_sourcesize c' = n" "ctx_typesize c' = t"
    "ctx_blosc2_flags2 c' = 0" "ctx_filters c' = fs" "ctx_filters_meta c' = ms"
    "ctx_nblocks c' = (if n mod r > 0 then n div r + 1 else n div r)"
    using r0 rb assms(6,12,13) by (auto simp: blosc2_calculate_blocks_def c1_def Let_def split: if_splits)
  have nb: "0 \<le> ctx_nblocks c'" "32 + 4 * ctx_nblocks c' < 2 ^ 31"
    using assms(16) r0 rb assms(6) pos_imp_zdiv_nonneg_iff[OF r0, of n] by (auto simp: fields r_def[symmetric])
  have bsz: "logical_blocksize c' = b"
    unfolding logical_blocksize_def Let_def fields using assms(6) r0 rb by simp
  obtain c'' d d' h where w: "prepared c' c''" "write_compression_header le cv c' True dest = Some (1, c'', d)"
    "store_sw32 le d 12 32 = Some d'" "read_chunk_header le' d' (int (length dest)) True = Some (Inr h)"
    and h: "header_for c' c'' 32 h"
    using write_read_header[of c' dest 32 le cv le'] assms bsz nb r0 rb fields by (auto simp: i32_range_def)
  have "hdr_blocksize h = b" using h bsz by (simp add: header_for_def)
  moreover have "ctx_blocksize c'' = b div t * t" using prepared_same(4)[OF w(1)] fields(1) by (simp add: r_def)
  ultimately show ?thesis using c'(1) w(2-4) fields(1) rb unfolding r_def by blast
qed

theorem stored_blocksize_differs_witness:
  "\<exists>c' c'' d d' h.
    initialize_context_compression sample_blocks False 10000 20000 5 [0, 0, 0, 0, 0, 1] [0, 0, 0, 0, 0, 0] 4
      BLOSC_BLOSCLZ 1001 BLOSC_FORWARD_COMPAT_SPLIT = Some (1, c') \<and>
    write_compression_header True (\<lambda>_. None) c' True (replicate 20000 0) = Some (1, c'', d) \<and>
    store_sw32 True d 12 32 = Some d' \<and>
    read_chunk_header True d' (int (length (replicate 20000 (0 :: byte)))) True = Some (Inr h) \<and>
    ctx_blocksize c' = 1001 div 4 * 4 \<and> ctx_blocksize c'' = 1001 div 4 * 4 \<and> 1001 div 4 * 4 < (1001 :: int) \<and>
    hdr_blocksize h = 1001"
  by (rule stored_blocksize_differs) (simp_all add: sample_blocks_def sample_context_def)

end
