(* ===== verification/Fastcopy.thy ===== *)
theory Fastcopy
  imports Prelude
begin

text \<open>
  \<open>blosc/fastcopy.c\<close> in the portable build (no SSE2 or AVX2, unaligned word access, a compiler other
  than GCC before version 8): copies inside one buffer whose source and destination may overlap.
  Pointers are positions; every routine returns the advanced \<open>out\<close> with the memory.
\<close>

section \<open>Fixed-size copies\<close>

text \<open>
  A copy of 1, 2, 4 or 8 bytes through a register: \<open>copy_1_bytes\<close>, \<open>copy_2_bytes\<close>, \<open>copy_4_bytes\<close> and
  \<open>copy_8_bytes\<close>.
\<close>

definition copy_reg :: "nat \<Rightarrow> nat \<Rightarrow> nat \<Rightarrow> buf \<Rightarrow> (nat \<times> buf) option" where
  "copy_reg n out from mem = do {
     chunk \<leftarrow> load_el n mem from;
     mem \<leftarrow> store_el mem out chunk;
     Some (out + n, mem) }"

text \<open>Successive register copies of the given sizes; \<open>from\<close> follows.\<close>

fun copy_regs :: "nat list \<Rightarrow> nat \<Rightarrow> nat \<Rightarrow> buf \<Rightarrow> (nat \<times> buf) option" where
  "copy_regs [] out from mem = Some (out, mem)"
| "copy_regs (n # ns) out from mem = do {
     (out, mem) \<leftarrow> copy_reg n out from mem;
     copy_regs ns out (from + n) mem }"

definition copy_3_bytes where "copy_3_bytes = copy_regs [1, 2]"

definition copy_5_bytes where "copy_5_bytes = copy_regs [1, 4]"

definition copy_6_bytes where "copy_6_bytes = copy_regs [2, 4]"

definition copy_7_bytes where "copy_7_bytes = copy_regs [1, 2, 4]"

definition copy_16_bytes where "copy_16_bytes = copy_regs [8, 8]"

definition copy_32_bytes where "copy_32_bytes = copy_regs [8, 8, 8, 8]"

definition copy_bytes :: "nat \<Rightarrow> nat \<Rightarrow> nat \<Rightarrow> buf \<Rightarrow> (nat \<times> buf) option" where
  "copy_bytes out from len mem =
    (if len = 7 then copy_7_bytes out from mem
     else if len = 6 then copy_6_bytes out from mem
     else if len = 5 then copy_5_bytes out from mem
     else if len = 4 then copy_reg 4 out from mem
     else if len = 3 then copy_3_bytes out from mem
     else if len = 2 then copy_reg 2 out from mem
     else if len = 1 then copy_reg 1 out from mem
     else Some (out, mem))"

section \<open>Copies of any length\<close>

text \<open>\<open>for (; len > 0; len--) *out++ = *from++;\<close>\<close>

fun byte_copy :: "nat \<Rightarrow> nat \<Rightarrow> nat \<Rightarrow> buf \<Rightarrow> (nat \<times> buf) option" where
  "byte_copy out from 0 mem = Some (out, mem)"
| "byte_copy out from (Suc len) mem = do {
     v \<leftarrow> load mem from;
     mem \<leftarrow> store mem out v;
     byte_copy (out + 1) (from + 1) len mem }"

text \<open>The main loop of \<open>chunk_memcpy\<close>, for \<open>len\<close> a multiple of 8: eight copies in each round.\<close>

function chunk_rounds :: "nat \<Rightarrow> nat \<Rightarrow> nat \<Rightarrow> buf \<Rightarrow> (nat \<times> buf) option" where
  "chunk_rounds out from len mem =
    (if len = 0 then Some (out, mem)
     else do {
       (out, mem) \<leftarrow> copy_regs (replicate 8 8) out from mem;
       chunk_rounds out (from + 64) (len - 8) mem })"
  by pat_completeness auto
termination by (relation "measure (\<lambda>(out, from, len, mem). len)") auto

declare chunk_rounds.simps [simp del]

text \<open>The fall-through switch on \<open>by8\<close> makes \<open>by8\<close> copies.\<close>

definition chunk_memcpy :: "nat \<Rightarrow> nat \<Rightarrow> nat \<Rightarrow> buf \<Rightarrow> (nat \<times> buf) option" where
  "chunk_memcpy out from len mem = do {
     (_, mem) \<leftarrow> copy_reg 8 out from mem;
     let rem = len mod 8;
     let len = len div 8;
     let out = out + rem;
     let from = from + rem;
     let by8 = len mod 8;
     (out, mem) \<leftarrow> copy_regs (replicate by8 8) out from mem;
     chunk_rounds out (from + 8 * by8) (len - by8) mem }"

definition fastcopy :: "nat \<Rightarrow> nat \<Rightarrow> nat \<Rightarrow> buf \<Rightarrow> (nat \<times> buf) option" where
  "fastcopy out from len mem =
    (if len = 32 then copy_32_bytes out from mem
     else if len = 16 then copy_16_bytes out from mem
     else if len = 8 then copy_reg 8 out from mem
     else if len < 8 then copy_bytes out from len mem
     else chunk_memcpy out from len mem)"

text \<open>
  One \<open>case\<close> of the switch in \<open>copy_match\<close>: while \<open>len\<close> is at least the distance, copy the bytes of one
  period, always from the same place.
\<close>

function period_copies :: "nat list \<Rightarrow> nat \<Rightarrow> nat \<Rightarrow> nat \<Rightarrow> buf \<Rightarrow> (nat \<times> nat \<times> buf) option" where
  "period_copies sizes out from len mem =
    (if 0 < sum_list sizes \<and> sum_list sizes \<le> len then do {
       (out, mem) \<leftarrow> copy_regs sizes out from mem;
       period_copies sizes out from (len - sum_list sizes) mem }
     else Some (out, len, mem))"
  by pat_completeness auto
termination by (relation "measure (\<lambda>(sizes, out, from, len, mem). len)") auto

declare period_copies.simps [simp del]

definition match_sizes :: "nat \<Rightarrow> nat list" where
  "match_sizes overlap_dist =
    (if overlap_dist = 32 then [8, 8, 8, 8] else if overlap_dist = 30 then [8, 8, 8, 4, 2]
     else if overlap_dist = 28 then [8, 8, 8, 4] else if overlap_dist = 26 then [8, 8, 8, 2]
     else if overlap_dist = 24 then [8, 8, 8] else if overlap_dist = 22 then [8, 8, 4, 2]
     else if overlap_dist = 20 then [8, 8, 4] else if overlap_dist = 18 then [8, 8, 2]
     else if overlap_dist = 16 then [8, 8] else if overlap_dist = 8 then [8]
     else if overlap_dist = 4 then [4] else if overlap_dist = 2 then [2] else [])"

definition copy_match :: "nat \<Rightarrow> nat \<Rightarrow> nat \<Rightarrow> buf \<Rightarrow> (nat \<times> buf) option" where
  "copy_match out from len mem =
    (let overlap_dist = out - from
     in if overlap_dist > 8 then fastcopy out from len mem
     else if match_sizes overlap_dist \<noteq> [] then do {
       (out, len, mem) \<leftarrow> period_copies (match_sizes overlap_dist) out from len mem;
       byte_copy out from len mem }
     else byte_copy out from len mem)"

section \<open>What an overlapping copy leaves in memory\<close>

text \<open>
  The byte at position \<open>k\<close> after copying byte by byte from \<open>out - d\<close> to \<open>out\<close> for ever: before \<open>out\<close> the
  old one, from there on the one \<open>d\<close> positions earlier.
\<close>

function overlap :: "buf \<Rightarrow> nat \<Rightarrow> nat \<Rightarrow> nat \<Rightarrow> byte" where
  "overlap mem out d k = (if k < out \<or> d = 0 \<or> k < d then mem ! k else overlap mem out d (k - d))"
  by pat_completeness auto
termination by (relation "measure (\<lambda>(mem, out, d, k). k)") auto

declare overlap.simps [simp del]

lemma overlap_below: "k < out \<Longrightarrow> overlap mem out d k = mem ! k"
  by (simp add: overlap.simps)

lemma overlap_step: "out \<le> k \<Longrightarrow> 0 < d \<Longrightarrow> d \<le> k \<Longrightarrow> overlap mem out d k = overlap mem out d (k - d)"
  by (simp add: overlap.simps[of mem out d k])

text \<open>Positions below \<open>n\<close> hold \<open>R\<close>, the others are unchanged.\<close>

definition copied :: "buf \<Rightarrow> (nat \<Rightarrow> byte) \<Rightarrow> nat \<Rightarrow> buf \<Rightarrow> bool" where
  "copied mem0 R n mem \<longleftrightarrow> length mem = length mem0 \<and>
     (\<forall>k < length mem0. mem ! k = (if k < n then R k else mem0 ! k))"

lemma copied_unique: "copied mem0 R n mem \<Longrightarrow> copied mem0 R n mem' \<Longrightarrow> mem = mem'"
  by (auto simp: copied_def intro!: nth_equalityI)

lemma copied_restart: "copied mem0 R n m \<Longrightarrow> q \<le> n \<Longrightarrow> copied m R q m"
  by (auto simp: copied_def)

lemma copied_trans: "copied mem0 R n m \<Longrightarrow> n \<le> n' \<Longrightarrow> copied m R n' m' \<Longrightarrow> copied mem0 R n' m'"
  by (auto simp: copied_def)

lemma copy_reg_copied:
  assumes "copied mem0 R n mem" "p + s \<le> n" "q \<le> n" "n \<le> q + s" "q + s \<le> length mem0"
    and "\<And>k. k < s \<Longrightarrow> R (q + k) = R (p + k)"
  shows "\<exists>mem'. copy_reg s q p mem = Some (q + s, mem') \<and> copied mem0 R (q + s) mem'"
proof -
  let ?m = "take q mem @ take s (drop p mem) @ drop (q + s) mem"
  have len: "length mem = length mem0" using assms(1) by (simp add: copied_def)
  have "copy_reg s q p mem = Some (q + s, ?m)"
    using assms(2-5) len by (simp add: copy_reg_def load_el_Some store_el_def memcpy_Some min_absorb2)
  moreover have "?m ! k = (if k < q + s then R k else mem0 ! k)" if k: "k < length mem0" for k
  proof -
    have "?m ! k = (if q \<le> k \<and> k < q + s then mem ! (p + (k - q)) else mem ! k)"
      using nth_blit[of q s mem p mem k] assms(2-5) len k by simp
    moreover have "R k = R (p + (k - q))" if "q \<le> k" "k < q + s"
      using assms(6)[of "k - q"] that by simp
    ultimately show ?thesis
      using assms(1-5) k by (auto simp: copied_def)
  qed
  moreover have "length ?m = length mem0" using assms(2-5) len by simp
  ultimately show ?thesis by (simp add: copied_def)
qed

lemma copy_regs_copied:
  assumes "copied mem0 R q mem" "p + d = q" "\<forall>s \<in> set ns. s \<le> d" "q + sum_list ns \<le> length mem0"
    and "\<And>k. R (q + k) = R (p + k)"
  shows "\<exists>mem'. copy_regs ns q p mem = Some (q + sum_list ns, mem') \<and> copied mem0 R (q + sum_list ns) mem'"
  using assms
proof (induction ns arbitrary: q p mem)
  case Nil
  then show ?case by simp
next
  case (Cons s ns)
  obtain m where m: "copy_reg s q p mem = Some (q + s, m)" "copied mem0 R (q + s) m"
    using copy_reg_copied[OF Cons.prems(1), of p s q] Cons.prems by auto
  have "\<exists>mem'. copy_regs ns (q + s) (p + s) m = Some (q + s + sum_list ns, mem') \<and>
      copied mem0 R (q + s + sum_list ns) mem'"
    by (rule Cons.IH[OF m(2)]) (use Cons.prems in \<open>auto simp: add.assoc\<close>)
  with m(1) show ?case by (simp add: add.assoc)
qed

lemma byte_copy_copied:
  assumes "copied mem0 R q mem" "p < q" "q + n \<le> length mem0" "\<And>k. R (q + k) = R (p + k)"
  shows "\<exists>mem'. byte_copy q p n mem = Some (q + n, mem') \<and> copied mem0 R (q + n) mem'"
  using assms
proof (induction n arbitrary: q p mem)
  case 0
  then show ?case by simp
next
  case (Suc n)
  let ?m = "mem[q := mem ! p]"
  have "copied mem0 R (q + 1) ?m"
    using Suc.prems(1-3) Suc.prems(4)[of 0] by (auto simp: copied_def nth_list_update less_Suc_eq)
  then have "\<exists>mem'. byte_copy (q + 1) (p + 1) n ?m = Some (q + 1 + n, mem') \<and> copied mem0 R (q + 1 + n) mem'"
    by (rule Suc.IH) (use Suc.prems(2,3) Suc.prems(4)[of "Suc _"] in auto)
  moreover have "load mem p = Some (mem ! p)" "store mem q (mem ! p) = Some ?m"
    using Suc.prems(1-3) by (auto simp: copied_def load_Some store_Some)
  ultimately show ?case by simp
qed

section \<open>The routines copy byte by byte\<close>

lemma copied_0: "copied mem (overlap mem out d) out mem"
  by (simp add: copied_def overlap_below)

lemma overlap_periodic:
  assumes "0 < d" "p + d = q" "out \<le> q"
  shows "overlap mem out d (q + k) = overlap mem out d (p + k)"
  using overlap_step[of out "q + k" d mem] assms by (simp add: algebra_simps flip: assms(2))

text \<open>Copying byte by byte, the reference: it gives the overlapping pattern.\<close>

lemma byte_copy_eq:
  assumes "from < out" "out + len \<le> length mem"
  shows "\<exists>mem'. byte_copy out from len mem = Some (out + len, mem') \<and>
    copied mem (overlap mem out (out - from)) (out + len) mem'"
  using assms by (intro byte_copy_copied copied_0 overlap_periodic) auto

text \<open>\<open>f\<close> does what the byte copy does, from \<open>from\<close> to \<open>out\<close> at distance \<open>d\<close>.\<close>

definition copies :: "(nat \<times> buf) option \<Rightarrow> nat \<Rightarrow> nat \<Rightarrow> nat \<Rightarrow> buf \<Rightarrow> bool" where
  "copies r out d len mem \<longleftrightarrow>
     (\<exists>mem'. r = Some (out + len, mem') \<and> copied mem (overlap mem out d) (out + len) mem')"

lemma copies_regs:
  assumes "0 < d" "from + d = out" "out + sum_list ns \<le> length mem" "\<forall>s \<in> set ns. s \<le> d"
  shows "copies (copy_regs ns out from mem) out d (sum_list ns) mem"
  unfolding copies_def
  by (rule copy_regs_copied[OF copied_0 assms(2)]) (use assms in \<open>auto intro: overlap_periodic\<close>)

lemma copy_regs_single: "copy_reg n out from mem = copy_regs [n] out from mem"
  by (auto simp: copy_reg_def split: bind_split)

lemma chunk_rounds_copied:
  assumes "copied mem0 R q mem" "p + d = q" "8 \<le> d" "q + 8 * len \<le> length mem0" "8 dvd len"
    and "\<And>k. R (q + k) = R (p + k)"
  shows "\<exists>mem'. chunk_rounds q p len mem = Some (q + 8 * len, mem') \<and> copied mem0 R (q + 8 * len) mem'"
  using assms
proof (induction len arbitrary: q p mem rule: less_induct)
  case (less len)
  show ?case
  proof (cases "len = 0")
    case True
    with less.prems(1) show ?thesis by (simp add: chunk_rounds.simps)
  next
    case False
    then have "8 \<le> len" using less.prems(5) by (auto elim: dvdE)
    then obtain l where l: "len = l + 8" by (metis add.commute le_Suc_ex)
    have s: "sum_list (replicate 8 8) = (64 :: nat)" by (simp add: sum_list_replicate)
    obtain m where m: "copy_regs (replicate 8 8) q p mem = Some (q + 64, m)" "copied mem0 R (q + 64) m"
      using copy_regs_copied[OF less.prems(1,2), of "replicate 8 8"] less.prems(3-6) l
      by (auto simp: sum_list_replicate)
    have "\<exists>mem'. chunk_rounds (q + 64) (p + 64) l m = Some (q + 64 + 8 * l, mem') \<and>
        copied mem0 R (q + 64 + 8 * l) mem'"
      by (rule less.IH[OF _ m(2)]) (use less.prems(2-5) less.prems(6)[of "64 + _"] l in \<open>auto simp: add.assoc\<close>)
    with m(1) False l show ?thesis by (simp add: chunk_rounds.simps[of q] algebra_simps)
  qed
qed

lemma chunk_memcpy_copies:
  assumes "from + d = out" "8 \<le> d" "8 \<le> len" "out + len \<le> length mem"
  shows "copies (chunk_memcpy out from len mem) out d len mem"
proof -
  let ?R = "overlap mem out d"
  define r l where "r = len mod 8" and "l = len div 8"
  have len: "len = r + 8 * l" "r < 8" by (simp_all add: r_def l_def)
  define b where "b = l mod 8"
  have bl: "b \<le> l" "8 dvd (l - b)" by (simp_all add: b_def)
  have per: "?R (q + k) = ?R (p + k)" if "p + d = q" "out \<le> q" for p q k
    using overlap_periodic that assms(2) by auto
  obtain m1 where m1: "copy_reg 8 out from mem = Some (out + 8, m1)" "copied mem ?R (out + 8) m1"
    using copy_reg_copied[OF copied_0, of "from" 8 out out mem d] assms per[OF assms(1)] by auto
  have c1: "copied m1 ?R (out + r) m1" by (rule copied_restart[OF m1(2)]) (use len in simp)
  have l1: "length m1 = length mem" using m1(2) by (simp add: copied_def)
  have pr: "from + r + d = out + r" using assms(1) by simp
  have 8: "\<forall>s \<in> set (replicate b 8). s \<le> d" using assms(2) by simp
  obtain m2 where m2: "copy_regs (replicate b 8) (out + r) (from + r) m1 = Some (out + r + 8 * b, m2)"
    "copied m1 ?R (out + r + 8 * b) m2"
    using copy_regs_copied[OF c1 pr 8 _ per[OF pr]] l1 assms(4) len bl
    by (auto simp: sum_list_replicate mult.commute)
  have pr2: "from + r + 8 * b + d = out + r + 8 * b" using assms(1) by simp
  have e: "out + r + 8 * b + 8 * (l - b) = out + len" using len bl by simp
  then have lim: "out + r + 8 * b + 8 * (l - b) \<le> length m1" using assms(4) l1 by simp
  obtain m3 where m3: "chunk_rounds (out + r + 8 * b) (from + r + 8 * b) (l - b) m2 = Some (out + r + 8 * b + 8 * (l - b), m3)"
    "copied m1 ?R (out + r + 8 * b + 8 * (l - b)) m3"
    using chunk_rounds_copied[OF m2(2) pr2 assms(2) lim bl(2) per[OF pr2]] by auto
  have "copied mem ?R (out + len) m3" by (rule copied_trans[OF m1(2) _ m3(2)[unfolded e]]) (use assms(3) in simp)
  moreover have "chunk_memcpy out from len mem = Some (out + len, m3)"
    using m1(1) m2(1) m3(1) by (simp add: chunk_memcpy_def Let_def r_def[symmetric] l_def[symmetric] b_def[symmetric] e[symmetric])
  ultimately show ?thesis by (simp add: copies_def)
qed

lemma copies_sum:
  "copies (copy_regs ns out from mem) out d (sum_list ns) mem \<Longrightarrow> sum_list ns = len \<Longrightarrow>
   copies (copy_regs ns out from mem) out d len mem"
  by simp

lemma copy_bytes_regs:
  "len < 8 \<Longrightarrow> \<exists>ns. copy_bytes out from len mem = copy_regs ns out from mem \<and> sum_list ns = len \<and> (\<forall>s \<in> set ns. s \<le> 8)"
proof -
  assume "len < 8"
  then consider "len = 0" | "len = 1" | "len = 2" | "len = 3" | "len = 4" | "len = 5" | "len = 6" | "len = 7" by linarith
  then show ?thesis
  proof cases
    case 1
    then show ?thesis by (intro exI[of _ "[]"]) (simp add: copy_bytes_def)
  next
    case 2
    then show ?thesis by (intro exI[of _ "[1]"]) (simp add: copy_bytes_def copy_regs_single del: copy_regs.simps)
  next
    case 3
    then show ?thesis by (intro exI[of _ "[2]"]) (simp add: copy_bytes_def copy_regs_single del: copy_regs.simps)
  next
    case 4
    then show ?thesis by (intro exI[of _ "[1, 2]"]) (simp add: copy_bytes_def copy_3_bytes_def)
  next
    case 5
    then show ?thesis by (intro exI[of _ "[4]"]) (simp add: copy_bytes_def copy_regs_single del: copy_regs.simps)
  next
    case 6
    then show ?thesis by (intro exI[of _ "[1, 4]"]) (simp add: copy_bytes_def copy_5_bytes_def)
  next
    case 7
    then show ?thesis by (intro exI[of _ "[2, 4]"]) (simp add: copy_bytes_def copy_6_bytes_def)
  next
    case 8
    then show ?thesis by (intro exI[of _ "[1, 2, 4]"]) (simp add: copy_bytes_def copy_7_bytes_def)
  qed
qed

lemma fastcopy_copies:
  assumes "from + d = out" "8 \<le> d" "out + len \<le> length mem"
  shows "copies (fastcopy out from len mem) out d len mem"
proof -
  have regs: "copies (copy_regs ns out from mem) out d len mem" if "sum_list ns = len" "\<forall>s \<in> set ns. s \<le> 8" for ns
    using copies_regs[of d "from" out ns mem] that assms by (auto intro: order_trans)
  consider "len = 32" | "len = 16" | "len = 8" | "len < 8" | "8 < len" "len \<noteq> 16" "len \<noteq> 32" by linarith
  then show ?thesis
  proof cases
    case 4
    from copy_bytes_regs[OF this, of out "from" mem] obtain ns where
      "copy_bytes out from len mem = copy_regs ns out from mem" "sum_list ns = len" "\<forall>s \<in> set ns. s \<le> 8"
      by blast
    with regs 4 show ?thesis by (simp add: fastcopy_def)
  next
    case 5
    with chunk_memcpy_copies[OF assms(1,2) _ assms(3)] show ?thesis by (simp add: fastcopy_def)
  qed (use regs[of "[8, 8, 8, 8]"] regs[of "[8, 8]"] regs[of "[8]"] in
      \<open>simp_all add: fastcopy_def copy_32_bytes_def copy_16_bytes_def copy_regs_single del: copy_regs.simps\<close>)
qed

text \<open>Copying the same period again and again is copying byte by byte.\<close>

lemma period_copies_copied:
  assumes "copied mem0 R q mem" "q = from + c * d" "c \<noteq> 0" "sum_list ns = d" "0 < d" "\<forall>s \<in> set ns. s \<le> d"
    and "q + len \<le> length mem0" "\<And>k. from + d \<le> k \<Longrightarrow> R k = R (k - d)"
  shows "\<exists>q' len' mem'. period_copies ns q from len mem = Some (q', len', mem') \<and> q' + len' = q + len \<and>
    (\<exists>c'. c' \<noteq> 0 \<and> q' = from + c' * d) \<and> copied mem0 R q' mem'"
  using assms(1-3,7)
proof (induction len arbitrary: q c mem rule: less_induct)
  case (less len)
  show ?case
  proof (cases "d \<le> len")
    case False
    then show ?thesis using less.prems assms(4) by (auto simp: period_copies.simps)
  next
    case True
    have period: "R (k + m * d) = R k" if "from \<le> k" for k m
    proof (induction m)
      case (Suc m)
      have "R (k + Suc m * d) = R (k + Suc m * d - d)" by (rule assms(8)) (use that in simp)
      also have "k + Suc m * d - d = k + m * d" by simp
      finally show ?case using Suc by simp
    qed simp
    obtain e where e: "c = Suc e" using less.prems(3) by (cases c) auto
    have "R (q + k) = R (from + k)" for k
      using period[of "from + k" c] less.prems(2) by (simp add: ac_simps)
    moreover have "from + d * c = q" using less.prems(2) by (simp add: mult.commute)
    moreover have "\<forall>s \<in> set ns. s \<le> d * c" using assms(5,6) e by (auto intro: le_trans)
    ultimately obtain m where m: "copy_regs ns q from mem = Some (q + d, m)" "copied mem0 R (q + d) m"
      using copy_regs_copied[OF less.prems(1), of "from" "d * c" ns] less.prems(4) True assms(4) by auto
    have "\<exists>q' len' mem'. period_copies ns (q + d) from (len - d) m = Some (q', len', mem') \<and> q' + len' = q + d + (len - d) \<and>
      (\<exists>c'. c' \<noteq> 0 \<and> q' = from + c' * d) \<and> copied mem0 R q' mem'"
      by (rule less.IH[OF _ m(2), of _ "Suc c"]) (use less.prems True assms(5) in auto)
    with m(1) True assms(4,5) show ?thesis by (simp add: period_copies.simps[of ns q])
  qed
qed

lemma match_sizes_sum:
  assumes "match_sizes d \<noteq> []" "d \<le> 8"
  shows "sum_list (match_sizes d) = d" "\<forall>s \<in> set (match_sizes d). s \<le> d" "0 < d"
  using assms by (auto simp: match_sizes_def split: if_splits)

lemma copy_match_copies:
  assumes "from < out" "out + len \<le> length mem"
  shows "copies (copy_match out from len mem) out (out - from) len mem"
proof -
  define d where "d = out - from"
  have d: "0 < d" "from + d = out" using assms(1) by (simp_all add: d_def)
  let ?R = "overlap mem out d"
  have per: "?R (q + k) = ?R (p + k)" if "p + d = q" "out \<le> q" for p q k
    using overlap_periodic that d(1) by auto
  consider "8 < d" | "d \<le> 8" "match_sizes d = []" | "d \<le> 8" "match_sizes d \<noteq> []" by linarith
  then show ?thesis
  proof cases
    case 1
    with fastcopy_copies[OF d(2) _ assms(2)] show ?thesis by (simp add: copy_match_def d_def[symmetric])
  next
    case 2
    with byte_copy_eq[OF assms] show ?thesis by (simp add: copy_match_def d_def[symmetric] copies_def)
  next
    case 3
    have "?R k = ?R (k - d)" if "from + d \<le> k" for k
      using overlap_step[of out k d mem] that d by simp
    with period_copies_copied[OF copied_0, of out "from" 1 d "match_sizes d" len mem d] match_sizes_sum[OF 3(2,1)] assms(2) d
    obtain q l m c where m: "period_copies (match_sizes d) out from len mem = Some (q, l, m)" "q + l = out + len"
      "c \<noteq> 0" "q = from + c * d" "copied mem ?R q m" by auto
    have q: "out \<le> q" using m(3,4) d by (cases c) auto
    have "?R (q + k) = ?R (from + k)" for k
    proof -
      have "?R (from + k + n * d) = ?R (from + k)" for n
      proof (induction n)
        case (Suc n)
        have "?R (from + k + Suc n * d) = ?R (from + k + n * d)"
          using per[of "from + n * d" "from + Suc n * d" k] d by (simp add: ac_simps)
        with Suc show ?case by simp
      qed simp
      from this[of c] show ?thesis by (simp add: m(4) ac_simps)
    qed
    moreover have "from < q" using q assms(1) by simp
    ultimately obtain m' where "byte_copy q from l m = Some (q + l, m')" "copied mem ?R (q + l) m'"
      using byte_copy_copied[OF m(5), of "from" l] m(2) assms(2) by auto
    with m 3 show ?thesis by (simp add: copy_match_def d_def[symmetric] copies_def)
  qed
qed

text \<open>
  C30. The optimised copies of the decompressor are byte copies. For every
  distance between source and destination, \<open>copy_match\<close> gives the very memory and position that copying
  \<open>len\<close> bytes one by one from the lower to the higher address gives, overlapping or not, and \<open>fastcopy\<close>
  does so for distances of at least 8; neither reads or writes outside the buffer.
\<close>

theorem copy_match_is_byte_copy:
  assumes "from < out" "out + len \<le> length mem"
  shows "\<exists>mem'. byte_copy out from len mem = Some (out + len, mem') \<and>
    copy_match out from len mem = Some (out + len, mem') \<and>
    (8 \<le> out - from \<longrightarrow> fastcopy out from len mem = Some (out + len, mem'))"
proof -
  obtain m where m: "byte_copy out from len mem = Some (out + len, m)"
    "copied mem (overlap mem out (out - from)) (out + len) m"
    using byte_copy_eq[OF assms] by blast
  have "r = Some (out + len, m)" if "copies r out (out - from) len mem" for r
    using that copied_unique[OF m(2)] by (auto simp: copies_def)
  with copy_match_copies[OF assms] fastcopy_copies[of "from" "out - from" out len mem] assms m(1)
  show ?thesis by auto
qed

theorem copy_match_is_byte_copy_witness:
  "\<exists>mem'. byte_copy 3 1 5 [1, 2, 3, 0, 0, 0, 0, 0, 9] = Some (3 + 5, mem') \<and>
    copy_match 3 1 5 [1, 2, 3, 0, 0, 0, 0, 0, 9] = Some (3 + 5, mem') \<and>
    (8 \<le> 3 - (1 :: nat) \<longrightarrow> fastcopy 3 1 5 [1, 2, 3, 0, 0, 0, 0, 0, 9] = Some (3 + 5, mem'))"
  by (rule copy_match_is_byte_copy) simp_all

end
