(* ===== verification/Blosclz_Decompress.thy ===== *)
theory Blosclz_Decompress
  imports Fastcopy Context
begin

text \<open>
  \<open>blosclz_decompress\<close> of \<open>blosc/blosclz.c\<close>. Pointers into the two buffers are positions. A position
  before the output, which the code only compares, is a negative \<open>int\<close>. \<open>len\<close> is an \<open>int32_t\<close>.

  The main loop carries the next control word, the input and output positions and the output buffer.
  One turn either leaves the function (\<open>Done\<close>, with the value returned) or goes on (\<open>Next\<close>).
\<close>

section \<open>The operations\<close>

definition MAX_DISTANCE :: nat where "MAX_DISTANCE = 8191"

datatype dz_step = Done int buf | Next nat nat nat buf

text \<open>\<open>wild_copy\<close>: eight bytes at a time, up to 7 beyond \<open>end\<close>.\<close>

function wild_copy :: "nat \<Rightarrow> nat \<Rightarrow> nat \<Rightarrow> buf \<Rightarrow> buf option" where
  "wild_copy d s e mem = do {
     (d, mem) \<leftarrow> copy_reg 8 d s mem;
     if d < e then wild_copy d (s + 8) e mem else Some mem }"
  by pat_completeness auto
termination
  by (relation "measure (\<lambda>(d, s, e, mem). e - d)")
    (auto simp: copy_reg_def split: bind_splits)

declare wild_copy.simps [simp del]

text \<open>The \<open>do ... while (code == 255)\<close> loop for the length of a long match.\<close>

function dz_len :: "buf \<Rightarrow> nat \<Rightarrow> nat \<Rightarrow> int \<Rightarrow> (nat \<times> int) option option" where
  "dz_len input ip_limit ip len =
    (if ip + 1 \<ge> ip_limit then Some None
     else do {
       code \<leftarrow> load input ip;
       len \<leftarrow> i32 (len + uint code);
       if code = 255 then dz_len input ip_limit (ip + 1) len else Some (Some (ip + 1, len)) })"
  by pat_completeness auto
termination by (relation "measure (\<lambda>(input, ip_limit, ip, len). ip_limit - ip)") auto

declare dz_len.simps [simp del]

text \<open>The copy of a match of \<open>len\<close> bytes from \<open>ref\<close>: a run, a wild copy or the general one.\<close>

definition dz_copy :: "nat \<Rightarrow> nat \<Rightarrow> nat \<Rightarrow> int \<Rightarrow> buf \<Rightarrow> (nat \<times> buf) option" where
  "dz_copy op_limit op ref len out =
    (if ref + 1 = op then do {
       v \<leftarrow> load out ref;
       out \<leftarrow> memset out op v (nat len);
       Some (op + nat len, out) }
     else do {
       len8 \<leftarrow> i32 (len + 8);
       if op - ref \<ge> 8 \<and> int op_limit - int op \<ge> len8 then do {
         out \<leftarrow> wild_copy op ref (op + nat len) out;
         Some (op + nat len, out) }
       else copy_match op ref (nat len) out })"

text \<open>The match branch after the length and the first distance byte have been read.\<close>

definition dz_match_body :: "buf \<Rightarrow> nat \<Rightarrow> nat \<Rightarrow> nat \<Rightarrow> int \<Rightarrow> int \<Rightarrow> nat \<Rightarrow> buf \<Rightarrow> dz_step option" where
  "dz_match_body input ip_limit op_limit ip len ref op out =
    (if int op + len > int op_limit then Some (Done 0 out)
     else if ref - 1 < 0 then Some (Done 0 out)
     else if ip \<ge> ip_limit then Some (Done (int op) out)
     else do {
       ctrl \<leftarrow> load input ip;
       (op, out) \<leftarrow> dz_copy op_limit op (nat (ref - 1)) len out;
       Some (Next (unat ctrl) (ip + 1) op out) })"

definition dz_match :: "buf \<Rightarrow> nat \<Rightarrow> nat \<Rightarrow> nat \<Rightarrow> nat \<Rightarrow> nat \<Rightarrow> buf \<Rightarrow> dz_step option" where
  "dz_match input ip_limit op_limit ctrl ip op out = do {
     let ofs = (ctrl mod 32) * 256;
     r \<leftarrow> (if ctrl div 32 = 7 then dz_len input ip_limit ip (7 - 1)
          else if ip + 1 \<ge> ip_limit then Some None else Some (Some (ip, int (ctrl div 32) - 1)));
     case r of None \<Rightarrow> Some (Done 0 out)
     | Some (ip, len) \<Rightarrow> do {
         code \<leftarrow> load input ip;
         let ip = ip + 1;
         len \<leftarrow> i32 (len + 3);
         if code = 255 \<and> ofs = 31 * 256 then
           if ip + 1 \<ge> ip_limit then Some (Done 0 out)
           else do {
             hi \<leftarrow> load input ip;
             lo \<leftarrow> load input (ip + 1);
             dz_match_body input ip_limit op_limit (ip + 2) len
               (int op - int (unat hi * 256 + unat lo) - int MAX_DISTANCE) op out }
         else dz_match_body input ip_limit op_limit ip len (int op - int ofs - uint code) op out } }"

definition dz_literal :: "buf \<Rightarrow> nat \<Rightarrow> nat \<Rightarrow> nat \<Rightarrow> nat \<Rightarrow> nat \<Rightarrow> buf \<Rightarrow> dz_step option" where
  "dz_literal input ip_limit op_limit ctrl ip op out =
    (let ctrl = ctrl + 1 in
     if op + ctrl > op_limit then Some (Done 0 out)
     else if ip + ctrl > ip_limit then Some (Done 0 out)
     else do {
       out \<leftarrow> memcpy out op input ip ctrl;
       let op = op + ctrl;
       let ip = ip + ctrl;
       if ip \<ge> ip_limit then Some (Done (int op) out)
       else do {
         ctrl \<leftarrow> load input ip;
         Some (Next (unat ctrl) (ip + 1) op out) } })"

text \<open>
  The \<open>while (1)\<close>, with fuel; every turn consumes input, so as much fuel as there is input is enough.
\<close>

fun dz_loop :: "nat \<Rightarrow> buf \<Rightarrow> nat \<Rightarrow> nat \<Rightarrow> nat \<Rightarrow> nat \<Rightarrow> nat \<Rightarrow> buf \<Rightarrow> (int \<times> buf) option" where
  "dz_loop 0 input ip_limit op_limit ctrl ip op out = None"
| "dz_loop (Suc fuel) input ip_limit op_limit ctrl ip op out = do {
     step \<leftarrow> (if ctrl \<ge> 32 then dz_match input ip_limit op_limit ctrl ip op out
             else dz_literal input ip_limit op_limit ctrl ip op out);
     case step of Done r out \<Rightarrow> Some (r, out)
     | Next ctrl ip op out \<Rightarrow> dz_loop fuel input ip_limit op_limit ctrl ip op out }"

definition blosclz_decompress :: "buf \<Rightarrow> nat \<Rightarrow> buf \<Rightarrow> nat \<Rightarrow> (int \<times> buf) option" where
  "blosclz_decompress input len out maxout =
    (if len = 0 then Some (0, out)
     else do {
       ctrl \<leftarrow> load input 0;
       dz_loop len input len maxout (unat ctrl mod 32) 1 0 out })"

section \<open>Copies keep to their bounds\<close>

text \<open>Nothing from the limit on is touched.\<close>

definition out_kept :: "nat \<Rightarrow> buf \<Rightarrow> buf \<Rightarrow> bool" where
  "out_kept op_limit out o' \<longleftrightarrow> length o' = length out \<and> drop op_limit o' = drop op_limit out"

lemma out_kept_refl [simp]: "out_kept n out out"
  by (simp add: out_kept_def)

lemma out_kept_trans: "out_kept n a b \<Longrightarrow> out_kept n b c \<Longrightarrow> out_kept n a c"
  by (simp add: out_kept_def)

lemma out_kept_update: "i < n \<Longrightarrow> out_kept n out (out[i := v])"
  by (simp add: out_kept_def)

lemma out_kept_length: "out_kept n a b \<Longrightarrow> length b = length a"
  by (simp add: out_kept_def)

lemma out_kept_mono: "out_kept m a b \<Longrightarrow> m \<le> n \<Longrightarrow> out_kept n a b"
  by (auto simp: out_kept_def) (metis drop_drop le_add_diff_inverse2)

lemma out_kept_blit: "op + length g \<le> n \<Longrightarrow> n \<le> length out \<Longrightarrow> out_kept n out (take op out @ g @ drop (op + length g) out)"
  by (simp add: out_kept_def min_absorb2)


lemma copied_prefix:
  assumes "copied mem (overlap mem out d) n mem'" "out \<le> n" "n \<le> length mem"
  shows "take n mem' = take out mem @ map (overlap mem out d) [out..<n]"
proof (rule nth_equalityI)
  fix i assume "i < length (take n mem')"
  with assms show "take n mem' ! i = (take out mem @ map (overlap mem out d) [out..<n]) ! i"
    by (auto simp: copied_def nth_append overlap_below)
qed (use assms in \<open>auto simp: copied_def\<close>)

lemma wild_copy_copied:
  assumes "copied mem0 R q mem" "p + d = q" "8 \<le> d" "max (q + 8) (e + 8) \<le> length mem0"
    and "\<And>k. R (q + k) = R (p + k)"
  shows "\<exists>mem' n. wild_copy q p e mem = Some mem' \<and> e \<le> n \<and> n \<le> max (q + 8) (e + 7) \<and> copied mem0 R n mem'"
  using assms
proof (induction "e - q" arbitrary: q p mem rule: less_induct)
  case less
  obtain m where m: "copy_reg 8 q p mem = Some (q + 8, m)" "copied mem0 R (q + 8) m"
    using copy_reg_copied[OF less.prems(1), of p 8 q] less.prems by auto
  show ?case
  proof (cases "q + 8 < e")
    case False
    with m show ?thesis by (simp add: wild_copy.simps[of q]) (auto intro!: exI[of _ "q + 8"])
  next
    case True
    have "\<exists>mem' n. wild_copy (q + 8) (p + 8) e m = Some mem' \<and> e \<le> n \<and> n \<le> max (q + 8 + 8) (e + 7) \<and> copied mem0 R n mem'"
      by (rule less.hyps[OF _ m(2)]) (use less.prems True less.prems(5)[of "8 + _"] in \<open>auto simp: add.assoc\<close>)
    with m(1) True show ?thesis by (auto simp: wild_copy.simps[of q])
  qed
qed

text \<open>
  The result of a copy: the bytes before \<open>op\<close> are kept, the match follows, nothing from the limit on is
  touched.
\<close>

lemma dz_copy_ok:
  assumes "ref < op" "0 \<le> len" "int op + len \<le> int op_limit" "op_limit \<le> length out" "len + 8 < 2 ^ 31"
  shows "\<exists>o'. dz_copy op_limit op ref len out = Some (op + nat len, o') \<and> length o' = length out \<and>
    take (op + nat len) o' = take op out @ map (overlap out op (op - ref)) [op..<op + nat len] \<and>
    drop op_limit o' = drop op_limit out"
proof -
  define n where "n = nat len"
  have n: "op + n \<le> op_limit" "int n = len" using assms(2,3) by (simp_all add: n_def)
  let ?R = "overlap out op (op - ref)"
  have result: "length o' = length out \<and> take (op + n) o' = take op out @ map ?R [op..<op + n] \<and>
      drop op_limit o' = drop op_limit out"
    if "copied out ?R m o'" "op + n \<le> m" "m \<le> op_limit" for o' m
  proof -
    have "copied out ?R m o'" by fact
    moreover have "take (op + n) o' = take (op + n) (take m o')" using that(2) by (simp add: min_absorb1)
    moreover have "take m o' = take op out @ map ?R [op..<m]"
      using copied_prefix[OF that(1)] that(2,3) assms(4) by simp
    moreover have "[op..<m] = [op..<op + n] @ [op + n..<m]"
      using upt_add_eq_append[of op "op + n" "m - (op + n)"] that(2) by simp
    moreover have "drop op_limit o' = drop op_limit out"
      using that by (intro nth_equalityI) (auto simp: copied_def)
    ultimately show ?thesis using assms(4) n(1) by (simp add: copied_def)
  qed
  consider "ref + 1 = op" | "ref + 1 \<noteq> op" "op - ref \<ge> 8 \<and> int op_limit - int op \<ge> len + 8"
    | "ref + 1 \<noteq> op" "\<not> (op - ref \<ge> 8 \<and> int op_limit - int op \<ge> len + 8)" by blast
  then show ?thesis
  proof cases
    case 1
    then have ref: "ref = op - 1" "0 < op" by auto
    let ?o = "take op out @ replicate n (out ! ref) @ drop (op + n) out"
    have run: "?R k = out ! ref" if "op \<le> k" for k
      using that
    proof (induction k rule: less_induct)
      case (less k)
      have "?R k = ?R (k - 1)" using overlap_step[of op k "op - ref" out] less.prems ref by simp
      also have "\<dots> = out ! ref"
      proof (cases "op \<le> k - 1")
        case True
        with less ref show ?thesis by auto
      next
        case False
        then have "k - 1 = ref" using less.prems ref by simp
        with ref show ?thesis by (simp add: overlap_below)
      qed
      finally show ?case .
    qed
    have "copied out ?R (op + n) ?o"
      unfolding copied_def
    proof (intro conjI allI impI)
      fix k assume k: "k < length out"
      have "take op out @ replicate n (out ! ref) @ drop (op + n) out =
          take op out @ take n (drop 0 (replicate n (out ! ref))) @ drop (op + n) out" by simp
      then have "?o ! k = (if op \<le> k \<and> k < op + n then replicate n (out ! ref) ! (0 + (k - op)) else out ! k)"
        using nth_blit[of op n out 0 "replicate n (out ! ref)" k] k n(1) assms(4) by simp
      then show "?o ! k = (if k < op + n then ?R k else out ! k)"
        using run[of k] overlap_below[of k op] by auto
    qed (use n(1) assms(4) in simp)
    with result[of "op + n" ?o] n(1) assms(4) 1 show ?thesis
      by (simp add: dz_copy_def load_Some memset_Some n_def[symmetric])
  next
    case 2
    then have "int op_limit - int op \<ge> len + 8" by blast
    then have room: "op + n + 8 \<le> op_limit" using n(2) by simp
    have d: "0 < op - ref" "ref + (op - ref) = op" using assms(1) by auto
    have "8 \<le> op - ref" "max (op + 8) (op + n + 8) \<le> length out" using 2 room assms(4) by auto
    from wild_copy_copied[OF copied_0 d(2) this overlap_periodic[OF d order_refl]]
    obtain o' m where o': "wild_copy op ref (op + n) out = Some o'" "op + n \<le> m" "m \<le> max (op + 8) (op + n + 7)" "copied out ?R m o'"
      by blast
    with result[OF o'(4,2)] room 2 assms(2,5) show ?thesis
      by (auto simp: dz_copy_def n_def[symmetric])
  next
    case 3
    obtain o' where "copy_match op ref n out = Some (op + n, o')" "copied out ?R (op + n) o'"
      using copy_match_copies[of ref op n out] assms(1,4) n(1) by (auto simp: copies_def)
    with result[of "op + n" o'] n(1) 3 assms(2,5) show ?thesis
      by (auto simp: dz_copy_def n_def[symmetric])
  qed
qed

section \<open>The decompressor keeps to its buffers\<close>

lemma dz_len_bounds:
  assumes "ip_limit \<le> length input" "0 \<le> len" "len + 255 * int (ip_limit - ip) < 2 ^ 31"
  shows "dz_len input ip_limit ip len = Some None \<or>
    (\<exists>ip' len'. dz_len input ip_limit ip len = Some (Some (ip', len')) \<and> ip < ip' \<and> ip' < ip_limit \<and>
       len \<le> len' \<and> len' \<le> len + 255 * int (ip' - ip))"
  using assms
proof (induction input ip_limit ip len rule: dz_len.induct)
  case (1 input ip_limit ip len)
  show ?case
  proof (cases "ip + 1 \<ge> ip_limit")
    case True
    then show ?thesis by (simp add: dz_len.simps)
  next
    case False
    define l where "l = len + uint (input ! ip)"
    have u: "0 \<le> uint (input ! ip)" "uint (input ! ip) \<le> 255"
      using uint_range_size[of "input ! ip"] by (simp_all add: word_size)
    have room: "255 * int (ip_limit - ip) = 255 + 255 * int (ip_limit - (ip + 1))" using False by simp
    have l0: "0 \<le> l" "l + 255 * int (ip_limit - (ip + 1)) < 2 ^ 31"
      using "1.prems"(2,3) u room unfolding l_def by linarith+
    moreover have "0 \<le> 255 * int (ip_limit - (ip + 1))" by simp
    ultimately have "l < 2 ^ 31" by linarith
    with l0 have l: "0 \<le> l" "i32 l = Some l" "load input ip = Some (input ! ip)" "l + 255 * int (ip_limit - (ip + 1)) < 2 ^ 31"
      using "1.prems"(1) False by (simp_all add: load_Some)
    show ?thesis
    proof (cases "input ! ip = 255")
      case True
      have "dz_len input ip_limit (ip + 1) l = Some None \<or>
        (\<exists>ip' len'. dz_len input ip_limit (ip + 1) l = Some (Some (ip', len')) \<and> ip + 1 < ip' \<and> ip' < ip_limit \<and>
           l \<le> len' \<and> len' \<le> l + 255 * int (ip' - (ip + 1)))"
        by (rule "1.IH") (use False l True "1.prems" in \<open>auto simp: l_def\<close>)
      moreover have "dz_len input ip_limit ip len = dz_len input ip_limit (ip + 1) l"
        using False l True by (simp add: dz_len.simps[of input ip_limit ip] l_def)
      ultimately have step: "dz_len input ip_limit ip len = Some None \<or>
        (\<exists>ip' len'. dz_len input ip_limit ip len = Some (Some (ip', len')) \<and> ip + 1 < ip' \<and> ip' < ip_limit \<and>
           l \<le> len' \<and> len' \<le> l + 255 * int (ip' - (ip + 1)))" by simp
      have "ip < i \<and> len \<le> n \<and> n \<le> len + 255 * int (i - ip)"
        if "ip + 1 < i" "l \<le> n" "n \<le> l + 255 * int (i - (ip + 1))" for i n
        using that u unfolding l_def by linarith
      with step show ?thesis by blast
    next
      case False': False
      then have "dz_len input ip_limit ip len = Some (Some (ip + 1, l))"
        using False l by (simp add: dz_len.simps[of input ip_limit ip] l_def)
      then show ?thesis using False u by (simp add: l_def)
    qed
  qed
qed

definition step_ok :: "nat \<Rightarrow> nat \<Rightarrow> nat \<Rightarrow> buf \<Rightarrow> dz_step \<Rightarrow> bool" where
  "step_ok ip_limit op_limit ip out s \<longleftrightarrow> (case s of
     Done r o' \<Rightarrow> 0 \<le> r \<and> r \<le> int op_limit \<and> out_kept op_limit out o'
   | Next ctrl ip' op' o' \<Rightarrow> ctrl < 256 \<and> ip < ip' \<and> ip' \<le> ip_limit \<and> op' \<le> op_limit \<and> out_kept op_limit out o')"

lemma dz_match_body_ok:
  assumes "ip_limit \<le> length input" "op \<le> op_limit" "op_limit \<le> length out" "0 \<le> len" "len + 8 < 2 ^ 31" "ref \<le> int op"
    and "ip0 < ip"
  shows "\<exists>s. dz_match_body input ip_limit op_limit ip len ref op out = Some s \<and> step_ok ip_limit op_limit ip0 out s"
proof -
  consider "int op + len > int op_limit \<or> ref - 1 < 0 \<or> ip \<ge> ip_limit"
    | "int op + len \<le> int op_limit" "0 \<le> ref - 1" "ip < ip_limit" by linarith
  then show ?thesis
  proof cases
    case 1
    then show ?thesis using assms(2) by (auto simp: dz_match_body_def step_ok_def)
  next
    case 2
    have "nat (ref - 1) < op" using 2 assms(6) by linarith
    from dz_copy_ok[OF this assms(4) 2(1) assms(3,5)] obtain o' where
      "dz_copy op_limit op (nat (ref - 1)) len out = Some (op + nat len, o')" "out_kept op_limit out o'"
      by (auto simp: out_kept_def)
    with 2 assms show ?thesis by (simp add: dz_match_body_def load_Some step_ok_def)
  qed
qed

lemma dz_match_ok:
  assumes "ip_limit \<le> length input" "op \<le> op_limit" "op_limit \<le> length out" "32 \<le> ctrl" "ctrl < 256"
    and "255 * int ip_limit + 17 < 2 ^ 31"
  shows "\<exists>s. dz_match input ip_limit op_limit ctrl ip op out = Some s \<and> step_ok ip_limit op_limit ip out s"
proof -
  define r where "r = (if ctrl div 32 = 7 then dz_len input ip_limit ip (7 - 1)
          else if ip + 1 \<ge> ip_limit then Some None else Some (Some (ip, int (ctrl div 32) - 1)))"
  have "r = Some None \<or> (\<exists>i l. r = Some (Some (i, l)) \<and> ip \<le> i \<and> i < ip_limit \<and> 0 \<le> l \<and> l + 11 < 2 ^ 31)"
  proof (cases "ctrl div 32 = 7")
    case True
    have room: "6 + 255 * int (ip_limit - ip) < 2 ^ 31" using assms(6) by linarith
    have "dz_len input ip_limit ip 6 = Some None \<or>
      (\<exists>i l. dz_len input ip_limit ip 6 = Some (Some (i, l)) \<and> ip < i \<and> i < ip_limit \<and>
         6 \<le> l \<and> l \<le> 6 + 255 * int (i - ip))"
      by (rule dz_len_bounds[OF assms(1) _ room]) simp
    then show ?thesis
    proof (elim disjE exE conjE)
      fix i l
      assume il: "dz_len input ip_limit ip 6 = Some (Some (i, l))" "ip < i" "i < ip_limit" "6 \<le> l" "l \<le> 6 + 255 * int (i - ip)"
      then have "l + 11 < 2 ^ 31" using assms(6) by linarith
      with il True show ?thesis by (simp add: r_def)
    qed (use True in \<open>simp add: r_def\<close>)
  next
    case False
    have "1 \<le> ctrl div 32" "ctrl div 32 < 8" using assms(4,5) by (auto simp: Suc_le_eq div_greater_zero_iff)
    with False show ?thesis by (auto simp: r_def)
  qed
  then show ?thesis
  proof (elim disjE exE conjE)
    assume "r = Some None"
    then show ?thesis by (simp add: dz_match_def r_def step_ok_def)
  next
    fix i l assume il: "r = Some (Some (i, l))" "ip \<le> i" "i < ip_limit" "0 \<le> l" "l + 11 < 2 ^ 31"
    let ?ofs = "(ctrl mod 32) * 256" and ?code = "input ! i"
    have ld: "load input i = Some ?code" using il assms(1) by (simp add: load_Some)
    have l3: "i32 (l + 3) = Some (l + 3)" using il by simp
    show ?thesis
    proof (cases "?code = 255 \<and> ?ofs = 31 * 256")
      case True
      show ?thesis
      proof (cases "i + 2 \<ge> ip_limit")
        case True': True
        with True il ld l3 show ?thesis by (simp add: dz_match_def r_def[symmetric] Let_def step_ok_def)
      next
        case False
        let ?ref = "int op - int (unat (input ! (i + 1)) * 256 + unat (input ! (i + 2))) - int MAX_DISTANCE"
        have "load input (i + 1) = Some (input ! (i + 1))" "load input (i + 2) = Some (input ! (i + 2))"
          using False assms(1) by (simp_all add: load_Some)
        moreover have "\<exists>s. dz_match_body input ip_limit op_limit (i + 3) (l + 3) ?ref op out = Some s \<and>
            step_ok ip_limit op_limit ip out s"
        proof (rule dz_match_body_ok)
          show "?ref \<le> int op" by linarith
        qed (use assms il in auto)
        ultimately show ?thesis using True il ld l3 False
          by (simp add: dz_match_def r_def[symmetric] Let_def numeral_3_eq_3)
      qed
    next
      case False
      have "\<exists>s. dz_match_body input ip_limit op_limit (i + 1) (l + 3) (int op - int ?ofs - uint ?code) op out = Some s \<and>
          step_ok ip_limit op_limit ip out s"
      proof (rule dz_match_body_ok)
        show "int op - int ?ofs - uint ?code \<le> int op" using uint_ge_0[of ?code] by linarith
      qed (use assms il in auto)
      with False il ld l3 show ?thesis by (auto simp: dz_match_def r_def[symmetric] Let_def)
    qed
  qed
qed

lemma dz_literal_ok:
  assumes "ip_limit \<le> length input" "op \<le> op_limit" "op_limit \<le> length out"
  shows "\<exists>s. dz_literal input ip_limit op_limit ctrl ip op out = Some s \<and> step_ok ip_limit op_limit ip out s"
proof -
  consider "op + (ctrl + 1) > op_limit \<or> ip + (ctrl + 1) > ip_limit"
    | "op + (ctrl + 1) \<le> op_limit" "ip + (ctrl + 1) \<le> ip_limit" by linarith
  then show ?thesis
  proof cases
    case 1
    then show ?thesis by (auto simp: dz_literal_def Let_def step_ok_def)
  next
    case 2
    let ?n = "ctrl + 1"
    let ?o = "take op out @ take ?n (drop ip input) @ drop (op + ?n) out"
    have m: "memcpy out op input ip ?n = Some ?o" using 2 assms by (simp add: memcpy_Some)
    have "out_kept op_limit out ?o"
      using 2 assms by (auto simp: out_kept_def drop_append intro!: nth_equalityI)
    with 2 m assms show ?thesis
      by (cases "ip + ?n \<ge> ip_limit") (auto simp: dz_literal_def Let_def step_ok_def load_Some)
  qed
qed

lemma dz_loop_ok:
  assumes "ip_limit \<le> length input" "op \<le> op_limit" "op_limit \<le> length out" "ctrl < 256" "ip \<le> ip_limit"
    and "255 * int ip_limit + 17 < 2 ^ 31" "ip_limit < ip + fuel"
  shows "\<exists>r o'. dz_loop fuel input ip_limit op_limit ctrl ip op out = Some (r, o') \<and> 0 \<le> r \<and> r \<le> int op_limit \<and>
    out_kept op_limit out o'"
  using assms
proof (induction fuel arbitrary: ctrl ip op out)
  case 0
  then show ?case by simp
next
  case (Suc fuel)
  obtain s where s: "(if ctrl \<ge> 32 then dz_match input ip_limit op_limit ctrl ip op out
             else dz_literal input ip_limit op_limit ctrl ip op out) = Some s" "step_ok ip_limit op_limit ip out s"
    using dz_match_ok[OF Suc.prems(1-3) _ Suc.prems(4,6), of ip] dz_literal_ok[OF Suc.prems(1-3), of ctrl ip]
    by (cases "ctrl \<ge> 32") auto
  show ?case
  proof (cases s)
    case (Done r o')
    with s show ?thesis by (auto simp: step_ok_def)
  next
    case (Next c i p o')
    with s(2) have n: "c < 256" "ip < i" "i \<le> ip_limit" "p \<le> op_limit" "out_kept op_limit out o'"
      by (simp_all add: step_ok_def)
    have "\<exists>r o''. dz_loop fuel input ip_limit op_limit c i p o' = Some (r, o'') \<and> 0 \<le> r \<and> r \<le> int op_limit \<and>
        out_kept op_limit o' o''"
      by (rule Suc.IH) (use n Suc.prems in \<open>auto simp: out_kept_def\<close>)
    with s(1) Next n(5) show ?thesis by (auto simp: out_kept_def)
  qed
qed

lemma blosclz_decompress_bounds:
  assumes "len \<le> length input" "maxout \<le> length out" "len \<le> 8421504"
  shows "\<exists>r out'. blosclz_decompress input len out maxout = Some (r, out') \<and> 0 \<le> r \<and> r \<le> int maxout \<and>
    length out' = length out \<and> drop maxout out' = drop maxout out"
proof (cases "len = 0")
  case True
  then show ?thesis by (simp add: blosclz_decompress_def)
next
  case False
  let ?c = "unat (input ! 0) mod 32"
  have "\<exists>r o'. dz_loop len input len maxout ?c 1 0 out = Some (r, o') \<and> 0 \<le> r \<and> r \<le> int maxout \<and>
      out_kept maxout out o'"
  proof (rule dz_loop_ok)
    show "?c < 256" using mod_less_divisor[of 32 "unat (input ! 0)"] by linarith
  qed (use False assms in auto)
  moreover have "load input 0 = Some (input ! 0)" using False assms(1) by (cases input) (auto simp: load_Some)
  ultimately show ?thesis using False by (auto simp: blosclz_decompress_def out_kept_def)
qed

text \<open>
  C19. The BloscLZ decompressor is memory safe on arbitrary input. Whatever the bytes of
  the compressed stream, of up to 8,421,504 of them, it terminates, reads only the stream, writes only the
  first \<open>maxout\<close> bytes of its output and returns a size between 0 and \<open>maxout\<close>.
\<close>

theorem blosclz_decompress_safe:
  assumes "len \<le> length input" "maxout \<le> length out" "len \<le> 8421504"
  shows "\<exists>r out'. blosclz_decompress input len out maxout = Some (r, out') \<and> 0 \<le> r \<and> r \<le> int maxout \<and>
    length out' = length out \<and> drop maxout out' = drop maxout out"
  by (rule blosclz_decompress_bounds[OF assms])

theorem blosclz_decompress_safe_witness:
  "\<exists>r out'. blosclz_decompress [0, 65, 224, 255, 3, 200, 7] 7 (replicate 40 0) 30 = Some (r, out') \<and> 0 \<le> r \<and> r \<le> int 30 \<and>
    length out' = length (replicate 40 (0 :: byte)) \<and> drop 30 out' = drop 30 (replicate 40 0)"
  by (rule blosclz_decompress_safe) simp_all

end
