(* ===== verification/Blosclz_Stream.thy ===== *)
theory Blosclz_Stream
  imports Blosclz_Decompress
begin

text \<open>
  The format of BloscLZ streams. A stream is a sequence of tokens: a run of 1 to 32 literal bytes, or a
  match that repeats earlier output. The theory defines what the tokens stand for and how they are
  written, and shows that the decompressor turns a well-formed stream into the bytes it stands for.
\<close>

section \<open>Tokens, their encoding and their meaning\<close>

text \<open>\<open>Match len dist\<close> has the biased length (of \<open>len + 2\<close> bytes) and the biased distance (\<open>dist + 1\<close>).\<close>

datatype lz_token = Lit buf | Match nat nat

text \<open>
  The bytes of a match in the groups that the macros \<open>MATCH_SHORT\<close>, \<open>MATCH_LONG\<close>, \<open>MATCH_SHORT_FAR\<close> and
  \<open>MATCH_LONG_FAR\<close> check the output limit for. The casts to \<open>uint8_t\<close> are \<open>word_of_nat\<close>.
\<close>

definition match_short :: "nat \<Rightarrow> nat \<Rightarrow> buf list" where
  "match_short len distance =
    [[word_of_nat (len * 2 ^ 5 + distance div 2 ^ 8), word_of_nat (distance mod 256)]]"

definition match_long :: "nat \<Rightarrow> nat \<Rightarrow> buf list" where
  "match_long len distance =
    [[word_of_nat (7 * 2 ^ 5 + distance div 2 ^ 8)]] @ replicate ((len - 7) div 255) [255] @
    [[word_of_nat ((len - 7) mod 255), word_of_nat (distance mod 256)]]"

definition match_short_far :: "nat \<Rightarrow> nat \<Rightarrow> buf list" where
  "match_short_far len distance =
    [[word_of_nat (len * 2 ^ 5 + 31), 255, word_of_nat (distance div 2 ^ 8), word_of_nat (distance mod 256)]]"

definition match_long_far :: "nat \<Rightarrow> nat \<Rightarrow> buf list" where
  "match_long_far len distance =
    [[word_of_nat (7 * 2 ^ 5 + 31)]] @ replicate ((len - 7) div 255) [255] @
    [[word_of_nat ((len - 7) mod 255), 255, word_of_nat (distance div 2 ^ 8), word_of_nat (distance mod 256)]]"

definition match_groups :: "nat \<Rightarrow> nat \<Rightarrow> buf list" where
  "match_groups len distance =
    (if distance < MAX_DISTANCE then
       if len < 7 then match_short len distance else match_long len distance
     else
       let distance = distance - MAX_DISTANCE in
       if len < 7 then match_short_far len distance else match_long_far len distance)"

fun token_bytes :: "lz_token \<Rightarrow> buf" where
  "token_bytes (Lit bs) = word_of_nat (length bs - 1) # bs"
| "token_bytes (Match len distance) = concat (match_groups len distance)"

abbreviation "stream ts \<equiv> concat (map token_bytes ts)"

text \<open>What a token adds to the output.\<close>

fun expand :: "buf \<Rightarrow> lz_token \<Rightarrow> buf" where
  "expand acc (Lit bs) = acc @ bs"
| "expand acc (Match len distance) =
     acc @ map (overlap acc (length acc) (distance + 1)) [length acc..<length acc + len + 2]"

text \<open>A token that may follow the output \<open>acc\<close>, and a list of them.\<close>

fun token_ok :: "buf \<Rightarrow> lz_token \<Rightarrow> bool" where
  "token_ok acc (Lit bs) \<longleftrightarrow> 1 \<le> length bs \<and> length bs \<le> 32"
| "token_ok acc (Match len distance) \<longleftrightarrow>
     1 \<le> len \<and> distance < length acc \<and> distance < MAX_DISTANCE + 65535"

fun tokens_ok :: "buf \<Rightarrow> lz_token list \<Rightarrow> bool" where
  "tokens_ok acc [] \<longleftrightarrow> True"
| "tokens_ok acc (t # ts) \<longleftrightarrow> token_ok acc t \<and> tokens_ok (expand acc t) ts"

fun is_Lit :: "lz_token \<Rightarrow> bool" where
  "is_Lit (Lit bs) \<longleftrightarrow> True"
| "is_Lit (Match len distance) \<longleftrightarrow> False"

lemma is_Lit_obtain: "is_Lit t \<Longrightarrow> \<exists>bs. t = Lit bs"
  by (cases t) auto

lemma length_expand: "length acc \<le> length (expand acc t)"
  by (cases t) auto

lemma length_foldl_expand: "length acc \<le> length (foldl expand acc ts)"
proof (induction ts arbitrary: acc)
  case (Cons t ts)
  have "length acc \<le> length (expand acc t)" by (rule length_expand)
  also have "\<dots> \<le> length (foldl expand (expand acc t) ts)" by (rule Cons)
  finally show ?case by simp
qed simp

lemma tokens_ok_append [simp]: "tokens_ok acc (ts @ us) \<longleftrightarrow> tokens_ok acc ts \<and> tokens_ok (foldl expand acc ts) us"
  by (induction ts arbitrary: acc) auto

lemma match_groups_ne: "concat (match_groups len distance) \<noteq> []"
  by (simp add: match_groups_def match_short_def match_long_def match_short_far_def match_long_far_def Let_def)

lemma token_bytes_ne [simp]: "token_bytes t \<noteq> []"
proof (cases t)
  case (Match len distance)
  then show ?thesis using match_groups_ne[of len distance] by (simp del: concat_eq_Nil_conv)
qed simp

text \<open>The four forms of a match, written out: first byte, length bytes, distance bytes.\<close>

definition len_bytes :: "nat \<Rightarrow> buf" where
  "len_bytes len = (if len < 7 then [] else replicate ((len - 7) div 255) 255 @ [word_of_nat ((len - 7) mod 255)])"

definition dist_bytes :: "nat \<Rightarrow> buf" where
  "dist_bytes distance = (if distance < MAX_DISTANCE then [word_of_nat (distance mod 256)]
     else [255, word_of_nat ((distance - MAX_DISTANCE) div 256), word_of_nat ((distance - MAX_DISTANCE) mod 256)])"

definition match_ctrl :: "nat \<Rightarrow> nat \<Rightarrow> nat" where
  "match_ctrl len distance = min len 7 * 32 + (if distance < MAX_DISTANCE then distance div 256 else 31)"

lemma concat_replicate_single: "concat (replicate n [x]) = replicate n x"
  by (induction n) auto

lemma concat_match_groups:
  "concat (match_groups len distance) =
    word_of_nat (match_ctrl len distance) # len_bytes len @ dist_bytes distance"
  by (simp add: match_groups_def match_short_def match_long_def match_short_far_def match_long_far_def
      len_bytes_def dist_bytes_def match_ctrl_def Let_def concat_replicate_single)

lemma match_ctrl_bounds:
  assumes "1 \<le> len"
  shows "32 \<le> match_ctrl len distance" "match_ctrl len distance < 256"
    "match_ctrl len distance div 32 = min len 7"
    "match_ctrl len distance mod 32 = (if distance < MAX_DISTANCE then distance div 256 else 31)"
proof -
  define r where "r = (if distance < MAX_DISTANCE then distance div 256 else 31)"
  have r: "r < 32" by (auto simp: r_def MAX_DISTANCE_def)
  have c: "match_ctrl len distance = min len 7 * 32 + r" by (simp add: match_ctrl_def r_def)
  show "32 \<le> match_ctrl len distance" "match_ctrl len distance < 256"
    using assms r by (auto simp: c min_def)
  show "match_ctrl len distance div 32 = min len 7" "match_ctrl len distance mod 32 = (if distance < MAX_DISTANCE then distance div 256 else 31)"
    using r by (simp_all add: c flip: r_def)
qed

section \<open>Reading a match\<close>

lemma load_drop: "drop ip input = b # rest \<Longrightarrow> load input ip = Some b \<and> ip < length input \<and> drop (ip + 1) input = rest"
proof -
  assume d: "drop ip input = b # rest"
  then have "ip < length input" by (metis drop_all not_le list.distinct(1))
  with d show ?thesis by (auto simp: load_Some Cons_nth_drop_Suc[symmetric])
qed

lemma dz_len_reads:
  assumes "drop ip input = replicate q 255 @ word_of_nat r # c # rest" "r < 255" "0 \<le> len" "len + 255 * int (q + 1) < 2 ^ 31"
  shows "dz_len input (length input) ip len = Some (Some (ip + q + 1, len + 255 * int q + int r))"
  using assms
proof (induction q arbitrary: ip len)
  case 0
  from load_drop[of ip input "word_of_nat r" "c # rest"] 0 have
    l: "load input ip = Some (word_of_nat r)" "drop (ip + 1) input = c # rest" by auto
  from load_drop[OF l(2)] have "ip + 1 < length input" by blast
  moreover have "unat (word_of_nat r :: byte) = r" using 0(2) by simp
  then have "uint (word_of_nat r :: byte) = int r" "(word_of_nat r :: byte) \<noteq> 255"
    using 0(2) by (metis uint_nat, auto simp: word_unat_eq_iff)
  ultimately show ?case using 0 l by (simp add: dz_len.simps[of input "length input" ip])
next
  case (Suc q)
  from load_drop[of ip input 255] Suc.prems(1) have
    l: "load input ip = Some 255" "drop (ip + 1) input = replicate q 255 @ word_of_nat r # c # rest" by auto
  have "0 < length (drop (ip + 1) input)" unfolding l(2) by simp
  then have "ip + 1 < length input" by simp
  moreover have "dz_len input (length input) (ip + 1) (len + 255) =
      Some (Some (ip + 1 + q + 1, len + 255 + 255 * int q + int r))"
    by (rule Suc.IH[OF l(2) assms(2)]) (use Suc.prems in auto)
  ultimately show ?case using l(1) Suc.prems by (simp add: dz_len.simps[of input "length input" ip])
qed

lemma dz_match_body_reads:
  assumes "load input ip = Some c" "distance < length acc" "op = length acc" "take op out = acc"
    and "op + len + 2 \<le> op_limit" "op_limit \<le> length out" "int len + 10 < 2 ^ 31"
  shows "\<exists>o'. dz_match_body input (length input) op_limit ip (int len + 2) (int op - int distance) op out =
      Some (Next (unat c) (ip + 1) (op + len + 2) o') \<and>
    take (op + len + 2) o' = expand acc (Match len distance) \<and> out_kept op_limit out o'"
proof -
  let ?ref = "op - (distance + 1)"
  have d: "?ref < op" "op - ?ref = distance + 1" "nat (int op - int distance - 1) = ?ref" using assms(2,3) by auto
  have "nat (int len + 2) = len + 2" by simp
  with dz_copy_ok[of ?ref op "int len + 2" op_limit out] d(1,2) assms(5-7) obtain o' where
    o': "dz_copy op_limit op ?ref (int len + 2) out = Some (op + len + 2, o')" "out_kept op_limit out o'"
      "take (op + len + 2) o' = take op out @ map (overlap out op (distance + 1)) [op..<op + len + 2]"
    by (auto simp: add.assoc out_kept_def)
  have "overlap out op (distance + 1) k = overlap acc op (distance + 1) k" for k
  proof (induction k rule: less_induct)
    case (less k)
    show ?case
    proof (cases "k < op")
      case True
      then have "out ! k = take op out ! k" by simp
      with True show ?thesis by (simp add: overlap_below assms(4))
    next
      case False
      with less[of "k - (distance + 1)"] assms(2,3) show ?thesis by (simp add: overlap_step)
    qed
  qed
  then have "take (op + len + 2) o' = expand acc (Match len distance)"
    using o'(3) assms(3,4) by simp
  moreover have "ip < length input" using assms(1) by (simp add: load_def split: if_splits)
  moreover have "\<not> int op - int distance - 1 < 0" using assms(2,3) by simp
  ultimately show ?thesis using o'(1,2) assms(1,5) d(3) by (simp add: dz_match_body_def)
qed

lemma unat_word_of_nat_byte: "unat (word_of_nat n :: byte) = n mod 256"
  by (simp add: unat_of_nat)

lemma dz_match_reads:
  assumes "token_ok acc (Match len distance)" "drop ip input = len_bytes len @ dist_bytes distance @ c # rest"
    and "op = length acc" "take op out = acc" "op + len + 2 \<le> op_limit" "op_limit \<le> length out" "int len + 300 < 2 ^ 31"
  shows "\<exists>o'. dz_match input (length input) op_limit (match_ctrl len distance) ip op out =
      Some (Next (unat c) (ip + length (len_bytes len @ dist_bytes distance) + 1) (op + len + 2) o') \<and>
    take (op + len + 2) o' = expand acc (Match len distance) \<and> out_kept op_limit out o'"
proof -
  let ?i = "ip + length (len_bytes len)" and ?ctrl = "match_ctrl len distance"
  have len: "1 \<le> len" and dist: "distance < length acc" "distance < MAX_DISTANCE + 65535" using assms(1) by auto
  obtain b ds where ds: "dist_bytes distance = b # ds" by (cases "distance < MAX_DISTANCE") (auto simp: dist_bytes_def)
  have "drop (length (len_bytes len)) (drop ip input) = b # ds @ c # rest" using assms(2) ds by simp
  then have at_i: "drop ?i input = b # ds @ c # rest" by (simp add: add.commute)
  have r: "(if ?ctrl div 32 = 7 then dz_len input (length input) ip (7 - 1)
          else if ip + 1 \<ge> length input then Some None else Some (Some (ip, int (?ctrl div 32) - 1)))
      = Some (Some (?i, int len - 1))"
  proof (cases "len < 7")
    case True
    have "2 \<le> length (drop ip input)" using True assms(2) ds by (simp add: len_bytes_def)
    then have "ip + 1 < length input" by simp
    with True show ?thesis using match_ctrl_bounds(3)[OF len, of distance] by (simp add: len_bytes_def)
  next
    case False
    define q r where qr: "q = (len - 7) div 255" "r = (len - 7) mod 255"
    have "len - 7 = 255 * q + r" by (simp add: qr)
    then have split: "int len = 7 + 255 * int q + int r" using False by linarith
    have "dz_len input (length input) ip 6 = Some (Some (ip + q + 1, 6 + 255 * int q + int r))"
    proof (rule dz_len_reads)
      show "drop ip input = replicate q 255 @ word_of_nat r # b # ds @ c # rest"
        using assms(2) False ds by (simp add: len_bytes_def qr)
      show "6 + 255 * int (q + 1) < 2 ^ 31" using split assms(7) by simp
      show "r < 255" by (simp add: qr)
    qed simp_all
    moreover have "6 + 255 * int q + int r = int len - 1" using split by linarith
    moreover have "length (len_bytes len) = q + 1" using False by (simp add: len_bytes_def qr)
    ultimately show ?thesis using False match_ctrl_bounds(3)[OF len, of distance] by simp
  qed
  have l3: "i32 (int len - 1 + 3) = Some (int len + 2)" using assms(7) by (simp add: add.commute)
  have b: "load input ?i = Some b" "drop (?i + 1) input = ds @ c # rest" using load_drop[OF at_i] by auto
  have ofs: "?ctrl mod 32 = (if distance < MAX_DISTANCE then distance div 256 else 31)"
    by (rule match_ctrl_bounds(4)[OF len])
  show ?thesis
  proof (cases "distance < MAX_DISTANCE")
    case True
    then have bs: "b = word_of_nat (distance mod 256)" "ds = []" using ds by (simp_all add: dist_bytes_def)
    have u: "unat b = distance mod 256" using bs by (simp add: unat_word_of_nat_byte)
    then have ub: "uint b = int (distance mod 256)" by (simp flip: u)
    have far: "(b = 255 \<and> ?ctrl mod 32 * 256 = 31 * 256) = False"
    proof (rule ccontr, simp only: eq_False not_not)
      assume "b = 255 \<and> ?ctrl mod 32 * 256 = 31 * 256"
      then have "distance mod 256 = 255" "distance div 256 = 31" using u ofs True by auto
      then have "distance = 31 * 256 + 255" by (metis div_mod_decomp)
      with True show False by (simp add: MAX_DISTANCE_def)
    qed
    have ref: "int op - int (?ctrl mod 32 * 256) - uint b = int op - int distance"
    proof -
      have "int distance = int (distance div 256) * 256 + int (distance mod 256)"
        by (metis div_mod_decomp of_nat_add of_nat_mult of_nat_numeral)
      then show ?thesis using ofs True ub by simp
    qed
    have "load input (?i + 1) = Some c" using load_drop[of "?i + 1" input c rest] b(2) bs(2) by simp
    from dz_match_body_reads[OF this dist(1) assms(3-6)] assms(7) obtain o' where
      "dz_match_body input (length input) op_limit (?i + 1) (int len + 2) (int op - int distance) op out =
        Some (Next (unat c) (?i + 2) (op + len + 2) o')"
      "take (op + len + 2) o' = expand acc (Match len distance)" "out_kept op_limit out o'"
      by auto
    moreover have "dz_match input (length input) op_limit ?ctrl ip op out =
        dz_match_body input (length input) op_limit (?i + 1) (int len + 2) (int op - int distance) op out"
      unfolding dz_match_def Let_def r by (simp only: option.case prod.case Option.bind.simps b(1) l3 far if_False ref)
    moreover have "ip + length (len_bytes len @ dist_bytes distance) + 1 = ?i + 2" using bs ds by simp
    ultimately show ?thesis by (simp only:) blast
  next
    case False
    let ?d = "distance - MAX_DISTANCE"
    have bs: "b = 255" "ds = [word_of_nat (?d div 256), word_of_nat (?d mod 256)]"
      using ds False by (simp_all add: dist_bytes_def)
    have hi: "load input (?i + 1) = Some (word_of_nat (?d div 256))" "drop (?i + 2) input = word_of_nat (?d mod 256) # c # rest"
      using load_drop[of "?i + 1" input] b(2) bs(2) by auto
    have lo: "load input (?i + 2) = Some (word_of_nat (?d mod 256))" "drop (?i + 3) input = c # rest"
      using load_drop[OF hi(2)] by (auto simp: numeral_3_eq_3)
    have c: "load input (?i + 3) = Some c" using load_drop[OF lo(2)] by simp
    have "?i + 2 < length input" using lo(1) by (simp add: load_def split: if_splits)
    have "?d div 256 < 256" using dist(2) False by (simp add: less_mult_imp_div_less)
    then have "unat (word_of_nat (?d div 256) :: byte) * 256 + unat (word_of_nat (?d mod 256) :: byte) = ?d"
      by (simp add: unat_word_of_nat_byte)
    then have ref: "int op - int (unat (word_of_nat (?d div 256) :: byte) * 256 + unat (word_of_nat (?d mod 256) :: byte)) -
        int MAX_DISTANCE = int op - int distance" using False by simp
    obtain o' where
      "dz_match_body input (length input) op_limit (?i + 3) (int len + 2) (int op - int distance) op out =
        Some (Next (unat c) (?i + 4) (op + len + 2) o')"
      "take (op + len + 2) o' = expand acc (Match len distance)" "out_kept op_limit out o'"
      using dz_match_body_reads[OF c dist(1) assms(3-6)] assms(7) by auto
    moreover have "dz_match input (length input) op_limit ?ctrl ip op out =
        dz_match_body input (length input) op_limit (?i + 3) (int len + 2) (int op - int distance) op out"
    proof -
      have "(b = 255 \<and> ?ctrl mod 32 * 256 = 31 * 256) = True" "(?i + 1 + 1 \<ge> length input) = False"
        "load input (?i + 1 + 1) = Some (word_of_nat (?d mod 256))" "?i + 1 + 2 = ?i + 3"
        using bs(1) ofs False lo(1) \<open>?i + 2 < length input\<close> by simp_all
      then show ?thesis
        unfolding dz_match_def Let_def r
        by (simp only: option.case prod.case Option.bind.simps b(1) l3 hi(1) if_True if_False ref)
    qed
    moreover have "ip + length (len_bytes len @ dist_bytes distance) + 1 = ?i + 4" using bs ds by simp
    ultimately show ?thesis by (simp only:) blast
  qed
qed

section \<open>Reading a stream\<close>

lemma dz_literal_reads:
  assumes "token_ok acc (Lit bs)" "drop ip input = bs @ rest" "op = length acc" "take op out = acc"
    and "op + length bs \<le> op_limit" "op_limit \<le> length out"
  shows "\<exists>o'. dz_literal input (length input) op_limit (length bs - 1) ip op out =
      Some (case rest of [] \<Rightarrow> Done (int (op + length bs)) o'
            | c # _ \<Rightarrow> Next (unat c) (ip + length bs + 1) (op + length bs) o') \<and>
    take (op + length bs) o' = expand acc (Lit bs) \<and> out_kept op_limit out o'"
proof -
  let ?o = "take op out @ bs @ drop (op + length bs) out"
  have "length (drop ip input) = length bs + length rest" using assms(2) by simp
  moreover have "1 \<le> length bs" using assms(1) by simp
  ultimately have ip: "ip + length bs + length rest = length input" by simp
  have bs: "take (length bs) (drop ip input) = bs" using assms(2) by simp
  then have m: "memcpy out op input ip (length bs) = Some ?o" using assms(5,6) ip by (simp add: memcpy_Some)
  have "drop (length bs) (drop ip input) = rest" using assms(2) by simp
  then have rest: "drop (ip + length bs) input = rest" by (simp add: add.commute)
  have "out_kept op_limit out ?o" using assms(5,6) by (rule out_kept_blit)
  moreover have "take (op + length bs) ?o = expand acc (Lit bs)" using assms(4-6) by auto
  moreover have "dz_literal input (length input) op_limit (length bs - 1) ip op out =
      Some (case rest of [] \<Rightarrow> Done (int (op + length bs)) ?o
            | c # _ \<Rightarrow> Next (unat c) (ip + length bs + 1) (op + length bs) ?o)"
  proof (cases rest)
    case Nil
    have n: "length bs - 1 + 1 = length bs" using assms(1) by (cases bs) auto
    with Nil m ip assms(5) show ?thesis by (simp only: dz_literal_def Let_def) simp
  next
    case (Cons c cs)
    with load_drop[of "ip + length bs" input] rest have "load input (ip + length bs) = Some c" by auto
    moreover have n: "length bs - 1 + 1 = length bs" using assms(1) by (cases bs) auto
    ultimately show ?thesis using Cons m ip assms(5) by (simp only: dz_literal_def Let_def) simp
  qed
  ultimately show ?thesis by blast
qed

lemma dz_loop_reads:
  assumes "tokens_ok acc ts" "ts \<noteq> []" "is_Lit (last ts)"
    and "stream ts = c # rest" "drop ip input = rest" "ctrl = unat c" "op = length acc" "take op out = acc"
    and "length (foldl expand acc ts) \<le> op_limit" "op_limit \<le> length out" "int op_limit + 300 < 2 ^ 31" "length ts \<le> fuel"
  shows "\<exists>o'. dz_loop fuel input (length input) op_limit ctrl ip op out = Some (int (length (foldl expand acc ts)), o') \<and>
    take (length (foldl expand acc ts)) o' = foldl expand acc ts \<and> out_kept op_limit out o'"
  using assms
proof (induction ts arbitrary: acc c rest ip ctrl op out fuel)
  case Nil
  then show ?case by simp
next
  case (Cons t ts)
  obtain f where fuel: "fuel = Suc f" "length ts \<le> f" using Cons.prems(12) by (cases fuel) auto
  have limit: "length (expand acc t) \<le> op_limit"
    using Cons.prems(9) length_foldl_expand[of "expand acc t" ts] by simp
  have rest: "rest = tl (token_bytes t) @ stream ts" "c = hd (token_bytes t)"
    using Cons.prems(4) by (cases "token_bytes t"; simp)+
  define step where "step = (if ctrl \<ge> 32 then dz_match input (length input) op_limit ctrl ip op out
    else dz_literal input (length input) op_limit ctrl ip op out)"
  have step: "\<exists>o'. step = Some (case stream ts of [] \<Rightarrow> Done (int (length (expand acc t))) o'
            | c # _ \<Rightarrow> Next (unat c) (ip + length (token_bytes t)) (length (expand acc t)) o') \<and>
        take (length (expand acc t)) o' = expand acc t \<and> out_kept op_limit out o'"
  proof (cases t)
    case (Lit bs)
    have bs: "1 \<le> length bs" "length bs \<le> 32" using Cons.prems(1) Lit by auto
    have "ctrl = unat (word_of_nat (length bs - 1) :: byte)" using rest(2) Lit Cons.prems(6) by (simp del: of_nat_diff)
    with bs have ctrl: "ctrl = length bs - 1" "ctrl < 32" by (simp_all add: unat_word_of_nat_byte del: of_nat_diff)
    have "drop ip input = bs @ stream ts" using rest Lit Cons.prems(5) by simp
    moreover have "op + length bs \<le> op_limit" "token_ok acc (Lit bs)" using limit Lit bs Cons.prems(7) by simp_all
    ultimately have "\<exists>o'. dz_literal input (length input) op_limit (length bs - 1) ip op out =
      Some (case stream ts of [] \<Rightarrow> Done (int (op + length bs)) o'
            | c # _ \<Rightarrow> Next (unat c) (ip + length bs + 1) (op + length bs) o') \<and>
      take (op + length bs) o' = expand acc (Lit bs) \<and> out_kept op_limit out o'"
      using Cons.prems(7,8,10) by (intro dz_literal_reads)
    moreover have "length (expand acc (Lit bs)) = op + length bs" "ip + length (token_bytes (Lit bs)) = ip + length bs + 1"
      using Cons.prems(7) by simp_all
    moreover have "step = dz_literal input (length input) op_limit (length bs - 1) ip op out"
      using ctrl by (simp add: step_def)
    ultimately show ?thesis unfolding Lit by (simp only:)
  next
    case (Match len distance)
    have ne: "ts \<noteq> []" using Match Cons.prems(3) by auto
    then obtain c' rest' where ts: "stream ts = c' # rest'"
      by (cases ts; cases "token_bytes (hd ts)") auto
    have ok: "token_ok acc (Match len distance)" using Cons.prems(1) Match by simp
    have len: "1 \<le> len" using ok by simp
    have tb: "token_bytes t = word_of_nat (match_ctrl len distance) # len_bytes len @ dist_bytes distance"
      using Match by (simp add: concat_match_groups del: concat_eq_Nil_conv)
    have ctrl: "ctrl = match_ctrl len distance" "32 \<le> ctrl"
      using rest(2) tb Cons.prems(6) match_ctrl_bounds(1,2)[OF len, of distance] by (auto simp: unat_word_of_nat_byte)
    have d: "drop ip input = len_bytes len @ dist_bytes distance @ c' # rest'"
      using rest(1) tb ts Cons.prems(5) by simp
    have n: "length (expand acc t) = op + len + 2" using Match Cons.prems(7) by simp
    from dz_match_reads[OF ok d Cons.prems(7,8)] limit n Cons.prems(10,11) obtain o' where
      "dz_match input (length input) op_limit (match_ctrl len distance) ip op out =
        Some (Next (unat c') (ip + length (len_bytes len @ dist_bytes distance) + 1) (op + len + 2) o')"
      "take (op + len + 2) o' = expand acc (Match len distance)" "out_kept op_limit out o'"
      by auto
    with n ctrl tb ts Match show ?thesis by (auto simp: step_def simp del: expand.simps)
  qed
  show ?case
  proof (cases ts)
    case Nil
    with step fuel show ?thesis by (auto simp: step_def[symmetric])
  next
    case ts: (Cons t' ts')
    obtain c' rest' where c': "stream ts = c' # rest'"
      using ts by (cases "token_bytes t'") auto
    from step c' obtain o' where o': "step = Some (Next (unat c') (ip + length (token_bytes t)) (length (expand acc t)) o')"
      "take (length (expand acc t)) o' = expand acc t" "out_kept op_limit out o'" by auto
    define tt where "tt = tl (token_bytes t)"
    have "length (token_bytes t) = Suc (length tt)" unfolding tt_def by (cases "token_bytes t") auto
    moreover have "drop (length tt + 1) (drop ip input) = rest'"
      unfolding Cons.prems(5) rest(1) c' tt_def[symmetric] by simp
    ultimately have "drop (ip + length (token_bytes t)) input = rest'" by (simp add: add.commute)
    then have "\<exists>o''. dz_loop f input (length input) op_limit (unat c') (ip + length (token_bytes t)) (length (expand acc t)) o' =
        Some (int (length (foldl expand (expand acc t) ts)), o'') \<and>
      take (length (foldl expand (expand acc t) ts)) o'' = foldl expand (expand acc t) ts \<and> out_kept op_limit o' o''"
      by (intro Cons.IH[OF _ _ _ c']) (use Cons.prems ts o' out_kept_length[OF o'(3)] fuel(2) in auto)
    with o'(1) out_kept_trans[OF o'(3)] show ?thesis unfolding fuel(1) by (auto simp: step_def[symmetric])
  qed
qed

text \<open>The first byte of a stream has bit 5 set; the decompressor ignores it.\<close>

lemma blosclz_decompress_stream:
  assumes "tokens_ok [] ts" "ts \<noteq> []" "is_Lit (hd ts)" "is_Lit (last ts)" "stream ts = c # rest"
    and "length (foldl expand [] ts) \<le> maxout" "maxout \<le> length out" "int maxout + 300 < 2 ^ 31"
  shows "\<exists>out'. blosclz_decompress ((c OR 32) # rest) (length (stream ts)) out maxout =
      Some (int (length (foldl expand [] ts)), out') \<and>
    take (length (foldl expand [] ts)) out' = foldl expand [] ts \<and> out_kept maxout out out'"
proof -
  obtain bs ts' where ts: "ts = Lit bs # ts'" using assms(2,3) is_Lit_obtain by (cases ts) auto
  then have c: "c = word_of_nat (length bs - 1)" "length bs - 1 < 32" using assms(1,5) by auto
  have "unat (c OR 32) mod 32 = unat c"
  proof -
    have u: "take_bit 5 (unat c OR (32 :: nat)) = take_bit 5 (unat c)"
      by (simp only: take_bit_or) simp
    have "unat (c OR 32) = (unat c OR 32)" by (simp add: unsigned_or_eq)
    then have "unat (c OR 32) mod 2 ^ 5 = unat c mod 2 ^ 5" using u by (simp only: take_bit_eq_mod)
    with c show ?thesis by (simp add: unat_word_of_nat_byte del: of_nat_diff)
  qed
  moreover have "length ts \<le> length (stream ts)"
  proof (induction ts)
    case (Cons t ts)
    have "0 < length (token_bytes t)" by simp
    with Cons show ?case by (simp only: list.map concat.simps length_append list.size)
  qed simp
  moreover have "\<exists>o'. dz_loop (length (stream ts)) ((c OR 32) # rest) (length ((c OR 32) # rest)) maxout (unat c) 1 0 out =
      Some (int (length (foldl expand [] ts)), o') \<and>
    take (length (foldl expand [] ts)) o' = foldl expand [] ts \<and> out_kept maxout out o'"
    by (rule dz_loop_reads[OF assms(1,2,4,5)]) (use assms calculation(2) in simp_all)
  moreover have "length (stream ts) = length ((c OR 32) # rest)" "length (stream ts) \<noteq> 0" using assms(5) by simp_all
  moreover have "load ((c OR 32) # rest) 0 = Some (c OR 32)" by (simp add: load_def)
  ultimately show ?thesis
    unfolding blosclz_decompress_def by (simp only: if_False Option.bind.simps)
qed

end
