(* ===== verification/Blosclz_Compress.thy ===== *)
theory Blosclz_Compress
  imports Blosclz_Stream
begin

text \<open>
  \<open>blosclz_compress\<close> of \<open>blosc/blosclz.c\<close> in the portable build (no SSE2 or AVX2). Pointers are positions,
  the hash table keeps positions, and \<open>get_cratio\<close> gets the suffix of the input its pointer points to.
  Leaving the compressor through the label \<open>out\<close> is \<open>Inl\<close>, with the output buffer as it then is.

  The ratio that \<open>get_cratio\<close> returns as a \<open>double\<close> is kept as its two integers. Both are below \<open>2 ^ 15\<close>,
  far from where the rounding of a division could cross one of the thresholds, so that comparing by
  cross-multiplication gives the answer of the C comparison.
\<close>

section \<open>Finding runs and matches\<close>

definition MAX_COPY :: nat where "MAX_COPY = 32"

definition MAX_FARDISTANCE :: nat where "MAX_FARDISTANCE = 65535 + MAX_DISTANCE - 1"

definition HASH_LOG :: nat where "HASH_LOG = 14"

text \<open>\<open>HASH_FUNCTION\<close>: shifting an \<open>unsigned\<close> by 32 is undefined.\<close>

definition hash_function :: "32 word \<Rightarrow> nat \<Rightarrow> nat option" where
  "hash_function s h = (if h = 0 then None else Some (unat (drop_bit (32 - h) (s * 2654435761))))"

text \<open>\<open>while (*ref++ == x) ip++; return ip;\<close>\<close>

function run_end :: "byte \<Rightarrow> buf \<Rightarrow> nat \<Rightarrow> nat \<Rightarrow> nat option" where
  "run_end x b ip ref = do {
     v \<leftarrow> load b ref;
     if v = x then run_end x b (ip + 1) (ref + 1) else Some ip }"
  by pat_completeness auto
termination
  by (relation "measure (\<lambda>(x, b, ip, ref). length b - ref)") (auto simp: load_def split: if_splits)

function run_remainder :: "byte \<Rightarrow> buf \<Rightarrow> nat \<Rightarrow> nat \<Rightarrow> nat \<Rightarrow> nat option" where
  "run_remainder x b ip ip_bound ref =
    (if ip < ip_bound then do {
       v \<leftarrow> load b ref;
       if v = x then run_remainder x b (ip + 1) ip_bound (ref + 1) else Some ip }
     else Some ip)"
  by pat_completeness auto
termination by (relation "measure (\<lambda>(x, b, ip, ip_bound, ref). ip_bound - ip)") auto

function run_words :: "byte \<Rightarrow> buf \<Rightarrow> nat \<Rightarrow> nat \<Rightarrow> nat \<Rightarrow> nat option" where
  "run_words x b ip ip_bound ref =
    (if ip + 8 < ip_bound then do {
       value2 \<leftarrow> load_el 8 b ref;
       if replicate 8 x \<noteq> value2 then run_end x b ip ref
       else run_words x b (ip + 8) ip_bound (ref + 8) }
     else run_remainder x b ip ip_bound ref)"
  by pat_completeness auto
termination by (relation "measure (\<lambda>(x, b, ip, ip_bound, ref). ip_bound - ip)") auto

definition get_run :: "buf \<Rightarrow> nat \<Rightarrow> nat \<Rightarrow> nat \<Rightarrow> nat option" where
  "get_run b ip ip_bound ref =
    (if ip = 0 then None else do { x \<leftarrow> load b (ip - 1); run_words x b ip ip_bound ref })"

text \<open>\<open>while (*ref++ == *ip++) {}\<close>\<close>

function match_end :: "buf \<Rightarrow> nat \<Rightarrow> nat \<Rightarrow> nat option" where
  "match_end b ip ref = do {
     v \<leftarrow> load b ref;
     w \<leftarrow> load b ip;
     if v = w then match_end b (ip + 1) (ref + 1) else Some (ip + 1) }"
  by pat_completeness auto
termination
  by (relation "measure (\<lambda>(b, ip, ref). length b - ref)") (auto simp: load_def split: if_splits)

function match_remainder :: "buf \<Rightarrow> nat \<Rightarrow> nat \<Rightarrow> nat \<Rightarrow> nat option" where
  "match_remainder b ip ip_bound ref =
    (if ip < ip_bound then do {
       v \<leftarrow> load b ref;
       w \<leftarrow> load b ip;
       if v = w then match_remainder b (ip + 1) ip_bound (ref + 1) else Some (ip + 1) }
     else Some ip)"
  by pat_completeness auto
termination by (relation "measure (\<lambda>(b, ip, ip_bound, ref). ip_bound - ip)") auto

function get_match :: "buf \<Rightarrow> nat \<Rightarrow> nat \<Rightarrow> nat \<Rightarrow> nat option" where
  "get_match b ip ip_bound ref =
    (if ip + 8 < ip_bound then do {
       v \<leftarrow> load_el 8 b ref;
       w \<leftarrow> load_el 8 b ip;
       if v \<noteq> w then match_end b ip ref else get_match b (ip + 8) ip_bound (ref + 8) }
     else match_remainder b ip ip_bound ref)"
  by pat_completeness auto
termination by (relation "measure (\<lambda>(b, ip, ip_bound, ref). ip_bound - ip)") auto

definition get_run_or_match :: "buf \<Rightarrow> nat \<Rightarrow> nat \<Rightarrow> nat \<Rightarrow> bool \<Rightarrow> nat option" where
  "get_run_or_match b ip ip_bound ref run =
    (if run then get_run b ip ip_bound ref else get_match b ip ip_bound ref)"

declare run_end.simps [simp del] run_remainder.simps [simp del] run_words.simps [simp del]
  match_end.simps [simp del] match_remainder.simps [simp del] get_match.simps [simp del]

section \<open>The hash table\<close>

text \<open>Hash the word at \<open>ip\<close>, look its last position up and record the new one; or only record it.\<close>

definition hash_lookup :: "bool \<Rightarrow> buf \<Rightarrow> nat \<Rightarrow> nat list \<Rightarrow> nat \<Rightarrow> (32 word \<times> nat \<times> nat list) option" where
  "hash_lookup le b hashlog htab ip = do {
     seq \<leftarrow> load_word le b ip;
     hval \<leftarrow> hash_function seq hashlog;
     ref \<leftarrow> load htab hval;
     htab \<leftarrow> store htab hval ip;
     Some (seq, ref, htab) }"

definition hash_update :: "32 word \<Rightarrow> nat \<Rightarrow> nat list \<Rightarrow> nat \<Rightarrow> nat list option" where
  "hash_update seq hashlog htab ip = do {
     hval \<leftarrow> hash_function seq hashlog;
     store htab hval ip }"

text \<open>\<open>(unsigned int)(anchor - ref)\<close>\<close>

definition lz_distance :: "nat \<Rightarrow> nat \<Rightarrow> nat" where
  "lz_distance anchor ref = nat ((int anchor - int ref) mod 2 ^ 32)"

section \<open>The probe\<close>

record gc_state =
  gc_ip :: nat
  gc_oc :: int
  gc_copy :: nat
  gc_htab :: "nat list"

text \<open>\<open>LITERAL2\<close>\<close>

definition LITERAL2 :: "nat \<Rightarrow> gc_state \<Rightarrow> gc_state" where
  "LITERAL2 anchor s =
    (let s = s\<lparr> gc_oc := gc_oc s + 1, gc_ip := anchor + 1, gc_copy := gc_copy s + 1 \<rparr>
     in if gc_copy s = MAX_COPY then s\<lparr> gc_copy := 0, gc_oc := gc_oc s + 1 \<rparr> else s)"

text \<open>Counting the bytes of a match.\<close>

definition gc_match :: "nat \<Rightarrow> nat \<Rightarrow> gc_state \<Rightarrow> gc_state" where
  "gc_match len distance s =
    (let s = (if gc_copy s = 0 then s\<lparr> gc_oc := gc_oc s - 1 \<rparr> else s);
         s = s\<lparr> gc_copy := 0 \<rparr>;
         s = (if len \<ge> 7 then s\<lparr> gc_oc := gc_oc s + int ((len - 7) div 255) + 1 \<rparr> else s)
     in s\<lparr> gc_oc := gc_oc s + (if distance < MAX_DISTANCE then 2 else 4) \<rparr>)"

definition gc_step :: "bool \<Rightarrow> buf \<Rightarrow> nat \<Rightarrow> nat \<Rightarrow> nat \<Rightarrow> nat \<Rightarrow> gc_state \<Rightarrow> gc_state option" where
  "gc_step le ibase ip_bound minlen ipshift hashlog s = do {
     let anchor = gc_ip s;
     (seq, ref, htab) \<leftarrow> hash_lookup le ibase hashlog (gc_htab s) anchor;
     let distance = lz_distance anchor ref;
     let s = s\<lparr> gc_htab := htab \<rparr>;
     if distance = 0 \<or> distance \<ge> MAX_FARDISTANCE then Some (LITERAL2 anchor s)
     else do {
       refseq \<leftarrow> load_word le ibase ref;
       if refseq \<noteq> seq then Some (LITERAL2 anchor s)
       else do {
         let distance = distance - 1;
         ip \<leftarrow> get_run_or_match ibase (anchor + 4) ip_bound (ref + 4) (distance = 0);
         let ip = ip - ipshift;
         let len = ip - anchor;
         if len < minlen then Some (LITERAL2 anchor s)
         else do {
           let s = gc_match len distance s;
           seq \<leftarrow> load_word le ibase ip;
           htab \<leftarrow> hash_update seq hashlog (gc_htab s) ip;
           Some (s\<lparr> gc_htab := htab, gc_ip := ip + 2, gc_oc := gc_oc s + 1 \<rparr>) } } } }"

fun gc_loop :: "nat \<Rightarrow> bool \<Rightarrow> buf \<Rightarrow> nat \<Rightarrow> nat \<Rightarrow> nat \<Rightarrow> nat \<Rightarrow> gc_state \<Rightarrow> gc_state option" where
  "gc_loop 0 le ibase limit minlen ipshift hashlog s = None"
| "gc_loop (Suc fuel) le ibase limit minlen ipshift hashlog s =
    (if int (gc_ip s) < int limit - 12 then do {
       s \<leftarrow> gc_step le ibase (limit - 1) minlen ipshift hashlog s;
       gc_loop fuel le ibase limit minlen ipshift hashlog s }
     else Some s)"

text \<open>
  \<open>get_cratio\<close>, which returns the input and the output counter. Every turn of the loop advances, so
  \<open>limit\<close> turns are enough.
\<close>

definition get_cratio :: "bool \<Rightarrow> buf \<Rightarrow> nat \<Rightarrow> nat \<Rightarrow> nat \<Rightarrow> nat \<Rightarrow> (int \<times> int) option" where
  "get_cratio le ibase maxlen minlen ipshift hashlog = do {
     let hashlen = 2 ^ hashlog;
     let limit = (if maxlen > hashlen then hashlen else maxlen);
     s \<leftarrow> gc_loop (limit + 1) le ibase limit minlen ipshift hashlog
       \<lparr> gc_ip = 0, gc_oc = 0 + 5, gc_copy = 4, gc_htab = replicate hashlen 0 \<rparr>;
     Some (int (gc_ip s), gc_oc s) }"

section \<open>The compressor\<close>

record lz_state =
  lz_ip :: nat
  lz_op :: nat
  lz_copy :: nat
  lz_htab :: "nat list"
  lz_out :: buf

text \<open>\<open>LITERAL\<close>; the loop for the left-over bytes has the same body.\<close>

definition LITERAL :: "buf \<Rightarrow> nat \<Rightarrow> nat \<Rightarrow> lz_state \<Rightarrow> (buf + lz_state) option" where
  "LITERAL input op_limit anchor s =
    (if lz_op s + 2 > op_limit then Some (Inl (lz_out s))
     else do {
       v \<leftarrow> load input anchor;
       out \<leftarrow> store (lz_out s) (lz_op s) v;
       let s = s\<lparr> lz_out := out, lz_op := lz_op s + 1, lz_ip := anchor + 1, lz_copy := lz_copy s + 1 \<rparr>;
       if lz_copy s = MAX_COPY then do {
         out \<leftarrow> store (lz_out s) (lz_op s) (word_of_nat (MAX_COPY - 1));
         Some (Inr (s\<lparr> lz_copy := 0, lz_out := out, lz_op := lz_op s + 1 \<rparr>)) }
       else Some (Inr s) })"

text \<open>Adjusting the count of the literals copied, or going back over it when there are none.\<close>

definition adjust_copy :: "lz_state \<Rightarrow> lz_state option" where
  "adjust_copy s =
    (if lz_copy s \<noteq> 0 then
       if lz_op s < lz_copy s + 1 then None
       else do {
         out \<leftarrow> store (lz_out s) (lz_op s - lz_copy s - 1) (word_of_nat (lz_copy s - 1));
         Some (s\<lparr> lz_out := out \<rparr>) }
     else if lz_op s = 0 then None else Some (s\<lparr> lz_op := lz_op s - 1 \<rparr>))"

text \<open>Writing groups of bytes, each after a check that it fits.\<close>

fun put_groups :: "nat \<Rightarrow> buf list \<Rightarrow> nat \<Rightarrow> buf \<Rightarrow> (buf + nat \<times> buf) option" where
  "put_groups op_limit [] op out = Some (Inr (op, out))"
| "put_groups op_limit (bs # bss) op out =
    (if op + length bs > op_limit then Some (Inl out)
     else do {
       out \<leftarrow> store_el out op bs;
       put_groups op_limit bss (op + length bs) out })"

text \<open>The match at \<open>anchor\<close> that ends before \<open>ip\<close>: the output and the hash table at its end.\<close>

definition lz_match :: "bool \<Rightarrow> nat \<Rightarrow> buf \<Rightarrow> nat \<Rightarrow> nat \<Rightarrow> nat \<Rightarrow> nat \<Rightarrow> nat \<Rightarrow> lz_state \<Rightarrow> (buf + lz_state) option" where
  "lz_match le clevel input op_limit hashlog ip len distance s = do {
     s \<leftarrow> adjust_copy s;
     let s = s\<lparr> lz_copy := 0 \<rparr>;
     r \<leftarrow> put_groups op_limit (match_groups len distance) (lz_op s) (lz_out s);
     case r of Inl out \<Rightarrow> Some (Inl out)
     | Inr (op, out) \<Rightarrow> do {
         seq \<leftarrow> load_word le input ip;
         htab \<leftarrow> hash_update seq hashlog (lz_htab s) ip;
         htab \<leftarrow> (if clevel = 9 then hash_update (drop_bit 8 seq) hashlog htab (ip + 1) else Some htab);
         if op + 1 > op_limit then Some (Inl out)
         else do {
           out \<leftarrow> store out op (word_of_nat (MAX_COPY - 1));
           Some (Inr (s\<lparr> lz_ip := ip + 2, lz_op := op + 1, lz_htab := htab, lz_out := out \<rparr>)) } } }"

definition lz_step :: "bool \<Rightarrow> nat \<Rightarrow> buf \<Rightarrow> nat \<Rightarrow> nat \<Rightarrow> nat \<Rightarrow> lz_state \<Rightarrow> (buf + lz_state) option" where
  "lz_step le clevel input ip_bound op_limit hashlog s = do {
     let anchor = lz_ip s;
     (seq, ref, htab) \<leftarrow> hash_lookup le input hashlog (lz_htab s) anchor;
     let distance = lz_distance anchor ref;
     let s = s\<lparr> lz_htab := htab \<rparr>;
     if distance = 0 \<or> distance \<ge> MAX_FARDISTANCE then LITERAL input op_limit anchor s
     else do {
       refseq \<leftarrow> load_word le input ref;
       if refseq \<noteq> seq then LITERAL input op_limit anchor s
       else do {
         let distance = distance - 1;
         ip \<leftarrow> get_run_or_match input (anchor + 4) ip_bound (ref + 4) (distance = 0);
         let ip = ip - 4;
         let len = ip - anchor;
         if len < 4 \<or> (len \<le> 5 \<and> distance \<ge> MAX_DISTANCE) then LITERAL input op_limit anchor s
         else lz_match le clevel input op_limit hashlog ip len distance s } } }"

fun lz_loop :: "nat \<Rightarrow> bool \<Rightarrow> nat \<Rightarrow> buf \<Rightarrow> nat \<Rightarrow> nat \<Rightarrow> nat \<Rightarrow> lz_state \<Rightarrow> (buf + lz_state) option" where
  "lz_loop 0 le clevel input len op_limit hashlog s = None"
| "lz_loop (Suc fuel) le clevel input len op_limit hashlog s =
    (if int (lz_ip s) < int len - 12 then do {
       r \<leftarrow> lz_step le clevel input (len - 1) op_limit hashlog s;
       case r of Inl out \<Rightarrow> Some (Inl out)
       | Inr s \<Rightarrow> lz_loop fuel le clevel input len op_limit hashlog s }
     else Some (Inr s))"

fun lz_leftover :: "nat \<Rightarrow> buf \<Rightarrow> nat \<Rightarrow> nat \<Rightarrow> lz_state \<Rightarrow> (buf + lz_state) option" where
  "lz_leftover 0 input len op_limit s = None"
| "lz_leftover (Suc fuel) input len op_limit s =
    (if int (lz_ip s) \<le> int len - 1 then do {
       r \<leftarrow> LITERAL input op_limit (lz_ip s) s;
       case r of Inl out \<Rightarrow> Some (Inl out)
       | Inr s \<Rightarrow> lz_leftover fuel input len op_limit s }
     else Some (Inr s))"

text \<open>The end of the stream: the last count, the marker, the size.\<close>

definition lz_finish :: "lz_state \<Rightarrow> (int \<times> buf) option" where
  "lz_finish s = do {
     s \<leftarrow> adjust_copy s;
     v \<leftarrow> load (lz_out s) 0;
     out \<leftarrow> store (lz_out s) 0 (v OR 2 ^ 5);
     Some (int (lz_op s), out) }"

text \<open>From the first literals to the end; as much fuel as there is input is enough.\<close>

definition lz_encode :: "bool \<Rightarrow> nat \<Rightarrow> buf \<Rightarrow> nat \<Rightarrow> buf \<Rightarrow> nat \<Rightarrow> nat \<Rightarrow> (int \<times> buf) option" where
  "lz_encode le clevel input len out maxout hashlog = do {
     first \<leftarrow> load_el 4 input 0;
     out \<leftarrow> store_el out 0 (word_of_nat (MAX_COPY - 1) # first);
     r \<leftarrow> lz_loop (len + 1) le clevel input len maxout hashlog
       \<lparr> lz_ip = 4, lz_op = 5, lz_copy = 4, lz_htab = replicate (2 ^ hashlog) 0, lz_out = out \<rparr>;
     case r of Inl out \<Rightarrow> Some (0, out)
     | Inr s \<Rightarrow> do {
         r \<leftarrow> lz_leftover (len + 1) input len maxout s;
         case r of Inl out \<Rightarrow> Some (0, out) | Inr s \<Rightarrow> lz_finish s } }"

text \<open>The tables for the levels; the thresholds of \<open>cratio_\<close> in hundredths.\<close>

definition hashlogs :: "nat list" where
  "hashlogs = [0, HASH_LOG - 2, HASH_LOG - 1, HASH_LOG, HASH_LOG, HASH_LOG, HASH_LOG, HASH_LOG, HASH_LOG, HASH_LOG]"

definition cratios :: "int list" where
  "cratios = [0, 200, 150, 120, 120, 120, 120, 115, 110, 100]"

definition blosclz_compress :: "bool \<Rightarrow> nat \<Rightarrow> buf \<Rightarrow> nat \<Rightarrow> buf \<Rightarrow> nat \<Rightarrow> (int \<times> buf) option" where
  "blosclz_compress le clevel input len out maxout = do {
     hashlog \<leftarrow> load hashlogs clevel;
     let maxlen = (if clevel < 2 then len div 8 else if clevel < 4 then len div 4
                   else if clevel < 7 then len div 2 else len);
     let shift = len - maxlen;
     (ic, oc) \<leftarrow> get_cratio le (drop shift input) maxlen 4 4 hashlog;
     cratio \<leftarrow> load cratios clevel;
     if 100 * ic < cratio * oc then Some (0, out)
     else if len < 16 \<or> maxout < 66 then Some (0, out)
     else lz_encode le clevel input len out maxout hashlog }"

section \<open>Matches are matches\<close>

text \<open>
  What the scans return: between the start and the bound, one past the first difference or the bound.
\<close>

definition scanned :: "buf \<Rightarrow> nat \<Rightarrow> nat \<Rightarrow> nat \<Rightarrow> nat \<Rightarrow> bool" where
  "scanned b d ip ip_bound e \<longleftrightarrow> ip \<le> e \<and> e \<le> ip_bound \<and> (\<forall>k. ip \<le> k \<and> k + 1 < e \<longrightarrow> b ! k = b ! (k - d))"

lemma scanned_extend:
  assumes "\<And>k. ip \<le> k \<Longrightarrow> k < ip + m \<Longrightarrow> b ! k = b ! (k - d)" "scanned b d (ip + m) ip_bound e"
  shows "scanned b d ip ip_bound e"
  unfolding scanned_def
proof (intro conjI allI impI)
  fix k assume "ip \<le> k \<and> k + 1 < e"
  then show "b ! k = b ! (k - d)" using assms by (cases "k < ip + m") (auto simp: scanned_def)
qed (use assms(2) in \<open>auto simp: scanned_def\<close>)

lemma scanned_difference: "ip + 1 \<le> ip_bound \<Longrightarrow> scanned b d ip ip_bound (ip + 1)"
  by (auto simp: scanned_def)

lemma match_end_scanned:
  assumes "0 < d" "d \<le> ip" "\<exists>j < n. b ! (ip + j) \<noteq> b ! (ip + j - d)" "ip + n < ip_bound" "ip_bound \<le> length b"
  shows "\<exists>e. match_end b ip (ip - d) = Some e \<and> scanned b d ip ip_bound e"
  using assms
proof (induction n arbitrary: ip)
  case 0
  then show ?case by simp
next
  case (Suc n)
  have ld: "load b (ip - d) = Some (b ! (ip - d))" "load b ip = Some (b ! ip)" using Suc.prems by (simp_all add: load_Some)
  show ?case
  proof (cases "b ! (ip - d) = b ! ip")
    case False
    with ld Suc.prems scanned_difference[of ip ip_bound b d] show ?thesis by (simp add: match_end.simps[of b ip])
  next
    case True
    obtain j where j: "j < Suc n" "b ! (ip + j) \<noteq> b ! (ip + j - d)" using Suc.prems(3) by blast
    then have "j \<noteq> 0" using True by (metis add_0_right)
    then obtain i where "j = Suc i" by (cases j) auto
    with j have "\<exists>j < n. b ! (ip + 1 + j) \<noteq> b ! (ip + 1 + j - d)" by (intro exI[of _ i]) simp
    with Suc.IH[of "ip + 1"] Suc.prems obtain e where
      e: "match_end b (ip + 1) (ip + 1 - d) = Some e" "scanned b d (ip + 1) ip_bound e" by auto
    have "ip - d + 1 = ip + 1 - d" using Suc.prems by simp
    with e(1) ld True have "match_end b ip (ip - d) = Some e" by (simp add: match_end.simps[of b ip])
    moreover have "scanned b d ip ip_bound e"
      by (rule scanned_extend[OF _ e(2)]) (use True in \<open>auto simp: less_Suc_eq\<close>)
    ultimately show ?thesis by blast
  qed
qed

lemma match_remainder_scanned:
  assumes "0 < d" "d \<le> ip" "ip \<le> ip_bound" "ip_bound \<le> length b"
  shows "\<exists>e. match_remainder b ip ip_bound (ip - d) = Some e \<and> scanned b d ip ip_bound e"
  using assms
proof (induction "ip_bound - ip" arbitrary: ip)
  case 0
  then show ?case by (auto simp: match_remainder.simps[of b ip] scanned_def)
next
  case (Suc n)
  have ld: "load b (ip - d) = Some (b ! (ip - d))" "load b ip = Some (b ! ip)" "ip < ip_bound"
    using Suc.prems Suc.hyps(2) by (simp_all add: load_Some)
  show ?case
  proof (cases "b ! (ip - d) = b ! ip")
    case False
    with ld scanned_difference[of ip ip_bound b d] show ?thesis by (simp add: match_remainder.simps[of b ip])
  next
    case True
    have "n = ip_bound - (ip + 1)" using Suc.hyps(2) by linarith
    from Suc.hyps(1)[OF this] Suc.prems ld obtain e where
      e: "match_remainder b (ip + 1) ip_bound (ip + 1 - d) = Some e" "scanned b d (ip + 1) ip_bound e" by auto
    have "ip - d + 1 = ip + 1 - d" using Suc.prems by simp
    with e(1) ld True have "match_remainder b ip ip_bound (ip - d) = Some e"
      by (simp add: match_remainder.simps[of b ip])
    moreover have "scanned b d ip ip_bound e"
      by (rule scanned_extend[OF _ e(2)]) (use True in \<open>auto simp: less_Suc_eq\<close>)
    ultimately show ?thesis by blast
  qed
qed

text \<open>Comparing eight bytes at once.\<close>

lemma words_eq_iff:
  assumes "i + 8 \<le> length b" "j + 8 \<le> length c"
  shows "take 8 (drop i b) = take 8 (drop j c) \<longleftrightarrow> (\<forall>k < 8. b ! (i + k) = c ! (j + k))"
  using assms by (auto simp: list_eq_iff_nth_eq)

lemma get_match_scanned:
  assumes "0 < d" "d \<le> ip" "ip \<le> ip_bound" "ip_bound \<le> length b"
  shows "\<exists>e. get_match b ip ip_bound (ip - d) = Some e \<and> scanned b d ip ip_bound e"
  using assms
proof (induction "ip_bound - ip" arbitrary: ip rule: less_induct)
  case less
  show ?case
  proof (cases "ip + 8 < ip_bound")
    case False
    with match_remainder_scanned[OF less.prems] show ?thesis by (simp add: get_match.simps[of b ip])
  next
    case True
    have ld: "load_el 8 b (ip - d) = Some (take 8 (drop (ip - d) b))" "load_el 8 b ip = Some (take 8 (drop ip b))"
      using True less.prems by (simp_all add: load_el_Some)
    have eq: "take 8 (drop (ip - d) b) = take 8 (drop ip b) \<longleftrightarrow> (\<forall>j < 8. b ! (ip + j) = b ! (ip + j - d))"
      using words_eq_iff[of "ip - d" b ip b] True less.prems by (auto simp: algebra_simps)
    show ?thesis
    proof (cases "take 8 (drop (ip - d) b) = take 8 (drop ip b)")
      case False
      with eq have "\<exists>j < 8. b ! (ip + j) \<noteq> b ! (ip + j - d)" by blast
      from match_end_scanned[OF less.prems(1,2) this True less.prems(4)] False ld True show ?thesis
        by (simp add: get_match.simps[of b ip])
    next
      case same: True
      have "ip_bound - (ip + 8) < ip_bound - ip" using True by linarith
      from less.hyps[OF this] less.prems True obtain e where
        e: "get_match b (ip + 8) ip_bound (ip + 8 - d) = Some e" "scanned b d (ip + 8) ip_bound e" by auto
      have "ip - d + 8 = ip + 8 - d" using less.prems by simp
      with e(1) ld True same have "get_match b ip ip_bound (ip - d) = Some e" by (simp add: get_match.simps[of b ip])
      moreover have "scanned b d ip ip_bound e"
      proof (rule scanned_extend[OF _ e(2)])
        fix k assume "ip \<le> k" "k < ip + 8"
        then show "b ! k = b ! (k - d)" using same eq by (auto simp: le_iff_add)
      qed
      ultimately show ?thesis by blast
    qed
  qed
qed

text \<open>The scan for a run compares with the byte before its start, from that byte on.\<close>

definition run_scanned :: "buf \<Rightarrow> byte \<Rightarrow> nat \<Rightarrow> nat \<Rightarrow> nat \<Rightarrow> bool" where
  "run_scanned b x ip ip_bound e \<longleftrightarrow> ip \<le> e \<and> e \<le> ip_bound \<and> (\<forall>k. ip \<le> k \<and> k < e \<longrightarrow> b ! (k - 1) = x)"

lemma run_scanned_extend:
  assumes "\<And>k. ip \<le> k \<Longrightarrow> k < ip + m \<Longrightarrow> b ! (k - 1) = x" "run_scanned b x (ip + m) ip_bound e"
  shows "run_scanned b x ip ip_bound e"
  unfolding run_scanned_def
proof (intro conjI allI impI)
  fix k assume "ip \<le> k \<and> k < e"
  then show "b ! (k - 1) = x" using assms by (cases "k < ip + m") (auto simp: run_scanned_def)
qed (use assms(2) in \<open>auto simp: run_scanned_def\<close>)

lemma run_scanned_here: "ip \<le> ip_bound \<Longrightarrow> run_scanned b x ip ip_bound ip"
  by (auto simp: run_scanned_def)

lemma run_end_scanned:
  assumes "0 < ip" "\<exists>j < n. b ! (ip + j - 1) \<noteq> x" "ip + n < ip_bound" "ip_bound \<le> length b"
  shows "\<exists>e. run_end x b ip (ip - 1) = Some e \<and> run_scanned b x ip ip_bound e"
  using assms
proof (induction n arbitrary: ip)
  case 0
  then show ?case by simp
next
  case (Suc n)
  have ld: "load b (ip - 1) = Some (b ! (ip - 1))" using Suc.prems by (simp add: load_Some)
  show ?case
  proof (cases "b ! (ip - 1) = x")
    case False
    with ld Suc.prems run_scanned_here[of ip ip_bound b x] show ?thesis by (simp add: run_end.simps[of x b ip])
  next
    case True
    obtain j where j: "j < Suc n" "b ! (ip + j - 1) \<noteq> x" using Suc.prems(2) by blast
    then obtain i where "j = Suc i" using True by (cases j) auto
    with j have "\<exists>j < n. b ! (ip + 1 + j - 1) \<noteq> x" by (intro exI[of _ i]) simp
    with Suc.IH[of "ip + 1"] Suc.prems obtain e where
      e: "run_end x b (ip + 1) (ip + 1 - 1) = Some e" "run_scanned b x (ip + 1) ip_bound e" by auto
    have "ip - 1 + 1 = ip" using Suc.prems by simp
    with e(1) ld True have "run_end x b ip (ip - 1) = Some e" by (simp add: run_end.simps[of x b ip])
    moreover have "run_scanned b x ip ip_bound e"
      by (rule run_scanned_extend[OF _ e(2)]) (use True in \<open>auto simp: less_Suc_eq\<close>)
    ultimately show ?thesis by blast
  qed
qed

lemma run_remainder_scanned:
  assumes "0 < ip" "ip \<le> ip_bound" "ip_bound \<le> length b"
  shows "\<exists>e. run_remainder x b ip ip_bound (ip - 1) = Some e \<and> run_scanned b x ip ip_bound e"
  using assms
proof (induction "ip_bound - ip" arbitrary: ip)
  case 0
  then show ?case by (auto simp: run_remainder.simps[of x b ip] run_scanned_def)
next
  case (Suc n)
  have ld: "load b (ip - 1) = Some (b ! (ip - 1))" "ip < ip_bound"
    using Suc.prems Suc.hyps(2) by (simp_all add: load_Some)
  show ?case
  proof (cases "b ! (ip - 1) = x")
    case False
    with ld run_scanned_here[of ip ip_bound b x] show ?thesis by (simp add: run_remainder.simps[of x b ip])
  next
    case True
    have "n = ip_bound - (ip + 1)" using Suc.hyps(2) by linarith
    from Suc.hyps(1)[OF this] Suc.prems ld obtain e where
      e: "run_remainder x b (ip + 1) ip_bound (ip + 1 - 1) = Some e" "run_scanned b x (ip + 1) ip_bound e" by auto
    have "ip - 1 + 1 = ip" using Suc.prems by simp
    with e(1) ld True have "run_remainder x b ip ip_bound (ip - 1) = Some e"
      by (simp add: run_remainder.simps[of x b ip])
    moreover have "run_scanned b x ip ip_bound e"
      by (rule run_scanned_extend[OF _ e(2)]) (use True in \<open>auto simp: less_Suc_eq\<close>)
    ultimately show ?thesis by blast
  qed
qed

lemma run_words_scanned:
  assumes "0 < ip" "ip \<le> ip_bound" "ip_bound \<le> length b"
  shows "\<exists>e. run_words x b ip ip_bound (ip - 1) = Some e \<and> run_scanned b x ip ip_bound e"
  using assms
proof (induction "ip_bound - ip" arbitrary: ip rule: less_induct)
  case less
  show ?case
  proof (cases "ip + 8 < ip_bound")
    case False
    with run_remainder_scanned[OF less.prems] show ?thesis by (simp add: run_words.simps[of x b ip])
  next
    case True
    have ld: "load_el 8 b (ip - 1) = Some (take 8 (drop (ip - 1) b))" using True less.prems by (simp add: load_el_Some)
    have eq: "replicate 8 x = take 8 (drop (ip - 1) b) \<longleftrightarrow> (\<forall>j < 8. b ! (ip + j - 1) = x)"
      using True less.prems by (auto simp: list_eq_iff_nth_eq)
    show ?thesis
    proof (cases "replicate 8 x = take 8 (drop (ip - 1) b)")
      case False
      with eq have "\<exists>j < 8. b ! (ip + j - 1) \<noteq> x" by blast
      from run_end_scanned[OF less.prems(1) this True less.prems(3)] False ld True show ?thesis
        by (simp add: run_words.simps[of x b ip])
    next
      case same: True
      have "ip_bound - (ip + 8) < ip_bound - ip" using True by linarith
      from less.hyps[OF this] less.prems True obtain e where
        e: "run_words x b (ip + 8) ip_bound (ip + 8 - 1) = Some e" "run_scanned b x (ip + 8) ip_bound e" by auto
      have "ip - 1 + 8 = ip + 8 - 1" using less.prems by simp
      with e(1) ld True same have "run_words x b ip ip_bound (ip - 1) = Some e" by (simp add: run_words.simps[of x b ip])
      moreover have "run_scanned b x ip ip_bound e"
      proof (rule run_scanned_extend[OF _ e(2)])
        fix k assume "ip \<le> k" "k < ip + 8"
        then show "b ! (k - 1) = x" using same eq by (auto simp: le_iff_add)
      qed
      ultimately show ?thesis by blast
    qed
  qed
qed

lemma get_run_or_match_scanned:
  assumes "0 < d" "d \<le> ip" "ip \<le> ip_bound" "ip_bound \<le> length b"
  shows "\<exists>e. get_run_or_match b ip ip_bound (ip - d) (d - 1 = 0) = Some e \<and> scanned b d ip ip_bound e"
proof (cases "d = 1")
  case False
  with get_match_scanned[OF assms] assms(1) show ?thesis by (simp add: get_run_or_match_def)
next
  case True
  from run_words_scanned[of ip ip_bound b "b ! (ip - 1)"] assms True obtain e where
    e: "run_words (b ! (ip - 1)) b ip ip_bound (ip - 1) = Some e" "run_scanned b (b ! (ip - 1)) ip ip_bound e" by auto
  have "b ! k = b ! (k - 1)" if "ip \<le> k" "k + 1 < e" for k
  proof -
    have all: "\<forall>k. ip \<le> k \<and> k < e \<longrightarrow> b ! (k - 1) = b ! (ip - 1)" using e(2) unfolding run_scanned_def by blast
    have "b ! (k + 1 - 1) = b ! (ip - 1)" using all[rule_format, of "k + 1"] that by linarith
    moreover have "b ! (k - 1) = b ! (ip - 1)" using all[rule_format, of k] that by linarith
    ultimately show ?thesis by (simp only: add_diff_cancel_right')
  qed
  then have "scanned b d ip ip_bound e" using e(2) True unfolding scanned_def run_scanned_def by blast
  moreover have "load b (ip - 1) = Some (b ! (ip - 1))" using assms True by (simp add: load_Some)
  then have "get_run b ip ip_bound (ip - d) = Some e"
    using e(1) assms(1,2) unfolding True get_run_def by (simp only: Option.bind.simps) simp
  ultimately show ?thesis using True by (simp add: get_run_or_match_def)
qed

section \<open>The hash table keeps earlier positions\<close>

definition htab_ok :: "nat \<Rightarrow> nat list \<Rightarrow> nat \<Rightarrow> bool" where
  "htab_ok hashlog htab ip \<longleftrightarrow> length htab = 2 ^ hashlog \<and> (\<forall>r \<in> set htab. r < ip)"

lemma htab_ok_mono: "htab_ok hashlog htab ip \<Longrightarrow> ip \<le> ip' \<Longrightarrow> htab_ok hashlog htab ip'"
  by (auto simp: htab_ok_def)

lemma htab_ok_init: "0 < ip \<Longrightarrow> htab_ok hashlog (replicate (2 ^ hashlog) 0) ip"
  by (simp add: htab_ok_def)

lemma htab_ok_update: "htab_ok hashlog htab ip \<Longrightarrow> p < ip \<Longrightarrow> htab_ok hashlog (htab[h := p]) ip"
  by (auto simp: htab_ok_def dest!: set_update_subset_insert[THEN subsetD])

lemma hash_function_ok:
  assumes "0 < hashlog" "hashlog \<le> 32"
  shows "\<exists>h. hash_function s hashlog = Some h \<and> h < 2 ^ hashlog"
proof -
  let ?w = "s * 2654435761"
  have "unat (drop_bit (32 - hashlog) ?w) = unat ?w div 2 ^ (32 - hashlog)"
    by (simp only: unat_drop_bit_eq) (simp only: drop_bit_eq_div)
  also have "\<dots> < 2 ^ hashlog"
  proof (rule less_mult_imp_div_less)
    have "unat ?w < 2 ^ 32" using unsigned_less[of ?w] by simp
    also have "(2 :: nat) ^ 32 = 2 ^ hashlog * 2 ^ (32 - hashlog)" using assms(2) by (simp flip: power_add)
    finally show "unat ?w < 2 ^ hashlog * 2 ^ (32 - hashlog)" .
  qed
  finally show ?thesis using assms(1) by (simp add: hash_function_def)
qed

text \<open>The word at \<open>ip\<close>; equal words mean equal bytes.\<close>

lemma load_word32: "ip + 4 \<le> length b \<Longrightarrow> \<exists>w :: 32 word. load_word le b ip = Some w"
  by (simp add: load_word_def Let_def)

lemma load_word32_bytes:
  assumes "load_word le b p = Some (w :: 32 word)" "load_word le b q = Some w" "k < 4"
  shows "b ! (p + k) = b ! (q + k)"
proof -
  let ?P = "take 4 (drop p b)" and ?Q = "take 4 (drop q b)"
  have len: "p + 4 \<le> length b" "q + 4 \<le> length b" using assms(1,2) by (simp_all add: load_word_def Let_def split: if_splits)
  have w: "unat w = le_val (host_order le (take 4 (drop r b)))"
    if "load_word le b r = Some w" "r + 4 \<le> length b" for r
  proof -
    have "le_val (host_order le (take 4 (drop r b))) < 256 ^ 4"
      using le_val_less[of "host_order le (take 4 (drop r b))"] that(2) by simp
    moreover have "w = word_of_nat (le_val (host_order le (take 4 (drop r b))))"
      using that by (simp add: load_word_def Let_def)
    ultimately show ?thesis by (simp add: unat_of_nat)
  qed
  have "host_order le ?P = host_order le ?Q"
    by (rule le_val_inject) (use w[OF assms(1) len(1)] w[OF assms(2) len(2)] len in simp_all)
  then have "?P = ?Q" by (metis host_order_host_order)
  then have "?P ! k = ?Q ! k" by simp
  with assms(3) len show ?thesis by simp
qed

lemma hash_lookup_ok:
  assumes "htab_ok hashlog htab m" "m \<le> ip + 1" "0 < hashlog" "hashlog \<le> 32" "ip + 4 \<le> length b"
  shows "\<exists>seq ref htab'. hash_lookup le b hashlog htab ip = Some (seq, ref, htab') \<and>
    load_word le b ip = Some seq \<and> ref < m \<and> htab_ok hashlog htab' (ip + 1)"
proof -
  obtain seq where seq: "load_word le b ip = Some (seq :: 32 word)" using load_word32[OF assms(5)] by blast
  obtain h where h: "hash_function seq hashlog = Some h" "h < 2 ^ hashlog" using hash_function_ok[OF assms(3,4)] by blast
  have "load htab h = Some (htab ! h)" "store htab h ip = Some (htab[h := ip])" "htab ! h < m"
    using h(2) assms(1) by (simp_all add: htab_ok_def load_Some store_Some)
  moreover have "htab_ok hashlog (htab[h := ip]) (ip + 1)"
    by (rule htab_ok_update[OF htab_ok_mono[OF assms(1,2)]]) simp
  ultimately show ?thesis using seq h(1) by (simp add: hash_lookup_def)
qed

lemma hash_update_ok:
  assumes "htab_ok hashlog htab ip'" "0 < hashlog" "hashlog \<le> 32" "ip < ip'"
  shows "\<exists>htab'. hash_update seq hashlog htab ip = Some htab' \<and> htab_ok hashlog htab' ip'"
proof -
  obtain h where h: "hash_function seq hashlog = Some h" "h < 2 ^ hashlog" using hash_function_ok[OF assms(2,3)] by blast
  with assms htab_ok_update[OF assms(1,4)] show ?thesis by (simp add: hash_update_def htab_ok_def store_Some)
qed

lemma lz_distance_eq: "ref < anchor \<Longrightarrow> anchor < 2 ^ 31 \<Longrightarrow> lz_distance anchor ref = anchor - ref"
  by (simp add: lz_distance_def)

section \<open>The probe is safe\<close>

definition gc_ok :: "nat \<Rightarrow> nat \<Rightarrow> gc_state \<Rightarrow> bool" where
  "gc_ok hashlog n s \<longleftrightarrow> htab_ok hashlog (gc_htab s) (max 1 (gc_ip s)) \<and> gc_ip s \<le> n \<and>
     5 \<le> gc_oc s \<and> (gc_copy s = 0 \<longrightarrow> 6 \<le> gc_oc s)"

lemma LITERAL2_ok:
  assumes "htab_ok hashlog (gc_htab s) (anchor + 1)" "anchor < n" "5 \<le> gc_oc s"
  shows "gc_ok hashlog n (LITERAL2 anchor s) \<and> gc_ip (LITERAL2 anchor s) = anchor + 1"
  using assms by (simp add: LITERAL2_def gc_ok_def Let_def)

lemma gc_match_ok:
  "5 \<le> gc_oc s \<Longrightarrow> (gc_copy s = 0 \<longrightarrow> 6 \<le> gc_oc s) \<Longrightarrow>
   7 \<le> gc_oc (gc_match len distance s) \<and> gc_htab (gc_match len distance s) = gc_htab s"
  by (simp add: gc_match_def Let_def)

text \<open>
  What a turn of both main loops does first: the candidate \<open>ref\<close> and, when it is a match, its end. The
  bytes of the match agree with those at distance \<open>anchor - ref\<close>.
\<close>

lemma found_match:
  assumes "ref < anchor" "load_word le b anchor = Some (w :: 32 word)" "load_word le b ref = Some w"
    and "anchor + 4 \<le> ip_bound" "ip_bound \<le> length b"
  shows "\<exists>e. get_run_or_match b (anchor + 4) ip_bound (ref + 4) (anchor - ref - 1 = 0) = Some e \<and>
    scanned b (anchor - ref) anchor ip_bound e \<and> anchor + 4 \<le> e"
proof -
  let ?d = "anchor - ref"
  have "ref + 4 = anchor + 4 - ?d" using assms(1) by simp
  moreover have "0 < ?d" "?d \<le> anchor + 4" using assms(1) by simp_all
  ultimately obtain e where
    e: "get_run_or_match b (anchor + 4) ip_bound (ref + 4) (?d - 1 = 0) = Some e" "scanned b ?d (anchor + 4) ip_bound e"
    using get_run_or_match_scanned[of ?d "anchor + 4" ip_bound b] assms(4,5) by (simp only:) blast
  have "scanned b ?d anchor ip_bound e"
  proof (rule scanned_extend[OF _ e(2)])
    fix k assume k: "anchor \<le> k" "k < anchor + 4"
    then have "b ! (anchor + (k - anchor)) = b ! (ref + (k - anchor))"
      by (intro load_word32_bytes[OF assms(2,3)]) simp
    moreover have "anchor + (k - anchor) = k" "ref + (k - anchor) = k - ?d" using k assms(1) by simp_all
    ultimately show "b ! k = b ! (k - ?d)" by simp
  qed
  with e show ?thesis by (auto simp: scanned_def)
qed

lemma gc_step_ok:
  assumes "gc_ok hashlog n s" "0 < hashlog" "hashlog \<le> 32" "gc_ip s + 12 < limit" "limit \<le> n" "n \<le> length b" "n < 2 ^ 31"
  shows "\<exists>s'. gc_step le b (limit - 1) 4 4 hashlog s = Some s' \<and> gc_ok hashlog n s' \<and> gc_ip s < gc_ip s'"
proof -
  let ?a = "gc_ip s"
  have h: "htab_ok hashlog (gc_htab s) (max 1 ?a)" and oc: "5 \<le> gc_oc s" "gc_copy s = 0 \<longrightarrow> 6 \<le> gc_oc s"
    using assms(1) by (simp_all add: gc_ok_def)
  have "max 1 ?a \<le> ?a + 1" "?a + 4 \<le> length b" using assms(4-6) by simp_all
  from hash_lookup_ok[OF h this(1) assms(2,3) this(2)] obtain seq ref htab where
    found: "hash_lookup le b hashlog (gc_htab s) ?a = Some (seq, ref, htab)" "load_word le b ?a = Some seq"
      "ref < max 1 ?a" "htab_ok hashlog htab (?a + 1)" by blast
  let ?s = "s\<lparr> gc_htab := htab \<rparr>" and ?dist = "lz_distance ?a ref"
  have lit: "gc_ok hashlog n (LITERAL2 ?a ?s)" "gc_ip (LITERAL2 ?a ?s) = ?a + 1"
    using LITERAL2_ok[of hashlog ?s ?a n] found(4) oc(1) assms(4,5) by simp_all
  show ?thesis
  proof (cases "?dist = 0 \<or> ?dist \<ge> MAX_FARDISTANCE \<or> load_word le b ref \<noteq> Some seq")
    case True
    have "ref + 4 \<le> length b" using found(3) assms(4-6) by simp
    then obtain w :: "32 word" where "load_word le b ref = Some w" using load_word32 by blast
    with True found(1) have "gc_step le b (limit - 1) 4 4 hashlog s = Some (LITERAL2 ?a ?s)"
      by (auto simp: gc_step_def Let_def)
    with lit show ?thesis by simp
  next
    case False
    have ref: "ref < ?a"
    proof (rule ccontr)
      assume "\<not> ref < ?a"
      then have "ref = 0" "?a = 0" using found(3) by simp_all
      with False show False by (simp add: lz_distance_def)
    qed
    have "?a < 2 ^ 31" using assms(4,5,7) by linarith
    with ref have dist: "?dist - 1 = ?a - ref - 1" by (simp only: lz_distance_eq)
    have "?a + 4 \<le> limit - 1" "limit - 1 \<le> length b" using assms(4-6) by simp_all
    from found_match[OF ref found(2) _ this] False obtain e where
      e: "get_run_or_match b (?a + 4) (limit - 1) (ref + 4) (?a - ref - 1 = 0) = Some e" "?a + 4 \<le> e" "e \<le> limit - 1"
      unfolding scanned_def by blast
    show ?thesis
    proof (cases "e - 4 - ?a < 4")
      case True
      with found(1) False e(1) dist have "gc_step le b (limit - 1) 4 4 hashlog s = Some (LITERAL2 ?a ?s)"
        by (simp add: gc_step_def Let_def)
      with lit show ?thesis by simp
    next
      case long: False
      let ?m = "gc_match (e - 4 - ?a) (?a - ref - 1) ?s"
      have m: "7 \<le> gc_oc ?m" "gc_htab ?m = htab" using gc_match_ok[of ?s] oc by simp_all
      obtain w :: "32 word" where w: "load_word le b (e - 4) = Some w"
        using load_word32[of "e - 4" b le] e(2,3) assms(4-6) by (metis diff_add diff_le_self add_leD2 le_trans)
      have "htab_ok hashlog htab (e - 2)" using found(4) by (rule htab_ok_mono) (use long in simp)
      moreover have "e - 4 < e - 2" using e(2) by linarith
      ultimately obtain htab' where
        u: "hash_update w hashlog htab (e - 4) = Some htab'" "htab_ok hashlog htab' (e - 2)"
        using hash_update_ok[OF _ assms(2,3)] by blast
      let ?s' = "?m\<lparr> gc_htab := htab', gc_ip := e - 4 + 2, gc_oc := gc_oc ?m + 1 \<rparr>"
      have "gc_step le b (limit - 1) 4 4 hashlog s = Some ?s'"
        using found(1) False e(1) dist long w u(1) m(2) by (simp add: gc_step_def Let_def)
      moreover have "gc_ok hashlog n ?s'"
        using u(2) m(1) e assms(5) htab_ok_mono[OF u(2), of "max 1 (e - 4 + 2)"] by (simp add: gc_ok_def)
      moreover have "?a < gc_ip ?s'" using long by simp
      ultimately show ?thesis by blast
    qed
  qed
qed

lemma gc_loop_ok:
  assumes "gc_ok hashlog n s" "0 < hashlog" "hashlog \<le> 32" "limit \<le> n" "n \<le> length b" "n < 2 ^ 31" "limit - gc_ip s < fuel"
  shows "\<exists>s'. gc_loop fuel le b limit 4 4 hashlog s = Some s' \<and> gc_ok hashlog n s'"
  using assms
proof (induction fuel arbitrary: s)
  case 0
  then show ?case by simp
next
  case (Suc fuel)
  show ?case
  proof (cases "int (gc_ip s) < int limit - 12")
    case False
    with Suc.prems(1) show ?thesis by auto
  next
    case True
    then have "gc_ip s + 12 < limit" by linarith
    from gc_step_ok[OF Suc.prems(1-3) this Suc.prems(4-6)] obtain s' where
      s': "gc_step le b (limit - 1) 4 4 hashlog s = Some s'" "gc_ok hashlog n s'" "gc_ip s < gc_ip s'" by blast
    have "limit - gc_ip s' < fuel" using Suc.prems(7) s'(3) True by linarith
    from Suc.IH[OF s'(2) Suc.prems(2-6) this] s'(1) True show ?thesis by auto
  qed
qed

lemma get_cratio_ok:
  assumes "0 < hashlog" "hashlog \<le> 32" "maxlen \<le> length b" "maxlen < 2 ^ 31"
  shows "\<exists>ic oc. get_cratio le b maxlen 4 4 hashlog = Some (ic, oc) \<and> 0 < oc"
proof -
  define limit where "limit = (if maxlen > 2 ^ hashlog then 2 ^ hashlog else maxlen)"
  let ?s = "\<lparr> gc_ip = 0, gc_oc = 0 + 5, gc_copy = 4, gc_htab = replicate (2 ^ hashlog) 0 \<rparr>"
  have "limit \<le> maxlen" by (simp add: limit_def)
  moreover have "gc_ok hashlog maxlen ?s" using htab_ok_init[of 1 hashlog] by (simp add: gc_ok_def)
  ultimately have "\<exists>s'. gc_loop (limit + 1) le b limit 4 4 hashlog ?s = Some s' \<and> gc_ok hashlog maxlen s'"
    using assms by (intro gc_loop_ok) simp_all
  then obtain s' where "gc_loop (limit + 1) le b limit 4 4 hashlog ?s = Some s'" "gc_ok hashlog maxlen s'" by blast
  moreover from this(2) have "0 < gc_oc s'" by (simp add: gc_ok_def)
  ultimately show ?thesis
    unfolding get_cratio_def Let_def limit_def[symmetric] by (simp only: Option.bind.simps) blast
qed

section \<open>The compressor writes a stream for its input\<close>

text \<open>
  The invariant of the main loop: the output so far is the tokens \<open>ts\<close>, a count still to be adjusted and
  the literals \<open>pend\<close>; they stand for the input read so far.
\<close>

definition lz_ok :: "buf \<Rightarrow> nat \<Rightarrow> nat \<Rightarrow> buf \<Rightarrow> lz_token list \<Rightarrow> buf \<Rightarrow> lz_state \<Rightarrow> bool" where
  "lz_ok input len op_limit out0 ts pend s \<longleftrightarrow>
     lz_op s \<le> op_limit \<and> op_limit \<le> length out0 \<and> out_kept op_limit out0 (lz_out s) \<and>
     take (lz_op s) (lz_out s) = stream ts @ [31] @ pend \<and> lz_copy s = length pend \<and> length pend < 32 \<and>
     tokens_ok [] ts \<and> foldl expand [] ts @ pend = take (lz_ip s) input \<and> lz_ip s \<le> len \<and> len \<le> length input \<and>
     (ts = [] \<longrightarrow> pend \<noteq> []) \<and> (ts \<noteq> [] \<longrightarrow> is_Lit (hd ts)) \<and>
     (pend = [] \<and> \<not> is_Lit (last ts) \<longrightarrow> lz_ip s < len)"

lemma take_Suc_update: "i < length b \<Longrightarrow> take (Suc i) (b[i := v]) = take i b @ [v]"
  by (simp add: take_Suc_conv_app_nth)

lemma LITERAL_ok:
  assumes "lz_ok input len op_limit out0 ts pend s" "anchor = lz_ip s" "anchor < len"
  shows "\<exists>r. LITERAL input op_limit anchor s = Some r \<and> (case r of
      Inl out \<Rightarrow> out_kept op_limit out0 out
    | Inr s' \<Rightarrow> lz_ip s' = anchor + 1 \<and> lz_htab s' = lz_htab s \<and> (\<exists>ts pend. lz_ok input len op_limit out0 ts pend s'))"
proof (cases "lz_op s + 2 > op_limit")
  case True
  with assms(1) show ?thesis by (simp add: LITERAL_def lz_ok_def)
next
  case False
  let ?v = "input ! anchor" and ?op = "lz_op s"
  let ?o = "(lz_out s)[?op := ?v]"
  have ok: "op_limit \<le> length out0" "out_kept op_limit out0 (lz_out s)" "take ?op (lz_out s) = stream ts @ [31] @ pend"
    "lz_copy s = length pend" "length pend < 32" "tokens_ok [] ts" "foldl expand [] ts @ pend = take anchor input"
    "len \<le> length input" "ts \<noteq> [] \<longrightarrow> is_Lit (hd ts)"
    using assms(1,2) by (simp_all add: lz_ok_def)
  have len: "length (lz_out s) = length out0" using ok(2) by (rule out_kept_length)
  have ld: "load input anchor = Some ?v" "store (lz_out s) ?op ?v = Some ?o"
    using False len ok(1,8) assms(3) by (simp_all add: load_Some store_Some)
  have kept: "out_kept op_limit out0 ?o" using out_kept_trans[OF ok(2) out_kept_update] False by simp
  have o: "take (Suc ?op) ?o = stream ts @ [31] @ pend @ [?v]" using False len ok(1,3) by (simp add: take_Suc_update)
  have input: "foldl expand [] ts @ pend @ [?v] = take (Suc anchor) input"
    using ok(7,8) assms(3) by (simp add: take_Suc_conv_app_nth)
  show ?thesis
  proof (cases "length pend + 1 = 32")
    case False
    let ?s = "s\<lparr> lz_out := ?o, lz_op := ?op + 1, lz_ip := anchor + 1, lz_copy := lz_copy s + 1 \<rparr>"
    have "LITERAL input op_limit anchor s = Some (Inr ?s)"
      using ld False \<open>\<not> ?op + 2 > op_limit\<close> ok(4) by (simp add: LITERAL_def Let_def MAX_COPY_def)
    moreover have "lz_ok input len op_limit out0 ts (pend @ [?v]) ?s"
      using ok kept o input False \<open>\<not> ?op + 2 > op_limit\<close> assms(3) by (simp add: lz_ok_def)
    ultimately show ?thesis by auto
  next
    case True
    let ?o2 = "?o[Suc ?op := 31]"
    let ?s = "s\<lparr> lz_out := ?o2, lz_op := ?op + 1 + 1, lz_ip := anchor + 1, lz_copy := 0 \<rparr>"
    have "store ?o (?op + 1) (word_of_nat (MAX_COPY - 1)) = Some ?o2"
      using False len ok(1) by (simp add: store_Some MAX_COPY_def)
    then have "LITERAL input op_limit anchor s = Some (Inr ?s)"
      using ld True False ok(4) by (simp add: LITERAL_def Let_def MAX_COPY_def)
    moreover have "lz_ok input len op_limit out0 (ts @ [Lit (pend @ [?v])]) [] ?s"
    proof -
      have "take (Suc (Suc ?op)) ?o2 = stream ts @ [31] @ pend @ [?v] @ [31]"
        using take_Suc_update[of "Suc ?op" ?o 31] False len ok(1) o by simp
      moreover have "out_kept op_limit out0 ?o2" using out_kept_trans[OF kept out_kept_update] False by simp
      moreover have "is_Lit (hd (ts @ [Lit (pend @ [?v])]))" using ok(9) by (cases ts) auto
      ultimately show ?thesis using ok input True False assms(3) by (simp add: lz_ok_def)
    qed
    ultimately show ?thesis by auto
  qed
qed

lemma adjust_copy_ok:
  assumes "lz_ok input len op_limit out0 ts pend s"
  shows "\<exists>s' ts'. adjust_copy s = Some s' \<and> lz_op s' \<le> lz_op s \<and> lz_ip s' = lz_ip s \<and> lz_htab s' = lz_htab s \<and>
    out_kept op_limit out0 (lz_out s') \<and> take (lz_op s') (lz_out s') = stream ts' \<and> tokens_ok [] ts' \<and>
    foldl expand [] ts' = take (lz_ip s) input \<and> ts' \<noteq> [] \<and> is_Lit (hd ts') \<and> (lz_ip s = len \<longrightarrow> is_Lit (last ts'))"
proof -
  have ok: "lz_op s \<le> op_limit" "op_limit \<le> length out0" "out_kept op_limit out0 (lz_out s)"
    "take (lz_op s) (lz_out s) = stream ts @ [31] @ pend"
    "lz_copy s = length pend" "length pend < 32" "tokens_ok [] ts" "foldl expand [] ts @ pend = take (lz_ip s) input"
    "ts = [] \<longrightarrow> pend \<noteq> []" "ts \<noteq> [] \<longrightarrow> is_Lit (hd ts)" "pend = [] \<and> \<not> is_Lit (last ts) \<longrightarrow> lz_ip s < len"
    using assms by (simp_all add: lz_ok_def)
  have len: "length (lz_out s) = length out0" using ok(3) by (rule out_kept_length)
  have "length (take (lz_op s) (lz_out s)) = lz_op s" using ok(1,2) len by simp
  then have op: "lz_op s = length (stream ts) + 1 + length pend" using ok(4) by simp
  show ?thesis
  proof (cases "pend = []")
    case True
    have "take (lz_op s - 1) (take (lz_op s) (lz_out s)) = stream ts" using ok(4) op True by simp
    then have "take (lz_op s - 1) (lz_out s) = stream ts" by (simp add: min_def)
    then show ?thesis using ok op True by (intro exI[of _ "s\<lparr> lz_op := lz_op s - 1 \<rparr>"] exI[of _ ts]) (auto simp: adjust_copy_def)
  next
    case False
    let ?n = "length (stream ts)"
    let ?o = "(lz_out s)[?n := word_of_nat (length pend - 1)]"
    have n: "lz_op s - lz_copy s - 1 = ?n" "?n < op_limit" using op ok(1,5) by simp_all
    then have "store (lz_out s) (lz_op s - lz_copy s - 1) (word_of_nat (lz_copy s - 1)) = Some ?o"
      using ok(2,5) len by (simp add: store_Some del: of_nat_diff)
    then have "adjust_copy s = Some (s\<lparr> lz_out := ?o \<rparr>)"
      using False op ok(5) by (simp add: adjust_copy_def del: of_nat_diff)
    moreover have "out_kept op_limit out0 ?o" using out_kept_trans[OF ok(3) out_kept_update[OF n(2)]] .
    moreover have "take (lz_op s) ?o = stream (ts @ [Lit pend])"
    proof -
      have "take (lz_op s) ?o = (take (lz_op s) (lz_out s))[?n := word_of_nat (length pend - 1)]"
        by (rule take_update_swap)
      then show ?thesis using ok(4) by (simp add: list_update_append del: of_nat_diff)
    qed
    moreover have "is_Lit (hd (ts @ [Lit pend]))" using ok(10) by (cases ts) auto
    moreover have "1 \<le> length pend" using False by (cases pend) auto
    ultimately show ?thesis using ok False
      by (intro exI[of _ "s\<lparr> lz_out := ?o \<rparr>"] exI[of _ "ts @ [Lit pend]"]) simp
  qed
qed

lemma put_groups_ok:
  assumes "op \<le> op_limit" "op_limit \<le> length out"
  shows "\<exists>r. put_groups op_limit gs op out = Some r \<and> (case r of Inl o' \<Rightarrow> out_kept op_limit out o'
    | Inr (op', o') \<Rightarrow> op' = op + length (concat gs) \<and> op' \<le> op_limit \<and> take op' o' = take op out @ concat gs \<and>
        out_kept op_limit out o')"
  using assms
proof (induction gs arbitrary: op out)
  case Nil
  then show ?case by simp
next
  case (Cons g gs)
  show ?case
  proof (cases "op + length g > op_limit")
    case True
    then show ?thesis by simp
  next
    case False
    let ?o = "take op out @ g @ drop (op + length g) out"
    have o: "store_el out op g = Some ?o" using False Cons.prems by (simp add: store_el_def memcpy_Some)
    have kept: "out_kept op_limit out ?o" by (rule out_kept_blit) (use False Cons.prems in simp_all)
    have t: "take (op + length g) ?o = take op out @ g" using False Cons.prems by simp
    have "op + length g \<le> op_limit" "op_limit \<le> length ?o" using False Cons.prems by simp_all
    from Cons.IH[OF this] obtain r where
      "put_groups op_limit gs (op + length g) ?o = Some r"
      "case r of Inl o' \<Rightarrow> out_kept op_limit ?o o'
       | Inr (op', o') \<Rightarrow> op' = op + length g + length (concat gs) \<and> op' \<le> op_limit \<and>
           take op' o' = take (op + length g) ?o @ concat gs \<and> out_kept op_limit ?o o'" by blast
    with o False t show ?thesis
      by (intro exI[of _ r]) (auto split: sum.splits intro: out_kept_trans[OF kept])
  qed
qed

text \<open>A scanned match expands to the input it covers.\<close>

lemma overlap_scanned:
  assumes "0 < d" "d \<le> a" "a \<le> length b" "scanned b d a ip_bound e" "k + 1 < e"
  shows "overlap (take a b) a d k = b ! k"
  using assms(5)
proof (induction k rule: less_induct)
  case (less k)
  show ?case
  proof (cases "k < a")
    case True
    then show ?thesis by (simp add: overlap_below)
  next
    case False
    then have "overlap (take a b) a d k = overlap (take a b) a d (k - d)" using assms(1,2) by (intro overlap_step) simp_all
    also have "\<dots> = b ! (k - d)" using less assms(1) False assms(2) by simp
    also have "\<dots> = b ! k" using assms(4) False less.prems by (simp add: scanned_def)
    finally show ?thesis .
  qed
qed

lemma expand_scanned:
  assumes "0 < d" "d \<le> a" "a + len + 2 < e" "e \<le> length b" "scanned b d a ip_bound e"
  shows "expand (take a b) (Match len (d - 1)) = take (a + len + 2) b"
proof -
  have a: "a \<le> length b" using assms(3,4) by simp
  have "map (overlap (take a b) a d) [a..<a + len + 2] = map ((!) b) [a..<a + len + 2]"
    using overlap_scanned[OF assms(1,2) a assms(5)] assms(3) by simp
  also have "\<dots> = take (len + 2) (drop a b)" using assms(3,4) by (intro nth_equalityI) (simp_all del: upt_Suc)
  finally have "expand (take a b) (Match len (d - 1)) = take a b @ take (len + 2) (drop a b)"
    using a assms(1) by (simp add: min_absorb2 del: upt_Suc)
  then show ?thesis by (simp only: take_add add.assoc)
qed

lemma lz_match_ok:
  assumes "lz_ok input len op_limit out0 ts pend s" "htab_ok hashlog (lz_htab s) (lz_ip s + 1)"
    and "0 < hashlog" "hashlog \<le> 32" "lz_ip s \<le> ip" "ip + 4 = e" "e < len" "n = ip - lz_ip s" "4 \<le> n"
    and "scanned input d (lz_ip s) ip_bound e" "0 < d" "d \<le> lz_ip s" "d < MAX_FARDISTANCE"
  shows "\<exists>r. lz_match le clevel input op_limit hashlog ip n (d - 1) s = Some r \<and> (case r of
      Inl out \<Rightarrow> out_kept op_limit out0 out
    | Inr s' \<Rightarrow> lz_ip s < lz_ip s' \<and> htab_ok hashlog (lz_htab s') (lz_ip s') \<and> lz_ip s' < len \<and>
        (\<exists>ts pend. lz_ok input len op_limit out0 ts pend s'))"
proof -
  let ?a = "lz_ip s"
  have lens: "op_limit \<le> length out0" "len \<le> length input" "lz_op s \<le> op_limit" using assms(1) by (simp_all add: lz_ok_def)
  obtain s1 ts1 where s1: "adjust_copy s = Some s1" "lz_op s1 \<le> lz_op s" "lz_ip s1 = ?a" "lz_htab s1 = lz_htab s"
    "out_kept op_limit out0 (lz_out s1)" "take (lz_op s1) (lz_out s1) = stream ts1" "tokens_ok [] ts1"
    "foldl expand [] ts1 = take ?a input" "ts1 \<noteq> []" "is_Lit (hd ts1)"
    using adjust_copy_ok[OF assms(1)] by blast
  have len: "length (lz_out s1) = length out0" using s1(5) by (rule out_kept_length)
  obtain r where r: "put_groups op_limit (match_groups n (d - 1)) (lz_op s1) (lz_out s1) = Some r"
    "case r of Inl o' \<Rightarrow> out_kept op_limit (lz_out s1) o'
    | Inr (op', o') \<Rightarrow> op' = lz_op s1 + length (concat (match_groups n (d - 1))) \<and> op' \<le> op_limit \<and>
        take op' o' = take (lz_op s1) (lz_out s1) @ concat (match_groups n (d - 1)) \<and> out_kept op_limit (lz_out s1) o'"
    using put_groups_ok[of "lz_op s1" op_limit "lz_out s1" "match_groups n (d - 1)"] s1(2) lens len by auto
  show ?thesis
  proof (cases r)
    case (Inl o')
    with r s1(1,5) show ?thesis by (auto simp: lz_match_def Let_def intro: out_kept_trans)
  next
    case (Inr p)
    obtain op o' where p: "p = (op, o')" by (cases p)
    have o': "op \<le> op_limit" "take op o' = stream (ts1 @ [Match n (d - 1)])" "out_kept op_limit out0 o'"
      using r(2) Inr p s1(6) out_kept_trans[OF s1(5)] by auto
    have olen: "length o' = length out0" using o'(3) by (rule out_kept_length)
    obtain w :: "32 word" where w: "load_word le input ip = Some w"
      using load_word32[of ip input le] assms(6,7) lens(2) by auto
    have "htab_ok hashlog (lz_htab s) (ip + 2)" by (rule htab_ok_mono[OF assms(2)]) (use assms(5) in simp)
    from hash_update_ok[OF this assms(3,4), of ip w] obtain h1 where
      h1: "hash_update w hashlog (lz_htab s) ip = Some h1" "htab_ok hashlog h1 (ip + 2)" by auto
    obtain h2 where h2: "(if clevel = 9 then hash_update (drop_bit 8 w) hashlog h1 (ip + 1) else Some h1) = Some h2"
      "htab_ok hashlog h2 (ip + 2)"
      using hash_update_ok[OF h1(2) assms(3,4), of "ip + 1" "drop_bit 8 w"] h1(2) by (cases "clevel = 9") auto
    have eval: "lz_match le clevel input op_limit hashlog ip n (d - 1) s =
      (if op + 1 > op_limit then Some (Inl o')
       else do {
         out \<leftarrow> store o' op (word_of_nat (MAX_COPY - 1));
         Some (Inr (s1\<lparr> lz_copy := 0, lz_ip := ip + 2, lz_op := op + 1, lz_htab := h2, lz_out := out \<rparr>)) })"
      using s1(1,4) r(1) Inr p w h1(1) h2(1) by (simp add: lz_match_def Let_def del: One_nat_def)
    show ?thesis
    proof (cases "op + 1 > op_limit")
      case True
      with eval o'(3) show ?thesis by simp
    next
      case False
      let ?o = "o'[op := 31]"
      let ?s = "s1\<lparr> lz_copy := 0, lz_ip := ip + 2, lz_op := op + 1, lz_htab := h2, lz_out := ?o \<rparr>"
      have "store o' op (word_of_nat (MAX_COPY - 1)) = Some ?o"
        using False olen lens(1) by (simp add: store_Some MAX_COPY_def)
      then have "lz_match le clevel input op_limit hashlog ip n (d - 1) s = Some (Inr ?s)" using eval False by simp
      moreover have "lz_ok input len op_limit out0 (ts1 @ [Match n (d - 1)]) [] ?s"
      proof -
        have ex: "expand (take ?a input) (Match n (d - 1)) = take (ip + 2) input"
          using expand_scanned[OF assms(11,12) _ _ assms(10), of n] assms(5-8) lens(2) by simp
        have "out_kept op_limit out0 ?o" by (rule out_kept_trans[OF o'(3) out_kept_update]) (use False in simp)
        moreover have "take (op + 1) ?o = stream (ts1 @ [Match n (d - 1)]) @ [31]"
          using take_Suc_update[of op o' 31] False olen lens(1) o'(2) by simp
        moreover have "token_ok (take ?a input) (Match n (d - 1))"
          using assms(5-9,11-13) lens(2) by (auto simp: MAX_FARDISTANCE_def min_def)
        moreover have "is_Lit (hd (ts1 @ [Match n (d - 1)]))" using s1(9,10) by (cases ts1) auto
        ultimately show ?thesis
          using False lens(1,2) s1(7,8) ex assms(6,7) by (simp add: lz_ok_def del: expand.simps token_ok.simps token_bytes.simps)
      qed
      ultimately show ?thesis using h2(2) assms(5-7) by auto
    qed
  qed
qed

lemma lz_step_ok:
  assumes "lz_ok input len op_limit out0 ts pend s" "htab_ok hashlog (lz_htab s) (lz_ip s)"
    and "0 < hashlog" "hashlog \<le> 32" "lz_ip s + 12 < len" "len < 2 ^ 31"
  shows "\<exists>r. lz_step le clevel input (len - 1) op_limit hashlog s = Some r \<and> (case r of
      Inl out \<Rightarrow> out_kept op_limit out0 out
    | Inr s' \<Rightarrow> lz_ip s < lz_ip s' \<and> htab_ok hashlog (lz_htab s') (lz_ip s') \<and> lz_ip s' < len \<and>
        (\<exists>ts pend. lz_ok input len op_limit out0 ts pend s'))"
proof -
  let ?a = "lz_ip s"
  have lens: "len \<le> length input" using assms(1) by (simp add: lz_ok_def)
  have "?a \<le> ?a + 1" "?a + 4 \<le> length input" using assms(5) lens by simp_all
  from hash_lookup_ok[OF assms(2) this(1) assms(3,4) this(2)] obtain seq ref htab where
    found: "hash_lookup le input hashlog (lz_htab s) ?a = Some (seq, ref, htab)" "load_word le input ?a = Some seq"
      "ref < ?a" "htab_ok hashlog htab (?a + 1)" by blast
  let ?s = "s\<lparr> lz_htab := htab \<rparr>" and ?d = "?a - ref"
  have ok: "lz_ok input len op_limit out0 ts pend ?s" using assms(1) by (simp add: lz_ok_def)
  have "?a < 2 ^ 31" using assms(5,6) by linarith
  with found(3) have dist: "lz_distance ?a ref = ?d" by (rule lz_distance_eq)
  have lit: "\<exists>r. LITERAL input op_limit ?a ?s = Some r \<and> (case r of
      Inl out \<Rightarrow> out_kept op_limit out0 out
    | Inr s' \<Rightarrow> ?a < lz_ip s' \<and> htab_ok hashlog (lz_htab s') (lz_ip s') \<and> lz_ip s' < len \<and>
        (\<exists>ts pend. lz_ok input len op_limit out0 ts pend s'))"
  proof -
    have "?a = lz_ip ?s" "?a < len" using assms(5) by simp_all
    from LITERAL_ok[OF ok this] obtain r where r: "LITERAL input op_limit ?a ?s = Some r" "case r of
      Inl out \<Rightarrow> out_kept op_limit out0 out
    | Inr s' \<Rightarrow> lz_ip s' = ?a + 1 \<and> lz_htab s' = lz_htab ?s \<and> (\<exists>ts pend. lz_ok input len op_limit out0 ts pend s')" by blast
    show ?thesis
    proof (cases r)
      case (Inl o')
      with r show ?thesis by simp
    next
      case (Inr s')
      with r found(4) assms(5) show ?thesis by simp
    qed
  qed
  show ?thesis
  proof (cases "?d \<ge> MAX_FARDISTANCE \<or> load_word le input ref \<noteq> Some seq")
    case True
    have "ref + 4 \<le> length input" using found(3) assms(5) lens by simp
    then obtain w :: "32 word" where "load_word le input ref = Some w" using load_word32 by blast
    with True found(1) dist have "lz_step le clevel input (len - 1) op_limit hashlog s = LITERAL input op_limit ?a ?s"
      by (auto simp: lz_step_def Let_def)
    with lit show ?thesis by simp
  next
    case False
    then have ref: "load_word le input ref = Some seq" "?d < MAX_FARDISTANCE" by auto
    have "?a + 4 \<le> len - 1" "len - 1 \<le> length input" using assms(5) lens by simp_all
    from found_match[OF found(3,2) ref(1) this] obtain e where
      e: "get_run_or_match input (?a + 4) (len - 1) (ref + 4) (?d - 1 = 0) = Some e"
        "scanned input ?d ?a (len - 1) e" "?a + 4 \<le> e" by blast
    have "e \<le> len - 1" using e(2) unfolding scanned_def by blast
    then have e_len: "e < len" using assms(5) by linarith
    let ?n = "e - 4 - ?a"
    have eval: "lz_step le clevel input (len - 1) op_limit hashlog s =
      (if ?n < 4 \<or> (?n \<le> 5 \<and> ?d - 1 \<ge> MAX_DISTANCE) then LITERAL input op_limit ?a ?s
       else lz_match le clevel input op_limit hashlog (e - 4) ?n (?d - 1) ?s)"
      using found(1,3) ref dist e(1) by (simp add: lz_step_def Let_def)
    show ?thesis
    proof (cases "?n < 4 \<or> (?n \<le> 5 \<and> ?d - 1 \<ge> MAX_DISTANCE)")
      case True
      with eval lit show ?thesis by simp
    next
      case False
      then have n: "4 \<le> ?n" by simp
      have "\<exists>r. lz_match le clevel input op_limit hashlog (e - 4) ?n (?d - 1) ?s = Some r \<and> (case r of
          Inl out \<Rightarrow> out_kept op_limit out0 out
        | Inr s' \<Rightarrow> lz_ip ?s < lz_ip s' \<and> htab_ok hashlog (lz_htab s') (lz_ip s') \<and> lz_ip s' < len \<and>
            (\<exists>ts pend. lz_ok input len op_limit out0 ts pend s'))"
        by (rule lz_match_ok[OF ok, where e = e and ip_bound = "len - 1"])
          (use found(3,4) assms(3,4) e(2,3) e_len n ref(2) in simp_all)
      moreover have "lz_ip ?s = ?a" by simp
      moreover have "(?n < 4 \<or> (?n \<le> 5 \<and> ?d - 1 \<ge> MAX_DISTANCE)) = False" using False by blast
      ultimately show ?thesis unfolding eval by (simp only: if_False)
    qed
  qed
qed

lemma lz_loop_ok:
  assumes "lz_ok input len op_limit out0 ts pend s" "htab_ok hashlog (lz_htab s) (lz_ip s)"
    and "0 < hashlog" "hashlog \<le> 32" "len < 2 ^ 31" "len - lz_ip s < fuel"
  shows "\<exists>r. lz_loop fuel le clevel input len op_limit hashlog s = Some r \<and> (case r of
      Inl out \<Rightarrow> out_kept op_limit out0 out
    | Inr s' \<Rightarrow> \<exists>ts pend. lz_ok input len op_limit out0 ts pend s')"
  using assms
proof (induction fuel arbitrary: s ts pend)
  case 0
  then show ?case by simp
next
  case (Suc fuel)
  show ?case
  proof (cases "int (lz_ip s) < int len - 12")
    case False
    with Suc.prems(1) show ?thesis by auto
  next
    case True
    then have "lz_ip s + 12 < len" by linarith
    from lz_step_ok[OF Suc.prems(1-4) this Suc.prems(5), of le clevel] obtain r where
      r: "lz_step le clevel input (len - 1) op_limit hashlog s = Some r" "case r of
      Inl out \<Rightarrow> out_kept op_limit out0 out
    | Inr s' \<Rightarrow> lz_ip s < lz_ip s' \<and> htab_ok hashlog (lz_htab s') (lz_ip s') \<and> lz_ip s' < len \<and>
        (\<exists>ts pend. lz_ok input len op_limit out0 ts pend s')" by blast
    show ?thesis
    proof (cases r)
      case (Inl out)
      with r True show ?thesis by auto
    next
      case (Inr s')
      with r(2) obtain ts' pend' where
        s': "lz_ip s < lz_ip s'" "htab_ok hashlog (lz_htab s') (lz_ip s')" "lz_ok input len op_limit out0 ts' pend' s'" by auto
      have "len - lz_ip s' < fuel" using Suc.prems(6) s'(1) True by linarith
      from Suc.IH[OF s'(3,2) Suc.prems(3-5) this] r(1) True Inr show ?thesis by auto
    qed
  qed
qed

lemma lz_leftover_ok:
  assumes "lz_ok input len op_limit out0 ts pend s" "len - lz_ip s < fuel"
  shows "\<exists>r. lz_leftover fuel input len op_limit s = Some r \<and> (case r of
      Inl out \<Rightarrow> out_kept op_limit out0 out
    | Inr s' \<Rightarrow> lz_ip s' = len \<and> (\<exists>ts pend. lz_ok input len op_limit out0 ts pend s'))"
  using assms
proof (induction fuel arbitrary: s ts pend)
  case 0
  then show ?case by simp
next
  case (Suc fuel)
  have le: "lz_ip s \<le> len" using Suc.prems(1) by (simp add: lz_ok_def)
  show ?case
  proof (cases "int (lz_ip s) \<le> int len - 1")
    case False
    with le have "lz_ip s = len" by linarith
    with False Suc.prems(1) show ?thesis by auto
  next
    case True
    then have "lz_ip s < len" by linarith
    from LITERAL_ok[OF Suc.prems(1) refl this] obtain r where
      r: "LITERAL input op_limit (lz_ip s) s = Some r" "case r of
      Inl out \<Rightarrow> out_kept op_limit out0 out
    | Inr s' \<Rightarrow> lz_ip s' = lz_ip s + 1 \<and> lz_htab s' = lz_htab s \<and> (\<exists>ts pend. lz_ok input len op_limit out0 ts pend s')" by blast
    show ?thesis
    proof (cases r)
      case (Inl out)
      with r True show ?thesis by auto
    next
      case (Inr s')
      with r(2) obtain ts' pend' where s': "lz_ip s' = lz_ip s + 1" "lz_ok input len op_limit out0 ts' pend' s'" by auto
      have "len - lz_ip s' < fuel" using Suc.prems(2) s'(1) True by linarith
      from Suc.IH[OF s'(2) this] r(1) True Inr show ?thesis by auto
    qed
  qed
qed

text \<open>What a call of the compressor leaves: nothing (0), or a stream whose tokens stand for the input.\<close>

definition compressed :: "buf \<Rightarrow> nat \<Rightarrow> nat \<Rightarrow> buf \<Rightarrow> int \<Rightarrow> buf \<Rightarrow> bool" where
  "compressed input len maxout out n out' \<longleftrightarrow> 0 \<le> n \<and> n \<le> int maxout \<and> out_kept maxout out out' \<and>
     (n \<noteq> 0 \<longrightarrow> (\<exists>ts c rest. tokens_ok [] ts \<and> ts \<noteq> [] \<and> is_Lit (hd ts) \<and> is_Lit (last ts) \<and> stream ts = c # rest \<and>
        n = int (length (stream ts)) \<and> take (nat n) out' = (c OR 32) # rest \<and> foldl expand [] ts = take len input))"

lemma lz_finish_ok:
  assumes "lz_ok input len op_limit out0 ts pend s" "lz_ip s = len"
  shows "\<exists>n out'. lz_finish s = Some (n, out') \<and> compressed input len op_limit out0 n out'"
proof -
  have lens: "op_limit \<le> length out0" "lz_op s \<le> op_limit" using assms(1) by (simp_all add: lz_ok_def)
  obtain s1 ts1 where s1: "adjust_copy s = Some s1" "lz_op s1 \<le> lz_op s"
    "out_kept op_limit out0 (lz_out s1)" "take (lz_op s1) (lz_out s1) = stream ts1" "tokens_ok [] ts1"
    "foldl expand [] ts1 = take len input" "ts1 \<noteq> []" "is_Lit (hd ts1)" "is_Lit (last ts1)"
    using adjust_copy_ok[OF assms(1)] assms(2) by blast
  have len: "length (lz_out s1) = length out0" using s1(3) by (rule out_kept_length)
  obtain c rest where c: "stream ts1 = c # rest" using s1(7) by (cases ts1; cases "token_bytes (hd ts1)") auto
  have op: "lz_op s1 = length (stream ts1)" "lz_op s1 \<le> op_limit"
    using arg_cong[OF s1(4), of length] s1(2) lens len by simp_all
  let ?o = "(lz_out s1)[0 := c OR 32]"
  have "0 < length (lz_out s1)" using op lens(1) len unfolding c by (simp only: list.size)
  moreover have "lz_out s1 ! 0 = c"
  proof -
    have "take (lz_op s1) (lz_out s1) ! 0 = c" unfolding s1(4) c by simp
    then show ?thesis using op(1) c by simp
  qed
  ultimately have "lz_finish s = Some (int (lz_op s1), ?o)"
    using s1(1) by (simp add: lz_finish_def load_Some store_Some)
  moreover have "take (lz_op s1) ?o = (c OR 32) # rest"
    using take_update_swap[of "lz_op s1" "lz_out s1" 0 "c OR 32"] s1(4) c by simp
  moreover have "out_kept op_limit out0 ?o"
    by (rule out_kept_trans[OF s1(3) out_kept_update]) (use op c in simp)
  moreover have "nat (int (lz_op s1)) = lz_op s1" by simp
  ultimately have "compressed input len op_limit out0 (int (lz_op s1)) ?o"
    unfolding compressed_def using s1(5-9) op c by (simp only:) (intro conjI impI exI[of _ ts1] exI[of _ c] exI[of _ rest], simp_all)
  with \<open>lz_finish s = Some (int (lz_op s1), ?o)\<close> show ?thesis by blast
qed

lemma lz_encode_ok:
  assumes "0 < hashlog" "hashlog \<le> 32" "16 \<le> len" "len \<le> length input" "len < 2 ^ 31" "66 \<le> maxout" "maxout \<le> length out"
  shows "\<exists>n out'. lz_encode le clevel input len out maxout hashlog = Some (n, out') \<and> compressed input len maxout out n out'"
proof -
  let ?g = "31 # take 4 input"
  let ?o = "take 0 out @ ?g @ drop (0 + length ?g) out"
  let ?s = "\<lparr> lz_ip = 4, lz_op = 5, lz_copy = 4, lz_htab = replicate (2 ^ hashlog) 0, lz_out = ?o \<rparr>"
  have four: "length (take 4 input) = 4" using assms(3,4) by simp
  have ld: "load_el 4 input 0 = Some (take 4 input)" "store_el out 0 (word_of_nat (MAX_COPY - 1) # take 4 input) = Some ?o"
    using four assms(3-7) by (simp_all add: load_el_Some store_el_def memcpy_Some MAX_COPY_def)
  have kept: "out_kept maxout out ?o" by (rule out_kept_blit) (use four assms(6,7) in simp_all)
  have "take 5 ?o = ?g" using four by simp
  moreover have "take 4 input \<noteq> []" using four by (metis list.size(3) zero_neq_numeral)
  ultimately have "lz_ok input len maxout out [] (take 4 input) ?s"
    using four assms(3,4,6,7) kept unfolding lz_ok_def by simp
  moreover have "htab_ok hashlog (lz_htab ?s) (lz_ip ?s)" using htab_ok_init[of 4 hashlog] by simp
  moreover have "len - lz_ip ?s < len + 1" by simp
  ultimately obtain r where r: "lz_loop (len + 1) le clevel input len maxout hashlog ?s = Some r" "case r of
      Inl o' \<Rightarrow> out_kept maxout out o' | Inr s' \<Rightarrow> \<exists>ts pend. lz_ok input len maxout out ts pend s'"
    using lz_loop_ok[OF _ _ assms(1,2,5), of input maxout out "[]" "take 4 input" ?s "len + 1" le clevel] by blast
  have gave_up: "compressed input len maxout out 0 o'" if "out_kept maxout out o'" for o'
    using that by (simp add: compressed_def)
  show ?thesis
  proof (cases r)
    case (Inl o')
    with r have "lz_encode le clevel input len out maxout hashlog = Some (0, o')"
      unfolding lz_encode_def by (simp only: ld Option.bind.simps sum.case)
    with gave_up r(2) Inl show ?thesis by auto
  next
    case (Inr s)
    with r(2) obtain ts pend where s: "lz_ok input len maxout out ts pend s" by auto
    have "len - lz_ip s < len + 1" by simp
    from lz_leftover_ok[OF s this] obtain q where q: "lz_leftover (len + 1) input len maxout s = Some q" "case q of
      Inl o' \<Rightarrow> out_kept maxout out o'
    | Inr s' \<Rightarrow> lz_ip s' = len \<and> (\<exists>ts pend. lz_ok input len maxout out ts pend s')" by blast
    have eval: "lz_encode le clevel input len out maxout hashlog = (case q of Inl o' \<Rightarrow> Some (0, o') | Inr s \<Rightarrow> lz_finish s)"
      unfolding lz_encode_def by (simp only: ld r(1) Inr q(1) Option.bind.simps sum.case)
    show ?thesis
    proof (cases q)
      case (Inl o')
      with eval gave_up q(2) show ?thesis by auto
    next
      case (Inr s')
      with q(2) obtain ts' pend' where "lz_ip s' = len" "lz_ok input len maxout out ts' pend' s'" by auto
      with lz_finish_ok eval Inr show ?thesis by (metis sum.case(2))
    qed
  qed
qed

lemma blosclz_compress_ok:
  assumes "1 \<le> clevel" "clevel \<le> 9" "len \<le> length input" "len < 2 ^ 31" "maxout \<le> length out"
  shows "\<exists>n out'. blosclz_compress le clevel input len out maxout = Some (n, out') \<and> compressed input len maxout out n out'"
proof -
  have c: "clevel \<in> {1, 2, 3, 4, 5, 6, 7, 8, 9}" using assms(1,2) by auto
  then obtain hashlog where h: "load hashlogs clevel = Some hashlog" "0 < hashlog" "hashlog \<le> 32"
    by (auto simp: hashlogs_def load_def HASH_LOG_def)
  obtain cratio where r: "load cratios clevel = Some cratio" using assms(2) by (simp add: load_def cratios_def)
  define maxlen where "maxlen = (if clevel < 2 then len div 8 else if clevel < 4 then len div 4
                   else if clevel < 7 then len div 2 else len)"
  have maxlen: "maxlen \<le> len" by (simp add: maxlen_def)
  then have "maxlen \<le> length (drop (len - maxlen) input)" "maxlen < 2 ^ 31" using assms(3,4) by simp_all
  from get_cratio_ok[OF h(2,3) this] obtain ic oc where
    g: "get_cratio le (drop (len - maxlen) input) maxlen 4 4 hashlog = Some (ic, oc)" by blast
  have eval: "blosclz_compress le clevel input len out maxout =
    (if 100 * ic < cratio * oc then Some (0, out)
     else if len < 16 \<or> maxout < 66 then Some (0, out)
     else lz_encode le clevel input len out maxout hashlog)"
    unfolding blosclz_compress_def Let_def maxlen_def[symmetric] by (simp only: h(1) g r Option.bind.simps prod.case)
  show ?thesis
  proof (cases "100 * ic < cratio * oc \<or> len < 16 \<or> maxout < 66")
    case True
    with eval show ?thesis by (auto simp: compressed_def)
  next
    case False
    with eval lz_encode_ok[OF h(2,3) _ assms(3,4) _ assms(5)] show ?thesis by auto
  qed
qed

text \<open>
  C17. The BloscLZ compressor is memory safe. For the levels 1 to 9, every input and every output
  size, it terminates, reads only the input and initialised entries of its hash table, writes only
  the first \<open>maxout\<close> bytes of the output and returns a size between 0 and \<open>maxout\<close>.
\<close>

theorem blosclz_compress_safe:
  assumes "1 \<le> clevel" "clevel \<le> 9" "len \<le> length input" "len < 2 ^ 31" "maxout \<le> length out"
  shows "\<exists>n out'. blosclz_compress le clevel input len out maxout = Some (n, out') \<and> 0 \<le> n \<and> n \<le> int maxout \<and>
    length out' = length out \<and> drop maxout out' = drop maxout out"
  using blosclz_compress_ok[OF assms, of le] unfolding compressed_def out_kept_def by blast

theorem blosclz_compress_safe_witness:
  "\<exists>n out'. blosclz_compress True 5 [1, 2, 3, 4, 1, 2, 3, 4, 1, 2, 3, 4, 1, 2, 3, 4, 1, 2] 18 (replicate 80 0) 70 = Some (n, out') \<and>
    0 \<le> n \<and> n \<le> int 70 \<and> length out' = length (replicate 80 (0 :: byte)) \<and> drop 70 out' = drop 70 (replicate 80 0)"
  by (rule blosclz_compress_safe) simp_all

lemma decompress_compressed:
  assumes "compressed input len maxout out n out'" "n \<noteq> 0" "len \<le> length input"
    and "len \<le> maxd" "maxd \<le> length dst" "maxd < 2 ^ 31 - 300"
  shows "\<exists>dst'. blosclz_decompress (take (nat n) out') (nat n) dst maxd = Some (int len, dst') \<and>
    take len dst' = take len input \<and> out_kept maxd dst dst'"
proof -
  from assms(1,2) obtain ts c rest where ts: "tokens_ok [] ts" "ts \<noteq> []" "is_Lit (hd ts)" "is_Lit (last ts)" "stream ts = c # rest"
    "n = int (length (stream ts))" "take (nat n) out' = (c OR 32) # rest" "foldl expand [] ts = take len input"
    by (auto simp: compressed_def)
  have size: "length (take len input) = len" using assms(3) by simp
  have "\<exists>dst'. blosclz_decompress ((c OR 32) # rest) (length (stream ts)) dst maxd =
      Some (int (length (take len input)), dst') \<and>
    take (length (take len input)) dst' = take len input \<and> out_kept maxd dst dst'"
    using blosclz_decompress_stream[OF ts(1-5), of maxd dst, unfolded ts(8)] assms(4-6) size by simp
  moreover have "nat n = length (stream ts)" using ts(6) by simp
  ultimately show ?thesis unfolding ts(7) size by metis
qed

text \<open>
  C16. BloscLZ is lossless. Whatever the level, the input, the output buffer and the byte order of the
  compressing host, when the compressor returns a size \<open>n\<close> other than 0 (0 says that it gave up), then
  the decompressor, given these \<open>n\<close> bytes and room for the original, returns the original size and the
  original bytes.
\<close>

theorem blosclz_roundtrip:
  assumes "1 \<le> clevel" "clevel \<le> 9" "len \<le> length input" "maxout \<le> length out"
    and "len \<le> maxd" "maxd \<le> length dst" "maxd < 2 ^ 31 - 300"
  shows "\<exists>n out'. blosclz_compress le clevel input len out maxout = Some (n, out') \<and>
    (n = 0 \<or> (\<exists>dst'. blosclz_decompress (take (nat n) out') (nat n) dst maxd = Some (int len, dst') \<and>
       take len dst' = take len input))"
proof -
  have "len < 2 ^ 31" using assms(5,7) by simp
  from blosclz_compress_ok[OF assms(1-3) this assms(4), of le] obtain n out' where
    n: "blosclz_compress le clevel input len out maxout = Some (n, out')" "compressed input len maxout out n out'" by blast
  with decompress_compressed[OF n(2) _ assms(3,5-7)] show ?thesis by blast
qed

theorem blosclz_roundtrip_witness:
  "\<exists>n out'. blosclz_compress True 9 (replicate 40 0) 40 (replicate 80 1) 80 = Some (n, out') \<and>
    (n = 0 \<or> (\<exists>dst'. blosclz_decompress (take (nat n) out') (nat n) (replicate 40 7) 40 = Some (int 40, dst') \<and>
       take 40 dst' = take 40 (replicate 40 0)))"
  by (rule blosclz_roundtrip) simp_all

end
