(* ===== verification/Block_Streams.thy ===== *)
theory Block_Streams
  imports Blosclz_Compress Chunk_Header
begin

text \<open>
  The streams of a block: the second halves of \<open>blosc_c\<close> and \<open>blosc_d\<close> in \<open>blosc/blosc2.c\<close>. A filtered
  block is cut into streams (one per byte of the type, or a single one), and each is stored as a run of
  one byte, as it is, or compressed by the codec of the context.

  A codec is a pair of functions with the arguments of \<open>blosclz_compress\<close> and \<open>blosclz_decompress\<close>: the
  bytes from the input pointer on, their number, the bytes from the output pointer on, and how many of
  them may be written. BloscLZ is the one of this development; the others (external libraries, registered
  plugins) are the parameter \<open>ext\<close> of the dispatch. What the callers need of a codec is the locale
  \<open>block_codec\<close>. Not modelled here: the instrumented mode, which replaces the streams by timings, and the
  random access of ZFP cells.
\<close>

section \<open>Runs\<close>

function block_run_rest :: "byte \<Rightarrow> buf \<Rightarrow> nat \<Rightarrow> nat \<Rightarrow> bool option" where
  "block_run_rest x b ip ip_bound =
    (if ip < ip_bound then do {
       v \<leftarrow> load b ip;
       if v = x then block_run_rest x b (ip + 1) ip_bound else Some (ip = ip_bound) }
     else Some (ip = ip_bound))"
  by pat_completeness auto
termination by (relation "measure (\<lambda>(x, b, ip, ip_bound). ip_bound - ip)") auto

function block_run_words :: "byte \<Rightarrow> buf \<Rightarrow> nat \<Rightarrow> nat \<Rightarrow> bool option" where
  "block_run_words x b ip ip_bound =
    (if ip + 8 < ip_bound then do {
       value2 \<leftarrow> load_el 8 b ip;
       if replicate 8 x \<noteq> value2 then Some False else block_run_words x b (ip + 8) ip_bound }
     else block_run_rest x b ip ip_bound)"
  by pat_completeness auto
termination by (relation "measure (\<lambda>(x, b, ip, ip_bound). ip_bound - ip)") auto

declare block_run_rest.simps [simp del] block_run_words.simps [simp del]

text \<open>The \<open>get_run\<close> of \<open>blosc2.c\<close>.\<close>

definition block_get_run :: "buf \<Rightarrow> nat \<Rightarrow> nat \<Rightarrow> bool option" where
  "block_get_run b ip ip_bound = do { x \<leftarrow> load b ip; block_run_words x b ip ip_bound }"

section \<open>Writing the streams\<close>

type_synonym codec_fun = "buf \<Rightarrow> nat \<Rightarrow> buf \<Rightarrow> nat \<Rightarrow> (int \<times> buf) option"

text \<open>The choice of the compressor by \<open>compcode\<close>; \<open>None\<close> when the code is not supported.\<close>

definition block_encoder :: "bool \<Rightarrow> (int \<Rightarrow> codec_fun option) \<Rightarrow> blosc2_context \<Rightarrow> codec_fun option" where
  "block_encoder le ext context =
    (if ctx_compcode context = BLOSC_BLOSCLZ then Some (blosclz_compress le (nat (ctx_clevel context)))
     else ext (ctx_compcode context))"

definition ctx_vlblocks :: "blosc2_context \<Rightarrow> bool" where
  "ctx_vlblocks context \<longleftrightarrow> ctx_blosc2_flags2 context AND BLOSC2_VL_BLOCKS \<noteq> 0"

definition dict_training :: "blosc2_context \<Rightarrow> bool" where
  "dict_training context \<longleftrightarrow> ctx_use_dict context \<and> \<not> ctx_has_cdict context"

definition dont_split :: "blosc2_context \<Rightarrow> bool" where
  "dont_split context \<longleftrightarrow> ctx_header_flags context AND 16 \<noteq> 0"

text \<open>The output position, the counters \<open>ntbytes\<close> and \<open>ctbytes\<close>, and the destination.\<close>

record c_state =
  cs_op :: nat
  cs_ntbytes :: int
  cs_ctbytes :: int
  cs_dest :: buf

text \<open>A stream that is a run: the negated byte, and a token unless it is zero. \<open>Inl\<close> leaves \<open>blosc_c\<close>.\<close>

definition c_run :: "bool \<Rightarrow> byte \<Rightarrow> int \<Rightarrow> c_state \<Rightarrow> ((int \<times> buf) + c_state) option" where
  "c_run le v destsize s =
    (if cs_ntbytes s > destsize then Some (Inl (0, cs_dest s))
     else do {
       dest \<leftarrow> store_sw32 le (cs_dest s) (cs_op s - 4) (- uint v);
       let s = s\<lparr> cs_dest := dest \<rparr>;
       if uint v > 0 then do {
         ntbytes \<leftarrow> i32 (cs_ntbytes s + 1);
         let s = s\<lparr> cs_ntbytes := ntbytes, cs_ctbytes := cs_ctbytes s + 1 \<rparr>;
         if cs_ntbytes s > destsize then Some (Inl (0, cs_dest s))
         else do {
           dest \<leftarrow> store (cs_dest s) (cs_op s) 1;
           Some (Inr (s\<lparr> cs_dest := dest, cs_op := cs_op s + 1 \<rparr>)) } }
       else Some (Inr s) })"

text \<open>The size left for the compressed stream; \<open>None\<close> inside when there is none.\<close>

definition c_maxout :: "int \<Rightarrow> int \<Rightarrow> c_state \<Rightarrow> int option option" where
  "c_maxout neblock destsize s = do {
     total \<leftarrow> i32 (cs_ntbytes s + neblock);
     if total > destsize then
       if destsize - cs_ntbytes s \<le> 0 then Some None else Some (Some (destsize - cs_ntbytes s))
     else Some (Some neblock) }"

text \<open>A call of the codec, or the plain copy while a dictionary is trained.\<close>

definition c_compress ::
    "codec_fun option \<Rightarrow> bool \<Rightarrow> buf \<Rightarrow> nat \<Rightarrow> nat \<Rightarrow> int \<Rightarrow> c_state \<Rightarrow> ((int \<times> buf) + int \<times> buf) option" where
  "c_compress encoder training src ip neblock maxout s =
    (if training then do {
       dest \<leftarrow> memcpy (cs_dest s) (cs_op s) src ip neblock;
       Some (Inr (int neblock, dest)) }
     else case encoder of None \<Rightarrow> Some (Inl (BLOSC2_ERROR_CODEC_SUPPORT, cs_dest s))
       | Some compress \<Rightarrow> do {
           (cbytes, out) \<leftarrow> compress (drop ip src) neblock (drop (cs_op s) (cs_dest s)) (nat maxout);
           Some (Inr (cbytes, take (cs_op s) (cs_dest s) @ out)) })"

text \<open>What follows the call: the checks, the raw copy of what did not compress, the size of the stream.\<close>

definition c_finish ::
    "bool \<Rightarrow> blosc2_context \<Rightarrow> buf \<Rightarrow> nat \<Rightarrow> nat \<Rightarrow> int \<Rightarrow> int \<Rightarrow> int \<Rightarrow> c_state \<Rightarrow> ((int \<times> buf) + c_state) option" where
  "c_finish le context src ip neblock destsize maxout cbytes s =
    (if cbytes > maxout then Some (Inl (BLOSC2_ERROR_WRITE_BUFFER, cs_dest s))
     else if cbytes < 0 then Some (Inl (BLOSC2_ERROR_DATA, cs_dest s))
     else do {
       let cbytes = (if cbytes = 0 then int neblock else cbytes);
       r \<leftarrow> (if dict_training context then Some (Inr (cs_dest s))
            else do {
              total \<leftarrow> i32 (cs_ntbytes s + int neblock);
              if cbytes = int neblock \<and> total > destsize then Some (Inl (0, cs_dest s))
              else do {
                dest \<leftarrow> (if cbytes = int neblock then memcpy (cs_dest s) (cs_op s) src ip neblock else Some (cs_dest s));
                dest \<leftarrow> store_sw32 le dest (cs_op s - 4) (if ctx_vlblocks context then int neblock else cbytes);
                Some (Inr dest) } });
       case r of Inl e \<Rightarrow> Some (Inl e)
       | Inr dest \<Rightarrow> do {
           ntbytes \<leftarrow> i32 (cs_ntbytes s + cbytes);
           ctbytes \<leftarrow> i32 (cs_ctbytes s + cbytes);
           Some (Inr (s\<lparr> cs_dest := dest, cs_op := cs_op s + nat cbytes, cs_ntbytes := ntbytes, cs_ctbytes := ctbytes \<rparr>)) } })"

definition c_payload ::
    "bool \<Rightarrow> codec_fun option \<Rightarrow> blosc2_context \<Rightarrow> buf \<Rightarrow> nat \<Rightarrow> nat \<Rightarrow> int \<Rightarrow> c_state \<Rightarrow> ((int \<times> buf) + c_state) option" where
  "c_payload le encoder context src ip neblock destsize s = do {
     m \<leftarrow> c_maxout (int neblock) destsize s;
     case m of None \<Rightarrow> Some (Inl (0, cs_dest s))
     | Some maxout \<Rightarrow> do {
         r \<leftarrow> c_compress encoder (dict_training context) src ip neblock maxout s;
         case r of Inl e \<Rightarrow> Some (Inl e)
         | Inr (cbytes, dest) \<Rightarrow>
             c_finish le context src ip neblock destsize maxout cbytes (s\<lparr> cs_dest := dest \<rparr>) } }"

text \<open>
  One turn of the loop over the streams. \<open>disposable\<close> is the \<open>output_is_disposable\<close> of a prefilter.
\<close>

definition c_stream ::
    "bool \<Rightarrow> codec_fun option \<Rightarrow> blosc2_context \<Rightarrow> bool \<Rightarrow> buf \<Rightarrow> nat \<Rightarrow> int \<Rightarrow> nat \<Rightarrow> c_state \<Rightarrow> ((int \<times> buf) + c_state) option" where
  "c_stream le encoder context disposable src neblock destsize j s =
    (if dict_training context then c_payload le encoder context src (j * neblock) neblock destsize s
     else do {
       ntbytes \<leftarrow> i32 (cs_ntbytes s + 4);
       ctbytes \<leftarrow> i32 (cs_ctbytes s + 4);
       let s = s\<lparr> cs_op := cs_op s + 4, cs_ntbytes := ntbytes, cs_ctbytes := ctbytes \<rparr>;
       let runs = (\<not> ctx_vlblocks context \<and> ctx_header_overhead context = BLOSC_EXTENDED_HEADER_LENGTH);
       if runs \<and> disposable then do {
         dest \<leftarrow> store_el (cs_dest s) (cs_op s - 4) [0, 0, 0, 0];
         Some (Inr (s\<lparr> cs_dest := dest \<rparr>)) }
       else do {
         run \<leftarrow> (if runs then block_get_run src (j * neblock) ((j + 1) * neblock) else Some False);
         if run then do {
           v \<leftarrow> load src (j * neblock);
           c_run le v destsize s }
         else c_payload le encoder context src (j * neblock) neblock destsize s } })"

fun c_streams ::
    "bool \<Rightarrow> codec_fun option \<Rightarrow> blosc2_context \<Rightarrow> bool \<Rightarrow> buf \<Rightarrow> nat \<Rightarrow> int \<Rightarrow> nat list \<Rightarrow> c_state \<Rightarrow> ((int \<times> buf) + c_state) option" where
  "c_streams le encoder context disposable src neblock destsize [] s = Some (Inr s)"
| "c_streams le encoder context disposable src neblock destsize (j # js) s = do {
     r \<leftarrow> c_stream le encoder context disposable src neblock destsize j s;
     case r of Inl e \<Rightarrow> Some (Inl e)
     | Inr s \<Rightarrow> c_streams le encoder context disposable src neblock destsize js s }"

text \<open>The number of streams of a block that is compressed.\<close>

definition c_nstreams :: "blosc2_context \<Rightarrow> bool \<Rightarrow> int" where
  "c_nstreams context leftoverblock =
    (if \<not> dont_split context \<and> \<not> leftoverblock \<and> \<not> dict_training context then ctx_typesize context else 1)"

text \<open>From the assertion on the level to the end of \<open>blosc_c\<close>, for the filtered block \<open>src\<close>.\<close>

definition compress_streams ::
    "bool \<Rightarrow> (int \<Rightarrow> codec_fun option) \<Rightarrow> blosc2_context \<Rightarrow> bool \<Rightarrow> int \<Rightarrow> bool \<Rightarrow> int \<Rightarrow> int \<Rightarrow> buf \<Rightarrow> nat \<Rightarrow> buf \<Rightarrow> (int \<times> buf) option" where
  "compress_streams le ext context disposable bsize leftoverblock ntbytes destsize src op dest =
    (if \<not> ctx_clevel context > 0 \<or> c_nstreams context leftoverblock \<le> 0 \<or> bsize < 0 then None
     else do {
       let nstreams = c_nstreams context leftoverblock;
       let neblock = nat (bsize div nstreams);
       r \<leftarrow> c_streams le (block_encoder le ext context) context disposable src neblock destsize [0..<nat nstreams]
         \<lparr> cs_op = op, cs_ntbytes = ntbytes, cs_ctbytes = 0, cs_dest = dest \<rparr>;
       case r of Inl e \<Rightarrow> Some e | Inr s \<Rightarrow> Some (cs_ctbytes s, cs_dest s) })"

section \<open>Reading the streams\<close>

text \<open>
  The choice of the decompressor by the format in the header flags; \<open>ext\<close> gets the format and, for the
  registered codecs, the codec of the context.
\<close>

definition ctx_compformat :: "blosc2_context \<Rightarrow> int" where
  "ctx_compformat context = uint (drop_bit 5 (ctx_header_flags context AND 224))"

definition block_decoder :: "(int \<Rightarrow> int \<Rightarrow> codec_fun option) \<Rightarrow> blosc2_context \<Rightarrow> codec_fun option" where
  "block_decoder ext context =
    (if ctx_compformat context = 0 then Some blosclz_decompress
     else ext (ctx_compformat context) (ctx_compcode context))"

text \<open>
  The source position and the bytes left there, the destination position, \<open>ntbytes\<close> and the destination.
  \<open>Inl\<close> is an error return of \<open>blosc_d\<close>, after which the destination is not looked at.
\<close>

record d_state =
  ds_sp :: nat
  ds_srcsize :: int
  ds_dp :: nat
  ds_ntbytes :: int
  ds_dest :: buf

definition d_advance :: "buf \<Rightarrow> int \<Rightarrow> int \<Rightarrow> d_state \<Rightarrow> d_state" where
  "d_advance dest cbytes nbytes s = s\<lparr> ds_dest := dest, ds_sp := ds_sp s + nat cbytes,
     ds_dp := ds_dp s + nat nbytes, ds_ntbytes := ds_ntbytes s + nbytes \<rparr>"

text \<open>A negative size: a run of a byte that is not 0.\<close>

definition d_run :: "buf \<Rightarrow> int \<Rightarrow> int \<Rightarrow> d_state \<Rightarrow> (int + d_state) option" where
  "d_run src neblock cbytes s =
    (if ds_srcsize s < 1 then Some (Inl BLOSC2_ERROR_READ_BUFFER)
     else do {
       token \<leftarrow> load src (ds_sp s);
       let s = s\<lparr> ds_srcsize := ds_srcsize s - 1, ds_sp := ds_sp s + 1 \<rparr>;
       if token AND 1 \<noteq> 0 then
         if cbytes < - 255 then Some (Inl BLOSC2_ERROR_RUN_LENGTH)
         else do {
           dest \<leftarrow> memset (ds_dest s) (ds_dp s) (word_of_int (- cbytes)) (nat neblock);
           Some (Inr (d_advance dest 0 neblock s)) }
       else Some (Inl BLOSC2_ERROR_RUN_LENGTH) })"

text \<open>
  The call of the codec, which is given the \<open>cbytes\<close> bytes it may read, and the check of its result.
\<close>

definition d_codec :: "codec_fun option \<Rightarrow> buf \<Rightarrow> int \<Rightarrow> int \<Rightarrow> d_state \<Rightarrow> (int + d_state) option" where
  "d_codec decoder src neblock cbytes s =
    (case decoder of None \<Rightarrow> Some (Inl BLOSC2_ERROR_CODEC_SUPPORT)
     | Some decompress \<Rightarrow> do {
         (nbytes, out) \<leftarrow> decompress (take (nat cbytes) (drop (ds_sp s) src)) (nat cbytes)
                            (drop (ds_dp s) (ds_dest s)) (nat neblock);
         if nbytes \<noteq> neblock then Some (Inl BLOSC2_ERROR_DATA)
         else Some (Inr (d_advance (take (ds_dp s) (ds_dest s) @ out) cbytes nbytes s)) })"

definition d_data :: "codec_fun option \<Rightarrow> bool \<Rightarrow> buf \<Rightarrow> int \<Rightarrow> int \<Rightarrow> d_state \<Rightarrow> (int + d_state) option" where
  "d_data decoder vlblocks src neblock cbytes s =
    (if \<not> vlblocks \<and> cbytes = 0 then do {
       dest \<leftarrow> memset (ds_dest s) (ds_dp s) 0 (nat neblock);
       Some (Inr (d_advance dest 0 neblock s)) }
     else if \<not> vlblocks \<and> cbytes < 0 then d_run src neblock cbytes s
     else if cbytes = neblock then do {
       dest \<leftarrow> memcpy (ds_dest s) (ds_dp s) src (ds_sp s) (nat neblock);
       Some (Inr (d_advance dest cbytes neblock s)) }
     else d_codec decoder src neblock cbytes s)"

text \<open>One turn of the loop over the streams.\<close>

definition d_stream :: "bool \<Rightarrow> codec_fun option \<Rightarrow> bool \<Rightarrow> int \<Rightarrow> buf \<Rightarrow> int \<Rightarrow> d_state \<Rightarrow> (int + d_state) option" where
  "d_stream le decoder vlblocks bsize src neblock s =
    (if ds_srcsize s < 4 then Some (Inl BLOSC2_ERROR_READ_BUFFER)
     else do {
       v \<leftarrow> load_sw32 le src (ds_sp s);
       let srcsize = ds_srcsize s - 4;
       let s = s\<lparr> ds_sp := ds_sp s + 4 \<rparr>;
       if vlblocks then
         if v \<noteq> bsize then Some (Inl BLOSC2_ERROR_DATA)
         else d_data decoder vlblocks src v srcsize (s\<lparr> ds_srcsize := 0 \<rparr>)
       else if v > 0 \<and> srcsize < v then Some (Inl BLOSC2_ERROR_READ_BUFFER)
       else d_data decoder vlblocks src neblock v (s\<lparr> ds_srcsize := (if v > 0 then srcsize - v else srcsize) \<rparr>) })"

primrec d_streams ::
    "bool \<Rightarrow> codec_fun option \<Rightarrow> bool \<Rightarrow> int \<Rightarrow> buf \<Rightarrow> int \<Rightarrow> nat \<Rightarrow> d_state \<Rightarrow> (int + d_state) option" where
  "d_streams le decoder vlblocks bsize src neblock 0 s = Some (Inr s)"
| "d_streams le decoder vlblocks bsize src neblock (Suc n) s = do {
     r \<leftarrow> d_stream le decoder vlblocks bsize src neblock s;
     case r of Inl e \<Rightarrow> Some (Inl e)
     | Inr s \<Rightarrow> d_streams le decoder vlblocks bsize src neblock n s }"

definition d_nstreams :: "blosc2_context \<Rightarrow> bool \<Rightarrow> int" where
  "d_nstreams context leftoverblock =
    (if ctx_vlblocks context then 1
     else if \<not> dont_split context \<and> \<not> leftoverblock then ctx_typesize context else 1)"

text \<open>From the number of streams to the end of the loop over them: \<open>ntbytes\<close> and the destination.\<close>

definition decompress_streams ::
    "bool \<Rightarrow> (int \<Rightarrow> int \<Rightarrow> codec_fun option) \<Rightarrow> blosc2_context \<Rightarrow> int \<Rightarrow> bool \<Rightarrow> buf \<Rightarrow> nat \<Rightarrow> int \<Rightarrow> buf \<Rightarrow> nat
      \<Rightarrow> (int + int \<times> buf) option" where
  "decompress_streams le ext context bsize leftoverblock src sp srcsize dest dp =
    (if d_nstreams context leftoverblock = 0 then None
     else do {
       let nstreams = d_nstreams context leftoverblock;
       let neblock = bsize sdiv nstreams;
       if neblock = 0 then Some (Inl BLOSC2_ERROR_WRITE_BUFFER)
       else do {
         r \<leftarrow> d_streams le (block_decoder ext context) (ctx_vlblocks context) bsize src neblock (nat nstreams)
           \<lparr> ds_sp = sp, ds_srcsize = srcsize, ds_dp = dp, ds_ntbytes = 0, ds_dest = dest \<rparr>;
         case r of Inl e \<Rightarrow> Some (Inl e) | Inr s \<Rightarrow> Some (Inr (ds_ntbytes s, ds_dest s)) } })"

section \<open>Detection of runs\<close>

lemma block_run_rest_eq:
  assumes "ip \<le> bound" "bound \<le> length b"
  shows "block_run_rest x b ip bound = Some (\<forall>k. ip \<le> k \<longrightarrow> k < bound \<longrightarrow> b ! k = x)"
  using assms
proof (induction "bound - ip" arbitrary: ip)
  case 0
  then show ?case by (simp add: block_run_rest.simps[of x b ip])
next
  case (Suc m)
  then have ip: "ip < bound" by linarith
  have IH: "block_run_rest x b (ip + 1) bound = Some (\<forall>k. ip + 1 \<le> k \<longrightarrow> k < bound \<longrightarrow> b ! k = x)"
    using Suc by simp
  have "(\<forall>k. ip \<le> k \<longrightarrow> k < bound \<longrightarrow> b ! k = x) \<longleftrightarrow>
      b ! ip = x \<and> (\<forall>k. ip + 1 \<le> k \<longrightarrow> k < bound \<longrightarrow> b ! k = x)"
    using ip by (auto simp: Suc_le_eq) (metis le_neq_implies_less)
  with IH ip Suc.prems show ?case by (auto simp: block_run_rest.simps[of x b ip] load_Some)
qed

lemma block_run_words_eq:
  assumes "ip \<le> bound" "bound \<le> length b"
  shows "block_run_words x b ip bound = Some (\<forall>k. ip \<le> k \<longrightarrow> k < bound \<longrightarrow> b ! k = x)"
  using assms
proof (induction "bound - ip" arbitrary: ip rule: less_induct)
  case less
  show ?case
  proof (cases "ip + 8 < bound")
    case False
    with less.prems block_run_rest_eq show ?thesis by (simp add: block_run_words.simps[of x b ip])
  next
    case True
    have IH: "block_run_words x b (ip + 8) bound = Some (\<forall>k. ip + 8 \<le> k \<longrightarrow> k < bound \<longrightarrow> b ! k = x)"
      using less True by simp
    have eq: "replicate 8 x = take 8 (drop ip b) \<longleftrightarrow> (\<forall>k. ip \<le> k \<longrightarrow> k < ip + 8 \<longrightarrow> b ! k = x)"
    proof
      assume r: "replicate 8 x = take 8 (drop ip b)"
      show "\<forall>k. ip \<le> k \<longrightarrow> k < ip + 8 \<longrightarrow> b ! k = x"
      proof (intro allI impI)
        fix k assume "ip \<le> k" "k < ip + 8"
        then show "b ! k = x" using arg_cong[OF r, of "\<lambda>l. l ! (k - ip)"] True less.prems by simp
      qed
    next
      assume "\<forall>k. ip \<le> k \<longrightarrow> k < ip + 8 \<longrightarrow> b ! k = x"
      then show "replicate 8 x = take 8 (drop ip b)"
        using True less.prems by (intro nth_equalityI) auto
    qed
    have "(\<forall>k. ip \<le> k \<longrightarrow> k < bound \<longrightarrow> b ! k = x) \<longleftrightarrow> (\<forall>k. ip \<le> k \<longrightarrow> k < ip + 8 \<longrightarrow> b ! k = x) \<and>
        (\<forall>k. ip + 8 \<le> k \<longrightarrow> k < bound \<longrightarrow> b ! k = x)"
      using True by (auto simp: not_le)
    with eq IH True less.prems show ?thesis
      by (auto simp: block_run_words.simps[of x b ip] load_el_Some)
  qed
qed

lemma block_get_run_eq:
  assumes "0 < n" "ip + n \<le> length b"
  shows "block_get_run b ip (ip + n) = Some (take n (drop ip b) = replicate n (b ! ip))"
proof -
  have "(take n (drop ip b) = replicate n (b ! ip)) \<longleftrightarrow> (\<forall>k < n. b ! (ip + k) = b ! ip)"
    using assms by (auto simp: list_eq_iff_nth_eq)
  moreover have "\<dots> \<longleftrightarrow> (\<forall>k. ip \<le> k \<longrightarrow> k < ip + n \<longrightarrow> b ! k = b ! ip)"
    by (metis add_less_cancel_left le_add_diff_inverse le_add1)
  ultimately show ?thesis
    using assms by (simp add: block_get_run_def load_Some block_run_words_eq)
qed

section \<open>Writes within a segment\<close>

definition within :: "nat \<Rightarrow> nat \<Rightarrow> buf \<Rightarrow> buf \<Rightarrow> bool" where
  "within lo hi d d' \<longleftrightarrow> length d' = length d \<and> take lo d' = take lo d \<and> drop hi d' = drop hi d"

lemma within_refl [simp]: "within lo hi d d"
  by (simp add: within_def)

lemma within_trans: "within lo hi a b \<Longrightarrow> within lo hi b c \<Longrightarrow> within lo hi a c"
  by (simp add: within_def)

lemma within_lo: "within lo hi a b \<Longrightarrow> lo' \<le> lo \<Longrightarrow> within lo' hi a b"
  unfolding within_def by (metis min_absorb1 take_take)

lemma within_hi: "within lo hi a b \<Longrightarrow> hi \<le> hi' \<Longrightarrow> within lo hi' a b"
  unfolding within_def by (metis drop_drop le_add_diff_inverse2)

lemma within_length: "within lo hi a b \<Longrightarrow> length b = length a"
  by (simp add: within_def)

lemma within_blit: "lo \<le> p \<Longrightarrow> p + length v \<le> hi \<Longrightarrow> hi \<le> length d \<Longrightarrow> within lo hi d (take p d @ v @ drop (p + length v) d)"
  by (simp add: within_def min_absorb1 min_absorb2)

lemma within_suffix:
  "out_kept n (drop lo d) o' \<Longrightarrow> lo + n \<le> hi \<Longrightarrow> hi \<le> length d \<Longrightarrow> within lo hi d (take lo d @ o')"
proof -
  assume a: "out_kept n (drop lo d) o'" "lo + n \<le> hi" "hi \<le> length d"
  then have "drop (hi - lo) o' = drop (hi - lo) (drop lo d)"
    using out_kept_mono[of n "drop lo d" o' "hi - lo"] by (simp add: out_kept_def)
  with a show ?thesis by (simp add: within_def out_kept_def min_absorb2)
qed

lemma within_segment: "within lo hi d d' \<Longrightarrow> p + n \<le> lo \<Longrightarrow> take n (drop p d') = take n (drop p d)"
proof -
  assume a: "within lo hi d d'" "p + n \<le> lo"
  then have "take (n + p) (take lo d') = take (n + p) (take lo d)" by (simp add: within_def)
  with a(2) show ?thesis by (simp add: take_drop min_absorb1)
qed

section \<open>The interface of a codec\<close>

text \<open>The bytes \<open>z\<close> decompress to \<open>bs\<close>, whatever the destination, and nothing behind is written.\<close>

definition decodes :: "codec_fun \<Rightarrow> buf \<Rightarrow> buf \<Rightarrow> bool" where
  "decodes decompress z bs \<longleftrightarrow> (\<forall>dst. length bs \<le> length dst \<longrightarrow>
     (\<exists>dst'. decompress z (length z) dst (length bs) = Some (int (length bs), dst') \<and>
        take (length bs) dst' = bs \<and> out_kept (length bs) dst dst'))"

text \<open>
  What \<open>blosc_c\<close> and \<open>blosc_d\<close> rely on: a compressor keeps to the space it is given, a decompressor
  of any input (of a size for which BloscLZ is free of overflow) too, and what was compressed is
  decompressed.
\<close>

locale block_codec =
  fixes compress decompress :: codec_fun
  assumes compress_writes: "\<lbrakk>len \<le> length input; len < 2 ^ 31; maxout \<le> length out\<rbrakk> \<Longrightarrow>
      \<exists>n o'. compress input len out maxout = Some (n, o') \<and> 0 \<le> n \<and> n \<le> int maxout \<and> out_kept maxout out o'"
    and decompress_writes: "\<lbrakk>len \<le> length input; len \<le> 8421504; maxout \<le> length out\<rbrakk> \<Longrightarrow>
      \<exists>n o'. decompress input len out maxout = Some (n, o') \<and> 0 \<le> n \<and> n \<le> int maxout \<and> out_kept maxout out o'"
    and decompress_compress: "\<lbrakk>compress input len out maxout = Some (n, o'); n \<noteq> 0;
      len \<le> length input; len < 2 ^ 31 - 300; maxout \<le> length out\<rbrakk> \<Longrightarrow>
      decodes decompress (take (nat n) o') (take len input)"

text \<open>How a stream of bytes \<open>bs\<close> may be stored.\<close>

definition stream_code :: "codec_fun \<Rightarrow> buf \<Rightarrow> buf \<Rightarrow> bool" where
  "stream_code decompress bs code \<longleftrightarrow>
     (\<exists>v. bs = replicate (length bs) v \<and> code = int32_bytes True (- uint v) @ (if v = 0 then [] else [1])) \<or>
     code = int32_bytes True (int (length bs)) @ bs \<or>
     (\<exists>z. z \<noteq> [] \<and> length z \<noteq> length bs \<and> length z < 2 ^ 31 \<and> decodes decompress z bs \<and>
        code = int32_bytes True (int (length z)) @ z)"

section \<open>What the encoder writes\<close>

text \<open>
  The state at the end of a turn: it has written a code of the stream and nothing outside
  of the space from the output position to \<open>lim\<close>, or it gives the block up with result 0.
\<close>

definition c_result :: "codec_fun \<Rightarrow> nat \<Rightarrow> buf \<Rightarrow> c_state \<Rightarrow> (int \<times> buf) + c_state \<Rightarrow> bool" where
  "c_result decompress lim bs s r \<longleftrightarrow> (case r of
     Inl (v, d) \<Rightarrow> v = 0 \<and> within (cs_op s) lim (cs_dest s) d
   | Inr s' \<Rightarrow> \<exists>code. stream_code decompress bs code \<and> cs_op s' = cs_op s + length code \<and> cs_op s' \<le> lim \<and>
       cs_ntbytes s' = cs_ntbytes s + int (length code) \<and> cs_ctbytes s' = cs_ctbytes s + int (length code) \<and>
       within (cs_op s) lim (cs_dest s) (cs_dest s') \<and> take (length code) (drop (cs_op s) (cs_dest s')) = code)"

text \<open>\<open>base\<close> is where the count of \<open>ntbytes\<close> starts and \<open>lim\<close> where \<open>destsize\<close> ends.\<close>

definition c_at :: "nat \<Rightarrow> nat \<Rightarrow> c_state \<Rightarrow> bool" where
  "c_at base lim s \<longleftrightarrow> base \<le> cs_op s \<and> cs_op s \<le> lim \<and> lim \<le> length (cs_dest s) \<and>
     cs_ntbytes s = int (cs_op s) - int base \<and> 0 \<le> cs_ctbytes s \<and> cs_ctbytes s \<le> cs_ntbytes s"

lemma i32_range_neg_byte: "i32_range (- uint (v :: byte))"
proof -
  define u where "u = uint v"
  have "0 \<le> u" "u < 256" using uint_lt2p[of v] by (simp_all add: u_def)
  then show ?thesis unfolding i32_range_def u_def[symmetric] by simp
qed

lemma c_run_ok:
  assumes "c_at base lim s" "lim < base + (2 ^ 31 - 16)"
    and "s1 = s\<lparr> cs_op := cs_op s + 4, cs_ntbytes := cs_ntbytes s + 4, cs_ctbytes := cs_ctbytes s + 4 \<rparr>"
    and "bs = replicate (length bs) v"
  shows "\<exists>r. c_run le v (int lim - int base) s1 = Some r \<and> c_result decompress lim bs s r"
proof -
  let ?op = "cs_op s" and ?d = "cs_dest s"
  have at: "base \<le> ?op" "?op \<le> lim" "lim \<le> length ?d" "cs_ntbytes s = int ?op - int base"
    "0 \<le> cs_ctbytes s" "cs_ctbytes s \<le> cs_ntbytes s"
    using assms(1) by (auto simp: c_at_def)
  show ?thesis
  proof (cases "?op + 4 \<le> lim")
    case False
    then have "cs_ntbytes s1 > int lim - int base" using at assms(3) by simp
    then have "c_run le v (int lim - int base) s1 = Some (Inl (0, cs_dest s))"
      using assms(3) by (simp add: c_run_def)
    then show ?thesis by (simp add: c_result_def)
  next
    case True
    let ?h = "int32_bytes True (- uint v)"
    let ?d1 = "take ?op ?d @ ?h @ drop (?op + 4) ?d"
    have st: "store_sw32 le ?d ?op (- uint v) = Some ?d1"
      using True at by (simp add: store_sw32_eq[OF i32_range_neg_byte] store_el_Some)
    have w1: "within ?op lim ?d ?d1" using within_blit[of ?op ?op ?h lim ?d] True at by simp
    show ?thesis
    proof (cases "v = 0")
      case v: True
      have "c_run le v (int lim - int base) s1 = Some (Inr (s1\<lparr> cs_dest := ?d1 \<rparr>))"
        using st True at assms(3) v by (simp add: c_run_def Let_def)
      moreover have "stream_code decompress bs ?h"
        using assms(4) v by (auto simp: stream_code_def)
      then have "c_result decompress lim bs s (Inr (s1\<lparr> cs_dest := ?d1 \<rparr>))"
        unfolding c_result_def using w1 True at assms(3) by (auto intro!: exI[of _ ?h])
      ultimately show ?thesis by blast
    next
      case v: False
      then have pos: "uint v > 0" by (metis order_le_less uint_ge_0 unsigned_eq_0_iff)
      have i: "i32 (cs_ntbytes s + 4 + 1) = Some (cs_ntbytes s + 5)" using at assms(2) by simp
      show ?thesis
      proof (cases "?op + 5 \<le> lim")
        case False
        have "c_run le v (int lim - int base) s1 = Some (Inl (0, ?d1))"
          using st True False at assms(3) pos i by (simp add: c_run_def Let_def)
        with w1 show ?thesis by (simp add: c_result_def)
      next
        case fits: True
        let ?d2 = "take ?op ?d @ (?h @ [1]) @ drop (?op + 5) ?d"
        have l1: "length ?d1 = length ?d" using True at by simp
        have "?d1[?op + 4 := 1] = take (?op + 4) ?d1 @ [1] @ drop (?op + 5) ?d1"
          using fits at l1 by (subst upd_conv_take_nth_drop) (simp_all del: append_assoc)
        also have "\<dots> = ?d2" using fits at by (simp add: add.commute[of 5])
        finally have upd: "store ?d1 (?op + 4) 1 = Some ?d2" using fits at l1 by (simp add: store_Some)
        let ?s2 = "s1\<lparr> cs_dest := ?d2, cs_op := ?op + 5, cs_ntbytes := cs_ntbytes s + 5, cs_ctbytes := cs_ctbytes s + 5 \<rparr>"
        have "c_run le v (int lim - int base) s1 = Some (Inr ?s2)"
          using st upd True fits at assms(3) pos i by (simp add: c_run_def Let_def)
        moreover have w2: "within ?op lim ?d ?d2"
          using within_blit[of ?op ?op "?h @ [1]" lim ?d] fits at by simp
        have "stream_code decompress bs (?h @ [1])"
          using assms(4) v by (auto simp: stream_code_def)
        then have "c_result decompress lim bs s (Inr ?s2)"
          unfolding c_result_def using w2 fits at assms(3) by (auto intro!: exI[of _ "?h @ [1]"])
        ultimately show ?thesis by blast
      qed
    qed
  qed
qed

text \<open>The space for a payload, and the checks and writes after the call of the codec.\<close>

lemma c_maxout_cases:
  assumes "c_at base lim s" "lim + n < base + (2 ^ 31 - 16)" "0 < n"
    and "s1 = s\<lparr> cs_op := cs_op s + 4, cs_ntbytes := cs_ntbytes s + 4, cs_ctbytes := cs_ctbytes s + 4 \<rparr>"
  shows "c_maxout (int n) (int lim - int base) s1 = Some None \<or>
    (\<exists>m. c_maxout (int n) (int lim - int base) s1 = Some (Some (int m)) \<and> m \<le> n \<and> cs_op s + 4 + m \<le> lim)"
proof -
  have at: "base \<le> cs_op s" "cs_op s \<le> lim" "cs_ntbytes s = int (cs_op s) - int base"
    using assms(1) by (auto simp: c_at_def)
  have i: "i32 (cs_ntbytes s + 4 + int n) = Some (cs_ntbytes s + 4 + int n)" using at assms(2) by simp
  consider "cs_op s + 4 + n \<le> lim" | "\<not> cs_op s + 4 + n \<le> lim" "lim \<le> cs_op s + 4"
    | "\<not> cs_op s + 4 + n \<le> lim" "cs_op s + 4 < lim" by linarith
  then show ?thesis
  proof cases
    case 1
    then have "c_maxout (int n) (int lim - int base) s1 = Some (Some (int n))"
      using i at assms(4) by (simp add: c_maxout_def)
    with 1 show ?thesis by blast
  next
    case 2
    then have "c_maxout (int n) (int lim - int base) s1 = Some None"
      using i at assms(4) by (simp add: c_maxout_def)
    then show ?thesis by blast
  next
    case 3
    then have "c_maxout (int n) (int lim - int base) s1 = Some (Some (int (lim - (cs_op s + 4))))"
      using i at assms(4) by (simp add: c_maxout_def of_nat_diff)
    with 3 show ?thesis by (intro disjI2 exI[of _ "lim - (cs_op s + 4)"]) simp
  qed
qed

text \<open>What is stored after the size, of either kind.\<close>

lemma c_stored:
  assumes "c_at base lim s" "cs_op s + 4 + k \<le> lim" "k < 2 ^ 31" "length z = k"
    and "within (cs_op s + 4) lim (cs_dest s) d" "take k (drop (cs_op s + 4) d) = z"
  shows "\<exists>d'. store_sw32 le d (cs_op s) (int k) = Some d' \<and> within (cs_op s) lim (cs_dest s) d' \<and>
    take (4 + k) (drop (cs_op s) d') = int32_bytes True (int k) @ z"
proof -
  let ?op = "cs_op s" and ?h = "int32_bytes True (int k)"
  have at: "?op \<le> lim" "lim \<le> length (cs_dest s)" using assms(1) by (auto simp: c_at_def)
  have len: "length d = length (cs_dest s)" using assms(5) by (rule within_length)
  let ?d' = "take ?op d @ ?h @ drop (?op + 4) d"
  have "i32_range (int k)" using assms(3) by (simp add: i32_range_def)
  then have "store_sw32 le d ?op (int k) = Some ?d'"
    using assms(2) at len by (simp add: store_sw32_eq store_el_Some)
  moreover have "within ?op lim d ?d'"
    using within_blit[of ?op ?op ?h lim d] assms(2) at len by simp
  then have "within ?op lim (cs_dest s) ?d'"
    using within_lo[OF assms(5), of ?op] within_trans by simp
  moreover have "take (4 + k) (drop ?op ?d') = ?h @ z"
    using assms(2,6) at len by (simp add: min_absorb2)
  ultimately show ?thesis by blast
qed

context block_codec
begin

lemma c_finish_ok:
  assumes "c_at base lim s" "lim + n < base + (2 ^ 31 - 16)" "0 < n" "n < 2 ^ 31 - 300"
    and "s2 = s\<lparr> cs_op := cs_op s + 4, cs_ntbytes := cs_ntbytes s + 4, cs_ctbytes := cs_ctbytes s + 4,
      cs_dest := take (cs_op s + 4) (cs_dest s) @ o' \<rparr>"
    and "ip + n \<le> length src" "\<not> ctx_vlblocks context" "\<not> dict_training context"
    and "m \<le> n" "cs_op s + 4 + m \<le> lim"
    and c: "compress (drop ip src) n (drop (cs_op s + 4) (cs_dest s)) m = Some (k, o')"
  shows "\<exists>r. c_finish le context src ip n (int lim - int base) (int m) k s2 = Some r \<and>
    c_result decompress lim (take n (drop ip src)) s r"
proof -
  let ?op = "cs_op s" and ?d = "cs_dest s" and ?bs = "take n (drop ip src)"
  let ?d1 = "take (?op + 4) ?d @ o'"
  have at: "base \<le> ?op" "?op \<le> lim" "lim \<le> length ?d" "cs_ntbytes s = int ?op - int base"
    "0 \<le> cs_ctbytes s" "cs_ctbytes s \<le> cs_ntbytes s"
    using assms(1) by (auto simp: c_at_def)
  have lens: "n \<le> length (drop ip src)" "m \<le> length (drop (?op + 4) ?d)" using assms(6,10) at by simp_all
  have k: "0 \<le> k" "k \<le> int m" "out_kept m (drop (?op + 4) ?d) o'"
    using compress_writes[OF lens(1) _ lens(2)] assms(4) c by auto
  then have w1: "within (?op + 4) lim ?d ?d1" using within_suffix[OF k(3), of lim] assms(10) at by simp
  then have w1': "within ?op lim ?d ?d1" by (rule within_lo) simp
  have i: "i32 (cs_ntbytes s + 4 + int n) = Some (cs_ntbytes s + 4 + int n)" using at assms(2) by simp
  have nb: "length ?bs = n" using assms(6) by simp
  show ?thesis
  proof (cases "k = 0 \<or> k = int n")
    case raw: True
    show ?thesis
    proof (cases "?op + 4 + n \<le> lim")
      case False
      then have "c_finish le context src ip n (int lim - int base) (int m) k s2 = Some (Inl (0, ?d1))"
        using raw k i at assms(3,5,8) by (auto simp: c_finish_def Let_def)
      with w1' show ?thesis by (simp add: c_result_def)
    next
      case fits: True
      let ?d2 = "take (?op + 4) ?d1 @ ?bs @ drop (?op + 4 + n) ?d1"
      have l1: "length ?d1 = length ?d" using w1 by (rule within_length)
      have cp: "memcpy ?d1 (?op + 4) src ip n = Some ?d2"
        using fits at l1 assms(6) by (simp only: memcpy_Some)
      have "within (?op + 4) lim ?d1 ?d2" using within_blit[of "?op + 4" "?op + 4" ?bs lim ?d1] fits at l1 nb by simp
      then have w2: "within (?op + 4) lim ?d ?d2" using w1 within_trans by blast
      have "length (take (?op + 4) ?d1) = ?op + 4" using fits at l1 by simp
      then have seg: "take n (drop (?op + 4) ?d2) = ?bs" using nb by simp
      obtain d' where d': "store_sw32 le ?d2 ?op (int n) = Some d'" "within ?op lim ?d d'"
        "take (4 + n) (drop ?op d') = int32_bytes True (int n) @ ?bs"
        using c_stored[OF assms(1) fits _ nb w2 seg] assms(4) by auto
      let ?s' = "s2\<lparr> cs_dest := d', cs_op := ?op + 4 + n, cs_ntbytes := cs_ntbytes s + 4 + int n,
        cs_ctbytes := cs_ctbytes s + 4 + int n \<rparr>"
      have "c_finish le context src ip n (int lim - int base) (int m) k s2 = Some (Inr ?s')"
        using raw k i at fits assms(2,3,5,7,8) cp d'(1) by (auto simp: c_finish_def Let_def)
      moreover have "stream_code decompress ?bs (int32_bytes True (int n) @ ?bs)"
        using nb by (simp add: stream_code_def)
      then have "c_result decompress lim ?bs s (Inr ?s')"
        unfolding c_result_def using d'(2,3) fits assms(5) nb
        by (auto intro!: exI[of _ "int32_bytes True (int n) @ ?bs"])
      ultimately show ?thesis by blast
    qed
  next
    case comp: False
    define l where "l = nat k"
    have l: "k = int l" "0 < l" "l \<noteq> n" "l \<le> m" using comp k by (auto simp: l_def)
    let ?z = "take l o'"
    have "length o' = length ?d - (?op + 4)" using k(3) by (simp add: out_kept_def)
    then have lz: "length ?z = l" using l assms(10) at by simp
    have "length (take (?op + 4) ?d) = ?op + 4" using assms(10) at by simp
    then have seg: "take l (drop (?op + 4) ?d1) = ?z" by simp
    have fits: "?op + 4 + l \<le> lim" using l assms(10) by simp
    obtain d' where d': "store_sw32 le ?d1 ?op (int l) = Some d'" "within ?op lim ?d d'"
      "take (4 + l) (drop ?op d') = int32_bytes True (int l) @ ?z"
      using c_stored[OF assms(1) fits _ lz w1 seg] l assms(4,9) by auto
    let ?s' = "s2\<lparr> cs_dest := d', cs_op := ?op + 4 + l, cs_ntbytes := cs_ntbytes s + 4 + int l,
      cs_ctbytes := cs_ctbytes s + 4 + int l \<rparr>"
    have "c_finish le context src ip n (int lim - int base) (int m) k s2 = Some (Inr ?s')"
      using l i at fits assms(2,3,5,7,8) d'(1) by (auto simp: c_finish_def Let_def)
    moreover have "decodes decompress ?z ?bs"
      using decompress_compress[OF c _ lens(1) assms(4) lens(2)] l by simp
    then have "stream_code decompress ?bs (int32_bytes True (int l) @ ?z)"
      unfolding stream_code_def using l lz nb assms(4,9) by (intro disjI2 exI[of _ ?z]) auto
    then have "c_result decompress lim ?bs s (Inr ?s')"
      unfolding c_result_def using d'(2,3) fits assms(5) lz
      by (auto intro!: exI[of _ "int32_bytes True (int l) @ ?z"])
    ultimately show ?thesis by blast
  qed
qed

lemma c_payload_ok:
  assumes "c_at base lim s" "lim + n < base + (2 ^ 31 - 16)" "0 < n" "n < 2 ^ 31 - 300"
    and s1: "s1 = s\<lparr> cs_op := cs_op s + 4, cs_ntbytes := cs_ntbytes s + 4, cs_ctbytes := cs_ctbytes s + 4 \<rparr>"
    and "ip + n \<le> length src" "\<not> ctx_vlblocks context" "\<not> dict_training context"
  shows "\<exists>r. c_payload le (Some compress) context src ip n (int lim - int base) s1 = Some r \<and>
    c_result decompress lim (take n (drop ip src)) s r"
  using c_maxout_cases[OF assms(1-3) s1]
proof (elim disjE exE conjE)
  assume "c_maxout (int n) (int lim - int base) s1 = Some None"
  then have "c_payload le (Some compress) context src ip n (int lim - int base) s1 = Some (Inl (0, cs_dest s))"
    by (simp add: c_payload_def s1)
  then show ?thesis by (simp add: c_result_def)
next
  fix m assume m: "c_maxout (int n) (int lim - int base) s1 = Some (Some (int m))" "m \<le> n" "cs_op s + 4 + m \<le> lim"
  have "n \<le> length (drop ip src)" "m \<le> length (drop (cs_op s + 4) (cs_dest s))"
    using assms(1,6) m(3) by (auto simp: c_at_def)
  from compress_writes[OF this(1) _ this(2)] assms(4) obtain k o' where
    c: "compress (drop ip src) n (drop (cs_op s + 4) (cs_dest s)) m = Some (k, o')" by auto
  let ?s2 = "s\<lparr> cs_op := cs_op s + 4, cs_ntbytes := cs_ntbytes s + 4, cs_ctbytes := cs_ctbytes s + 4,
      cs_dest := take (cs_op s + 4) (cs_dest s) @ o' \<rparr>"
  have "c_payload le (Some compress) context src ip n (int lim - int base) s1 =
      c_finish le context src ip n (int lim - int base) (int m) k ?s2"
    using m(1) c assms(8) by (simp add: c_payload_def c_compress_def s1)
  with c_finish_ok[OF assms(1-4) refl assms(6-8) m(2,3) c] show ?thesis by simp
qed

text \<open>A turn of the loop, for a context whose streams are to be kept.\<close>

lemma c_stream_ok:
  assumes "c_at base lim s" "lim + n < base + (2 ^ 31 - 16)" "0 < n" "n < 2 ^ 31 - 300"
    and "j * n + n \<le> length src" "\<not> ctx_vlblocks context" "\<not> dict_training context"
  shows "\<exists>r. c_stream le (Some compress) context False src n (int lim - int base) j s = Some r \<and>
    c_result decompress lim (take n (drop (j * n) src)) s r"
proof -
  let ?s1 = "s\<lparr> cs_op := cs_op s + 4, cs_ntbytes := cs_ntbytes s + 4, cs_ctbytes := cs_ctbytes s + 4 \<rparr>"
  let ?bs = "take n (drop (j * n) src)"
  have at: "base \<le> cs_op s" "cs_op s \<le> lim" "cs_ntbytes s = int (cs_op s) - int base"
    "0 \<le> cs_ctbytes s" "cs_ctbytes s \<le> cs_ntbytes s"
    using assms(1) by (auto simp: c_at_def)
  have i: "i32 (cs_ntbytes s + 4) = Some (cs_ntbytes s + 4)" "i32 (cs_ctbytes s + 4) = Some (cs_ctbytes s + 4)"
    using at assms(2) by simp_all
  have run: "block_get_run src (j * n) ((j + 1) * n) = Some (?bs = replicate n (src ! (j * n)))"
    using block_get_run_eq[of n "j * n" src] assms(3,5) by (simp add: add.commute)
  have lj: "load src (j * n) = Some (src ! (j * n))" using assms(3,5) by (simp add: load_Some)
  have nb: "length ?bs = n" using assms(5) by simp
  have lim: "lim < base + (2 ^ 31 - 16)" using assms(2) by simp
  have eval: "c_stream le (Some compress) context False src n (int lim - int base) j s =
      (if ctx_header_overhead context = BLOSC_EXTENDED_HEADER_LENGTH \<and> ?bs = replicate n (src ! (j * n))
       then c_run le (src ! (j * n)) (int lim - int base) ?s1
       else c_payload le (Some compress) context src (j * n) n (int lim - int base) ?s1)"
    using assms(6,7) i run lj by (simp add: c_stream_def Let_def)
  show ?thesis
  proof (cases "ctx_header_overhead context = BLOSC_EXTENDED_HEADER_LENGTH \<and> ?bs = replicate n (src ! (j * n))")
    case True
    then have "?bs = replicate (length ?bs) (src ! (j * n))" using nb by simp
    from c_run_ok[OF assms(1) lim refl this, of le decompress] True show ?thesis by (simp only: eval if_True simp_thms)
  next
    case False
    then show ?thesis
      using c_payload_ok[OF assms(1-4) refl assms(5-7), of le] by (simp only: eval if_False)
  qed
qed

text \<open>
  All the streams: one code after the other from the output position on, or the block is given up;
  in both cases nothing before that position or behind the limit is written.
\<close>

lemma c_streams_ok:
  assumes "c_at base lim s" "lim + n < base + (2 ^ 31 - 16)" "0 < n" "n < 2 ^ 31 - 300"
    and "\<forall>j \<in> set js. j * n + n \<le> length src" "\<not> ctx_vlblocks context" "\<not> dict_training context"
  shows "\<exists>r. c_streams le (Some compress) context False src n (int lim - int base) js s = Some r \<and>
    (case r of Inl (v, d) \<Rightarrow> v = 0 \<and> within (cs_op s) lim (cs_dest s) d
     | Inr s' \<Rightarrow> \<exists>codes. list_all2 (stream_code decompress) (map (\<lambda>j. take n (drop (j * n) src)) js) codes \<and>
         cs_op s' = cs_op s + length (concat codes) \<and> cs_op s' \<le> lim \<and>
         cs_ctbytes s' = cs_ctbytes s + int (length (concat codes)) \<and> within (cs_op s) lim (cs_dest s) (cs_dest s') \<and>
         take (length (concat codes)) (drop (cs_op s) (cs_dest s')) = concat codes)"
  using assms(1,5)
proof (induction js arbitrary: s)
  case Nil
  then show ?case by (simp add: c_at_def)
next
  case (Cons j js)
  have j: "j * n + n \<le> length src" using Cons.prems(2) by simp
  from c_stream_ok[OF Cons.prems(1) assms(2-4) j assms(6,7), of le] obtain r where
    r: "c_stream le (Some compress) context False src n (int lim - int base) j s = Some r"
    "c_result decompress lim (take n (drop (j * n) src)) s r" by blast
  show ?case
  proof (cases r)
    case (Inl e)
    with r show ?thesis by (cases e) (simp add: c_result_def)
  next
    case (Inr s1)
    from r(2) Inr obtain code where
      c: "stream_code decompress (take n (drop (j * n) src)) code" "cs_op s1 = cs_op s + length code" "cs_op s1 \<le> lim"
      "cs_ntbytes s1 = cs_ntbytes s + int (length code)" "cs_ctbytes s1 = cs_ctbytes s + int (length code)"
      "within (cs_op s) lim (cs_dest s) (cs_dest s1)" "take (length code) (drop (cs_op s) (cs_dest s1)) = code"
      by (auto simp: c_result_def)
    have "c_at base lim s1" using Cons.prems(1) c within_length[OF c(6)] by (auto simp: c_at_def)
    from Cons.IH[OF this] Cons.prems(2) obtain r' where
      r': "c_streams le (Some compress) context False src n (int lim - int base) js s1 = Some r'"
      "case r' of Inl (v, d) \<Rightarrow> v = 0 \<and> within (cs_op s1) lim (cs_dest s1) d
       | Inr s' \<Rightarrow> \<exists>codes. list_all2 (stream_code decompress) (map (\<lambda>j. take n (drop (j * n) src)) js) codes \<and>
           cs_op s' = cs_op s1 + length (concat codes) \<and> cs_op s' \<le> lim \<and>
           cs_ctbytes s' = cs_ctbytes s1 + int (length (concat codes)) \<and> within (cs_op s1) lim (cs_dest s1) (cs_dest s') \<and>
           take (length (concat codes)) (drop (cs_op s1) (cs_dest s')) = concat codes" by auto
    have eval: "c_streams le (Some compress) context False src n (int lim - int base) (j # js) s = Some r'"
      using r(1) r'(1) Inr by simp
    have kept: "within (cs_op s) lim (cs_dest s) d" if "within (cs_op s1) lim (cs_dest s1) d" for d
      using within_lo[OF that, of "cs_op s"] c(2,6) within_trans by simp
    show ?thesis
    proof (cases r')
      case (Inl e)
      with r'(2) kept eval show ?thesis by (cases e) simp
    next
      case (Inr s')
      with r'(2) obtain codes where cs: "list_all2 (stream_code decompress) (map (\<lambda>j. take n (drop (j * n) src)) js) codes"
        "cs_op s' = cs_op s1 + length (concat codes)" "cs_op s' \<le> lim"
        "cs_ctbytes s' = cs_ctbytes s1 + int (length (concat codes))" "within (cs_op s1) lim (cs_dest s1) (cs_dest s')"
        "take (length (concat codes)) (drop (cs_op s1) (cs_dest s')) = concat codes" by auto
      have "take (length code) (drop (cs_op s) (cs_dest s')) = code"
        using within_segment[OF cs(5), of "cs_op s" "length code"] c(2,7) by simp
      then have "take (length code + length (concat codes)) (drop (cs_op s) (cs_dest s')) = code @ concat codes"
        using cs(6) c(2) by (simp add: take_add add.commute)
      with cs c kept[OF cs(5)] eval Inr show ?thesis
        by (intro exI[of _ r'] conjI) (auto intro!: exI[of _ "code # codes"])
    qed
  qed
qed

subsection \<open>What the decoder reads\<close>

text \<open>A turn that reads \<open>m\<close> bytes and writes the stream \<open>bs\<close>.\<close>

definition d_result :: "nat \<Rightarrow> buf \<Rightarrow> d_state \<Rightarrow> d_state \<Rightarrow> bool" where
  "d_result m bs s s' \<longleftrightarrow> ds_sp s' = ds_sp s + m \<and> ds_srcsize s' = ds_srcsize s - int m \<and>
     ds_dp s' = ds_dp s + length bs \<and> ds_ntbytes s' = ds_ntbytes s + int (length bs) \<and>
     within (ds_dp s) (ds_dp s + length bs) (ds_dest s) (ds_dest s') \<and>
     take (length bs) (drop (ds_dp s) (ds_dest s')) = bs"

end

text \<open>The size word, and the bytes behind it, of a code in the source.\<close>

lemma code_head:
  assumes "take (length code) (drop sp src) = code" "code = int32_bytes True x @ z" "i32_range x"
  shows "load_sw32 le src sp = Some x" "take (length z) (drop (sp + 4) src) = z" "sp + 4 + length z \<le> length src"
proof -
  have "length (take (length code) (drop sp src)) = length code" using assms(1) by simp
  then have "min (length src - sp) (length code) = length code" by simp
  then have len: "sp + length code \<le> length src \<or> length code = 0" by linarith
  have l: "length code = 4 + length z" using assms(2) by simp
  with len show fit: "sp + 4 + length z \<le> length src" by linarith
  have "take 4 (drop sp src) = take 4 (take (length code) (drop sp src))" using l by (simp add: min_absorb1)
  also have "\<dots> = int32_bytes True x" using assms(1,2) by simp
  finally show "load_sw32 le src sp = Some x"
    using fit by (simp add: sw32_eq int32_of_bytes_int32_bytes[OF assms(3)])
  have "take (length z) (drop (sp + 4) src) = drop 4 (take (length code) (drop sp src))"
    using l by (simp add: drop_take add.commute)
  also have "\<dots> = z" using assms(1,2) by simp
  finally show "take (length z) (drop (sp + 4) src) = z" .
qed

lemma blit_segment:
  assumes "p + length v \<le> length d"
  shows "within p (p + length v) d (take p d @ v @ drop (p + length v) d)"
    and "take (length v) (drop p (take p d @ v @ drop (p + length v) d)) = v"
  using assms within_blit[of p p v "p + length v" d] by simp_all

lemma suffix_segment:
  assumes "out_kept n (drop p d) o'" "take n o' = bs" "length bs = n" "p + n \<le> length d"
  shows "within p (p + n) d (take p d @ o')" "take n (drop p (take p d @ o')) = bs"
  using within_suffix[OF assms(1), of "p + n"] assms by simp_all

context block_codec
begin

lemma d_stream_code:
  assumes code: "stream_code decompress bs code" "take (length code) (drop (ds_sp s) src) = code"
    and "int (length code) \<le> ds_srcsize s" "0 < length bs" "length bs < 2 ^ 31"
    and "ds_dp s + length bs \<le> length (ds_dest s)"
  shows "\<exists>s'. d_stream le (Some decompress) False bsize src (int (length bs)) s = Some (Inr s') \<and>
    d_result (length code) bs s s'"
proof -
  let ?n = "length bs" and ?sp = "ds_sp s" and ?dp = "ds_dp s" and ?d = "ds_dest s"
  consider (run) v where "bs = replicate ?n v" "code = int32_bytes True (- uint v) @ (if v = 0 then [] else [1])"
    | (raw) "code = int32_bytes True (int ?n) @ bs"
    | (comp) z where "z \<noteq> []" "length z \<noteq> ?n" "length z < 2 ^ 31" "decodes decompress z bs"
        "code = int32_bytes True (int (length z)) @ z"
    using code(1) unfolding stream_code_def by blast
  then show ?thesis
  proof cases
    case run
    note head = code_head[OF code(2) run(2) i32_range_neg_byte]
    let ?d' = "take ?dp ?d @ bs @ drop (?dp + ?n) ?d"
    have ms: "memset ?d ?dp v ?n = Some ?d'" using run(1) assms(6) by (simp add: memset_Some)
    note seg = blit_segment[OF assms(6)]
    show ?thesis
    proof (cases "v = 0")
      case True
      then have l: "length code = 4" using run(2) by simp
      have "d_stream le (Some decompress) False bsize src (int ?n) s = Some (Inr (s\<lparr> ds_sp := ?sp + 4,
          ds_srcsize := ds_srcsize s - 4, ds_dest := ?d', ds_dp := ?dp + ?n, ds_ntbytes := ds_ntbytes s + int ?n \<rparr>))"
        using head(1) ms True l assms(3) by (simp add: d_stream_def d_data_def d_advance_def Let_def)
      then show ?thesis using seg l by (simp add: d_result_def)
    next
      case False
      then have l: "length code = 5" using run(2) by simp
      have u: "0 < uint v" "uint v < 256"
        using False uint_lt2p[of v] by (auto simp: order_less_le) (metis unsigned_eq_0_iff)
      have one: "take 1 (drop (?sp + 4) src) = [1]" using head(2) False by simp
      have tok: "load src (?sp + 4) = Some 1"
        using one head(3) False by (simp add: load_def take_Suc hd_drop_conv_nth)
      have "d_stream le (Some decompress) False bsize src (int ?n) s = Some (Inr (s\<lparr> ds_sp := ?sp + 5,
          ds_srcsize := ds_srcsize s - 5, ds_dest := ?d', ds_dp := ?dp + ?n, ds_ntbytes := ds_ntbytes s + int ?n \<rparr>))"
        using head(1) ms tok u l assms(3)
        by (simp add: d_stream_def d_data_def d_run_def d_advance_def Let_def)
      then show ?thesis using seg l by (simp add: d_result_def)
    qed
  next
    case raw
    have "i32_range (int ?n)" using assms(5) by (simp add: i32_range_def)
    note head = code_head[OF code(2) raw this]
    let ?d' = "take ?dp ?d @ bs @ drop (?dp + ?n) ?d"
    have cp: "memcpy ?d ?dp src (?sp + 4) ?n = Some ?d'"
      using assms(6) head(2,3) by (simp add: memcpy_Some)
    have l: "length code = 4 + ?n" using raw by simp
    have "d_stream le (Some decompress) False bsize src (int ?n) s = Some (Inr (s\<lparr> ds_sp := ?sp + 4 + ?n,
        ds_srcsize := ds_srcsize s - 4 - int ?n, ds_dest := ?d', ds_dp := ?dp + ?n, ds_ntbytes := ds_ntbytes s + int ?n \<rparr>))"
      using head(1) cp l assms(3,4) by (simp add: d_stream_def d_data_def d_advance_def Let_def)
    then show ?thesis using blit_segment[OF assms(6)] l by (simp add: d_result_def)
  next
    case comp
    have "i32_range (int (length z))" using comp(3) by (simp add: i32_range_def)
    note head = code_head[OF code(2) comp(5) this]
    obtain o' where o': "decompress z (length z) (drop ?dp ?d) ?n = Some (int ?n, o')"
      "take ?n o' = bs" "out_kept ?n (drop ?dp ?d) o'"
      using comp(4) assms(6) unfolding decodes_def by (metis length_drop le_diff_conv2 add.commute add_leD1)
    have l: "length code = 4 + length z" using comp(5) by simp
    have pos: "0 < length z" using comp(1) by simp
    have "d_stream le (Some decompress) False bsize src (int ?n) s = Some (Inr (s\<lparr> ds_sp := ?sp + 4 + length z,
        ds_srcsize := ds_srcsize s - 4 - int (length z), ds_dest := take ?dp ?d @ o', ds_dp := ?dp + ?n,
        ds_ntbytes := ds_ntbytes s + int ?n \<rparr>))"
      using head(1,2) o'(1) l assms(3,4) comp(2) pos by (simp add: d_stream_def d_data_def d_codec_def d_advance_def Let_def)
    then show ?thesis using suffix_segment[OF o'(3,2) refl assms(6)] l by (simp add: d_result_def)
  qed
qed

lemma d_streams_codes:
  assumes "list_all2 (stream_code decompress) bss codes" "\<forall>bs \<in> set bss. length bs = n" "0 < n" "n < 2 ^ 31"
    and "take (length (concat codes)) (drop (ds_sp s) src) = concat codes"
    and "int (length (concat codes)) \<le> ds_srcsize s" "ds_dp s + length (concat bss) \<le> length (ds_dest s)"
  shows "\<exists>s'. d_streams le (Some decompress) False bsize src (int n) (length bss) s = Some (Inr s') \<and>
    d_result (length (concat codes)) (concat bss) s s'"
  using assms
proof (induction arbitrary: s rule: list_all2_induct)
  case Nil
  then show ?case by (simp add: d_result_def)
next
  case (Cons bs bss code codes)
  let ?c = "length code" and ?cs = "concat codes"
  have n: "length bs = n" using Cons.prems(1) by simp
  have "take ?c (take (?c + length ?cs) (drop (ds_sp s) src)) = take ?c (code @ ?cs)"
    using Cons.prems(4) by simp
  then have t: "take ?c (drop (ds_sp s) src) = code" by (simp add: min_absorb1)
  have "drop ?c (take (?c + length ?cs) (drop (ds_sp s) src)) = drop ?c (code @ ?cs)"
    using Cons.prems(4) by simp
  then have t': "take (length ?cs) (drop (ds_sp s + ?c) src) = ?cs" by (simp add: drop_take add.commute)
  obtain s1 where s1: "d_stream le (Some decompress) False bsize src (int n) s = Some (Inr s1)" "d_result ?c bs s s1"
    using d_stream_code[OF Cons.hyps(1) t, of le bsize] Cons.prems n by auto
  have r1: "ds_sp s1 = ds_sp s + ?c" "ds_srcsize s1 = ds_srcsize s - int ?c" "ds_dp s1 = ds_dp s + n"
    "ds_ntbytes s1 = ds_ntbytes s + int n" "within (ds_dp s) (ds_dp s + n) (ds_dest s) (ds_dest s1)"
    "take n (drop (ds_dp s) (ds_dest s1)) = bs"
    using s1(2) n by (simp_all add: d_result_def)
  obtain s' where s': "d_streams le (Some decompress) False bsize src (int n) (length bss) s1 = Some (Inr s')"
    "d_result (length ?cs) (concat bss) s1 s'"
    using Cons.IH[of s1] Cons.prems t' r1 within_length[OF r1(5)] n by auto
  let ?m = "length (concat bss)"
  have r': "ds_sp s' = ds_sp s1 + length ?cs" "ds_srcsize s' = ds_srcsize s1 - int (length ?cs)"
    "ds_dp s' = ds_dp s1 + ?m" "ds_ntbytes s' = ds_ntbytes s1 + int ?m"
    "within (ds_dp s1) (ds_dp s1 + ?m) (ds_dest s1) (ds_dest s')" "take ?m (drop (ds_dp s1) (ds_dest s')) = concat bss"
    using s'(2) by (simp_all add: d_result_def)
  have w: "within (ds_dp s) (ds_dp s + (n + ?m)) (ds_dest s) (ds_dest s')"
    using within_hi[OF r1(5), of "ds_dp s + (n + ?m)"] within_lo[OF r'(5), of "ds_dp s"] r1(3) within_trans
    by (auto simp: add.assoc)
  have "take n (drop (ds_dp s) (ds_dest s')) = bs"
    using within_segment[OF r'(5), of "ds_dp s" n] r1(3,6) by simp
  then have "take (n + ?m) (drop (ds_dp s) (ds_dest s')) = bs @ concat bss"
    using r'(6) r1(3) by (simp add: take_add add.commute)
  then have "d_result (length (concat (code # codes))) (concat (bs # bss)) s s'"
    using r1 r' w n by (simp add: d_result_def)
  with s1(1) s'(1) show ?case by simp
qed

subsection \<open>Any input\<close>

text \<open>A turn on whatever is in the source: an error, or a stream of \<open>n\<close> bytes is written.\<close>

definition d_safe :: "buf \<Rightarrow> nat \<Rightarrow> d_state \<Rightarrow> int + d_state \<Rightarrow> bool" where
  "d_safe src n s r \<longleftrightarrow> (case r of Inl e \<Rightarrow> e < 0
   | Inr s' \<Rightarrow> 0 \<le> ds_srcsize s' \<and> ds_srcsize s' \<le> ds_srcsize s \<and> int (ds_sp s') + ds_srcsize s' \<le> int (length src) \<and>
       ds_dp s' = ds_dp s + n \<and> ds_ntbytes s' = ds_ntbytes s + int n \<and>
       within (ds_dp s) (ds_dp s + n) (ds_dest s) (ds_dest s'))"

lemma d_advance_safe:
  assumes "0 \<le> ds_srcsize s" "0 \<le> c" "int (ds_sp s) + c + ds_srcsize s \<le> int (length src)"
    and "within (ds_dp s) (ds_dp s + n) (ds_dest s) d"
  shows "d_safe src n s (Inr (d_advance d c (int n) s))"
  using assms by (simp add: d_safe_def d_advance_def)

lemma d_run_safe:
  assumes "0 \<le> ds_srcsize s" "int (ds_sp s) + ds_srcsize s \<le> int (length src)" "ds_dp s + n \<le> length (ds_dest s)"
  shows "\<exists>r. d_run src (int n) cbytes s = Some r \<and> d_safe src n s r"
proof (cases "ds_srcsize s < 1")
  case True
  then show ?thesis by (simp add: d_run_def d_safe_def)
next
  case False
  then have "ds_sp s < length src" using assms by linarith
  then have l: "load src (ds_sp s) = Some (src ! ds_sp s)" by (simp add: load_Some)
  let ?v = "word_of_int (- cbytes) :: byte"
  have m: "memset (ds_dest s) (ds_dp s) ?v n =
      Some (take (ds_dp s) (ds_dest s) @ replicate n ?v @ drop (ds_dp s + n) (ds_dest s))"
    using assms(3) by (rule memset_Some)
  have w: "within (ds_dp s) (ds_dp s + n) (ds_dest s)
      (take (ds_dp s) (ds_dest s) @ replicate n ?v @ drop (ds_dp s + n) (ds_dest s))"
    using blit_segment(1)[of "ds_dp s" "replicate n ?v" "ds_dest s"] assms(3) by simp
  show ?thesis
    using False assms l m w by (auto simp: d_run_def d_safe_def d_advance_def Let_def)
qed

lemma d_codec_safe:
  assumes "0 \<le> cbytes" "int (ds_sp s) + cbytes + ds_srcsize s \<le> int (length src)" "0 \<le> ds_srcsize s"
    and "cbytes \<le> 8421504" "ds_dp s + n \<le> length (ds_dest s)"
  shows "\<exists>r. d_codec (Some decompress) src (int n) cbytes s = Some r \<and> d_safe src n s r"
proof -
  let ?in = "take (nat cbytes) (drop (ds_sp s) src)"
  have len: "nat cbytes \<le> length ?in" "n \<le> length (drop (ds_dp s) (ds_dest s))" using assms by simp_all
  have "nat cbytes \<le> 8421504" using assms(4) by simp
  from decompress_writes[OF len(1) this len(2)] obtain k o' where
    k: "decompress ?in (nat cbytes) (drop (ds_dp s) (ds_dest s)) n = Some (k, o')"
    "out_kept n (drop (ds_dp s) (ds_dest s)) o'" by auto
  have w: "within (ds_dp s) (ds_dp s + n) (ds_dest s) (take (ds_dp s) (ds_dest s) @ o')"
    using within_suffix[OF k(2), of "ds_dp s + n"] assms(5) by simp
  show ?thesis
  proof (cases "k = int n")
    case True
    then have "d_codec (Some decompress) src (int n) cbytes s =
        Some (Inr (d_advance (take (ds_dp s) (ds_dest s) @ o') cbytes (int n) s))"
      using k(1) by (simp add: d_codec_def)
    with d_advance_safe[OF assms(3,1,2) w] show ?thesis by blast
  next
    case False
    then have "d_codec (Some decompress) src (int n) cbytes s = Some (Inl BLOSC2_ERROR_DATA)"
      using k(1) by (simp add: d_codec_def)
    then show ?thesis by (simp add: d_safe_def)
  qed
qed

lemma d_data_safe:
  assumes "0 \<le> ds_srcsize s" "int (ds_sp s) + (if 0 < cbytes then cbytes else 0) + ds_srcsize s \<le> int (length src)"
    and "cbytes \<le> 8421504" "ds_dp s + n \<le> length (ds_dest s)" "vlblocks \<longrightarrow> 0 \<le> cbytes"
  shows "\<exists>r. d_data (Some decompress) vlblocks src (int n) cbytes s = Some r \<and> d_safe src n s r"
proof -
  consider (zero) "\<not> vlblocks" "cbytes = 0" | (run) "\<not> vlblocks" "cbytes < 0"
    | (raw) "vlblocks \<or> 0 < cbytes" "cbytes = int n" | (codec) "vlblocks \<or> 0 < cbytes" "cbytes \<noteq> int n" by linarith
  then show ?thesis
  proof cases
    case zero
    have m: "memset (ds_dest s) (ds_dp s) 0 n =
        Some (take (ds_dp s) (ds_dest s) @ replicate n 0 @ drop (ds_dp s + n) (ds_dest s))"
      using assms(4) by (rule memset_Some)
    have w: "within (ds_dp s) (ds_dp s + n) (ds_dest s)
        (take (ds_dp s) (ds_dest s) @ replicate n 0 @ drop (ds_dp s + n) (ds_dest s))"
      using blit_segment(1)[of "ds_dp s" "replicate n 0" "ds_dest s"] assms(4) by simp
    show ?thesis using d_advance_safe[OF assms(1) _ _ w, of 0] assms(2) zero m by (simp add: d_data_def)
  next
    case run
    then show ?thesis using d_run_safe[of s src n cbytes] assms by (simp add: d_data_def)
  next
    case raw
    have le: "0 \<le> cbytes" using raw assms(5) by auto
    have c: "int (ds_sp s) + cbytes + ds_srcsize s \<le> int (length src)" using assms(2) le by (cases "cbytes = 0") auto
    have "ds_sp s + n \<le> length src" using c raw(2) assms(1) by linarith
    then have m: "memcpy (ds_dest s) (ds_dp s) src (ds_sp s) n =
        Some (take (ds_dp s) (ds_dest s) @ take n (drop (ds_sp s) src) @ drop (ds_dp s + n) (ds_dest s))"
      and l: "length (take n (drop (ds_sp s) src)) = n"
      using assms(4) by (simp_all add: memcpy_Some)
    have w: "within (ds_dp s) (ds_dp s + n) (ds_dest s)
        (take (ds_dp s) (ds_dest s) @ take n (drop (ds_sp s) src) @ drop (ds_dp s + n) (ds_dest s))"
      using blit_segment(1)[of "ds_dp s" "take n (drop (ds_sp s) src)" "ds_dest s"] assms(4) l by simp
    have "d_data (Some decompress) vlblocks src (int n) cbytes s = Some (Inr (d_advance
        (take (ds_dp s) (ds_dest s) @ take n (drop (ds_sp s) src) @ drop (ds_dp s + n) (ds_dest s)) cbytes (int n) s))"
      using raw m by (auto simp: d_data_def)
    with d_advance_safe[OF assms(1) le c w] show ?thesis by blast
  next
    case codec
    have le: "0 \<le> cbytes" using codec assms(5) by auto
    have c: "int (ds_sp s) + cbytes + ds_srcsize s \<le> int (length src)" using assms(2) le by (cases "cbytes = 0") auto
    have "d_data (Some decompress) vlblocks src (int n) cbytes s = d_codec (Some decompress) src (int n) cbytes s"
      using codec by (auto simp: d_data_def)
    then show ?thesis using d_codec_safe[OF le c assms(1,3,4)] by simp
  qed
qed

lemma d_stream_safe:
  assumes "0 \<le> ds_srcsize s" "int (ds_sp s) + ds_srcsize s \<le> int (length src)"
    and "ds_srcsize s \<le> 8421504" "ds_dp s + n \<le> length (ds_dest s)" "vlblocks \<longrightarrow> bsize = int n"
  shows "\<exists>r. d_stream le (Some decompress) vlblocks bsize src (int n) s = Some r \<and> d_safe src n s r"
proof (cases "ds_srcsize s < 4")
  case True
  then show ?thesis by (simp add: d_stream_def d_safe_def)
next
  case False
  then have "ds_sp s + 4 \<le> length src" using assms by linarith
  then obtain v where v: "load_sw32 le src (ds_sp s) = Some v" by (simp add: sw32_eq)
  have weaken: "d_safe src n s r" if "d_safe src n t r" "ds_srcsize t \<le> ds_srcsize s" "ds_dp t = ds_dp s"
      "ds_dest t = ds_dest s" "ds_ntbytes t = ds_ntbytes s" for t r
    using that by (auto simp: d_safe_def split: sum.splits)
  show ?thesis
  proof (cases vlblocks)
    case True
    let ?t = "s\<lparr> ds_sp := ds_sp s + 4, ds_srcsize := 0 \<rparr>"
    have "int (ds_sp ?t) + (if 0 < ds_srcsize s - 4 then ds_srcsize s - 4 else 0) + ds_srcsize ?t \<le> int (length src)"
      using False assms(2) by (cases "0 < ds_srcsize s - 4") simp_all
    then obtain r where r: "d_data (Some decompress) True src (int n) (ds_srcsize s - 4) ?t = Some r" "d_safe src n ?t r"
      using d_data_safe[of ?t "ds_srcsize s - 4" src n True] False assms by auto
    show ?thesis
    proof (cases "v = bsize")
      case eq: True
      then show ?thesis
        using v r(1) weaken[OF r(2)] False True assms(1,5) by (simp add: d_stream_def Let_def)
    next
      case ne: False
      then show ?thesis using v False True by (simp add: d_stream_def d_safe_def Let_def)
    qed
  next
    case nvl: False
    show ?thesis
    proof (cases "v > 0 \<and> ds_srcsize s - 4 < v")
      case True
      then show ?thesis using v False nvl by (simp add: d_stream_def d_safe_def Let_def)
    next
      case fits: False
      let ?t = "s\<lparr> ds_sp := ds_sp s + 4, ds_srcsize := (if v > 0 then ds_srcsize s - 4 - v else ds_srcsize s - 4) \<rparr>"
      have "0 \<le> ds_srcsize ?t" "int (ds_sp ?t) + (if 0 < v then v else 0) + ds_srcsize ?t \<le> int (length src)"
        using False fits assms(2) by (cases "0 < v"; simp)+
      moreover have "v \<le> 8421504" using False fits assms(3) by (cases "0 < v") auto
      ultimately obtain r where r: "d_data (Some decompress) False src (int n) v ?t = Some r" "d_safe src n ?t r"
        using d_data_safe[of ?t v src n False] assms(4) by auto
      then have "d_stream le (Some decompress) vlblocks bsize src (int n) s = Some r"
        using v False nvl fits by (auto simp: d_stream_def Let_def)
      moreover have "d_safe src n s r" using weaken[OF r(2)] False by (cases "0 < v") simp_all
      ultimately show ?thesis by blast
    qed
  qed
qed

lemma d_streams_safe:
  assumes "0 \<le> ds_srcsize s" "int (ds_sp s) + ds_srcsize s \<le> int (length src)"
    and "ds_srcsize s \<le> 8421504" "ds_dp s + k * n \<le> length (ds_dest s)" "vlblocks \<longrightarrow> bsize = int n"
  shows "\<exists>r. d_streams le (Some decompress) vlblocks bsize src (int n) k s = Some r \<and> d_safe src (k * n) s r"
  using assms(1-4)
proof (induction k arbitrary: s)
  case 0
  then show ?case by (simp add: d_safe_def)
next
  case (Suc k)
  obtain r where r: "d_stream le (Some decompress) vlblocks bsize src (int n) s = Some r" "d_safe src n s r"
    using d_stream_safe[of s src n vlblocks bsize le] Suc.prems assms(5) by auto
  show ?case
  proof (cases r)
    case (Inl e)
    with r show ?thesis by (simp add: d_safe_def)
  next
    case (Inr s1)
    with r(2) have s1: "0 \<le> ds_srcsize s1" "ds_srcsize s1 \<le> ds_srcsize s" "int (ds_sp s1) + ds_srcsize s1 \<le> int (length src)"
      "ds_dp s1 = ds_dp s + n" "ds_ntbytes s1 = ds_ntbytes s + int n"
      "within (ds_dp s) (ds_dp s + n) (ds_dest s) (ds_dest s1)" by (simp_all add: d_safe_def)
    obtain r' where r': "d_streams le (Some decompress) vlblocks bsize src (int n) k s1 = Some r'" "d_safe src (k * n) s1 r'"
      using Suc.IH[of s1] Suc.prems s1 within_length[OF s1(6)] by (auto simp: algebra_simps)
    have "d_safe src (Suc k * n) s r'"
    proof (cases r')
      case (Inl e)
      with r'(2) show ?thesis by (simp add: d_safe_def)
    next
      case (Inr s2)
      with r'(2) have s2: "within (ds_dp s1) (ds_dp s1 + k * n) (ds_dest s1) (ds_dest s2)" by (simp add: d_safe_def)
      have "within (ds_dp s) (ds_dp s + Suc k * n) (ds_dest s) (ds_dest s1)" by (rule within_hi[OF s1(6)]) simp
      moreover have "within (ds_dp s) (ds_dp s + Suc k * n) (ds_dest s1) (ds_dest s2)"
        using within_lo[OF s2, of "ds_dp s"] s1(4) by (simp add: algebra_simps)
      ultimately have "within (ds_dp s) (ds_dp s + Suc k * n) (ds_dest s) (ds_dest s2)" by (rule within_trans)
      with Inr r'(2) s1 show ?thesis by (simp add: d_safe_def algebra_simps)
    qed
    with r(1) r'(1) Inr show ?thesis by simp
  qed
qed

end

section \<open>BloscLZ is a codec\<close>

interpretation blosclz: block_codec "blosclz_compress le (Suc (clevel mod 9))" blosclz_decompress for le clevel
proof
  have c: "1 \<le> Suc (clevel mod 9)" "Suc (clevel mod 9) \<le> 9" by (simp_all add: Suc_le_eq)
  fix len input maxout n and out o' :: buf
  show "\<exists>n o'. blosclz_compress le (Suc (clevel mod 9)) input len out maxout = Some (n, o') \<and> 0 \<le> n \<and>
      n \<le> int maxout \<and> out_kept maxout out o'"
    if "len \<le> length input" "len < 2 ^ 31" "maxout \<le> length out"
    using blosclz_compress_ok[OF c that] unfolding compressed_def by blast
  show "\<exists>n o'. blosclz_decompress input len out maxout = Some (n, o') \<and> 0 \<le> n \<and> n \<le> int maxout \<and> out_kept maxout out o'"
    if "len \<le> length input" "len \<le> 8421504" "maxout \<le> length out"
    using blosclz_decompress_bounds[OF that(1,3,2)] unfolding out_kept_def by blast
  show "decodes blosclz_decompress (take (nat n) o') (take len input)"
    if a: "blosclz_compress le (Suc (clevel mod 9)) input len out maxout = Some (n, o')" "n \<noteq> 0"
      "len \<le> length input" "len < 2 ^ 31 - 300" "maxout \<le> length out"
  proof -
    have k: "compressed input len maxout out n o'"
      using blosclz_compress_ok[OF c a(3) _ a(5), of le] a(1,4) by auto
    then have "length o' = length out" "0 \<le> n" "n \<le> int maxout" by (auto simp: compressed_def out_kept_def)
    then have l: "length (take (nat n) o') = nat n" using a(5) by simp
    show ?thesis
      unfolding decodes_def l using decompress_compressed[OF k a(2,3), of len] a(3,4) by simp
  qed
qed

lemma blosclz_codec:
  assumes "1 \<le> clevel" "clevel \<le> 9"
  shows "block_codec (blosclz_compress le clevel) blosclz_decompress"
proof -
  have "Suc ((clevel - 1) mod 9) = clevel" using assms by simp
  with blosclz.block_codec_axioms[of le "clevel - 1"] show ?thesis by simp
qed

section \<open>Blocks\<close>

text \<open>The code of a block of \<open>k\<close> streams of \<open>n\<close> bytes.\<close>

definition block_code :: "codec_fun \<Rightarrow> nat \<Rightarrow> nat \<Rightarrow> buf \<Rightarrow> buf \<Rightarrow> bool" where
  "block_code decompress k n bs code \<longleftrightarrow> (\<exists>bss codes. list_all2 (stream_code decompress) bss codes \<and> length bss = k \<and>
     (\<forall>b \<in> set bss. length b = n) \<and> concat bss = bs \<and> concat codes = code)"

lemma concat_pieces:
  "concat (map (\<lambda>j. take n (drop (j * n) src)) [0..<k]) = take (k * n) src"
proof (induction k)
  case (Suc k)
  have "take (Suc k * n) src = take (k * n) src @ take n (drop (k * n) src)"
    using take_add[of "k * n" n src] by (simp add: add.commute)
  with Suc show ?case by simp
qed simp

lemma stream_code_length: "stream_code d bs code \<Longrightarrow> 4 \<le> length code"
  by (auto simp: stream_code_def)

lemma block_code_length: "block_code d k n bs code \<Longrightarrow> 4 * k \<le> length code"
proof -
  assume "block_code d k n bs code"
  then obtain bss codes where b: "list_all2 (stream_code d) bss codes" "length bss = k" "concat codes = code"
    by (auto simp: block_code_def)
  have "4 * length bss \<le> length (concat codes)"
    using b(1) by (induction rule: list_all2_induct) (auto dest: stream_code_length)
  with b show ?thesis by simp
qed

context block_codec
begin

lemma compress_streams_code:
  assumes "block_encoder le ext context = Some compress" "\<not> ctx_vlblocks context" "\<not> dict_training context"
    and "0 < ctx_clevel context" "c_nstreams context leftoverblock = int k" "0 < k" "0 < n" "n < 2 ^ 31 - 300"
    and "k * n \<le> length src" "nat ntbytes \<le> op" "0 \<le> ntbytes" "ntbytes \<le> destsize"
    and "op - nat ntbytes + nat destsize \<le> length dest" "destsize + int n < 2 ^ 31 - 16"
  shows "\<exists>r dest'. compress_streams le ext context False (int (k * n)) leftoverblock ntbytes destsize src op dest = Some (int r, dest') \<and>
    within op (op - nat ntbytes + nat destsize) dest dest' \<and>
    (r \<noteq> 0 \<longrightarrow> op + r \<le> op - nat ntbytes + nat destsize \<and>
      block_code decompress k n (take (k * n) src) (take r (drop op dest')))"
proof -
  let ?base = "op - nat ntbytes" and ?lim = "op - nat ntbytes + nat destsize"
  let ?s = "\<lparr> cs_op = op, cs_ntbytes = ntbytes, cs_ctbytes = 0, cs_dest = dest \<rparr>"
  have at: "c_at ?base ?lim ?s" using assms(10-13) by (auto simp: c_at_def nat_le_iff)
  have lim: "?lim + n < ?base + (2 ^ 31 - 16)" using assms(11,12,14) by simp
  have js: "\<forall>j \<in> set [0..<k]. j * n + n \<le> length src" 
  proof
    fix j assume "j \<in> set [0..<k]"
    then have "j * n + n \<le> k * n" by (intro block_le) simp
    then show "j * n + n \<le> length src" using assms(9) by linarith
  qed
  have ds: "int ?lim - int ?base = destsize" using assms(11,12) by simp
  have nb: "nat (int (k * n) div int k) = n" using assms(6) by simp
  from c_streams_ok[OF at lim assms(7,8) js assms(2,3), of le, unfolded ds c_state.simps add_0] obtain r where
    r: "c_streams le (Some compress) context False src n destsize [0..<k] ?s = Some r"
    "case r of Inl (v, d) \<Rightarrow> v = 0 \<and> within op ?lim dest d
     | Inr s' \<Rightarrow> \<exists>codes. list_all2 (stream_code decompress) (map (\<lambda>j. take n (drop (j * n) src)) [0..<k]) codes \<and>
         cs_op s' = op + length (concat codes) \<and> cs_op s' \<le> ?lim \<and>
         cs_ctbytes s' = int (length (concat codes)) \<and> within op ?lim dest (cs_dest s') \<and>
         take (length (concat codes)) (drop op (cs_dest s')) = concat codes"
    by blast
  have eval: "compress_streams le ext context False (int (k * n)) leftoverblock ntbytes destsize src op dest =
      (case r of Inl e \<Rightarrow> Some e | Inr s \<Rightarrow> Some (cs_ctbytes s, cs_dest s))"
    using assms(1,4-6) r(1) nb of_nat_0_le_iff[of "k * n", where 'a = int]
    by (simp del: of_nat_0_le_iff of_nat_mult add: compress_streams_def Let_def not_less)
  show ?thesis
  proof (cases r)
    case (Inl e)
    then show ?thesis using r(2) eval by (cases e) (auto intro!: exI[of _ 0])
  next
    case (Inr s')
    with r(2) obtain codes where c: "list_all2 (stream_code decompress) (map (\<lambda>j. take n (drop (j * n) src)) [0..<k]) codes"
      "cs_op s' = op + length (concat codes)" "cs_op s' \<le> ?lim" "cs_ctbytes s' = int (length (concat codes))"
      "within op ?lim dest (cs_dest s')" "take (length (concat codes)) (drop op (cs_dest s')) = concat codes" by auto
    have "\<forall>b \<in> set (map (\<lambda>j. take n (drop (j * n) src)) [0..<k]). length b = n" using js by fastforce
    then have "block_code decompress k n (take (k * n) src) (concat codes)"
      unfolding block_code_def using c(1) concat_pieces
      by (intro exI[of _ "map (\<lambda>j. take n (drop (j * n) src)) [0..<k]"] exI[of _ codes] conjI) auto
    with c eval Inr show ?thesis by (auto intro!: exI[of _ "length (concat codes)"])
  qed
qed

lemma decompress_streams_code:
  assumes "block_decoder ext context = Some decompress" "\<not> ctx_vlblocks context"
    and "d_nstreams context leftoverblock = int k" "0 < k" "0 < n" "n < 2 ^ 31"
    and "block_code decompress k n bs code" "take (length code) (drop sp src) = code" "int (length code) \<le> srcsize"
    and "dp + k * n \<le> length dest"
  shows "\<exists>dest'. decompress_streams le ext context (int (k * n)) leftoverblock src sp srcsize dest dp =
      Some (Inr (int (k * n), dest')) \<and> within dp (dp + k * n) dest dest' \<and> take (k * n) (drop dp dest') = bs"
proof -
  let ?s = "\<lparr> ds_sp = sp, ds_srcsize = srcsize, ds_dp = dp, ds_ntbytes = 0, ds_dest = dest \<rparr>"
  obtain bss codes where b: "list_all2 (stream_code decompress) bss codes" "length bss = k"
     "\<forall>b \<in> set bss. length b = n" "concat bss = bs" "concat codes = code"
    using assms(7) by (auto simp: block_code_def)
  have "map length bss = replicate k n" using b(2,3) by (metis map_replicate_const map_cong)
  then have "length (concat bss) = k * n" by (simp add: length_concat sum_list_replicate)
  then have lb: "length bs = k * n" using b(4) by simp
  obtain s' where s': "d_streams le (Some decompress) False (int (k * n)) src (int n) (length bss) ?s = Some (Inr s')"
    "d_result (length code) bs ?s s'"
    using d_streams_codes[OF b(1,3) assms(5,6), of ?s src le "int (k * n)"] b(4,5) lb assms(8-10) by auto
  have "int (k * n) sdiv int k = int n" using assms(4) by simp
  with s' b(2) lb assms(1-5) show ?thesis
    by (auto simp: decompress_streams_def Let_def d_result_def)
qed

lemma decompress_streams_bounds:
  assumes "block_decoder ext context = Some decompress" "0 < d_nstreams context leftoverblock"
    and "0 < bsize" "0 \<le> srcsize" "srcsize \<le> 8421504" "int sp + srcsize \<le> int (length src)"
    and "int dp + bsize \<le> int (length dest)"
  shows "\<exists>r. decompress_streams le ext context bsize leftoverblock src sp srcsize dest dp = Some r \<and>
    (case r of Inl e \<Rightarrow> e < 0
     | Inr (ntbytes, dest') \<Rightarrow> ntbytes = bsize div d_nstreams context leftoverblock * d_nstreams context leftoverblock \<and>
         within dp (dp + nat bsize) dest dest')"
proof -
  define k n where "k = nat (d_nstreams context leftoverblock)" and "n = nat (bsize div int k)"
  have k: "d_nstreams context leftoverblock = int k" "0 < k" using assms(2) by (simp_all add: k_def)
  have n: "bsize div int k = int n" "bsize sdiv int k = int n"
    using assms(3) k by (simp_all add: n_def pos_imp_zdiv_nonneg_iff)
  show ?thesis
  proof (cases "n = 0")
    case True
    then show ?thesis using n(2) k by (auto simp: decompress_streams_def Let_def)
  next
    case False
    have kn: "int (k * n) \<le> bsize"
    proof -
      have "int k * (bsize div int k) \<le> bsize"
        using minus_mod_eq_mult_div[of bsize "int k"] pos_mod_sign[of "int k" bsize] k by linarith
      then show ?thesis using n(1) by simp
    qed
    let ?s = "\<lparr> ds_sp = sp, ds_srcsize = srcsize, ds_dp = dp, ds_ntbytes = 0, ds_dest = dest \<rparr>"
    have vl: "ctx_vlblocks context \<longrightarrow> bsize = int n"
      using n(1) k(1) by (auto simp: d_nstreams_def)
    have fit: "dp + k * n \<le> length dest" using kn assms(7) by linarith
    obtain r where r: "d_streams le (Some decompress) (ctx_vlblocks context) bsize src (int n) k ?s = Some r" "d_safe src (k * n) ?s r"
      using d_streams_safe[of ?s src k n "ctx_vlblocks context" bsize le] assms(4-6) fit vl by auto
    have "k * n \<le> nat bsize" using kn nat_mono[OF kn] by (simp only: nat_int)
    then have "within dp (dp + nat bsize) dest d" if "within dp (dp + k * n) dest d" for d
      using within_hi[OF that] by simp
    then show ?thesis using r False n k assms(1) by (auto simp: decompress_streams_def Let_def d_safe_def mult.commute split: sum.splits)
  qed
qed

end

section \<open>Properties\<close>

text \<open>
  A context whose streams BloscLZ compresses and, read back from the header, decompresses: the format
  bits of the flags are 0, the level is 1 to 9, and neither blocks of variable length nor the training of
  a dictionary are on.
\<close>

definition blosclz_context :: "blosc2_context \<Rightarrow> bool" where
  "blosclz_context context \<longleftrightarrow> ctx_compcode context = BLOSC_BLOSCLZ \<and> ctx_compformat context = 0 \<and>
     1 \<le> ctx_clevel context \<and> ctx_clevel context \<le> 9 \<and> \<not> ctx_vlblocks context \<and> \<not> dict_training context"

lemma blosclz_context_codec:
  assumes "blosclz_context context"
  shows "block_encoder le ext context = Some (blosclz_compress le (nat (ctx_clevel context)))"
    and "block_decoder ext' context = Some blosclz_decompress"
    and "block_codec (blosclz_compress le (nat (ctx_clevel context))) blosclz_decompress"
    and "c_nstreams context leftoverblock = d_nstreams context leftoverblock"
proof -
  note c = assms[unfolded blosclz_context_def]
  show "block_encoder le ext context = Some (blosclz_compress le (nat (ctx_clevel context)))"
    "block_decoder ext' context = Some blosclz_decompress"
    "c_nstreams context leftoverblock = d_nstreams context leftoverblock"
    using c by (simp_all add: block_encoder_def block_decoder_def c_nstreams_def d_nstreams_def)
  show "block_codec (blosclz_compress le (nat (ctx_clevel context))) blosclz_decompress"
    using c by (intro blosclz_codec) linarith+
qed

text \<open>
  C22. The run detector of \<open>blosc_c\<close>, with its comparison of 8 bytes at a time and its loop
  over the remainder, never reads outside of the stream and answers whether all its bytes are equal.
\<close>

theorem blosc_c_get_run:
  assumes "0 < n" "ip + n \<le> length b"
  shows "block_get_run b ip (ip + n) = Some (\<forall>k < n. b ! (ip + k) = b ! ip)"
  using block_get_run_eq[OF assms] assms by (auto simp: list_eq_iff_nth_eq)

theorem blosc_c_get_run_witness:
  "block_get_run [0, 7, 7, 7, 7, 7, 7, 7, 7, 7, 7, 7] 1 (1 + 11) = Some (\<forall>k < 11. [0, 7, 7, 7, 7, 7, 7, 7, 7, 7, 7, 7] ! (1 + k) = ([0, 7, 7, 7, 7, 7, 7, 7, 7, 7, 7, 7] :: buf) ! 1)"
  by (rule blosc_c_get_run) simp_all

text \<open>
  C4. A filtered block that \<open>blosc_c\<close> cuts into streams and compresses with BloscLZ within a budget of
  \<open>destsize\<close> bytes (\<open>ntbytes\<close> of them used) is either given up with result 0, or stored in the \<open>r\<close> bytes
  at the output position, within the budget; the loop of \<open>blosc_d\<close> over the streams reads those bytes, wherever
  they were copied to and on whatever host, as the block. Neither writes outside of its segment of the
  destination.
\<close>

theorem streams_roundtrip:
  assumes "blosclz_context context" "d_nstreams context leftoverblock = int k" "0 < k" "0 < n" "n < 2 ^ 31 - 300"
    and "k * n \<le> length src" "nat ntbytes \<le> op" "0 \<le> ntbytes" "ntbytes \<le> destsize"
    and "op - nat ntbytes + nat destsize \<le> length dest" "destsize + int n < 2 ^ 31 - 16"
  shows "\<exists>r dest'. compress_streams le ext context False (int (k * n)) leftoverblock ntbytes destsize src op dest = Some (int r, dest') \<and>
    within op (op - nat ntbytes + nat destsize) dest dest' \<and>
    (r \<noteq> 0 \<longrightarrow> op + r \<le> op - nat ntbytes + nat destsize \<and>
      (\<forall>src' sp srcsize out dp. take r (drop sp src') = take r (drop op dest') \<and> int r \<le> srcsize \<and> dp + k * n \<le> length out \<longrightarrow>
        (\<exists>out'. decompress_streams le' ext' context (int (k * n)) leftoverblock src' sp srcsize out dp = Some (Inr (int (k * n), out')) \<and>
          within dp (dp + k * n) out out' \<and> take (k * n) (drop dp out') = take (k * n) src)))"
proof -
  note c = assms(1)[unfolded blosclz_context_def]
  have d: "block_codec (blosclz_compress le (nat (ctx_clevel context))) blosclz_decompress"
    by (rule blosclz_context_codec(3)[OF assms(1)])
  have k: "c_nstreams context leftoverblock = int k" using blosclz_context_codec(4)[OF assms(1)] assms(2) by simp
  have cc: "\<not> ctx_vlblocks context" "\<not> dict_training context" "0 < ctx_clevel context" using c by auto
  obtain r dest' where r: "compress_streams le ext context False (int (k * n)) leftoverblock ntbytes destsize src op dest = Some (int r, dest')"
    "within op (op - nat ntbytes + nat destsize) dest dest'"
    "r \<noteq> 0 \<longrightarrow> op + r \<le> op - nat ntbytes + nat destsize \<and>
      block_code blosclz_decompress k n (take (k * n) src) (take r (drop op dest'))"
    using block_codec.compress_streams_code[OF d blosclz_context_codec(1)[OF assms(1)] cc k assms(3-11)] by blast
  have "\<exists>out'. decompress_streams le' ext' context (int (k * n)) leftoverblock src' sp srcsize out dp = Some (Inr (int (k * n), out')) \<and>
      within dp (dp + k * n) out out' \<and> take (k * n) (drop dp out') = take (k * n) src"
    if "r \<noteq> 0" "take r (drop sp src') = take r (drop op dest')" "int r \<le> srcsize" "dp + k * n \<le> length out" for src' sp srcsize out dp
  proof (rule block_codec.decompress_streams_code[OF d blosclz_context_codec(2)[OF assms(1)] _ assms(2-4)])
    have "op + r \<le> length dest'" using that(1) r(2,3) assms(10) within_length[OF r(2)] by auto
    then show "take (length (take r (drop op dest'))) (drop sp src') = take r (drop op dest')"
      "int (length (take r (drop op dest'))) \<le> srcsize" using that by simp_all
  qed (use that r c assms in auto)
  with r show ?thesis by (intro exI[of _ r] exI[of _ dest']) blast
qed

text \<open>
  C20. Whatever the bytes of a compressed block are, the loop of \<open>blosc_d\<close> over the streams with BloscLZ
  reads only the \<open>srcsize\<close> bytes it is given and writes only the \<open>bsize\<close> bytes of the block; it
  returns an error code or the size of the streams. The source may have up to 8421504 bytes, beyond which
  the length of a match can overflow in \<open>blosclz_decompress\<close>.
\<close>

theorem decompress_streams_safe:
  assumes "ctx_compformat context = 0" "0 < d_nstreams context leftoverblock"
    and "0 < bsize" "0 \<le> srcsize" "srcsize \<le> 8421504" "int sp + srcsize \<le> int (length src)"
    and "int dp + bsize \<le> int (length dest)"
  shows "\<exists>r. decompress_streams le ext context bsize leftoverblock src sp srcsize dest dp = Some r \<and>
    (case r of Inl e \<Rightarrow> e < 0
     | Inr (ntbytes, dest') \<Rightarrow> ntbytes = bsize div d_nstreams context leftoverblock * d_nstreams context leftoverblock \<and>
         within dp (dp + nat bsize) dest dest')"
proof -
  have "block_decoder ext context = Some blosclz_decompress" using assms(1) by (simp add: block_decoder_def)
  from block_codec.decompress_streams_bounds[OF blosclz_codec[of 9] this assms(2-7)] show ?thesis by simp
qed

definition sample_streams :: blosc2_context where
  "sample_streams = \<lparr> ctx_header_flags = 5, ctx_blosc2_flags = 0, ctx_blosc2_flags2 = 0, ctx_sourcesize = 64,
     ctx_header_overhead = 32, ctx_nblocks = 1, ctx_leftover = 0, ctx_blocksize = 64, ctx_header_blocksize = 64,
     ctx_splitmode = 1, ctx_output_bytes = 0, ctx_srcsize = 64, ctx_destsize = 96, ctx_typesize = 4,
     ctx_special_type = 0, ctx_compcode = 0, ctx_compcode_meta = 0, ctx_clevel = 5, ctx_use_dict = False,
     ctx_has_cdict = False, ctx_filter_flags = 1, ctx_filters = [0, 0, 0, 0, 0, 1], ctx_filters_meta = replicate 6 0,
     ctx_do_compress = True, ctx_bstarts = None \<rparr>"

lemma sample_streams: "blosclz_context sample_streams" "d_nstreams sample_streams False = 4"
  by (simp_all add: sample_streams_def blosclz_context_def ctx_compformat_def ctx_vlblocks_def dict_training_def
      d_nstreams_def dont_split_def)

theorem streams_roundtrip_witness:
  "\<exists>r dest'. compress_streams True (\<lambda>_. None) sample_streams False (int (4 * 16)) False 36 90 (replicate 64 7) 36 (replicate 90 0) =
      Some (int r, dest') \<and> within 36 (36 - nat 36 + nat 90) (replicate 90 0) dest' \<and>
    (r \<noteq> 0 \<longrightarrow> 36 + r \<le> 36 - nat 36 + nat 90 \<and>
      (\<forall>src' sp srcsize out dp. take r (drop sp src') = take r (drop 36 dest') \<and> int r \<le> srcsize \<and> dp + 4 * 16 \<le> length out \<longrightarrow>
        (\<exists>out'. decompress_streams False (\<lambda>_ _. None) sample_streams (int (4 * 16)) False src' sp srcsize out dp = Some (Inr (int (4 * 16), out')) \<and>
          within dp (dp + 4 * 16) out out' \<and> take (4 * 16) (drop dp out') = take (4 * 16) (replicate 64 7))))"
  by (rule streams_roundtrip[OF sample_streams(1)]) (simp_all add: sample_streams(2))

theorem decompress_streams_safe_witness:
  "\<exists>r. decompress_streams True (\<lambda>_ _. None) sample_streams 16 False [252, 255, 255, 255, 1, 9, 9, 9, 9, 0, 0, 0] 0 12 (replicate 20 1) 2 = Some r \<and>
    (case r of Inl e \<Rightarrow> e < 0
     | Inr (ntbytes, dest') \<Rightarrow> ntbytes = 16 div d_nstreams sample_streams False * d_nstreams sample_streams False \<and>
         within 2 (2 + nat 16) (replicate 20 1) dest')"
  by (rule decompress_streams_safe) (simp_all add: sample_streams(2) sample_streams(1)[unfolded blosclz_context_def])

end
