(* ===== verification/Pipeline.thy ===== *)
theory Pipeline
  imports Chunk_Header Shuffle_Dispatch Delta Trunc_Prec
begin

text \<open>
  The filter pipeline of \<open>blosc/blosc2.c\<close>: \<open>pipeline_forward\<close>, \<open>pipeline_backward\<close> and the rotation of
  the three buffers they work with.

  The buffers are the elements of a list, and a pointer is the number of a buffer and a position in it, so
  that it shows which buffer a step overwrites. The registered filters are a parameter: a function of
  the filter's number that gives, when it is registered and could be loaded, its action on source and
  destination for the size and the meta byte. A prefilter and a postfilter are functions of input, output, size and
  offset. The model is of the serial mode: with several threads, the blocks other than the first wait until the
  first one is through its delta filter.
\<close>

section \<open>Buffers\<close>

type_synonym ptr = "nat \<times> nat"

definition deref :: "buf list \<Rightarrow> ptr \<Rightarrow> buf option" where
  "deref mem p = (if fst p < length mem then Some (drop (snd p) (mem ! fst p)) else None)"

definition put :: "buf list \<Rightarrow> ptr \<Rightarrow> buf \<Rightarrow> buf list" where
  "put mem p out = mem[fst p := take (snd p) (mem ! fst p) @ out]"

definition cycle_buffers :: "ptr \<times> ptr \<times> ptr \<Rightarrow> ptr \<times> ptr \<times> ptr" where
  "cycle_buffers = (\<lambda>(src, dest, tmp). (dest, tmp, src))"

type_synonym user_filter = "buf \<Rightarrow> buf \<Rightarrow> int \<Rightarrow> byte \<Rightarrow> (int \<times> buf) option"

text \<open>
  A filter called on two buffers. The filters demand that they are different; a call with one
  buffer in both places is left undefined.
\<close>

definition on_buffers :: "buf list \<Rightarrow> ptr \<Rightarrow> ptr \<Rightarrow> (buf \<Rightarrow> buf \<Rightarrow> (int \<times> buf) option) \<Rightarrow> (int \<times> buf list) option" where
  "on_buffers mem src dest f =
    (if fst src = fst dest then None
     else do {
       s \<leftarrow> deref mem src;
       d \<leftarrow> deref mem dest;
       (rc, out) \<leftarrow> f s d;
       Some (rc, put mem dest out) })"

section \<open>Forward\<close>

text \<open>
  The prefilter of the context and the members of its parameters that count here.
\<close>

record prefilter =
  pf_function :: "buf \<Rightarrow> buf \<Rightarrow> int \<Rightarrow> int \<Rightarrow> (int \<times> buf) option"
  pf_output_typesize :: int
  pf_output_is_disposable :: bool

definition disposable :: "prefilter option \<Rightarrow> bool" where
  "disposable pre = (case pre of None \<Rightarrow> False | Some pf \<Rightarrow> pf_output_is_disposable pf)"

text \<open>The call of the prefilter: whether it failed, and the buffers.\<close>

definition run_prefilter :: "prefilter \<Rightarrow> int \<Rightarrow> int \<Rightarrow> int \<Rightarrow> ptr \<Rightarrow> ptr \<Rightarrow> buf list \<Rightarrow> (int \<times> buf list) option" where
  "run_prefilter pf typesize bsize offset src dest mem =
    (if typesize = 0 then None
     else do {
       output_size \<leftarrow> i32 ((bsize sdiv typesize) * (if pf_output_typesize pf > 0 then pf_output_typesize pf else typesize));
       d \<leftarrow> deref mem dest;
       d \<leftarrow> (if pf_output_is_disposable pf then Some d else memset d 0 0 (nat output_size));
       on_buffers (put mem dest d) src dest (\<lambda>s d. pf_function pf s d output_size offset) })"

text \<open>
  The switch over the filters for filter \<open>i\<close>: the result of the filter, negative where the code
  returns \<open>NULL\<close>. \<open>chunk\<close> is the buffer of the source, the reference of the delta filter.
\<close>

definition filter_forward ::
    "bool \<Rightarrow> shuffle_implementation \<Rightarrow> (byte \<Rightarrow> user_filter option) \<Rightarrow> blosc2_context \<Rightarrow> nat \<Rightarrow> int \<Rightarrow> int \<Rightarrow> nat \<Rightarrow> ptr \<Rightarrow> ptr \<Rightarrow> buf list
      \<Rightarrow> (int \<times> buf list) option" where
  "filter_forward le host user context i bsize offset chunk src dest mem =
    (let f = ctx_filters context ! i; meta = ctx_filters_meta context ! i; typesize = ctx_typesize context in
     if f \<le> BLOSC2_DEFINED_FILTERS_STOP then
       if f = BLOSC_SHUFFLE then do {
         (rc, mem) \<leftarrow> on_buffers mem src dest (blosc2_shuffle host (if meta = 0 then typesize else uint meta) bsize);
         Some (0, mem) }
       else if f = BLOSC_BITSHUFFLE then on_buffers mem src dest (blosc2_bitshuffle host typesize bsize)
       else if f = BLOSC_DELTA then do {
         dref \<leftarrow> deref mem (if offset = 0 then src else (chunk, 0));
         on_buffers mem src dest (\<lambda>s d. do {
           out \<leftarrow> delta_encoder dref offset (nat bsize) typesize s d;
           Some (0, out) }) }
       else if f = BLOSC_TRUNC_PREC then on_buffers mem src dest (truncate_precision le meta typesize (nat bsize))
       else if f \<noteq> BLOSC_NOFILTER then Some (- 1, mem)
       else Some (0, mem)
     else case user f of None \<Rightarrow> Some (- 1, mem)
       | Some forward \<Rightarrow> do {
           (rc, mem) \<leftarrow> on_buffers mem src dest (\<lambda>s d. forward s d bsize meta);
           Some (if rc \<noteq> BLOSC2_ERROR_SUCCESS then - 1 else 0, mem) })"

text \<open>The loop over the filters; the pointer is \<open>None\<close> for \<open>NULL\<close>.\<close>

fun forward_loop ::
    "bool \<Rightarrow> shuffle_implementation \<Rightarrow> (byte \<Rightarrow> user_filter option) \<Rightarrow> blosc2_context \<Rightarrow> int \<Rightarrow> int \<Rightarrow> nat \<Rightarrow> nat list \<Rightarrow>
      ptr \<times> ptr \<times> ptr \<Rightarrow> buf list \<Rightarrow> (ptr option \<times> buf list) option" where
  "forward_loop le host user context bsize offset chunk [] ps mem = Some (Some (fst ps), mem)"
| "forward_loop le host user context bsize offset chunk (i # rest) ps mem = do {
     (rc, mem) \<leftarrow> filter_forward le host user context i bsize offset chunk (fst ps) (fst (snd ps)) mem;
     if rc < 0 then Some (None, mem)
     else forward_loop le host user context bsize offset chunk rest
       (if ctx_filters context ! i \<noteq> BLOSC_NOFILTER then cycle_buffers ps else ps) mem }"

definition pipeline_forward ::
    "bool \<Rightarrow> shuffle_implementation \<Rightarrow> (byte \<Rightarrow> user_filter option) \<Rightarrow> prefilter option \<Rightarrow> blosc2_context \<Rightarrow> int \<Rightarrow>
      nat \<Rightarrow> int \<Rightarrow> ptr \<Rightarrow> ptr \<Rightarrow> buf list \<Rightarrow> (ptr option \<times> buf list) option" where
  "pipeline_forward le host user pre context bsize chunk offset dest tmp mem =
    (let src = (chunk, nat offset); filters = [0..<BLOSC2_MAX_FILTERS] in
     case pre of None \<Rightarrow> forward_loop le host user context bsize offset chunk filters (src, dest, tmp) mem
     | Some pf \<Rightarrow> do {
         (rc, mem) \<leftarrow> run_prefilter pf (ctx_typesize context) bsize offset src dest mem;
         if rc \<noteq> 0 then Some (if pf_output_is_disposable pf then Some dest else None, mem)
         else if ctx_header_flags context AND BLOSC_MEMCPYED \<noteq> 0 then Some (Some dest, mem)
         else forward_loop le host user context bsize offset chunk filters (cycle_buffers (src, dest, tmp)) mem })"

section \<open>Backward\<close>

text \<open>
  The delta filter in place: \<open>chunk\<close> is the buffer of the destination, whose start is the reference.
  The decoder works on one memory, so two buffers are put one behind the other.
\<close>

definition delta_in_place :: "int \<Rightarrow> int \<Rightarrow> int \<Rightarrow> nat \<Rightarrow> ptr \<Rightarrow> buf list \<Rightarrow> buf list option" where
  "delta_in_place offset bsize typesize chunk dest mem =
    (if chunk < length mem \<and> fst dest < length mem then
       if fst dest = chunk then do {
         m \<leftarrow> delta_decoder 0 offset (nat bsize) typesize (snd dest) (mem ! chunk);
         Some (mem[chunk := m]) }
       else do {
         let k = length (mem ! chunk);
         m \<leftarrow> delta_decoder 0 offset (nat bsize) typesize (k + snd dest) (mem ! chunk @ mem ! fst dest);
         Some (mem[fst dest := drop k m]) }
     else None)"

text \<open>\<open>Inl\<close> returns from the function, \<open>Inr\<close> goes on with \<open>errcode\<close>.\<close>

definition filter_backward ::
    "shuffle_implementation \<Rightarrow> (byte \<Rightarrow> user_filter option) \<Rightarrow> blosc2_context \<Rightarrow> byte \<Rightarrow> nat \<Rightarrow> int \<Rightarrow> int \<Rightarrow> nat \<Rightarrow> int \<Rightarrow>
      ptr \<Rightarrow> ptr \<Rightarrow> buf list \<Rightarrow> ((int + int) \<times> buf list) option" where
  "filter_backward host user context format_version i bsize offset chunk errcode src dest mem =
    (let f = ctx_filters context ! i; meta = ctx_filters_meta context ! i; typesize = ctx_typesize context in
     if f \<le> BLOSC2_DEFINED_FILTERS_STOP then
       if f = BLOSC_SHUFFLE then do {
         (rc, mem) \<leftarrow> on_buffers mem src dest (blosc2_unshuffle host (if meta = 0 then typesize else uint meta) bsize);
         Some (Inr errcode, mem) }
       else if f = BLOSC_BITSHUFFLE then do {
         (rc, mem) \<leftarrow> on_buffers mem src dest (\<lambda>s d. bitunshuffle host typesize bsize s d format_version);
         Some (if rc < 0 then Inl BLOSC2_ERROR_FILTER_PIPELINE else Inr errcode, mem) }
       else if f = BLOSC_DELTA then do {
         mem \<leftarrow> delta_in_place offset bsize typesize chunk dest mem;
         Some (Inr errcode, mem) }
       else if f = BLOSC_TRUNC_PREC \<or> f = BLOSC_NOFILTER then Some (Inr errcode, mem)
       else Some (Inr (- 1), mem)
     else case user f of None \<Rightarrow> Some (Inl BLOSC2_ERROR_FILTER_PIPELINE, mem)
       | Some backward \<Rightarrow> do {
           (rc, mem) \<leftarrow> on_buffers mem src dest (\<lambda>s d. backward s d bsize meta);
           Some (if rc \<noteq> BLOSC2_ERROR_SUCCESS then Inl rc else Inr errcode, mem) })"

text \<open>The destination of filter \<open>i\<close>: the chunk itself for the last filters, and for those around a delta.\<close>

definition backward_dest :: "blosc2_context \<Rightarrow> bool \<Rightarrow> nat \<Rightarrow> int \<Rightarrow> ptr \<Rightarrow> ptr \<Rightarrow> ptr \<Rightarrow> ptr" where
  "backward_dest context post i last_filter_index out src dest =
    (let f = ctx_filters context ! i;
         last_copy_filter = (last_filter_index = int i \<or> f = BLOSC_DELTA \<or> next_filter (ctx_filters context) i False = BLOSC_DELTA)
     in if last_copy_filter \<and> \<not> post \<and> (f = BLOSC_DELTA \<or> src \<noteq> out) then out else dest)"

text \<open>The loop from filter \<open>n - 1\<close> down; \<open>Inr\<close> at its end with \<open>errcode\<close> and \<open>_src\<close>.\<close>

fun backward_loop ::
    "shuffle_implementation \<Rightarrow> (byte \<Rightarrow> user_filter option) \<Rightarrow> blosc2_context \<Rightarrow> byte \<Rightarrow> bool \<Rightarrow> int \<Rightarrow> int \<Rightarrow> nat \<Rightarrow> int \<Rightarrow> nat \<Rightarrow>
      int \<Rightarrow> ptr \<times> ptr \<times> ptr \<Rightarrow> buf list \<Rightarrow> ((int + int \<times> ptr) \<times> buf list) option" where
  "backward_loop host user context format_version post bsize offset chunk last_filter_index 0 errcode ps mem =
     Some (Inr (errcode, fst ps), mem)"
| "backward_loop host user context format_version post bsize offset chunk last_filter_index (Suc i) errcode ps mem = do {
     let (src, dest, tmp) = ps;
     let dest = backward_dest context post i last_filter_index (chunk, nat offset) src dest;
     (r, mem) \<leftarrow> filter_backward host user context format_version i bsize offset chunk errcode src dest mem;
     case r of Inl e \<Rightarrow> Some (Inl e, mem)
     | Inr errcode \<Rightarrow>
         let f = ctx_filters context ! i;
             ps = (if f \<noteq> BLOSC_NOFILTER \<and> f \<noteq> BLOSC_TRUNC_PREC then cycle_buffers (src, dest, tmp) else (src, dest, tmp))
         in if last_filter_index = int i then Some (Inr (errcode, fst ps), mem)
            else backward_loop host user context format_version post bsize offset chunk last_filter_index i errcode ps mem }"

text \<open>The postfilter: a function of input, output, size and offset.\<close>

type_synonym postfilter = "buf \<Rightarrow> buf \<Rightarrow> int \<Rightarrow> int \<Rightarrow> (int \<times> buf) option"

definition run_postfilter :: "postfilter \<Rightarrow> int \<Rightarrow> int \<Rightarrow> ptr \<Rightarrow> ptr \<Rightarrow> buf list \<Rightarrow> (int \<times> buf list) option" where
  "run_postfilter pf bsize offset src out mem = do {
     (rc, mem) \<leftarrow> on_buffers mem src out (\<lambda>s d. pf s d bsize offset);
     Some (if rc \<noteq> 0 then BLOSC2_ERROR_POSTFILTER else 0, mem) }"

definition pipeline_backward ::
    "shuffle_implementation \<Rightarrow> (byte \<Rightarrow> user_filter option) \<Rightarrow> postfilter option \<Rightarrow> blosc2_context \<Rightarrow> byte \<Rightarrow> int \<Rightarrow>
      nat \<Rightarrow> int \<Rightarrow> ptr \<Rightarrow> ptr \<Rightarrow> ptr \<Rightarrow> int \<Rightarrow> int \<Rightarrow> buf list \<Rightarrow> (int \<times> buf list) option" where
  "pipeline_backward host user post context format_version bsize chunk offset src tmp tmp2 last_filter_index nblock mem = do {
     let out = (chunk, nat offset);
     (r, mem) \<leftarrow> backward_loop host user context format_version (post \<noteq> None) bsize offset chunk last_filter_index
       BLOSC2_MAX_FILTERS 0 (src, tmp, tmp2) mem;
     case r of Inl e \<Rightarrow> Some (e, mem)
     | Inr (errcode, src) \<Rightarrow> (case post of
         None \<Rightarrow>
           if src \<noteq> out then do {
             s \<leftarrow> deref mem src;
             d \<leftarrow> deref mem out;
             d \<leftarrow> memcpy d 0 s 0 (nat bsize);
             Some (errcode, put mem out d) }
           else Some (errcode, mem)
       | Some pf \<Rightarrow> do {
           (rc, mem) \<leftarrow> run_postfilter pf bsize (nblock * ctx_blocksize context) src out mem;
           Some (if rc < 0 then rc else errcode, mem) }) }"

section \<open>The interface of an invertible filter\<close>

text \<open>
  On a block of \<open>n\<close> bytes \<open>x\<close>, forward gives \<open>z\<close> and backward of \<open>z\<close> gives \<open>x\<close>, from and to any two buffers,
  without an error and without a write behind the block.
\<close>

definition filter_code ::
    "(buf \<Rightarrow> buf \<Rightarrow> (int \<times> buf) option) \<Rightarrow> (buf \<Rightarrow> buf \<Rightarrow> (int \<times> buf) option) \<Rightarrow> nat \<Rightarrow> buf \<Rightarrow> buf \<Rightarrow> bool" where
  "filter_code forward backward n x z \<longleftrightarrow> length x = n \<and> length z = n \<and>
    (\<forall>src dest. n \<le> length src \<and> n \<le> length dest \<and> take n src = x \<longrightarrow> (\<exists>r. 0 \<le> r \<and> forward src dest = Some (r, z @ drop n dest))) \<and>
    (\<forall>src dest. n \<le> length src \<and> n \<le> length dest \<and> take n src = z \<longrightarrow> (\<exists>r. 0 \<le> r \<and> backward src dest = Some (r, x @ drop n dest)))"

locale block_filter =
  fixes forward backward :: "buf \<Rightarrow> buf \<Rightarrow> (int \<times> buf) option" and n :: nat
  assumes inverse: "length x = n \<Longrightarrow> \<exists>z. filter_code forward backward n x z"

lemma bitshuffle_byte_cong:
  assumes "sz mod 8 = 0" "k < sz * e" "\<And>i. i < sz * e \<Longrightarrow> a ! i = b ! i"
  shows "bitshuffle_byte a sz e k = bitshuffle_byte b sz e k"
proof -
  obtain nr where nr: "sz = 8 * nr" using assms(1) by auto
  have pos: "0 < nr" using assms(2) nr by (cases nr) auto
  have q: "k div nr div 8 < e"
  proof -
    have "k div nr < 8 * e" using assms(2) nr by (intro less_mult_imp_div_less) (simp add: mult.commute mult.left_commute)
    then show ?thesis by (subst less_mult_imp_div_less) simp_all
  qed
  have "(8 * (k mod nr) + c) * e + k div nr div 8 < sz * e" if "c < 8" for c
  proof (rule index_lt[OF q])
    have "k mod nr < nr" using pos by simp
    then show "8 * (k mod nr) + c < sz" using that nr by linarith
  qed
  with assms(3) nr show ?thesis by (auto simp: bitshuffle_byte_def Let_def intro!: arg_cong2[of _ _ _ _ bitcol])
qed

context shuffle_host
begin

lemma shuffle_block_filter:
  assumes "1 \<le> t" "t \<le> 256"
  shows "block_filter (blosc2_shuffle host t (int n)) (blosc2_unshuffle host t (int n)) n"
proof
  fix x :: buf assume x: "length x = n"
  let ?z = "map (\<lambda>k. x ! shuffle_ix (nat t) n k) [0..<n]"
  have fwd: "blosc2_shuffle host t (int n) src dest = Some (int n, ?z @ drop n dest)"
    if "n \<le> length src" "n \<le> length dest" "take n src = x" for src dest
  proof -
    have "src ! shuffle_ix (nat t) n k = x ! shuffle_ix (nat t) n k" if "k < n" for k
      using shuffle_ix_less[of "nat t" k n] that assms \<open>take n src = x\<close> by auto
    then have "map (\<lambda>k. src ! shuffle_ix (nat t) n k) [0..<n] = ?z" by simp
    with that assms show ?thesis by (simp add: blosc2_shuffle_def host_shuffle)
  qed
  have "blosc2_unshuffle host t (int n) src dest = Some (int n, x @ drop n dest)"
    if "n \<le> length src" "n \<le> length dest" "take n src = ?z" for src dest
  proof -
    have "?z @ drop n src = src" using append_take_drop_id[of n src] that by simp
    with shuffle_roundtrip[OF assms, of "int n" x src dest] fwd[of x src] x that show ?thesis by simp
  qed
  with fwd x show "\<exists>z. filter_code (blosc2_shuffle host t (int n)) (blosc2_unshuffle host t (int n)) n x z"
    unfolding filter_code_def by (intro exI[of _ ?z]) auto
qed

lemma bitshuffle_block_filter:
  assumes "1 \<le> t" "t \<le> 256" "v \<noteq> BLOSC1_VERSION_FORMAT"
  shows "block_filter (blosc2_bitshuffle host t (int n)) (\<lambda>s d. bitunshuffle host t (int n) s d v) n"
proof
  fix x :: buf assume x: "length x = n"
  let ?sz = "n div nat t - n div nat t mod 8"
  let ?z = "map (\<lambda>k. if k < ?sz * nat t then bitshuffle_byte x ?sz (nat t) k else x ! k) [0..<n]"
  have m: "?sz mod 8 = 0" by (simp add: minus_mod_eq_mult_div)
  have "?sz * nat t \<le> n div nat t * nat t" by (intro mult_le_mono1) simp
  also have "\<dots> \<le> n" by simp
  finally have le: "?sz * nat t \<le> n" .
  have fwd: "blosc2_bitshuffle host t (int n) src dest = Some (int n, ?z @ drop n dest)"
    if "n \<le> length src" "n \<le> length dest" "take n src = x" for src dest
  proof -
    have "src ! i = x ! i" if "i < n" for i using that \<open>take n src = x\<close> by auto
    then have "(if k < ?sz * nat t then bitshuffle_byte src ?sz (nat t) k else src ! k) =
        (if k < ?sz * nat t then bitshuffle_byte x ?sz (nat t) k else x ! k)" if "k < n" for k
      using that le bitshuffle_byte_cong[OF m, of k "nat t" src x] by auto
    then have "map (\<lambda>k. if k < ?sz * nat t then bitshuffle_byte src ?sz (nat t) k else src ! k) [0..<n] = ?z" by simp
    from bitshuffle_eq(1)[OF assms(1,2), of "int n" src dest, unfolded nat_int this] that show ?thesis by simp
  qed
  have "bitunshuffle host t (int n) src dest v = Some (int n, x @ drop n dest)"
    if "n \<le> length src" "n \<le> length dest" "take n src = ?z" for src dest
  proof -
    have "?z @ drop n src = src" using append_take_drop_id[of n src] that by simp
    with bitshuffle_roundtrip[OF assms(1,2), of "int n" x src dest v] fwd[of x src] x that assms(3) show ?thesis by simp
  qed
  with fwd x show "\<exists>z. filter_code (blosc2_bitshuffle host t (int n)) (\<lambda>s d. bitunshuffle host t (int n) s d v) n x z"
    unfolding filter_code_def by (intro exI[of _ ?z]) auto
qed

end

interpretation shuffle4: block_filter "blosc2_shuffle (get_shuffle_implementation le calloc_ok) 4 (int n)"
  "blosc2_unshuffle (get_shuffle_implementation le calloc_ok) 4 (int n)" n for le n
  by (rule generic_host.shuffle_block_filter) simp_all

section \<open>Blocks in buffers\<close>

definition view :: "buf list \<Rightarrow> ptr \<Rightarrow> buf" where
  "view mem p = drop (snd p) (mem ! fst p)"

definition ptr_ok :: "buf list \<Rightarrow> nat \<Rightarrow> ptr \<Rightarrow> bool" where
  "ptr_ok mem n p \<longleftrightarrow> fst p < length mem \<and> snd p + n \<le> length (mem ! fst p)"

definition put_block :: "buf list \<Rightarrow> ptr \<Rightarrow> nat \<Rightarrow> buf \<Rightarrow> buf list" where
  "put_block mem p n z = put mem p (z @ drop n (view mem p))"

lemma deref_Some: "ptr_ok mem n p \<Longrightarrow> deref mem p = Some (view mem p)"
  by (simp add: deref_def view_def ptr_ok_def)

lemma view_length: "ptr_ok mem n p \<Longrightarrow> n \<le> length (view mem p)"
  by (simp add: view_def ptr_ok_def) linarith

lemma put_block_length [simp]: "length (put_block mem p n z) = length mem"
  by (simp add: put_block_def put_def)

lemma put_block_other: "b \<noteq> fst p \<Longrightarrow> put_block mem p n z ! b = mem ! b"
  by (simp add: put_block_def put_def)

lemma put_block_at:
  "ptr_ok mem n p \<Longrightarrow> put_block mem p n z ! fst p = take (snd p) (mem ! fst p) @ z @ drop (snd p + n) (mem ! fst p)"
  by (simp add: put_block_def put_def ptr_ok_def view_def add.commute)

lemma put_block_buffer_length:
  "ptr_ok mem n p \<Longrightarrow> length z = n \<Longrightarrow> length (put_block mem p n z ! b) = length (mem ! b)"
  by (cases "b = fst p") (auto simp: put_block_at put_block_other ptr_ok_def)

lemma put_block_ptr_ok: "ptr_ok mem n p \<Longrightarrow> length z = n \<Longrightarrow> ptr_ok (put_block mem p n z) m q \<longleftrightarrow> ptr_ok mem m q"
  by (simp add: ptr_ok_def[of _ m] put_block_buffer_length)

lemma view_put_block: "ptr_ok mem n p \<Longrightarrow> length z = n \<Longrightarrow> take n (view (put_block mem p n z) p) = z"
  by (simp add: view_def put_block_at ptr_ok_def)

lemma view_put_block_other: "fst q \<noteq> fst p \<Longrightarrow> view (put_block mem p n z) q = view mem q"
  by (simp add: view_def put_block_other)

lemma on_buffers_Some:
  assumes "ptr_ok mem n src" "ptr_ok mem n dest" "fst src \<noteq> fst dest"
    and "f (view mem src) (view mem dest) = Some (r, z @ drop n (view mem dest))"
  shows "on_buffers mem src dest f = Some (r, put_block mem dest n z)"
  using assms by (simp add: on_buffers_def deref_Some put_block_def)

section \<open>Pipelines of invertible filters\<close>

text \<open>What filter \<open>i\<close> does to source and destination, in both directions.\<close>

definition user_action :: "user_filter \<Rightarrow> int \<Rightarrow> byte \<Rightarrow> buf \<Rightarrow> buf \<Rightarrow> (int \<times> buf) option" where
  "user_action f bsize meta s d = do {
     (rc, out) \<leftarrow> f s d bsize meta;
     Some (if rc \<noteq> BLOSC2_ERROR_SUCCESS then - 1 else 0, out) }"

definition shuffle_typesize :: "blosc2_context \<Rightarrow> nat \<Rightarrow> int" where
  "shuffle_typesize context i =
    (if ctx_filters_meta context ! i = 0 then ctx_typesize context else uint (ctx_filters_meta context ! i))"

definition forward_action ::
    "shuffle_implementation \<Rightarrow> (byte \<Rightarrow> user_filter option) \<Rightarrow> blosc2_context \<Rightarrow> int \<Rightarrow> nat \<Rightarrow> buf \<Rightarrow> buf \<Rightarrow> (int \<times> buf) option" where
  "forward_action host user context bsize i =
    (if ctx_filters context ! i = BLOSC_SHUFFLE then blosc2_shuffle host (shuffle_typesize context i) bsize
     else if ctx_filters context ! i = BLOSC_BITSHUFFLE then blosc2_bitshuffle host (ctx_typesize context) bsize
     else case user (ctx_filters context ! i) of None \<Rightarrow> (\<lambda>_ _. None)
       | Some f \<Rightarrow> user_action f bsize (ctx_filters_meta context ! i))"

definition backward_action ::
    "shuffle_implementation \<Rightarrow> (byte \<Rightarrow> user_filter option) \<Rightarrow> blosc2_context \<Rightarrow> byte \<Rightarrow> int \<Rightarrow> nat \<Rightarrow> buf \<Rightarrow> buf \<Rightarrow> (int \<times> buf) option" where
  "backward_action host user context v bsize i =
    (if ctx_filters context ! i = BLOSC_SHUFFLE then blosc2_unshuffle host (shuffle_typesize context i) bsize
     else if ctx_filters context ! i = BLOSC_BITSHUFFLE then (\<lambda>s d. bitunshuffle host (ctx_typesize context) bsize s d v)
     else case user (ctx_filters context ! i) of None \<Rightarrow> (\<lambda>_ _. None)
       | Some f \<Rightarrow> user_action f bsize (ctx_filters_meta context ! i))"

text \<open>
  A filter that is undone: none, one of the two shuffles, or a registered one whose actions are inverse.
\<close>

definition invertible_filter ::
    "(byte \<Rightarrow> user_filter option) \<Rightarrow> (byte \<Rightarrow> user_filter option) \<Rightarrow> blosc2_context \<Rightarrow> nat \<Rightarrow> nat \<Rightarrow> bool" where
  "invertible_filter user user' context n i \<longleftrightarrow>
    ctx_filters context ! i \<in> {BLOSC_NOFILTER, BLOSC_SHUFFLE, BLOSC_BITSHUFFLE} \<or>
    ctx_filters context ! i > BLOSC2_DEFINED_FILTERS_STOP \<and>
    (\<exists>f g. user (ctx_filters context ! i) = Some f \<and> user' (ctx_filters context ! i) = Some g \<and>
      block_filter (user_action f (int n) (ctx_filters_meta context ! i)) (user_action g (int n) (ctx_filters_meta context ! i)) n)"

text \<open>The bytes \<open>x\<close> become \<open>z\<close> by filter \<open>i\<close>, and by the filters of a list.\<close>

definition filter_codes ::
    "shuffle_implementation \<Rightarrow> (byte \<Rightarrow> user_filter option) \<Rightarrow> (byte \<Rightarrow> user_filter option) \<Rightarrow> blosc2_context \<Rightarrow> byte \<Rightarrow> nat \<Rightarrow> nat \<Rightarrow> buf \<Rightarrow> buf \<Rightarrow> bool" where
  "filter_codes host user user' context v n i x z \<longleftrightarrow>
    (if ctx_filters context ! i = BLOSC_NOFILTER then length x = n \<and> z = x
     else filter_code (forward_action host user context (int n) i) (backward_action host user' context v (int n) i) n x z)"

fun pipeline_codes ::
    "shuffle_implementation \<Rightarrow> (byte \<Rightarrow> user_filter option) \<Rightarrow> (byte \<Rightarrow> user_filter option) \<Rightarrow> blosc2_context \<Rightarrow> byte \<Rightarrow> nat \<Rightarrow> nat list \<Rightarrow> buf \<Rightarrow> buf \<Rightarrow> bool" where
  "pipeline_codes host user user' context v n [] x z \<longleftrightarrow> length x = n \<and> z = x"
| "pipeline_codes host user user' context v n (i # rest) x z \<longleftrightarrow>
    (\<exists>y. filter_codes host user user' context v n i x y \<and> pipeline_codes host user user' context v n rest y z)"

lemma filter_codes_length: "filter_codes host user user' context v n i x z \<Longrightarrow> length x = n \<and> length z = n"
  by (auto simp: filter_codes_def filter_code_def split: if_splits)

lemma pipeline_codes_length: "pipeline_codes host user user' context v n is x z \<Longrightarrow> length x = n \<and> length z = n"
  by (induction "is" arbitrary: x) (auto dest: filter_codes_length)

lemma pipeline_codes_append:
  "pipeline_codes host user user' context v n (is @ js) x z \<longleftrightarrow>
    (\<exists>y. pipeline_codes host user user' context v n is x y \<and> pipeline_codes host user user' context v n js y z)"
  by (induction "is" arbitrary: x) (auto dest: pipeline_codes_length)

context shuffle_host
begin

lemma filter_codes_ex:
  assumes "1 \<le> ctx_typesize context" "ctx_typesize context \<le> 255" "v \<noteq> BLOSC1_VERSION_FORMAT"
    and "invertible_filter user user' context n i" "length x = n"
  shows "\<exists>z. filter_codes host user user' context v n i x z"
proof -
  let ?f = "ctx_filters context ! i"
  have "uint (ctx_filters_meta context ! i) < 256" "ctx_filters_meta context ! i \<noteq> 0 \<Longrightarrow> 0 < uint (ctx_filters_meta context ! i)"
    using uint_lt2p[of "ctx_filters_meta context ! i"] by (simp, metis order_le_less uint_ge_0 unsigned_eq_0_iff)
  then have t: "1 \<le> shuffle_typesize context i" "shuffle_typesize context i \<le> 256"
    using assms(1,2) by (auto simp: shuffle_typesize_def)
  consider "?f = BLOSC_NOFILTER" | "?f = BLOSC_SHUFFLE" | "?f = BLOSC_BITSHUFFLE"
    | f g where "?f > BLOSC2_DEFINED_FILTERS_STOP" "user ?f = Some f" "user' ?f = Some g"
      "block_filter (user_action f (int n) (ctx_filters_meta context ! i)) (user_action g (int n) (ctx_filters_meta context ! i)) n"
    using assms(4) by (auto simp: invertible_filter_def)
  then show ?thesis
  proof cases
    case 1
    with assms(5) show ?thesis by (simp add: filter_codes_def)
  next
    case 2
    with block_filter.inverse[OF shuffle_block_filter[OF t] assms(5)] show ?thesis
      by (simp add: filter_codes_def forward_action_def backward_action_def)
  next
    case 3
    have "ctx_typesize context \<le> 256" using assms(2) by simp
    from block_filter.inverse[OF bitshuffle_block_filter[OF assms(1) this assms(3)] assms(5)] 3 show ?thesis
      by (simp add: filter_codes_def forward_action_def backward_action_def)
  next
    case 4
    have "?f \<noteq> 0" "?f \<noteq> 1" "?f \<noteq> 2" using 4(1) by auto
    with block_filter.inverse[OF 4(4) assms(5)] 4(2,3) show ?thesis
      by (simp add: filter_codes_def forward_action_def backward_action_def)
  qed
qed

end

section \<open>The forward pipeline\<close>

lemma filter_forward_codes:
  assumes "filter_codes host user user' context v n i x z" "invertible_filter user user' context n i"
    and "ctx_filters context ! i \<noteq> BLOSC_NOFILTER"
    and "ptr_ok mem n src" "ptr_ok mem n dest" "fst src \<noteq> fst dest" "take n (view mem src) = x"
  shows "\<exists>rc. 0 \<le> rc \<and> filter_forward le host user context i (int n) offset chunk src dest mem = Some (rc, put_block mem dest n z)"
proof -
  let ?f = "ctx_filters context ! i"
  have "filter_code (forward_action host user context (int n) i) (backward_action host user' context v (int n) i) n x z"
    using assms(1,3) by (simp add: filter_codes_def)
  then obtain r where r: "0 \<le> r" "forward_action host user context (int n) i (view mem src) (view mem dest) =
      Some (r, z @ drop n (view mem dest))"
    using assms(7) view_length[OF assms(4)] view_length[OF assms(5)] unfolding filter_code_def by blast
  consider "?f = BLOSC_SHUFFLE" | "?f = BLOSC_BITSHUFFLE" | f where "?f > BLOSC2_DEFINED_FILTERS_STOP" "user ?f = Some f"
    using assms(2,3) by (auto simp: invertible_filter_def)
  then show ?thesis
  proof cases
    case 1
    with r(2) have "on_buffers mem src dest (blosc2_shuffle host (shuffle_typesize context i) (int n)) =
        Some (r, put_block mem dest n z)"
      by (intro on_buffers_Some[OF assms(4-6)]) (simp add: forward_action_def)
    with 1 show ?thesis by (auto simp: filter_forward_def shuffle_typesize_def Let_def split: if_splits)
  next
    case 2
    with r(2) have "on_buffers mem src dest (blosc2_bitshuffle host (ctx_typesize context) (int n)) =
        Some (r, put_block mem dest n z)"
      by (intro on_buffers_Some[OF assms(4-6)]) (simp add: forward_action_def)
    with 2 r(1) show ?thesis by (auto simp: filter_forward_def Let_def)
  next
    case 3
    have nf: "?f \<noteq> 0" "?f \<noteq> 1" "?f \<noteq> 2" "\<not> ?f \<le> BLOSC2_DEFINED_FILTERS_STOP" using 3(1) by auto
    with r(2) 3(2) have a: "user_action f (int n) (ctx_filters_meta context ! i) (view mem src) (view mem dest) =
        Some (r, z @ drop n (view mem dest))" by (simp add: forward_action_def)
    then obtain rc out where f: "f (view mem src) (view mem dest) (int n) (ctx_filters_meta context ! i) = Some (rc, out)"
      by (auto simp: user_action_def split: option.splits Option.bind_splits)
    with a r(1) have "rc = 0" "out = z @ drop n (view mem dest)" by (auto simp: user_action_def split: if_splits)
    with f have "on_buffers mem src dest (\<lambda>s d. f s d (int n) (ctx_filters_meta context ! i)) = Some (0, put_block mem dest n z)"
      by (intro on_buffers_Some[OF assms(4-6)]) simp
    with nf 3(2) show ?thesis by (simp add: filter_forward_def Let_def)
  qed
qed

text \<open>The number of filters of a list that do something.\<close>

definition active_filters :: "blosc2_context \<Rightarrow> nat list \<Rightarrow> nat" where
  "active_filters context is = length (filter (\<lambda>i. ctx_filters context ! i \<noteq> BLOSC_NOFILTER) is)"

text \<open>
  The loop from source \<open>s\<close>, destination \<open>d\<close> and temporary \<open>t\<close>: the first filter writes \<open>d\<close>, the second
  \<open>t\<close>, and only from the third on the source is written. The result of \<open>k\<close> filters is in the buffer the last
  of them wrote, and nothing around the three blocks changes.
\<close>

definition outside_kept :: "nat \<Rightarrow> ptr \<Rightarrow> buf list \<Rightarrow> buf list \<Rightarrow> bool" where
  "outside_kept n q mem mem' \<longleftrightarrow> take (snd q) (mem' ! fst q) = take (snd q) (mem ! fst q) \<and>
    drop (snd q + n) (mem' ! fst q) = drop (snd q + n) (mem ! fst q)"

lemma outside_kept_refl [simp]: "outside_kept n q mem mem"
  by (simp add: outside_kept_def)

lemma outside_kept_trans: "outside_kept n q mem mem' \<Longrightarrow> outside_kept n q mem' mem'' \<Longrightarrow> outside_kept n q mem mem''"
  by (simp add: outside_kept_def)

lemma outside_kept_put_block: "ptr_ok mem n p \<Longrightarrow> length z = n \<Longrightarrow> fst q = fst p \<longrightarrow> q = p \<Longrightarrow> outside_kept n q mem (put_block mem p n z)"
  by (cases "fst q = fst p") (auto simp: outside_kept_def put_block_at put_block_other ptr_ok_def)

lemma outside_kept_split:
  assumes "outside_kept n q mem mem'" "ptr_ok mem' n q"
  shows "mem' ! fst q = take (snd q) (mem ! fst q) @ take n (view mem' q) @ drop (snd q + n) (mem ! fst q)"
proof -
  have "mem' ! fst q = take (snd q) (mem' ! fst q) @ take n (drop (snd q) (mem' ! fst q)) @ drop (snd q + n) (mem' ! fst q)"
    by (metis add.commute append_take_drop_id drop_drop)
  with assms(1) show ?thesis unfolding outside_kept_def view_def by metis
qed

definition forward_result :: "nat \<Rightarrow> ptr \<times> ptr \<times> ptr \<Rightarrow> ptr" where
  "forward_result k = (\<lambda>(s, d, t). if k mod 3 = 0 then s else if k mod 3 = 1 then d else t)"

lemma forward_result_Suc [simp]: "forward_result (Suc k) (s, d, t) = forward_result k (d, t, s)"
  by (simp add: forward_result_def mod_Suc) presburger

lemma forward_result_0 [simp]: "forward_result 0 (s, d, t) = s"
  by (simp add: forward_result_def)

definition forward_keeps :: "nat \<Rightarrow> ptr \<Rightarrow> ptr \<Rightarrow> ptr \<Rightarrow> buf list \<Rightarrow> buf list \<Rightarrow> bool" where
  "forward_keeps k s d t mem mem' \<longleftrightarrow> length mem' = length mem \<and> (\<forall>b. length (mem' ! b) = length (mem ! b)) \<and>
    (\<forall>b. b \<notin> {fst s, fst d, fst t} \<longrightarrow> mem' ! b = mem ! b) \<and>
    (k \<le> 2 \<longrightarrow> mem' ! fst s = mem ! fst s) \<and> (k \<le> 1 \<longrightarrow> mem' ! fst t = mem ! fst t) \<and>
    (k = 0 \<longrightarrow> mem' ! fst d = mem ! fst d)"

lemma ptr_ok_same_lengths:
  "length mem' = length mem \<Longrightarrow> (\<forall>b. length (mem' ! b) = length (mem ! b)) \<Longrightarrow> ptr_ok mem' n p = ptr_ok mem n p"
  by (simp add: ptr_ok_def)

context shuffle_host
begin

lemma forward_loop_codes:
  assumes "1 \<le> ctx_typesize context" "ctx_typesize context \<le> 255" "v \<noteq> BLOSC1_VERSION_FORMAT"
    and "\<forall>i \<in> set is. invertible_filter user user' context n i"
    and "ptr_ok mem n s" "ptr_ok mem n d" "ptr_ok mem n t" "distinct [fst s, fst d, fst t]"
  shows "\<exists>p mem' z. forward_loop le host user context (int n) offset chunk is (s, d, t) mem = Some (Some p, mem') \<and>
    pipeline_codes host user user' context v n is (take n (view mem s)) z \<and> take n (view mem' p) = z \<and>
    p = forward_result (active_filters context is) (s, d, t) \<and> (\<forall>q \<in> {s, d, t}. outside_kept n q mem mem') \<and>
    forward_keeps (active_filters context is) s d t mem mem'"
  using assms(4-8)
proof (induction "is" arbitrary: s d t mem)
  case Nil
  then show ?case using view_length[of mem n s] by (simp add: forward_keeps_def active_filters_def)
next
  case (Cons i "is")
  let ?x = "take n (view mem s)"
  have lx: "length ?x = n" using view_length[OF Cons.prems(2)] by simp
  show ?case
  proof (cases "ctx_filters context ! i = BLOSC_NOFILTER")
    case True
    have "filter_forward le host user context i (int n) offset chunk s d mem = Some (0, mem)"
      using True by (simp add: filter_forward_def Let_def)
    moreover obtain p mem' z where "forward_loop le host user context (int n) offset chunk is (s, d, t) mem = Some (Some p, mem')"
      "pipeline_codes host user user' context v n is ?x z" "take n (view mem' p) = z"
      "p = forward_result (active_filters context is) (s, d, t)" "\<forall>q \<in> {s, d, t}. outside_kept n q mem mem'" "forward_keeps (active_filters context is) s d t mem mem'"
      using Cons.IH[of mem s d t] Cons.prems by auto
    ultimately show ?thesis
      using True lx by (intro exI[of _ p] exI[of _ mem'] exI[of _ z]) (simp add: filter_codes_def active_filters_def)
  next
    case False
    have i: "invertible_filter user user' context n i" using Cons.prems(1) by simp
    obtain y where y: "filter_codes host user user' context v n i ?x y"
      using filter_codes_ex[OF assms(1-3) i lx] by blast
    let ?mem = "put_block mem d n y"
    have ly: "length y = n" using filter_codes_length[OF y] by simp
    have ne: "fst s \<noteq> fst d" using Cons.prems(5) by simp
    obtain rc where rc: "0 \<le> rc" "filter_forward le host user context i (int n) offset chunk s d mem = Some (rc, ?mem)"
      using filter_forward_codes[OF y i False Cons.prems(2,3) ne refl, of le offset chunk] by blast
    have ok: "ptr_ok ?mem m q \<longleftrightarrow> ptr_ok mem m q" for m q by (rule put_block_ptr_ok[OF Cons.prems(3) ly])
    have vy: "take n (view ?mem d) = y" by (rule view_put_block[OF Cons.prems(3) ly])
    obtain p mem' z where r: "forward_loop le host user context (int n) offset chunk is (d, t, s) ?mem = Some (Some p, mem')"
      "pipeline_codes host user user' context v n is y z" "take n (view mem' p) = z"
      "p = forward_result (active_filters context is) (d, t, s)" "\<forall>q \<in> {d, t, s}. outside_kept n q ?mem mem'" "forward_keeps (active_filters context is) d t s ?mem mem'"
      using Cons.IH[of ?mem d t s] Cons.prems ok vy by auto
    have "forward_loop le host user context (int n) offset chunk (i # is) (s, d, t) mem = Some (Some p, mem')"
      using rc r(1) False by (simp add: cycle_buffers_def)
    moreover have "forward_keeps (active_filters context (i # is)) s d t mem mem'"
      using r(6) Cons.prems(5) False put_block_other[of _ d mem n y] put_block_buffer_length[OF Cons.prems(3) ly]
      by (auto simp: forward_keeps_def active_filters_def)
    moreover have "p = forward_result (active_filters context (i # is)) (s, d, t)"
      using r(4) False by (simp add: active_filters_def)
    moreover have "\<forall>q \<in> {s, d, t}. outside_kept n q mem mem'"
    proof
      fix q assume q: "q \<in> {s, d, t}"
      then have "fst q = fst d \<longrightarrow> q = d" using Cons.prems(5) by auto
      with q r(5) outside_kept_put_block[OF Cons.prems(3) ly] outside_kept_trans show "outside_kept n q mem mem'" by blast
    qed
    ultimately show ?thesis using y r(2,3) by (intro exI[of _ p] exI[of _ mem'] exI[of _ z]) auto
  qed
qed

end

section \<open>The backward pipeline\<close>

lemma filter_backward_codes:
  assumes "filter_codes host user user' context v n i x z" "invertible_filter user user' context n i"
    and "ctx_filters context ! i \<noteq> BLOSC_NOFILTER"
    and "ptr_ok mem n src" "ptr_ok mem n dest" "fst src \<noteq> fst dest" "take n (view mem src) = z"
  shows "filter_backward host user' context v i (int n) offset chunk errcode src dest mem = Some (Inr errcode, put_block mem dest n x)"
proof -
  let ?f = "ctx_filters context ! i"
  have "filter_code (forward_action host user context (int n) i) (backward_action host user' context v (int n) i) n x z"
    using assms(1,3) by (simp add: filter_codes_def)
  then obtain r where r: "0 \<le> r" "backward_action host user' context v (int n) i (view mem src) (view mem dest) =
      Some (r, x @ drop n (view mem dest))"
    using assms(7) view_length[OF assms(4)] view_length[OF assms(5)] unfolding filter_code_def by blast
  consider "?f = BLOSC_SHUFFLE" | "?f = BLOSC_BITSHUFFLE" | g where "?f > BLOSC2_DEFINED_FILTERS_STOP" "user' ?f = Some g"
    using assms(2,3) by (auto simp: invertible_filter_def)
  then show ?thesis
  proof cases
    case 1
    with r(2) have "on_buffers mem src dest (blosc2_unshuffle host (shuffle_typesize context i) (int n)) =
        Some (r, put_block mem dest n x)"
      by (intro on_buffers_Some[OF assms(4-6)]) (simp add: backward_action_def)
    with 1 show ?thesis by (auto simp: filter_backward_def shuffle_typesize_def Let_def split: if_splits)
  next
    case 2
    with r(2) have "on_buffers mem src dest (\<lambda>s d. bitunshuffle host (ctx_typesize context) (int n) s d v) =
        Some (r, put_block mem dest n x)"
      by (intro on_buffers_Some[OF assms(4-6)]) (simp add: backward_action_def)
    with 2 r(1) show ?thesis by (auto simp: filter_backward_def Let_def)
  next
    case 3
    have nf: "?f \<noteq> 0" "?f \<noteq> 1" "?f \<noteq> 2" "\<not> ?f \<le> BLOSC2_DEFINED_FILTERS_STOP" using 3(1) by auto
    with r(2) 3(2) have a: "user_action g (int n) (ctx_filters_meta context ! i) (view mem src) (view mem dest) =
        Some (r, x @ drop n (view mem dest))" by (simp add: backward_action_def)
    then obtain rc out where g: "g (view mem src) (view mem dest) (int n) (ctx_filters_meta context ! i) = Some (rc, out)"
      by (auto simp: user_action_def split: option.splits Option.bind_splits)
    with a r(1) have "rc = 0" "out = x @ drop n (view mem dest)" by (auto simp: user_action_def split: if_splits)
    with g have "on_buffers mem src dest (\<lambda>s d. g s d (int n) (ctx_filters_meta context ! i)) = Some (0, put_block mem dest n x)"
      by (intro on_buffers_Some[OF assms(4-6)]) simp
    with nf 3(2) show ?thesis by (simp add: filter_backward_def Let_def)
  qed
qed

lemma next_filter_not_delta: "\<forall>i < k. fs ! i \<noteq> BLOSC_DELTA \<Longrightarrow> next_filter fs k c \<noteq> BLOSC_DELTA"
  by (induction k) auto

text \<open>
  The loop from filter \<open>k - 1\<close> down to filter \<open>j\<close>, the last one: the block is in its place in the chunk and
  nothing else of the chunk has changed.
\<close>

lemma backward_loop_codes:
  assumes "\<forall>i < k. ctx_filters context ! i \<noteq> BLOSC_DELTA" "\<forall>i < k. invertible_filter user user' context n i"
    and "j < k" "ctx_filters context ! j \<noteq> BLOSC_NOFILTER" "pipeline_codes host user user' context v n [j..<k] x z"
    and "ptr_ok mem n s" "ptr_ok mem n d" "ptr_ok mem n t" "ptr_ok mem n (chunk, nat offset)"
    and "distinct [chunk, fst s, fst d, fst t]" "take n (view mem s) = z"
  shows "\<exists>mem'. backward_loop host user' context v False (int n) offset chunk (int j) k 0 (s, d, t) mem =
      Some (Inr (0, (chunk, nat offset)), mem') \<and> length mem' = length mem \<and>
    (\<forall>b. length (mem' ! b) = length (mem ! b)) \<and>
    mem' ! chunk = take (nat offset) (mem ! chunk) @ x @ drop (nat offset + n) (mem ! chunk)"
  using assms(1-3,5-11)
proof (induction k arbitrary: s d t mem z)
  case 0
  then show ?case by simp
next
  case (Suc i)
  let ?out = "(chunk, nat offset)"
  have i: "ctx_filters context ! i \<noteq> BLOSC_DELTA" "invertible_filter user user' context n i" using Suc.prems(1,2) by auto
  have nd: "next_filter (ctx_filters context) i False \<noteq> BLOSC_DELTA"
    using Suc.prems(1) by (intro next_filter_not_delta) auto
  have ji: "j \<le> i" using Suc.prems(3) by simp
  then obtain y where y: "pipeline_codes host user user' context v n [j..<i] x y" "filter_codes host user user' context v n i y z"
    using Suc.prems(4) by (auto simp: pipeline_codes_append dest: filter_codes_length)
  show ?case
  proof (cases "j = i")
    case True
    then have x: "y = x" "length x = n" using y(1) by (auto dest: pipeline_codes_length)
    have ne: "fst s \<noteq> fst ?out" "s \<noteq> ?out" using Suc.prems(9) by auto
    let ?mem = "put_block mem ?out n x"
    have dest: "backward_dest context False i (int j) ?out s d = ?out"
      using ne True by (simp add: backward_dest_def Let_def)
    have act: "ctx_filters context ! i \<noteq> BLOSC_NOFILTER" "ctx_filters context ! i \<noteq> BLOSC_TRUNC_PREC"
      using assms(4) True i(2) by (auto simp: invertible_filter_def)
    have "filter_backward host user' context v i (int n) offset chunk 0 s ?out mem = Some (Inr 0, ?mem)"
      using filter_backward_codes[OF y(2)[unfolded x] i(2) act(1) Suc.prems(5,8) ne(1) Suc.prems(10)] by simp
    then have "backward_loop host user' context v False (int n) offset chunk (int j) (Suc i) 0 (s, d, t) mem = Some (Inr (0, ?out), ?mem)"
      using dest act True by (simp add: cycle_buffers_def Let_def)
    moreover have "?mem ! chunk = take (nat offset) (mem ! chunk) @ x @ drop (nat offset + n) (mem ! chunk)"
      using put_block_at[OF Suc.prems(8)] by simp
    moreover have "\<forall>b. length (?mem ! b) = length (mem ! b)"
      using put_block_buffer_length[OF Suc.prems(8) x(2)] by simp
    ultimately show ?thesis by simp
  next
    case False
    with ji have lt: "j < i" by simp
    have dest: "backward_dest context False i (int j) ?out s d = d"
      using False i nd by (simp add: backward_dest_def Let_def)
    show ?thesis
    proof (cases "ctx_filters context ! i = BLOSC_NOFILTER")
      case True
      then have "z = y" using y(2) by (simp add: filter_codes_def)
      have "filter_backward host user' context v i (int n) offset chunk 0 s d mem = Some (Inr 0, mem)"
        using True by (simp add: filter_backward_def Let_def)
      then have "backward_loop host user' context v False (int n) offset chunk (int j) (Suc i) 0 (s, d, t) mem =
          backward_loop host user' context v False (int n) offset chunk (int j) i 0 (s, d, t) mem"
        using dest True False by (simp add: Let_def)
      with Suc.IH[of y mem s d t] Suc.prems lt y(1) \<open>z = y\<close> show ?thesis by simp
    next
      case act: False
      then have act': "ctx_filters context ! i \<noteq> BLOSC_TRUNC_PREC" using i(2) by (auto simp: invertible_filter_def)
      let ?mem = "put_block mem d n y"
      have ly: "length y = n" using filter_codes_length[OF y(2)] by simp
      have ne: "fst s \<noteq> fst d" using Suc.prems(9) by simp
      have "filter_backward host user' context v i (int n) offset chunk 0 s d mem = Some (Inr 0, ?mem)"
        by (rule filter_backward_codes[OF y(2) i(2) act Suc.prems(5,6) ne Suc.prems(10)])
      then have eval: "backward_loop host user' context v False (int n) offset chunk (int j) (Suc i) 0 (s, d, t) mem =
          backward_loop host user' context v False (int n) offset chunk (int j) i 0 (d, t, s) ?mem"
        using dest act act' False by (simp add: Let_def cycle_buffers_def)
      have ok: "ptr_ok ?mem m q \<longleftrightarrow> ptr_ok mem m q" for m q by (rule put_block_ptr_ok[OF Suc.prems(6) ly])
      have vy: "take n (view ?mem d) = y" by (rule view_put_block[OF Suc.prems(6) ly])
      have bl: "length (?mem ! b) = length (mem ! b)" for b by (rule put_block_buffer_length[OF Suc.prems(6) ly])
      have "?mem ! chunk = mem ! chunk" using Suc.prems(9) by (intro put_block_other) auto
      with bl Suc.IH[of y ?mem d t s] Suc.prems lt y(1) ok vy eval show ?thesis by auto
    qed
  qed
qed

section \<open>Properties\<close>

text \<open>A pipeline of invertible filters, at least one of which does something, with a type size of a chunk.\<close>

definition invertible_pipeline ::
    "(byte \<Rightarrow> user_filter option) \<Rightarrow> (byte \<Rightarrow> user_filter option) \<Rightarrow> blosc2_context \<Rightarrow> nat \<Rightarrow> bool" where
  "invertible_pipeline user user' context n \<longleftrightarrow> 1 \<le> ctx_typesize context \<and> ctx_typesize context \<le> 255 \<and>
    (\<forall>i < 6. invertible_filter user user' context n i) \<and> (\<exists>i < 6. ctx_filters context ! i \<noteq> BLOSC_NOFILTER)"

lemma last_filter_invertible:
  assumes "invertible_pipeline user user' context n"
  shows "\<exists>j < 6. last_filter (ctx_filters context) False = int j \<and> ctx_filters context ! j \<noteq> BLOSC_NOFILTER \<and>
    (\<forall>i < j. ctx_filters context ! i = BLOSC_NOFILTER)"
proof -
  let ?fs = "ctx_filters context"
  have "?fs ! i \<noteq> BLOSC_TRUNC_PREC" if "i < 6" for i
    using assms that by (auto simp: invertible_pipeline_def invertible_filter_def)
  then have dn: "do_nothing (?fs ! i) False \<longleftrightarrow> ?fs ! i = BLOSC_NOFILTER" if "i < 6" for i
    using that by (auto simp: do_nothing_def)
  obtain i where i: "i < 6" "?fs ! i \<noteq> BLOSC_NOFILTER" using assms by (auto simp: invertible_pipeline_def)
  let ?j = "LEAST i. \<not> do_nothing (?fs ! i) False"
  have ex: "\<exists>i < BLOSC2_MAX_FILTERS. \<not> do_nothing (?fs ! i) False" using i dn by auto
  have ni: "\<not> do_nothing (?fs ! i) False" using i dn by simp
  have j: "\<not> do_nothing (?fs ! ?j) False" by (rule LeastI[of "\<lambda>i. \<not> do_nothing (?fs ! i) False", OF ni])
  have "?j \<le> i" by (rule Least_le[of "\<lambda>i. \<not> do_nothing (?fs ! i) False", OF ni])
  note j = j this
  have "last_filter ?fs False = int ?j" using ex by (simp add: last_filter_def last_filter_from_eq)
  moreover have "?fs ! i' = BLOSC_NOFILTER" if "i' < ?j" for i'
  proof -
    have "do_nothing (?fs ! i') False" using not_less_Least[OF that] by simp
    moreover have "i' < 6" using that j(2) i(1) by linarith
    ultimately show ?thesis using dn by simp
  qed
  moreover have "?j < 6" using j(2) i(1) by linarith
  moreover have "?fs ! ?j \<noteq> BLOSC_NOFILTER" using j(1) dn[OF \<open>?j < 6\<close>] by blast
  ultimately show ?thesis by blast
qed

lemma pipeline_codes_nofilter:
  "\<forall>i \<in> set is. ctx_filters context ! i = BLOSC_NOFILTER \<Longrightarrow>
    pipeline_codes host user user' context v n is x z \<longleftrightarrow> length x = n \<and> z = x"
  by (induction "is" arbitrary: x) (auto simp: filter_codes_def)

context shuffle_host
begin

lemma pipeline_forward_codes:
  assumes "invertible_pipeline user user' context n" "v \<noteq> BLOSC1_VERSION_FORMAT"
    and "ptr_ok mem n (chunk, nat offset)" "ptr_ok mem n dest" "ptr_ok mem n tmp" "distinct [chunk, fst dest, fst tmp]"
  shows "\<exists>p mem'. pipeline_forward le host user None context (int n) chunk offset dest tmp mem = Some (Some p, mem') \<and>
    pipeline_codes host user user' context v n [0..<6] (take n (view mem (chunk, nat offset))) (take n (view mem' p)) \<and>
    p = forward_result (active_filters context [0..<6]) ((chunk, nat offset), dest, tmp) \<and>
    (\<forall>q \<in> {(chunk, nat offset), dest, tmp}. outside_kept n q mem mem') \<and>
    forward_keeps (active_filters context [0..<6]) (chunk, nat offset) dest tmp mem mem'"
  using forward_loop_codes[of "context" v "[0..<6]" user user' n mem "(chunk, nat offset)" dest tmp le offset chunk] assms
  by (fastforce simp: pipeline_forward_def Let_def invertible_pipeline_def)

lemma pipeline_backward_codes:
  assumes "invertible_pipeline user user' context n"
    and "pipeline_codes host user user' context v n [0..<6] x z"
    and "ptr_ok mem n src" "ptr_ok mem n tmp" "ptr_ok mem n tmp2" "ptr_ok mem n (chunk, nat offset)"
    and "distinct [chunk, fst src, fst tmp, fst tmp2]" "take n (view mem src) = z"
  shows "\<exists>mem'. pipeline_backward host user' None context v (int n) chunk offset src tmp tmp2
      (last_filter (ctx_filters context) False) nblock mem = Some (0, mem') \<and> length mem' = length mem \<and>
    (\<forall>b. length (mem' ! b) = length (mem ! b)) \<and>
    mem' ! chunk = take (nat offset) (mem ! chunk) @ x @ drop (nat offset + n) (mem ! chunk)"
proof -
  obtain j where j: "j < 6" "last_filter (ctx_filters context) False = int j" "ctx_filters context ! j \<noteq> BLOSC_NOFILTER"
    "\<forall>i < j. ctx_filters context ! i = BLOSC_NOFILTER"
    using last_filter_invertible[OF assms(1)] by blast
  have inv: "\<forall>i < 6. invertible_filter user user' context n i" using assms(1) by (simp add: invertible_pipeline_def)
  then have nd: "\<forall>i < 6. ctx_filters context ! i \<noteq> BLOSC_DELTA" by (auto simp: invertible_filter_def)
  have "[0..<6] = [0..<j] @ [j..<6]" using j(1) using upt_add_eq_append[of 0 j "6 - j"] by simp
  then have "pipeline_codes host user user' context v n [j..<6] x z"
    using assms(2) pipeline_codes_nofilter[of "[0..<j]" "context"] j(4) by (auto simp: pipeline_codes_append)
  from backward_loop_codes[OF nd inv j(1,3) this assms(3-8)] j(2) show ?thesis
    by (auto simp: pipeline_backward_def Let_def)
qed

end

lemma active_filters_pos:
  assumes "invertible_pipeline user user' context n"
  shows "1 \<le> active_filters context [0..<6]" "active_filters context [0..<6] \<le> 6"
proof -
  obtain i where "i < 6" "ctx_filters context ! i \<noteq> BLOSC_NOFILTER" using assms by (auto simp: invertible_pipeline_def)
  then have "i \<in> set (filter (\<lambda>i. ctx_filters context ! i \<noteq> BLOSC_NOFILTER) [0..<6])" by simp
  then show "1 \<le> active_filters context [0..<6]" unfolding active_filters_def by (cases "filter (\<lambda>i. ctx_filters context ! i \<noteq> BLOSC_NOFILTER) [0..<6]") auto
  show "active_filters context [0..<6] \<le> 6"
    using length_filter_le[of "\<lambda>i. ctx_filters context ! i \<noteq> BLOSC_NOFILTER" "[0..<6]"] by (simp add: active_filters_def)
qed

text \<open>
  C15. A block of any length that goes forward through a pipeline of shuffles, bit shuffles and registered filters
  whose two directions are inverse comes out of the backward pipeline of a reader as it was, in its
  place in the chunk; the rest of the chunk does not change. The three buffers of the writer and the four of
  the reader must be different and hold the block, and the reader starts from the bytes the writer ended with.
\<close>

theorem pipeline_roundtrip:
  assumes "\<And>n. \<exists>b. malloc n = Some b \<and> length b = n"
    and "invertible_pipeline user user' context n" "v \<noteq> BLOSC1_VERSION_FORMAT"
    and "ptr_ok mem n (chunk, nat offset)" "ptr_ok mem n dest" "ptr_ok mem n tmp" "distinct [chunk, fst dest, fst tmp]"
  shows "\<exists>p mem'. pipeline_forward le (get_shuffle_implementation le malloc) user None context (int n) chunk offset dest tmp mem = Some (Some p, mem') \<and>
    (\<forall>mem2 chunk2 offset2 src2 tmp2 tmp3 nblock.
      ptr_ok mem2 n src2 \<and> ptr_ok mem2 n tmp2 \<and> ptr_ok mem2 n tmp3 \<and> ptr_ok mem2 n (chunk2, nat offset2) \<and>
      distinct [chunk2, fst src2, fst tmp2, fst tmp3] \<and> take n (view mem2 src2) = take n (view mem' p) \<longrightarrow>
      (\<exists>mem2'. pipeline_backward (get_shuffle_implementation le malloc) user' None context v (int n) chunk2 offset2 src2 tmp2 tmp3
          (last_filter (ctx_filters context) False) nblock mem2 = Some (0, mem2') \<and>
        mem2' ! chunk2 = take (nat offset2) (mem2 ! chunk2) @ take n (drop (nat offset) (mem ! chunk)) @
          drop (nat offset2 + n) (mem2 ! chunk2)))"
proof -
  have h: "shuffle_host (get_shuffle_implementation le malloc)" by (rule generic_shuffle_host[OF assms(1)])
  let ?host = "get_shuffle_implementation le malloc"
  obtain p mem' where f: "pipeline_forward le ?host user None context (int n) chunk offset dest tmp mem = Some (Some p, mem')"
    "pipeline_codes ?host user user' context v n [0..<6] (take n (view mem (chunk, nat offset))) (take n (view mem' p))"
    using shuffle_host.pipeline_forward_codes[OF h assms(2-7)] by blast
  have "\<exists>mem2'. pipeline_backward ?host user' None context v (int n) chunk2 offset2 src2 tmp2 tmp3
      (last_filter (ctx_filters context) False) nblock mem2 = Some (0, mem2') \<and>
    mem2' ! chunk2 = take (nat offset2) (mem2 ! chunk2) @ take n (drop (nat offset) (mem ! chunk)) @ drop (nat offset2 + n) (mem2 ! chunk2)"
    if "ptr_ok mem2 n src2" "ptr_ok mem2 n tmp2" "ptr_ok mem2 n tmp3" "ptr_ok mem2 n (chunk2, nat offset2)"
      "distinct [chunk2, fst src2, fst tmp2, fst tmp3]" "take n (view mem2 src2) = take n (view mem' p)"
    for mem2 chunk2 offset2 src2 tmp2 tmp3 nblock
    using shuffle_host.pipeline_backward_codes[OF h assms(2) f(2) that] by (auto simp: view_def)
  with f(1) show ?thesis by blast
qed

definition sample_pipeline :: "byte list \<Rightarrow> byte list \<Rightarrow> blosc2_context" where
  "sample_pipeline fs metas = \<lparr> ctx_header_flags = 5, ctx_blosc2_flags = 0, ctx_blosc2_flags2 = 0, ctx_sourcesize = 64,
     ctx_header_overhead = 32, ctx_nblocks = 1, ctx_leftover = 0, ctx_blocksize = 64, ctx_header_blocksize = 64,
     ctx_splitmode = 1, ctx_output_bytes = 0, ctx_srcsize = 64, ctx_destsize = 96, ctx_typesize = 2,
     ctx_special_type = 0, ctx_compcode = 0, ctx_compcode_meta = 0, ctx_clevel = 5, ctx_use_dict = False,
     ctx_has_cdict = False, ctx_filter_flags = 1, ctx_filters = fs, ctx_filters_meta = metas,
     ctx_do_compress = True, ctx_bstarts = None \<rparr>"

text \<open>A registered filter for the examples: every byte is combined with the meta byte; it undoes itself.\<close>

definition xor_filter :: user_filter where
  "xor_filter s d bsize meta =
    (if nat bsize \<le> length s \<and> nat bsize \<le> length d
     then Some (0, map (\<lambda>b. b XOR meta) (take (nat bsize) s) @ drop (nat bsize) d) else None)"

interpretation xor_filter: block_filter "user_action xor_filter (int n) meta" "user_action xor_filter (int n) meta" n for n meta
proof
  fix x :: buf assume x: "length x = n"
  have "map (\<lambda>b. b XOR meta) (map (\<lambda>b. b XOR meta) x) = x" by (simp add: comp_def xor.assoc)
  with x show "\<exists>z. filter_code (user_action xor_filter (int n) meta) (user_action xor_filter (int n) meta) n x z"
    by (intro exI[of _ "map (\<lambda>b. b XOR meta) x"]) (auto simp: filter_code_def user_action_def xor_filter_def)
qed

definition sample_user :: "byte \<Rightarrow> user_filter option" where
  "sample_user f = (if f = 200 then Some xor_filter else None)"

lemma sample_pipeline_ok:
  assumes "set fs \<subseteq> {0, 1, 2, 200}" "length fs = 6" "\<exists>i < 6. fs ! i \<noteq> 0"
  shows "invertible_pipeline sample_user sample_user (sample_pipeline fs metas) n"
proof -
  have c: "ctx_filters (sample_pipeline fs metas) = fs" "ctx_typesize (sample_pipeline fs metas) = 2"
    "ctx_filters_meta (sample_pipeline fs metas) = metas"
    by (simp_all add: sample_pipeline_def)
  have "fs ! i \<in> {0, 1, 2, 200}" if "i < 6" for i using that assms(1,2) by (intro subsetD[OF assms(1) nth_mem]) simp
  then have a: "\<forall>i < 6. fs ! i = 0 \<or> fs ! i = 1 \<or> fs ! i = 2 \<or> fs ! i = 200" by blast
  have "invertible_filter sample_user sample_user (sample_pipeline fs metas) n i" if "i < 6" for i
    using a[rule_format, OF that] xor_filter.block_filter_axioms[of n "metas ! i"]
    by (auto simp: invertible_filter_def c sample_user_def)
  with assms(3) show ?thesis by (simp add: invertible_pipeline_def c)
qed

lemma shuffle_2_4:
  "blosc2_shuffle (get_shuffle_implementation True calloc_ok) 2 4 [a, b, c, d] [a', b', c', d'] = Some (4, [a, c, b, d])"
proof -
  have "[0..<4] = [0, 1, 2, 3 :: nat]" by (simp add: upt_rec)
  then have "map (\<lambda>k. [a, b, c, d] ! shuffle_ix 2 4 k) [0..<4] = [a, c, b, d]" by (simp add: shuffle_ix_def)
  with generic_host.host_shuffle[of 2 4 "[a, b, c, d]" "[a', b', c', d']" True] show ?thesis
    by (simp add: blosc2_shuffle_def)
qed

text \<open>The pipeline of a shuffle and a registered filter on four bytes behind another one.\<close>

lemma sample_forward:
  "pipeline_forward True (get_shuffle_implementation True calloc_ok) sample_user None (sample_pipeline [0, 0, 0, 0, 1, 200] [0, 0, 0, 0, 0, 16]) 4
     0 1 (1, 0) (2, 0) [[9, 1, 2, 3, 4], [0, 0, 0, 0], [0, 0, 0, 0]] =
   Some (Some (2, 0), [[9, 1, 2, 3, 4], [1, 3, 2, 4], [17, 19, 18, 20]])"
proof -
  have "[0..<6] = [0, 1, 2, 3, 4, 5 :: nat]" by (simp add: upt_rec)
  then show ?thesis
    by (simp add: pipeline_forward_def sample_pipeline_def filter_forward_def on_buffers_def deref_def put_def
        cycle_buffers_def shuffle_2_4 sample_user_def xor_filter_def)
qed

theorem pipeline_roundtrip_witness:
  "pipeline_forward True (get_shuffle_implementation True calloc_ok) sample_user None (sample_pipeline [0, 0, 0, 0, 1, 200] [0, 0, 0, 0, 0, 16]) 4
      0 1 (1, 0) (2, 0) [[9, 1, 2, 3, 4], [0, 0, 0, 0], [0, 0, 0, 0]] =
     Some (Some (2, 0), [[9, 1, 2, 3, 4], [1, 3, 2, 4], [17, 19, 18, 20]]) \<and>
   (\<exists>mem2'. pipeline_backward (get_shuffle_implementation True calloc_ok) sample_user None (sample_pipeline [0, 0, 0, 0, 1, 200] [0, 0, 0, 0, 0, 16])
        5 4 0 2 (1, 0) (2, 0) (3, 0) (last_filter (ctx_filters (sample_pipeline [0, 0, 0, 0, 1, 200] [0, 0, 0, 0, 0, 16])) False) 0
        [[7, 7, 7, 7, 7, 7, 7], [17, 19, 18, 20], [0, 0, 0, 0], [0, 0, 0, 0]] = Some (0, mem2') \<and>
      mem2' ! 0 = [7, 7, 1, 2, 3, 4, 7])"
proof -
  let ?mem = "[[9, 1, 2, 3, 4], [0, 0, 0, 0], [0, 0, 0, 0]] :: buf list"
  let ?mem2 = "[[7, 7, 7, 7, 7, 7, 7], [17, 19, 18, 20], [0, 0, 0, 0], [0, 0, 0, 0]] :: buf list"
  have m: "\<exists>b. calloc_ok n = Some b \<and> length b = n" for n by (simp add: calloc_ok_def)
  have s: "invertible_pipeline sample_user sample_user (sample_pipeline [0, 0, 0, 0, 1, 200] [0, 0, 0, 0, 0, 16]) 4"
    by (rule sample_pipeline_ok) (simp, simp, rule exI[of _ 5], simp)
  have w: "ptr_ok ?mem 4 (0, nat 1)" "ptr_ok ?mem 4 (1, 0)" "ptr_ok ?mem 4 (2, 0)" "distinct [0, fst (1, 0), fst (2 :: nat, 0 :: nat)]"
    by (simp_all add: ptr_ok_def)
  have r: "ptr_ok ?mem2 4 (1, 0)" "ptr_ok ?mem2 4 (2, 0)" "ptr_ok ?mem2 4 (3, 0)" "ptr_ok ?mem2 4 (0, nat 2)"
    "distinct [0, fst (1, 0), fst (2, 0), fst (3 :: nat, 0 :: nat)]"
    "take 4 (view ?mem2 (1, 0)) = take 4 (view [[9, 1, 2, 3, 4], [1, 3, 2, 4], [17, 19, 18, 20]] (2, 0))"
    by (simp_all add: ptr_ok_def view_def)
  have v: "(5 :: byte) \<noteq> BLOSC1_VERSION_FORMAT" by simp
  obtain p mem' where f: "pipeline_forward True (get_shuffle_implementation True calloc_ok) sample_user None
      (sample_pipeline [0, 0, 0, 0, 1, 200] [0, 0, 0, 0, 0, 16]) (int 4) 0 1 (1, 0) (2, 0) ?mem = Some (Some p, mem')"
    and b: "\<And>mem2 chunk2 offset2 src2 tmp2 tmp3 nblock.
      ptr_ok mem2 4 src2 \<and> ptr_ok mem2 4 tmp2 \<and> ptr_ok mem2 4 tmp3 \<and> ptr_ok mem2 4 (chunk2, nat offset2) \<and>
      distinct [chunk2, fst src2, fst tmp2, fst tmp3] \<and> take 4 (view mem2 src2) = take 4 (view mem' p) \<Longrightarrow>
      (\<exists>mem2'. pipeline_backward (get_shuffle_implementation True calloc_ok) sample_user None
          (sample_pipeline [0, 0, 0, 0, 1, 200] [0, 0, 0, 0, 0, 16]) 5 (int 4) chunk2 offset2 src2 tmp2 tmp3
          (last_filter (ctx_filters (sample_pipeline [0, 0, 0, 0, 1, 200] [0, 0, 0, 0, 0, 16])) False) nblock mem2 = Some (0, mem2') \<and>
        mem2' ! chunk2 = take (nat offset2) (mem2 ! chunk2) @ take 4 (drop (nat 1) (?mem ! 0)) @
          drop (nat offset2 + 4) (mem2 ! chunk2))"
    using pipeline_roundtrip[OF m s v w, of True] by blast
  from f sample_forward have p: "p = (2, 0)" "mem' = [[9, 1, 2, 3, 4], [1, 3, 2, 4], [17, 19, 18, 20]]" by simp_all
  have "\<exists>mem2'. pipeline_backward (get_shuffle_implementation True calloc_ok) sample_user None (sample_pipeline [0, 0, 0, 0, 1, 200] [0, 0, 0, 0, 0, 16])
        5 (int 4) 0 2 (1, 0) (2, 0) (3, 0) (last_filter (ctx_filters (sample_pipeline [0, 0, 0, 0, 1, 200] [0, 0, 0, 0, 0, 16])) False) 0 ?mem2 =
        Some (0, mem2') \<and>
      mem2' ! 0 = take (nat 2) (?mem2 ! 0) @ take 4 (drop (nat 1) (?mem ! 0)) @ drop (nat 2 + 4) (?mem2 ! 0)"
    by (rule b[unfolded p]) (use r in simp)
  with sample_forward show ?thesis by simp
qed

text \<open>
  C21. For a pipeline of shuffles, bit shuffles and registered filters whose two directions are inverse, and three
  different buffers that hold the block: with one or two filters that do something, the forward pipeline ends, leaves the buffer the caller compresses from
  as it is, and its result is in the first of the two buffers it was given after one filter and in the second after two.
\<close>

theorem pipeline_keeps_source:
  assumes "\<And>n. \<exists>b. malloc n = Some b \<and> length b = n"
    and "invertible_pipeline user user' context n" "active_filters context [0..<6] \<le> 2"
    and "ptr_ok mem n (chunk, nat offset)" "ptr_ok mem n dest" "ptr_ok mem n tmp" "distinct [chunk, fst dest, fst tmp]"
  shows "\<exists>p mem'. pipeline_forward le (get_shuffle_implementation le malloc) user None context (int n) chunk offset dest tmp mem = Some (Some p, mem') \<and>
    mem' ! chunk = mem ! chunk \<and> p = (if active_filters context [0..<6] = 1 then dest else tmp)"
proof -
  have h: "shuffle_host (get_shuffle_implementation le malloc)" by (rule generic_shuffle_host[OF assms(1)])
  have "(5 :: byte) \<noteq> BLOSC1_VERSION_FORMAT" by simp
  from shuffle_host.pipeline_forward_codes[OF h assms(2) this assms(4-7), of le]
  obtain p mem' where f: "pipeline_forward le (get_shuffle_implementation le malloc) user None context (int n) chunk offset dest tmp mem = Some (Some p, mem')"
    "p = forward_result (active_filters context [0..<6]) ((chunk, nat offset), dest, tmp)"
    "forward_keeps (active_filters context [0..<6]) (chunk, nat offset) dest tmp mem mem'" by blast
  have "active_filters context [0..<6] = 1 \<or> active_filters context [0..<6] = 2"
    using assms(3) active_filters_pos(1)[OF assms(2)] by linarith
  with f(2) have "p = (if active_filters context [0..<6] = 1 then dest else tmp)" by (auto simp: forward_result_def)
  moreover have "mem' ! chunk = mem ! chunk" using f(3) assms(3) by (simp add: forward_keeps_def)
  ultimately show ?thesis using f(1) by blast
qed

theorem pipeline_keeps_source_witness:
  "\<exists>p mem'. pipeline_forward True (get_shuffle_implementation True calloc_ok) sample_user None (sample_pipeline [0, 0, 0, 0, 2, 200] (replicate 6 3)) (int 5)
      0 1 (1, 0) (2, 0) [[9, 1, 2, 3, 4, 5, 6], replicate 5 0, replicate 6 0] = Some (Some p, mem') \<and>
    mem' ! 0 = [[9, 1, 2, 3, 4, 5, 6], replicate 5 0, replicate 6 0] ! 0 \<and> p = (2, 0)"
proof -
  have a: "active_filters (sample_pipeline [0, 0, 0, 0, 2, 200] (replicate 6 3)) [0..<6] = 2"
    by (simp add: active_filters_def sample_pipeline_def upt_rec)
  have "invertible_pipeline sample_user sample_user (sample_pipeline [0, 0, 0, 0, 2, 200] (replicate 6 3)) 5"
    by (rule sample_pipeline_ok) (simp, simp, rule exI[of _ 5], simp)
  from pipeline_keeps_source[OF _ this, of calloc_ok "[[9, 1, 2, 3, 4, 5, 6], replicate 5 0, replicate 6 0]" 0 1 "(1, 0)" "(2, 0)" True]
  show ?thesis unfolding a by (simp add: ptr_ok_def calloc_ok_def)
qed

text \<open>
  C23. For a pipeline of shuffles, bit shuffles and registered filters whose two directions are inverse, and three
  different buffers that hold the block: with three filters that do something, or with six, the rotation of the buffers has come back to the source:
  the result is in the buffer the caller passed for reading, at the block, and has replaced its bytes; the bytes around
  the block stay. The result is what the filters make of the block one after the other.
\<close>

theorem third_filter_overwrites_source:
  assumes "\<And>n. \<exists>b. malloc n = Some b \<and> length b = n"
    and "invertible_pipeline user user' context n" "active_filters context [0..<6] \<in> {3, 6}" "v \<noteq> BLOSC1_VERSION_FORMAT"
    and "ptr_ok mem n (chunk, nat offset)" "ptr_ok mem n dest" "ptr_ok mem n tmp" "distinct [chunk, fst dest, fst tmp]"
  shows "\<exists>mem' z. pipeline_forward le (get_shuffle_implementation le malloc) user None context (int n) chunk offset dest tmp mem =
      Some (Some (chunk, nat offset), mem') \<and>
    mem' ! chunk = take (nat offset) (mem ! chunk) @ z @ drop (nat offset + n) (mem ! chunk) \<and>
    pipeline_codes (get_shuffle_implementation le malloc) user user' context v n [0..<6] (take n (drop (nat offset) (mem ! chunk))) z"
proof -
  let ?host = "get_shuffle_implementation le malloc" and ?src = "(chunk, nat offset)"
  have h: "shuffle_host ?host" by (rule generic_shuffle_host[OF assms(1)])
  from shuffle_host.pipeline_forward_codes[OF h assms(2,4-8), of le] obtain p mem' where
    f: "pipeline_forward le ?host user None context (int n) chunk offset dest tmp mem = Some (Some p, mem')"
    "pipeline_codes ?host user user' context v n [0..<6] (take n (view mem ?src)) (take n (view mem' p))"
    "p = forward_result (active_filters context [0..<6]) (?src, dest, tmp)"
    "outside_kept n ?src mem mem'" "forward_keeps (active_filters context [0..<6]) ?src dest tmp mem mem'" by blast
  have p: "p = ?src" using f(3) assms(3) by (auto simp: forward_result_def)
  have "ptr_ok mem' n ?src" using f(5) assms(5) ptr_ok_same_lengths[of mem' mem n ?src] by (simp add: forward_keeps_def)
  then have "mem' ! chunk = take (nat offset) (mem ! chunk) @ take n (view mem' p) @ drop (nat offset + n) (mem ! chunk)"
    using outside_kept_split[OF f(4)] by (simp add: p)
  moreover have "view mem ?src = drop (nat offset) (mem ! chunk)" by (simp add: view_def)
  ultimately show ?thesis using f(1,2) unfolding p by (intro exI[of _ mem'] exI[of _ "take n (view mem' ?src)"]) (simp del: pipeline_codes.simps)
qed

theorem third_filter_overwrites_source_witness:
  "\<exists>mem' z. pipeline_forward True (get_shuffle_implementation True calloc_ok) sample_user None (sample_pipeline [0, 0, 0, 1, 1, 200] [0, 0, 0, 0, 0, 16]) (int 4)
      0 1 (1, 0) (2, 0) [[9, 1, 2, 3, 4], replicate 4 0, replicate 4 0] = Some (Some (0, 1), mem') \<and>
    mem' ! 0 = [9] @ z \<and>
    pipeline_codes (get_shuffle_implementation True calloc_ok) sample_user sample_user (sample_pipeline [0, 0, 0, 1, 1, 200] [0, 0, 0, 0, 0, 16]) 5 4 [0..<6]
      [1, 2, 3, 4] z"
proof -
  have a: "active_filters (sample_pipeline [0, 0, 0, 1, 1, 200] [0, 0, 0, 0, 0, 16]) [0..<6] = 3"
    by (simp add: active_filters_def sample_pipeline_def upt_rec)
  have "invertible_pipeline sample_user sample_user (sample_pipeline [0, 0, 0, 1, 1, 200] [0, 0, 0, 0, 0, 16]) 4"
    by (rule sample_pipeline_ok) (simp, simp, rule exI[of _ 5], simp)
  from third_filter_overwrites_source[OF _ this, of calloc_ok 5 "[[9, 1, 2, 3, 4], replicate 4 0, replicate 4 0]" 0 1 "(1, 0)" "(2, 0)" True]
  show ?thesis unfolding a by (simp add: ptr_ok_def calloc_ok_def del: pipeline_codes.simps)
qed

end
