(* ===== verification/Chunk_Codec.thy ===== *)
theory Chunk_Codec
  imports Block_Streams Pipeline Chunk_Setup
begin

text \<open>
  Blocks and chunks in \<open>blosc/blosc2.c\<close>: \<open>blosc_c\<close> and \<open>blosc_d\<close> as a whole, the serial loops over the blocks, the
  compression and decompression of a chunk with a context, and chunks of special values.

  The memory is a list of buffers: for a compression the source, the destination and the two temporaries
  (then the sources of blocks of variable length), for a decompression the destination and the temporaries
  \<open>tmp\<close>, \<open>tmp2\<close> and \<open>tmp4\<close> (then the destinations of such blocks). The four temporaries of a thread are four separate buffers here,
  as an access of one beyond its end is an error of the caller even where the next one follows. The
  allocator is the argument \<open>alloc\<close>. The arguments \<open>user\<close>, \<open>user'\<close>, \<open>enc\<close> and \<open>dec\<close> stand for the registered filters and
  codecs and for the external libraries. Not modelled: lazy chunks of a super-chunk, the instrumented mode,
  threads, tuner parameters, and the training of dictionaries, which is the argument \<open>train\<close>.
\<close>

section \<open>Special values\<close>

definition nan_bytes :: "bool \<Rightarrow> nat \<Rightarrow> buf" where
  "nan_bytes le w = host_order le (le_bytes w (if w = 4 then 0x7FC00000 else 0x7FF8000000000000))"

definition set_nans :: "bool \<Rightarrow> int \<Rightarrow> buf \<Rightarrow> nat \<Rightarrow> int \<Rightarrow> (int \<times> buf) option" where
  "set_nans le typesize dest p destsize =
    (if typesize = 0 then None
     else if destsize smod typesize \<noteq> 0 then Some (BLOSC2_ERROR_FAILURE, dest)
     else let nitems = destsize sdiv typesize in
       if nitems = 0 then Some (0, dest)
       else if typesize = 4 \<or> typesize = 8 then do {
         dest \<leftarrow> for_range 0 (nat nitems) (\<lambda>i dest. store_el dest (p + i * nat typesize) (nan_bytes le (nat typesize))) dest;
         Some (nitems, dest) }
       else Some (BLOSC2_ERROR_DATA, dest))"

definition set_values :: "int \<Rightarrow> buf \<Rightarrow> buf \<Rightarrow> nat \<Rightarrow> int \<Rightarrow> (int \<times> buf) option" where
  "set_values typesize src dest p destsize =
    (if typesize = 0 then None
     else if destsize smod typesize \<noteq> 0 then Some (BLOSC2_ERROR_FAILURE, dest)
     else let nitems = destsize sdiv typesize in
       if nitems = 0 then Some (0, dest)
       else do {
         dest \<leftarrow> for_range 0 (nat nitems) (\<lambda>i dest. do {
           v \<leftarrow> load_el (nat typesize) src 32;
           store_el dest (p + i * nat typesize) v }) dest;
         Some (nitems, dest) })"

section \<open>A block\<close>

text \<open>The tables of a chunk with blocks of variable length.\<close>

record block_tables =
  bt_blocknbytes :: "int list"
  bt_blockoffsets :: "int list"
  bt_blockcbytes :: "int list"

text \<open>
  \<open>blosc_c\<close>: buffer \<open>chunk\<close> is the source of the block, which starts at \<open>offset\<close>; buffer 1 is the destination, written from
  \<open>op\<close> on.
\<close>

definition blosc_c ::
    "bool \<Rightarrow> shuffle_implementation \<Rightarrow> (byte \<Rightarrow> user_filter option) \<Rightarrow> (int \<Rightarrow> codec_fun option) \<Rightarrow> prefilter option \<Rightarrow> blosc2_context \<Rightarrow>
      int \<Rightarrow> bool \<Rightarrow> int \<Rightarrow> int \<Rightarrow> nat \<Rightarrow> int \<Rightarrow> nat \<Rightarrow> buf list \<Rightarrow> (int \<times> buf list) option" where
  "blosc_c le host user enc pre context bsize leftoverblock ntbytes destsize chunk offset op mem = do {
     let memcpyed = (ctx_header_flags context AND BLOSC_MEMCPYED \<noteq> 0);
     (r, mem) \<leftarrow> (if last_filter (ctx_filters context) True \<ge> 0 \<or> pre \<noteq> None then
         if memcpyed \<and> pre \<noteq> None then do {
           (p, mem) \<leftarrow> pipeline_forward le host user pre context bsize chunk offset (1, op) (3, 0) mem;
           Some (Inl (case p of None \<Rightarrow> BLOSC2_ERROR_FILTER_PIPELINE | Some _ \<Rightarrow> bsize), mem) }
         else do {
           (p, mem) \<leftarrow> pipeline_forward le host user pre context bsize chunk offset (2, 0) (3, 0) mem;
           Some (case p of None \<Rightarrow> Inl BLOSC2_ERROR_FILTER_PIPELINE | Some p \<Rightarrow> Inr p, mem) }
       else Some (Inr (chunk, nat offset), mem));
     case r of Inl rc \<Rightarrow> Some (rc, mem)
     | Inr p \<Rightarrow> do {
         src \<leftarrow> deref mem p;
         dest \<leftarrow> deref mem (1, 0);
         (rc, dest) \<leftarrow> compress_streams le enc context (disposable pre) bsize leftoverblock ntbytes destsize src op dest;
         Some (rc, mem[1 := dest]) } }"

text \<open>The branch of \<open>blosc_d\<close> for copied chunks and chunks of a special value.\<close>

definition fill_block ::
    "bool \<Rightarrow> blosc2_context \<Rightarrow> int \<Rightarrow> int \<Rightarrow> buf \<Rightarrow> int \<Rightarrow> buf \<Rightarrow> nat \<Rightarrow> (int \<times> buf) option" where
  "fill_block le context typesize bsize src sp dest p =
    (let special = ctx_special_type context in
     if special = BLOSC2_SPECIAL_VALUE then do {
       (rc, dest) \<leftarrow> set_values typesize src dest p bsize;
       Some (if rc < 0 then BLOSC2_ERROR_DATA else 0, dest) }
     else if special = BLOSC2_SPECIAL_NAN then do {
       (rc, dest) \<leftarrow> set_nans le (ctx_typesize context) dest p bsize;
       Some (if rc < 0 then BLOSC2_ERROR_DATA else 0, dest) }
     else if special = BLOSC2_SPECIAL_ZERO then do {
       dest \<leftarrow> memset dest p 0 (nat bsize);
       Some (0, dest) }
     else if special = BLOSC2_SPECIAL_UNINIT then Some (0, dest)
     else do {
       dest \<leftarrow> memcpy dest p src (nat sp) (nat bsize);
       Some (0, dest) })"

definition blosc_d_copy ::
    "bool \<Rightarrow> postfilter option \<Rightarrow> blosc2_context \<Rightarrow> int \<Rightarrow> bool \<Rightarrow> int \<Rightarrow> int \<Rightarrow> int \<Rightarrow> buf \<Rightarrow> int \<Rightarrow> nat \<Rightarrow> int \<Rightarrow> buf list \<Rightarrow>
      (int \<times> buf list) option" where
  "blosc_d_copy le post context bsize leftoverblock typesize chunk_nbytes chunk_cbytes src nblock chunk dest_offset mem =
    (if leftoverblock \<and> ctx_blocksize context = 0 then None
     else do {
       let bsize' = (if leftoverblock then chunk_nbytes smod ctx_blocksize context else bsize);
       sp \<leftarrow> i32 (ctx_header_overhead context + nblock * ctx_blocksize context);
       if ctx_special_type context = 0 \<and> chunk_nbytes + ctx_header_overhead context \<noteq> chunk_cbytes
       then Some (BLOSC2_ERROR_WRITE_BUFFER, mem)
       else if ctx_special_type context = 0 \<and> chunk_cbytes < sp + bsize' then Some (BLOSC2_ERROR_READ_BUFFER, mem)
       else do {
         let out = (chunk, nat dest_offset);
         let p = (if post \<noteq> None then (1, 0) else out);
         dest \<leftarrow> deref mem (fst p, 0);
         (rc, dest) \<leftarrow> fill_block le context typesize bsize' src sp dest (snd p);
         let mem = mem[fst p := dest];
         if rc < 0 then Some (rc, mem)
         else case post of None \<Rightarrow> Some (bsize', mem)
           | Some pf \<Rightarrow> do {
               (rc, mem) \<leftarrow> run_postfilter pf bsize (nblock * ctx_blocksize context) (1, 0) out mem;
               Some (if rc < 0 then rc else bsize', mem) } } })"

text \<open>The compressed bytes of a block: the rest of the source, or what the table of blocks of variable length says.\<close>

definition block_srcsize :: "blosc2_context \<Rightarrow> block_tables option \<Rightarrow> int \<Rightarrow> int \<Rightarrow> int \<Rightarrow> int option option" where
  "block_srcsize context tables nblock src_offset srcsize =
    (if \<not> ctx_vlblocks context then Some (Some (srcsize - src_offset))
     else case tables of None \<Rightarrow> Some None
     | Some t \<Rightarrow>
         if nblock \<ge> ctx_nblocks context then Some None
         else do {
           csize \<leftarrow> load (bt_blockcbytes t) (nat nblock);
           Some (if csize \<le> 4 \<or> src_offset > srcsize - csize then None else Some csize) })"

definition blosc_d ::
    "bool \<Rightarrow> shuffle_implementation \<Rightarrow> (byte \<Rightarrow> user_filter option) \<Rightarrow> (int \<Rightarrow> int \<Rightarrow> codec_fun option) \<Rightarrow> postfilter option \<Rightarrow>
      bool list option \<Rightarrow> block_tables option \<Rightarrow> blosc2_context \<Rightarrow> int \<Rightarrow> bool \<Rightarrow> bool \<Rightarrow> buf \<Rightarrow> int \<Rightarrow> int \<Rightarrow> int \<Rightarrow> nat \<Rightarrow> int \<Rightarrow> buf list \<Rightarrow>
      (int \<times> buf list) option" where
  "blosc_d le host user' dec post maskout tables context bsize leftoverblock memcpyed src srcsize src_offset nblock chunk dest_offset mem = do {
     masked \<leftarrow> (case maskout of None \<Rightarrow> Some False | Some m \<Rightarrow> load m (nat nblock));
     if masked then Some (bsize, mem)
     else do {
       (rc, chunk_nbytes, chunk_cbytes, _) \<leftarrow> blosc2_cbuffer_sizes le src;
       if rc < 0 then Some (rc, mem)
       else
         let typesize = (if ctx_special_type context = BLOSC2_SPECIAL_VALUE then chunk_cbytes - ctx_header_overhead context
                         else ctx_typesize context);
             is_lazy = (ctx_header_overhead context = BLOSC_EXTENDED_HEADER_LENGTH \<and> ctx_blosc2_flags context AND 8 \<noteq> 0 \<and>
                        ctx_special_type context = 0)
         in if is_lazy then Some (BLOSC2_ERROR_INVALID_PARAM, mem)
         else if memcpyed
         then blosc_d_copy le post context bsize leftoverblock typesize chunk_nbytes chunk_cbytes src nblock chunk dest_offset mem
         else if src_offset \<le> 0 \<or> src_offset \<ge> srcsize then Some (BLOSC2_ERROR_DATA, mem)
         else do {
           csize \<leftarrow> block_srcsize context tables nblock src_offset srcsize;
           case csize of None \<Rightarrow> Some (BLOSC2_ERROR_DATA, mem)
           | Some srcsize \<Rightarrow> do {
               let filters = ctx_filters context;
               let lfi = last_filter filters False;
               let p = (if lfi \<ge> 0 \<and> next_filter filters BLOSC2_MAX_FILTERS False \<noteq> BLOSC_DELTA \<or> post \<noteq> None
                        then (1, 0) else (chunk, nat dest_offset));
               dest \<leftarrow> deref mem (fst p, 0);
               r \<leftarrow> decompress_streams le dec context bsize leftoverblock src (nat src_offset) srcsize dest (snd p);
               case r of Inl e \<Rightarrow> Some (e, mem)
               | Inr (ntbytes, dest) \<Rightarrow>
                   let mem = mem[fst p := dest] in
                   if lfi \<ge> 0 \<or> post \<noteq> None then do {
                     version \<leftarrow> load src 0;
                     (errcode, mem) \<leftarrow> pipeline_backward host user' post context version bsize chunk dest_offset (1, 0) (2, 0) (3, 0) lfi nblock mem;
                     Some (if errcode < 0 then errcode else ntbytes, mem) }
                   else Some (ntbytes, mem) } } } }"

section \<open>The loops over the blocks\<close>

text \<open>The size of block \<open>j\<close> and whether it is the shorter last one.\<close>

definition block_extent :: "blosc2_context \<Rightarrow> block_tables option \<Rightarrow> nat \<Rightarrow> (int \<times> bool) option" where
  "block_extent context tables j =
    (if ctx_vlblocks context then do {
       t \<leftarrow> tables;
       bsize \<leftarrow> load (bt_blocknbytes t) j;
       Some (bsize, False) }
     else if int j = ctx_nblocks context - 1 \<and> ctx_leftover context > 0 then Some (ctx_leftover context, True)
     else Some (ctx_blocksize context, False))"

definition block_offset :: "blosc2_context \<Rightarrow> nat \<Rightarrow> int option" where
  "block_offset context j = i32 (int j * ctx_blocksize context)"

text \<open>Writing the start of block \<open>j\<close>, and the block, in a compression.\<close>

definition store_bstart :: "bool \<Rightarrow> blosc2_context \<Rightarrow> nat \<Rightarrow> int \<Rightarrow> buf list \<Rightarrow> buf list option" where
  "store_bstart le context j ntbytes mem = do {
     bstarts \<leftarrow> ctx_bstarts context;
     dest \<leftarrow> deref mem (1, 0);
     dest \<leftarrow> store_sw32 le dest (bstarts + 4 * j) ntbytes;
     Some (mem[1 := dest]) }"

fun serial_compress ::
    "bool \<Rightarrow> shuffle_implementation \<Rightarrow> (byte \<Rightarrow> user_filter option) \<Rightarrow> (int \<Rightarrow> codec_fun option) \<Rightarrow> prefilter option \<Rightarrow> block_tables option \<Rightarrow>
      blosc2_context \<Rightarrow> nat list \<Rightarrow> int \<Rightarrow> buf list \<Rightarrow> (int \<times> buf list) option" where
  "serial_compress le host user enc pre tables context [] ntbytes mem = Some (ntbytes, mem)"
| "serial_compress le host user enc pre tables context (j # js) ntbytes mem = do {
     let memcpyed = (ctx_header_flags context AND BLOSC_MEMCPYED \<noteq> 0);
     mem \<leftarrow> (if \<not> memcpyed \<and> \<not> dict_training context then store_bstart le context j ntbytes mem else Some mem);
     (bsize, leftoverblock) \<leftarrow> block_extent context tables j;
     (cbytes, mem) \<leftarrow> (if memcpyed \<and> pre = None then do {
         offset \<leftarrow> block_offset context j;
         src \<leftarrow> deref mem (0, nat offset);
         dest \<leftarrow> deref mem (1, 0);
         dest \<leftarrow> memcpy dest (nat (ctx_header_overhead context + offset)) src 0 (nat bsize);
         Some (bsize, mem[1 := dest]) }
       else do {
         offset \<leftarrow> (if ctx_vlblocks context then Some 0 else block_offset context j);
         blosc_c le host user enc pre context bsize leftoverblock ntbytes (ctx_destsize context)
           (if ctx_vlblocks context then 4 + j else 0) offset (nat ntbytes) mem });
     if cbytes = 0 \<and> \<not> (memcpyed \<and> pre = None) then Some (0, mem)
     else if cbytes < 0 then Some (cbytes, mem)
     else do {
       ntbytes \<leftarrow> i32 (ntbytes + cbytes);
       serial_compress le host user enc pre tables context js ntbytes mem } }"

text \<open>\<open>vldests\<close> tells that every block of variable length has a destination of its own.\<close>

fun serial_decompress ::
    "bool \<Rightarrow> shuffle_implementation \<Rightarrow> (byte \<Rightarrow> user_filter option) \<Rightarrow> (int \<Rightarrow> int \<Rightarrow> codec_fun option) \<Rightarrow> postfilter option \<Rightarrow>
      bool list option \<Rightarrow> block_tables option \<Rightarrow> bool \<Rightarrow> blosc2_context \<Rightarrow> buf \<Rightarrow> nat list \<Rightarrow> int \<Rightarrow> buf list \<Rightarrow> (int \<times> buf list) option" where
  "serial_decompress le host user' dec post maskout tables vldests context src [] ntbytes mem = Some (ntbytes, mem)"
| "serial_decompress le host user' dec post maskout tables vldests context src (j # js) ntbytes mem = do {
     let memcpyed = (ctx_header_flags context AND BLOSC_MEMCPYED \<noteq> 0 \<or> ctx_special_type context \<noteq> 0);
     let own = (ctx_vlblocks context \<and> vldests);
     (bsize, leftoverblock) \<leftarrow> block_extent context tables j;
     src_offset \<leftarrow> (if memcpyed then do {
         offset \<leftarrow> block_offset context j;
         i32 (ctx_header_overhead context + offset) }
       else do { bstarts \<leftarrow> ctx_bstarts context; load_sw32 le src (bstarts + 4 * j) });
     dest_offset \<leftarrow> (if own then Some 0
       else if ctx_vlblocks context then do { t \<leftarrow> tables; load (bt_blockoffsets t) j }
       else block_offset context j);
     (cbytes, mem) \<leftarrow> blosc_d le host user' dec post maskout tables context bsize leftoverblock memcpyed src (ctx_srcsize context) src_offset
       (int j) (if own then 4 + j else 0) dest_offset mem;
     if cbytes < 0 then Some (cbytes, mem)
     else do {
       ntbytes \<leftarrow> i32 (ntbytes + cbytes);
       serial_decompress le host user' dec post maskout tables vldests context src js ntbytes mem } }"

section \<open>Jobs\<close>

text \<open>
  The temporaries of \<open>init_thread_context\<close>: four pieces of \<open>ebsize\<close> bytes of one allocation. A thread's
  temporaries are kept as long as the block size stays the same; here every job gets its own.
\<close>

definition thread_buffers :: "(nat \<Rightarrow> buf option) \<Rightarrow> blosc2_context \<Rightarrow> buf list option option" where
  "thread_buffers alloc context = do {
     ebsize \<leftarrow> i32 (ctx_blocksize context + ctx_typesize context * 4);
     Some (case alloc (4 * nat ebsize) of None \<Rightarrow> None
       | Some tmp \<Rightarrow> Some (map (\<lambda>k. take (nat ebsize) (drop (k * nat ebsize) tmp)) [0..<4])) }"

text \<open>\<open>do_job\<close> of a context with one thread, for a compression and for a decompression.\<close>

definition do_compress_job ::
    "bool \<Rightarrow> shuffle_implementation \<Rightarrow> (nat \<Rightarrow> buf option) \<Rightarrow> (byte \<Rightarrow> user_filter option) \<Rightarrow> (int \<Rightarrow> codec_fun option) \<Rightarrow> prefilter option \<Rightarrow>
      block_tables option \<Rightarrow> blosc2_context \<Rightarrow> buf list \<Rightarrow> buf \<Rightarrow> buf \<Rightarrow> (int \<times> buf \<times> buf) option" where
  "do_compress_job le host alloc user enc pre tables context vlsources src dest = do {
     t \<leftarrow> thread_buffers alloc context;
     case t of None \<Rightarrow> Some (BLOSC2_ERROR_THREAD_CREATE, src, dest)
     | Some tmps \<Rightarrow> do {
         (rc, mem) \<leftarrow> serial_compress le host user enc pre tables context [0..<nat (ctx_nblocks context)] (ctx_output_bytes context)
           ([src, dest] @ take 2 tmps @ vlsources);
         Some (rc, mem ! 0, mem ! 1) } }"

definition do_decompress_job ::
    "bool \<Rightarrow> shuffle_implementation \<Rightarrow> (nat \<Rightarrow> buf option) \<Rightarrow> (byte \<Rightarrow> user_filter option) \<Rightarrow> (int \<Rightarrow> int \<Rightarrow> codec_fun option) \<Rightarrow> postfilter option \<Rightarrow>
      bool list option \<Rightarrow> block_tables option \<Rightarrow> blosc2_context \<Rightarrow> buf \<Rightarrow> buf \<Rightarrow> (int \<times> buf) option" where
  "do_decompress_job le host alloc user' dec post maskout tables context src dest = do {
     t \<leftarrow> thread_buffers alloc context;
     case t of None \<Rightarrow> Some (BLOSC2_ERROR_THREAD_CREATE, dest)
     | Some tmps \<Rightarrow> do {
         (rc, mem) \<leftarrow> serial_decompress le host user' dec post maskout tables False context src [0..<nat (ctx_nblocks context)]
           (ctx_output_bytes context) (dest # [tmps ! 0, tmps ! 1, tmps ! 3]);
         Some (rc, mem ! 0) } }"

section \<open>Compressing a chunk\<close>

text \<open>The number of streams that \<open>blosc_compress_context\<close> expects.\<close>

definition chunk_nstreams :: "blosc2_context \<Rightarrow> int" where
  "chunk_nstreams context =
    (if dont_split context then ctx_nblocks context
     else if ctx_leftover context \<noteq> 0 then (ctx_nblocks context - 1) * ctx_typesize context + 1
     else ctx_nblocks context * ctx_typesize context)"

text \<open>
  \<open>blosc_compress_context\<close>: the result, the context, the source (which a pipeline of more than two filters
  overwrites) and the destination.
\<close>

definition finish_chunk :: "bool \<Rightarrow> blosc2_context \<Rightarrow> int \<Rightarrow> buf \<Rightarrow> (int \<times> buf) option" where
  "finish_chunk le context ntbytes dest = do {
     start_csizes \<leftarrow> i32 (ctx_header_overhead context + 4 * ctx_nblocks context);
     if \<not> dict_training context \<and> ntbytes = start_csizes + 4 * chunk_nstreams context then do {
       flags \<leftarrow> load dest 31;
       dest \<leftarrow> store dest 31 (flags OR word_of_int (BLOSC2_SPECIAL_ZERO * 2 ^ 4));
       Some (ctx_header_overhead context, dest) }
     else Some (ntbytes, dest) }"

definition blosc_compress_context ::
    "bool \<Rightarrow> shuffle_implementation \<Rightarrow> (nat \<Rightarrow> buf option) \<Rightarrow> (byte \<Rightarrow> user_filter option) \<Rightarrow> (int \<Rightarrow> codec_fun option) \<Rightarrow> prefilter option \<Rightarrow>
      block_tables option \<Rightarrow> blosc2_context \<Rightarrow> buf list \<Rightarrow> buf \<Rightarrow> buf \<Rightarrow> (int \<times> blosc2_context \<times> buf \<times> buf) option" where
  "blosc_compress_context le host alloc user enc pre tables context vlsources src dest = do {
     let memcpyed = (ctx_header_flags context AND BLOSC_MEMCPYED \<noteq> 0);
     (ntbytes, src, dest) \<leftarrow> (if memcpyed then Some (0, src, dest)
       else do_compress_job le host alloc user enc pre tables context vlsources src dest);
     if ntbytes < 0 then Some (ntbytes, context, src, dest)
     else do {
       let context = (if ntbytes = 0 then context\<lparr> ctx_header_flags := ctx_header_flags context OR BLOSC_MEMCPYED \<rparr> else context);
       let memcpyed = (memcpyed \<or> ntbytes = 0);
       (ntbytes, context, src, dest) \<leftarrow> (if memcpyed then do {
           total \<leftarrow> i32 (ctx_sourcesize context + ctx_header_overhead context);
           if total > ctx_destsize context then Some (0, context, src, dest)
           else do {
             let context = context\<lparr> ctx_output_bytes := ctx_header_overhead context \<rparr>;
             (ntbytes, src, dest) \<leftarrow> do_compress_job le host alloc user enc pre tables context vlsources src dest;
             if ntbytes < 0 then Some (ntbytes, context, src, dest)
             else do {
               dest \<leftarrow> store dest 2 (ctx_header_flags context);
               Some (ntbytes, context\<lparr> ctx_header_flags := ctx_header_flags context AND NOT BLOSC_MEMCPYED \<rparr>, src, dest) } } }
         else do {
           (ntbytes, dest) \<leftarrow> finish_chunk le context ntbytes dest;
           Some (ntbytes, context, src, dest) });
       if ntbytes < 0 then Some (ntbytes, context, src, dest)
       else do {
         dest \<leftarrow> store_sw32 le dest 12 ntbytes;
         Some (ntbytes, context\<lparr> ctx_destsize := ntbytes \<rparr>, src, dest) } } }"

text \<open>
  \<open>blosc2_compress_ctx\<close>. The second pass of a compression with a dictionary is \<open>train\<close>, which starts after the first.
\<close>

definition blosc2_compress_ctx ::
    "bool \<Rightarrow> shuffle_implementation \<Rightarrow> (nat \<Rightarrow> buf option) \<Rightarrow> (byte \<Rightarrow> user_filter option) \<Rightarrow> (int \<Rightarrow> codec_fun option) \<Rightarrow> (int \<Rightarrow> int option) \<Rightarrow>
      (blosc2_context \<Rightarrow> buf \<Rightarrow> buf \<Rightarrow> (int \<times> blosc2_context \<times> buf \<times> buf) option) \<Rightarrow> prefilter option \<Rightarrow> blosc2_context \<Rightarrow> buf \<Rightarrow> int \<Rightarrow> buf \<Rightarrow> int \<Rightarrow>
      (int \<times> blosc2_context \<times> buf \<times> buf) option" where
  "blosc2_compress_ctx le host alloc user enc udcodec_version train pre context src srcsize dest destsize =
    (if \<not> ctx_do_compress context then Some (BLOSC2_ERROR_INVALID_PARAM, context, src, dest)
     else do {
       (error, context) \<leftarrow> initialize_context_compression context False srcsize destsize (ctx_clevel context) (ctx_filters context)
         (ctx_filters_meta context) (ctx_typesize context) (ctx_compcode context) (ctx_blocksize context) (ctx_splitmode context);
       if error \<le> 0 then Some (error, context, src, dest)
       else do {
         (error, context, dest) \<leftarrow> write_compression_header le udcodec_version context True dest;
         if error < 0 then Some (error, context, src, dest)
         else do {
           (cbytes, context, src, dest) \<leftarrow> blosc_compress_context le host alloc user enc pre None context [] src dest;
           if cbytes < 0 then Some (cbytes, context, src, dest)
           else if dict_training context then train (context\<lparr> ctx_destsize := destsize \<rparr>) src dest
           else Some (cbytes, context, src, dest) } } })"

section \<open>Decompressing a chunk\<close>

text \<open>The offsets and sizes of the blocks of variable length, from block \<open>i\<close> on.\<close>

fun read_block_tables ::
    "bool \<Rightarrow> blosc2_context \<Rightarrow> buf \<Rightarrow> int \<Rightarrow> int \<Rightarrow> nat list \<Rightarrow> int \<Rightarrow> int \<Rightarrow> block_tables \<Rightarrow> (int + int \<times> block_tables) option" where
  "read_block_tables le context src bstarts_end cbytes [] tot prev t = Some (Inr (tot, t))"
| "read_block_tables le context src bstarts_end cbytes (i # rest) tot prev t = do {
     bstarts \<leftarrow> ctx_bstarts context;
     bstart \<leftarrow> load_sw32 le src (bstarts + 4 * i);
     next_bstart \<leftarrow> (if int i + 1 < ctx_nblocks context then load_sw32 le src (bstarts + 4 * (i + 1)) else Some cbytes);
     if bstart < bstarts_end \<or> bstart \<le> prev \<or> next_bstart \<le> bstart \<or> next_bstart > cbytes \<or> bstart > ctx_srcsize context - 4
     then Some (Inl BLOSC2_ERROR_INVALID_HEADER)
     else do {
       nbytes \<leftarrow> load_sw32 le src (nat bstart);
       if nbytes \<le> 0 then Some (Inl BLOSC2_ERROR_INVALID_HEADER)
       else if tot > INT_MAX then Some (Inl BLOSC2_ERROR_INVALID_HEADER)
       else if tot + nbytes > ctx_sourcesize context then Some (Inl BLOSC2_ERROR_INVALID_HEADER)
       else read_block_tables le context src bstarts_end cbytes rest (tot + nbytes) bstart
         (t\<lparr> bt_blocknbytes := bt_blocknbytes t @ [nbytes], bt_blockoffsets := bt_blockoffsets t @ [tot],
            bt_blockcbytes := bt_blockcbytes t @ [next_bstart - bstart] \<rparr>) } }"

text \<open>
  The dictionary of a chunk that is not lazy: its place in the source. \<open>ddict\<close> tells whether ZSTD accepts it.
\<close>

definition read_dict :: "bool \<Rightarrow> (buf \<Rightarrow> bool) \<Rightarrow> blosc2_context \<Rightarrow> buf \<Rightarrow> int \<Rightarrow> int \<Rightarrow> (int + blosc2_context) option" where
  "read_dict le ddict context src bstarts_end srcsize =
    (if ctx_blosc2_flags context AND BLOSC2_USEDICT = 0 then Some (Inr context)
     else let context = context\<lparr> ctx_use_dict := True \<rparr> in
       if srcsize < 4 then Some (Inl BLOSC2_ERROR_READ_BUFFER)
       else do {
         dict_size \<leftarrow> load_sw32 le src (nat bstarts_end);
         if dict_size \<le> 0 \<or> dict_size > 32 * 1024 then Some (Inl BLOSC2_ERROR_CODEC_DICT)
         else if srcsize - 4 < dict_size then Some (Inl BLOSC2_ERROR_READ_BUFFER)
         else if ctx_compcode context = BLOSC_ZSTD_FORMAT \<and> \<not> ddict (take (nat dict_size) (drop (nat bstarts_end + 4) src))
         then Some (Inl BLOSC2_ERROR_CODEC_DICT)
         else Some (Inr context) })"

text \<open>
  \<open>initialize_context_decompression\<close> for a chunk that is not lazy: the checks of the header against the context, then the sections
  behind the header. Of the mask of blocks only the number of items counts here.
\<close>

definition decompression_error :: "bool list option \<Rightarrow> blosc2_context \<Rightarrow> blosc_header \<Rightarrow> int option" where
  "decompression_error maskout context header =
    (if ctx_sourcesize context > ctx_destsize context then Some BLOSC2_ERROR_WRITE_BUFFER
     else if maskout \<noteq> None \<and> int (length (the maskout)) \<noteq> ctx_nblocks context then Some BLOSC2_ERROR_DATA
     else if ctx_special_type context > BLOSC2_SPECIAL_LASTID then Some BLOSC2_ERROR_DATA
     else if ctx_header_flags context AND BLOSC_MEMCPYED \<noteq> 0 \<and> hdr_cbytes header \<noteq> hdr_nbytes header + ctx_header_overhead context
     then Some BLOSC2_ERROR_DATA
     else None)"

definition read_sections ::
    "bool \<Rightarrow> (buf \<Rightarrow> bool) \<Rightarrow> blosc2_context \<Rightarrow> blosc_header \<Rightarrow> buf \<Rightarrow> int \<Rightarrow> (int + blosc2_context \<times> block_tables option) option" where
  "read_sections le ddict context header src srcsize =
    (let plain = (ctx_special_type context = 0 \<and> ctx_header_flags context AND BLOSC_MEMCPYED = 0);
         bstarts_end = (if plain then ctx_header_overhead context + 4 * ctx_nblocks context else ctx_header_overhead context)
     in if plain \<and> (ctx_nblocks context < 0 \<or> bstarts_end > INT_MAX) then Some (Inl BLOSC2_ERROR_INVALID_HEADER)
     else if srcsize < bstarts_end then Some (Inl BLOSC2_ERROR_READ_BUFFER)
     else do {
       r \<leftarrow> read_dict le ddict context src bstarts_end (srcsize - bstarts_end);
       case r of Inl e \<Rightarrow> Some (Inl e)
       | Inr context \<Rightarrow>
           if ctx_vlblocks context \<and> plain then do {
             r \<leftarrow> read_block_tables le context src bstarts_end (hdr_cbytes header) [0..<nat (ctx_nblocks context)] 0 0
               \<lparr> bt_blocknbytes = [], bt_blockoffsets = [], bt_blockcbytes = [] \<rparr>;
             case r of Inl e \<Rightarrow> Some (Inl e)
             | Inr (tot, t) \<Rightarrow>
                 if tot \<noteq> ctx_sourcesize context then Some (Inl BLOSC2_ERROR_INVALID_HEADER)
                 else Some (Inr (context\<lparr> ctx_blocksize := foldl max 0 (bt_blocknbytes t), ctx_leftover := 0 \<rparr>, Some t)) }
           else Some (Inr (context, None)) })"

definition initialize_context_decompression ::
    "bool \<Rightarrow> (buf \<Rightarrow> bool) \<Rightarrow> bool list option \<Rightarrow> blosc2_context \<Rightarrow> blosc_header \<Rightarrow> buf \<Rightarrow> int \<Rightarrow> int \<Rightarrow>
      (int + blosc2_context \<times> block_tables option) option" where
  "initialize_context_decompression le ddict maskout context header src srcsize destsize = do {
     (rc, context) \<leftarrow> blosc2_initialize_context_from_header (context\<lparr> ctx_do_compress := False, ctx_srcsize := srcsize,
       ctx_destsize := destsize, ctx_output_bytes := 0 \<rparr>) header;
     if rc < 0 then Some (Inl rc)
     else
       let context = context\<lparr> ctx_special_type := special_type (hdr_blosc2_flags header) \<rparr>
       in case decompression_error maskout context header of Some e \<Rightarrow> Some (Inl e)
       | None \<Rightarrow>
           if hdr_nbytes header = 0 \<and> hdr_cbytes header = ctx_header_overhead context \<and> ctx_special_type context = 0
           then Some (Inr (context, None))
           else read_sections le ddict (context\<lparr> ctx_bstarts := Some (nat (ctx_header_overhead context)) \<rparr>) header src srcsize }"

definition blosc_run_decompression_with_context ::
    "bool \<Rightarrow> shuffle_implementation \<Rightarrow> (nat \<Rightarrow> buf option) \<Rightarrow> (byte \<Rightarrow> user_filter option) \<Rightarrow> (int \<Rightarrow> int \<Rightarrow> codec_fun option) \<Rightarrow> (buf \<Rightarrow> bool) \<Rightarrow>
      postfilter option \<Rightarrow> bool list option \<Rightarrow> blosc2_context \<Rightarrow> buf \<Rightarrow> int \<Rightarrow> buf \<Rightarrow> int \<Rightarrow> (int \<times> buf) option" where
  "blosc_run_decompression_with_context le host alloc user' dec ddict post maskout context src srcsize dest destsize = do {
     r \<leftarrow> read_chunk_header le src srcsize True;
     case r of Inl rc \<Rightarrow> Some (rc, dest)
     | Inr header \<Rightarrow>
         if hdr_nbytes header > destsize then Some (BLOSC2_ERROR_WRITE_BUFFER, dest)
         else do {
           r \<leftarrow> initialize_context_decompression le ddict maskout context header src srcsize destsize;
           case r of Inl rc \<Rightarrow> Some (rc, dest)
           | Inr (context, tables) \<Rightarrow> do {
               (ntbytes, dest) \<leftarrow> do_decompress_job le host alloc user' dec post maskout tables context src dest;
               if ntbytes > destsize then None else Some (ntbytes, dest) } } }"

definition blosc2_decompress_ctx ::
    "bool \<Rightarrow> shuffle_implementation \<Rightarrow> (nat \<Rightarrow> buf option) \<Rightarrow> (byte \<Rightarrow> user_filter option) \<Rightarrow> (int \<Rightarrow> int \<Rightarrow> codec_fun option) \<Rightarrow> (buf \<Rightarrow> bool) \<Rightarrow>
      postfilter option \<Rightarrow> bool list option \<Rightarrow> blosc2_context \<Rightarrow> buf \<Rightarrow> int \<Rightarrow> buf \<Rightarrow> int \<Rightarrow> (int \<times> buf) option" where
  "blosc2_decompress_ctx le host alloc user' dec ddict post maskout context src srcsize dest destsize =
    (if ctx_do_compress context then Some (BLOSC2_ERROR_INVALID_PARAM, dest)
     else blosc_run_decompression_with_context le host alloc user' dec ddict post maskout context src srcsize dest destsize)"

end
