(* ===== verification/Chunk_Roundtrip.thy ===== *)
theory Chunk_Roundtrip
  imports Chunk_Codec
begin

text \<open>
  What is compressed is decompressed: blocks and chunks with BloscLZ and a pipeline of invertible filters.
  The proofs follow the code: a block forward and backward, the two loops over the blocks, the copied chunk,
  the chunk of zeros, and the header.
\<close>

section \<open>A block\<close>

text \<open>
  A context whose blocks can be restored: BloscLZ, a type size of a chunk, filters that are undone, no blocks of
  variable length and no training. \<open>host\<close> is the table of shuffle routines.
\<close>

definition pipeline_ok ::
    "(byte \<Rightarrow> user_filter option) \<Rightarrow> (byte \<Rightarrow> user_filter option) \<Rightarrow> blosc2_context \<Rightarrow> bool" where
  "pipeline_ok user user' context \<longleftrightarrow> 1 \<le> ctx_typesize context \<and> ctx_typesize context \<le> 255 \<and>
    (\<forall>n. \<forall>i < 6. invertible_filter user user' context n i)"

lemma pipeline_ok_invertible:
  "pipeline_ok user user' context \<Longrightarrow> \<exists>i < 6. ctx_filters context ! i \<noteq> BLOSC_NOFILTER \<Longrightarrow> invertible_pipeline user user' context n"
  by (simp add: pipeline_ok_def invertible_pipeline_def)

lemma last_filter_none:
  assumes "\<forall>i < 6. fs ! i = BLOSC_NOFILTER"
  shows "last_filter fs c = - 1"
proof -
  have "\<not> (\<exists>i < BLOSC2_MAX_FILTERS. \<not> do_nothing (fs ! i) c)" using assms by (auto simp: do_nothing_def)
  then show ?thesis unfolding last_filter_def last_filter_from_eq by simp
qed

lemma last_filter_some:
  assumes "i < 6" "fs ! i \<noteq> BLOSC_NOFILTER" "c \<or> fs ! i \<noteq> BLOSC_TRUNC_PREC"
  shows "last_filter fs c \<ge> 0"
proof -
  have "\<exists>i < BLOSC2_MAX_FILTERS. \<not> do_nothing (fs ! i) c" using assms by (auto simp: do_nothing_def)
  then show ?thesis by (simp add: last_filter_def last_filter_from_eq)
qed

text \<open>A block that \<open>blosc_c\<close> does not give up is stored as a code of its filtered bytes.\<close>

definition stored_block ::
    "shuffle_implementation \<Rightarrow> (byte \<Rightarrow> user_filter option) \<Rightarrow> (byte \<Rightarrow> user_filter option) \<Rightarrow> blosc2_context \<Rightarrow> byte \<Rightarrow> nat \<Rightarrow> buf \<Rightarrow> buf \<Rightarrow> bool" where
  "stored_block host user user' context v k x code \<longleftrightarrow>
    (\<exists>z m. length x = k * m \<and> 0 < m \<and> pipeline_codes host user user' context v (length x) [0..<6] x z \<and>
      block_code blosclz_decompress k m z code)"

context shuffle_host
begin

text \<open>The filtered bytes that \<open>blosc_c\<close> cuts into streams.\<close>

lemma blosc_c_eq:
  assumes "pipeline_ok user user' context" "active_filters context [0..<6] \<le> 2" "v \<noteq> BLOSC1_VERSION_FORMAT"
    and "nat offset + n \<le> length src" "n \<le> length tmp" "n \<le> length tmp2"
  shows "\<exists>z w tmp' tmp2'. pipeline_codes host user user' context v n [0..<6] (take n (drop (nat offset) src)) z \<and>
    n \<le> length w \<and> take n w = z \<and> length tmp' = length tmp \<and> length tmp2' = length tmp2 \<and>
    blosc_c le host user enc None context (int n) left ntbytes destsize 0 offset op [src, dest, tmp, tmp2] =
      do { (rc, dest) \<leftarrow> compress_streams le enc context False (int n) left ntbytes destsize w op dest;
           Some (rc, [src, dest, tmp', tmp2']) }"
proof (cases "\<exists>i < 6. ctx_filters context ! i \<noteq> BLOSC_NOFILTER")
  case False
  then have nf: "\<forall>i < 6. ctx_filters context ! i = BLOSC_NOFILTER" by blast
  have "last_filter (ctx_filters context) True = - 1" by (rule last_filter_none[OF nf])
  then have "blosc_c le host user enc None context (int n) left ntbytes destsize 0 offset op [src, dest, tmp, tmp2] =
      do { (rc, dest) \<leftarrow> compress_streams le enc context False (int n) left ntbytes destsize (drop (nat offset) src) op dest;
           Some (rc, [src, dest, tmp, tmp2]) }"
    by (simp add: blosc_c_def deref_def disposable_def Let_def)
  moreover have "pipeline_codes host user user' context v n [0..<6] (take n (drop (nat offset) src)) (take n (drop (nat offset) src))"
    using pipeline_codes_nofilter[of "[0..<6]" "context"] nf assms(4) by simp
  ultimately show ?thesis using assms(4)
    by (intro exI[of _ "take n (drop (nat offset) src)"] exI[of _ "drop (nat offset) src"] exI[of _ tmp] exI[of _ tmp2]) simp
next
  case True
  then obtain i where i: "i < 6" "ctx_filters context ! i \<noteq> BLOSC_NOFILTER" by blast
  have lf: "last_filter (ctx_filters context) True \<ge> 0" by (rule last_filter_some[OF i]) simp
  let ?mem = "[src, dest, tmp, tmp2]"
  have ok: "ptr_ok ?mem n (0, nat offset)" "ptr_ok ?mem n (2, 0)" "ptr_ok ?mem n (3, 0)" "distinct [0 :: nat, fst (2 :: nat, 0 :: nat), fst (3 :: nat, 0 :: nat)]"
    using assms(4-6) by (simp_all add: ptr_ok_def)
  obtain p mem' where f: "pipeline_forward le host user None context (int n) 0 offset (2, 0) (3, 0) ?mem = Some (Some p, mem')"
    "pipeline_codes host user user' context v n [0..<6] (take n (view ?mem (0, nat offset))) (take n (view mem' p))"
    "p = forward_result (active_filters context [0..<6]) ((0, nat offset), (2, 0), (3, 0))" "forward_keeps (active_filters context [0..<6]) (0, nat offset) (2, 0) (3, 0) ?mem mem'"
    using pipeline_forward_codes[OF pipeline_ok_invertible[OF assms(1) True] assms(3) ok, of le] by blast
  have pin: "p \<in> {(0, nat offset), (2, 0), (3, 0)}" using f(3) by (simp add: forward_result_def)
  have lens: "length mem' = 4" "\<forall>b. length (mem' ! b) = length (?mem ! b)" "mem' ! 0 = src" "mem' ! 1 = dest"
    using f(4) assms(2) by (auto simp: forward_keeps_def)
  then obtain tmp' tmp2' where mem': "mem' = [src, dest, tmp', tmp2']"
    by (auto simp: length_Suc_conv eval_nat_numeral)
  have lt: "length tmp' = length tmp" "length tmp2' = length tmp2"
    using lens(2)[rule_format, of 2] lens(2)[rule_format, of 3] mem' by simp_all
  have pok: "fst p < 4" "ptr_ok mem' n p" using pin ok lens(1,2) by (auto simp: ptr_ok_same_lengths[of mem' ?mem])
  have "blosc_c le host user enc None context (int n) left ntbytes destsize 0 offset op ?mem =
      do { (rc, dest) \<leftarrow> compress_streams le enc context False (int n) left ntbytes destsize (view mem' p) op dest;
           Some (rc, [src, dest, tmp', tmp2']) }"
    using f(1) lf pok lens(4) mem' by (simp add: blosc_c_def view_def deref_def disposable_def Let_def)
  then show ?thesis
    using f(2) lt view_length[OF pok(2)]
    by (intro exI[of _ "take n (view mem' p)"] exI[of _ "view mem' p"] exI[of _ tmp'] exI[of _ tmp2']) (simp add: view_def)
qed

lemma blosc_c_block:
  assumes "pipeline_ok user user' context" "active_filters context [0..<6] \<le> 2" "v \<noteq> BLOSC1_VERSION_FORMAT" "blosclz_context context"
    and "d_nstreams context left = int k" "0 < k" "n = k * m" "0 < m" "m < 2 ^ 31 - 300"
    and "nat offset + n \<le> length src" "n \<le> length tmp" "n \<le> length tmp2"
    and "0 \<le> ntbytes" "ntbytes \<le> destsize" "nat destsize \<le> length dest" "destsize + int m < 2 ^ 31 - 16"
  shows "\<exists>r dest' tmp' tmp2'. blosc_c le host user enc None context (int n) left ntbytes destsize 0 offset (nat ntbytes) [src, dest, tmp, tmp2] =
      Some (int r, [src, dest', tmp', tmp2']) \<and> length tmp' = length tmp \<and> length tmp2' = length tmp2 \<and>
    within (nat ntbytes) (nat destsize) dest dest' \<and>
    (r \<noteq> 0 \<longrightarrow> nat ntbytes + r \<le> nat destsize \<and>
      stored_block host user user' context v k (take n (drop (nat offset) src)) (take r (drop (nat ntbytes) dest')))"
proof -
  note c = assms(4)[unfolded blosclz_context_def]
  have cc: "\<not> ctx_vlblocks context" "\<not> dict_training context" "0 < ctx_clevel context" using c by auto
  have d: "block_codec (blosclz_compress le (nat (ctx_clevel context))) blosclz_decompress"
    by (rule blosclz_context_codec(3)[OF assms(4)])
  have k: "c_nstreams context left = int k" using blosclz_context_codec(4)[OF assms(4)] assms(5) by simp
  let ?x = "take n (drop (nat offset) src)"
  obtain z w tmp' tmp2' where z: "pipeline_codes host user user' context v n [0..<6] ?x z"
    "n \<le> length w" "take n w = z" "length tmp' = length tmp" "length tmp2' = length tmp2"
    "blosc_c le host user enc None context (int n) left ntbytes destsize 0 offset (nat ntbytes) [src, dest, tmp, tmp2] =
      do { (rc, dest) \<leftarrow> compress_streams le enc context False (int n) left ntbytes destsize w (nat ntbytes) dest;
           Some (rc, [src, dest, tmp', tmp2']) }"
    using blosc_c_eq[OF assms(1-3,10-12)] by blast
  have kw: "k * m \<le> length w" "nat ntbytes \<le> nat ntbytes" "nat ntbytes - nat ntbytes + nat destsize \<le> length dest"
    using z(2) assms(7,15) by simp_all
  obtain r dest' where r: "compress_streams le enc context False (int (k * m)) left ntbytes destsize w (nat ntbytes) dest = Some (int r, dest')"
    "within (nat ntbytes) (nat destsize) dest dest'"
    "r \<noteq> 0 \<longrightarrow> nat ntbytes + r \<le> nat destsize \<and>
      block_code blosclz_decompress k m (take (k * m) w) (take r (drop (nat ntbytes) dest'))"
    using block_codec.compress_streams_code[OF d blosclz_context_codec(1)[OF assms(4)] cc k assms(6,8,9) kw(1,2) assms(13,14) kw(3) assms(16),
        unfolded diff_self_eq_0 add_0]
    by blast
  have "length ?x = k * m" using assms(7,10) by simp
  then have "stored_block host user user' context v k ?x (take r (drop (nat ntbytes) dest'))" if "r \<noteq> 0"
    unfolding stored_block_def using r(3) that z(1,3) assms(7,8) by (intro exI[of _ z] exI[of _ m]) simp
  with r z(4-6) assms(7) show ?thesis by (intro exI[of _ r] exI[of _ dest'] exI[of _ tmp'] exI[of _ tmp2']) simp
qed

text \<open>
  \<open>blosc_d\<close> on such a code, for a context that is neither lazy nor of a special value: the block is in its place, and nothing else
  of the destination changes.
\<close>

lemma blosc_d_block:
  assumes "pipeline_ok user user' context" "ctx_compformat context = 0" "\<not> ctx_vlblocks context" "ctx_special_type context = 0"
    and "ctx_blosc2_flags context AND 8 = 0" "d_nstreams context left = int k" "0 < k"
    and "stored_block host user user' context v k x code" "length x < 2 ^ 31"
    and "blosc2_cbuffer_sizes le src = Some (0, cn, cc, cb)" "load src 0 = Some v"
    and "0 < src_offset" "src_offset < srcsize" "take (length code) (drop (nat src_offset) src) = code"
    and "int (length code) \<le> srcsize - src_offset"
    and "nat offset + length x \<le> length dest" "length x \<le> length t1" "length x \<le> length t2" "length x \<le> length t3"
  shows "\<exists>t1' t2' t3'. blosc_d le host user' dec None None None context (int (length x)) left False src srcsize src_offset nblock 0 offset
      [dest, t1, t2, t3] = Some (int (length x), [take (nat offset) dest @ x @ drop (nat offset + length x) dest, t1', t2', t3']) \<and>
    length t1' = length t1 \<and> length t2' = length t2 \<and> length t3' = length t3"
proof -
  let ?n = "length x" and ?fs = "ctx_filters context" and ?o = "nat offset"
  obtain z m where z: "?n = k * m" "0 < m" "pipeline_codes host user user' context v ?n [0..<6] x z" "block_code blosclz_decompress k m z code"
    using assms(8) unfolding stored_block_def by blast
  have lz: "length z = ?n" using pipeline_codes_length[OF z(3)] by simp
  have dec: "block_decoder dec context = Some blosclz_decompress" using assms(2) by (simp add: block_decoder_def)
  have "m \<le> ?n" using z(1,2) assms(7) by simp
  then have m: "m < 2 ^ 31" using assms(9) by simp
  have cd: "block_codec (blosclz_compress True 5) blosclz_decompress" by (rule blosclz_codec) simp_all
  have streams: "\<exists>dest'. decompress_streams le dec context (int ?n) left src (nat src_offset) (srcsize - src_offset) d dp =
      Some (Inr (int ?n, dest')) \<and> within dp (dp + ?n) d dest' \<and> take ?n (drop dp dest') = z" if "dp + ?n \<le> length d" for d dp
    unfolding z(1) by (rule block_codec.decompress_streams_code[OF cd dec assms(3,6,7) z(2) m z(4) assms(14,15) that[unfolded z(1)]])
  have inv: "\<forall>i < 6. ?fs ! i \<noteq> BLOSC_DELTA \<and> ?fs ! i \<noteq> BLOSC_TRUNC_PREC"
  proof -
    have "\<forall>i < 6. invertible_filter user user' context 0 i" using assms(1) by (simp add: pipeline_ok_def)
    then show ?thesis by (auto simp: invertible_filter_def)
  qed
  have nd: "next_filter ?fs BLOSC2_MAX_FILTERS False \<noteq> BLOSC_DELTA" using inv by (intro next_filter_not_delta) auto
  have so: "\<not> (src_offset \<le> 0 \<or> src_offset \<ge> srcsize)" using assms(12,13) by simp
  show ?thesis
  proof (cases "\<exists>i < 6. ?fs ! i \<noteq> BLOSC_NOFILTER")
    case False
    then have nf: "\<forall>i < 6. ?fs ! i = BLOSC_NOFILTER" by blast
    then have zx: "z = x" using z(3) pipeline_codes_nofilter[of "[0..<6]" "context"] by simp
    obtain dest' where d: "decompress_streams le dec context (int ?n) left src (nat src_offset) (srcsize - src_offset) dest ?o = Some (Inr (int ?n, dest'))"
      "within ?o (?o + ?n) dest dest'" "take ?n (drop ?o dest') = x"
      using streams[OF assms(16)] zx by blast
    have "dest' = take ?o dest @ x @ drop (?o + ?n) dest"
    proof -
      have "dest' = take ?o dest' @ take ?n (drop ?o dest') @ drop (?o + ?n) dest'"
        by (metis append_take_drop_id drop_drop add.commute)
      then show ?thesis using d(2,3) by (simp add: within_def)
    qed
    with d last_filter_none[OF nf] so assms show ?thesis
      by (simp add: blosc_d_def block_srcsize_def deref_def Let_def)
  next
    case True
    then obtain i where i: "i < 6" "?fs ! i \<noteq> BLOSC_NOFILTER" by blast
    have lf: "last_filter ?fs False \<ge> 0" by (rule last_filter_some[OF i]) (use inv i in auto)
    obtain t1' where t1: "decompress_streams le dec context (int ?n) left src (nat src_offset) (srcsize - src_offset) t1 0 = Some (Inr (int ?n, t1'))"
      "within 0 ?n t1 t1'" "take ?n t1' = z"
      using streams[of 0 t1] assms(17) by auto
    have l1: "length t1' = length t1" using t1(2) by (rule within_length)
    let ?mem = "[dest, t1', t2, t3]"
    have ok: "ptr_ok ?mem ?n (1, 0)" "ptr_ok ?mem ?n (2, 0)" "ptr_ok ?mem ?n (3, 0)" "ptr_ok ?mem ?n (0, ?o)"
      "distinct [0 :: nat, fst (1 :: nat, 0 :: nat), fst (2 :: nat, 0 :: nat), fst (3 :: nat, 0 :: nat)]"
      using assms(16-19) l1 by (simp_all add: ptr_ok_def)
    have vz: "take ?n (view ?mem (1, 0)) = z" using t1(3) by (simp add: view_def)
    obtain mem' where b: "pipeline_backward host user' None context v (int ?n) 0 offset (1, 0) (2, 0) (3, 0) (last_filter ?fs False) nblock ?mem = Some (0, mem')"
      "length mem' = length ?mem" "\<forall>b. length (mem' ! b) = length (?mem ! b)" "mem' ! 0 = take ?o (?mem ! 0) @ x @ drop (?o + ?n) (?mem ! 0)"
      using pipeline_backward_codes[OF pipeline_ok_invertible[OF assms(1) True] z(3) ok vz] by blast
    obtain d' a1 a2 a3 where mem': "mem' = [d', a1, a2, a3]" using b(2) by (auto simp: length_Suc_conv eval_nat_numeral)
    have la: "length a1 = length t1" "length a2 = length t2" "length a3 = length t3"
      using b(3)[rule_format, of 1] b(3)[rule_format, of 2] b(3)[rule_format, of 3] mem' l1 by simp_all
    have "d' = take ?o dest @ x @ drop (?o + ?n) dest" using b(4) mem' by simp
    with t1(1) b(1) mem' lf nd so assms show ?thesis
      by (auto simp: blosc_d_def block_srcsize_def deref_def Let_def la)
  qed
qed

end

section \<open>Buffers that agree on a range\<close>

definition agree :: "nat \<Rightarrow> nat \<Rightarrow> buf \<Rightarrow> buf \<Rightarrow> bool" where
  "agree p q a b \<longleftrightarrow> length b = length a \<and> (\<forall>i. p \<le> i \<longrightarrow> i < q \<longrightarrow> b ! i = a ! i)"

lemma agree_refl [simp]: "agree p q a a"
  by (simp add: agree_def)

lemma agree_trans: "agree p q a b \<Longrightarrow> agree p q b c \<Longrightarrow> agree p q a c"
  by (simp add: agree_def)

lemma agree_sub: "agree p q a b \<Longrightarrow> p \<le> p' \<Longrightarrow> q' \<le> q \<Longrightarrow> agree p' q' a b"
  by (simp add: agree_def)

lemma agree_length: "agree p q a b \<Longrightarrow> length b = length a"
  by (simp add: agree_def)

lemma agree_segment: "agree p q a b \<Longrightarrow> p \<le> x \<Longrightarrow> x + n \<le> q \<Longrightarrow> take n (drop x b) = take n (drop x a)"
  by (rule nth_equalityI) (auto simp: agree_def)

lemma within_agree: "within lo hi d d' \<Longrightarrow> agree 0 lo d d'"
  unfolding within_def agree_def by (metis nth_take)

lemma blit_agree:
  assumes "x + length v \<le> length d" "q \<le> x \<or> x + length v \<le> p"
  shows "agree p q d (take x d @ v @ drop (x + length v) d)"
  using assms by (auto simp: agree_def nth_append)

section \<open>The blocks of a buffer\<close>

text \<open>Size, length and last block of the cut that \<open>blosc2_calculate_blocks\<close> has made; \<open>j\<close> is the number of a block.\<close>

definition block_len :: "blosc2_context \<Rightarrow> nat \<Rightarrow> nat" where
  "block_len c j = nat (min (ctx_blocksize c) (ctx_sourcesize c - int j * ctx_blocksize c))"

definition block_left :: "blosc2_context \<Rightarrow> nat \<Rightarrow> bool" where
  "block_left c j \<longleftrightarrow> int j = ctx_nblocks c - 1 \<and> ctx_leftover c > 0"

definition block_start :: "blosc2_context \<Rightarrow> nat \<Rightarrow> nat" where
  "block_start c j = j * nat (ctx_blocksize c)"

definition block_bytes :: "blosc2_context \<Rightarrow> buf \<Rightarrow> nat \<Rightarrow> buf" where
  "block_bytes c src j = take (block_len c j) (drop (block_start c j) src)"

definition block_streams :: "blosc2_context \<Rightarrow> nat \<Rightarrow> nat" where
  "block_streams c j = nat (d_nstreams c (block_left c j))"

definition blocks_ok :: "blosc2_context \<Rightarrow> bool" where
  "blocks_ok c \<longleftrightarrow> 0 < ctx_blocksize c \<and> 0 \<le> ctx_sourcesize c \<and> ctx_sourcesize c < 2 ^ 31 \<and> ctx_blocksize c < 2 ^ 31 - 300 \<and>
    blosc2_calculate_blocks c = Some c \<and> \<not> ctx_vlblocks c \<and> 0 < ctx_typesize c"

text \<open>A block cut into one stream per byte of the type needs a multiple of the type size.\<close>

definition split_fits :: "blosc2_context \<Rightarrow> bool" where
  "split_fits c \<longleftrightarrow> dont_split c \<or> ctx_typesize c dvd ctx_blocksize c"

lemma blocks_ok_count:
  assumes "blocks_ok c"
  shows "ctx_leftover c = ctx_sourcesize c mod ctx_blocksize c"
    and "ctx_nblocks c = ctx_sourcesize c div ctx_blocksize c + (if 0 < ctx_leftover c then 1 else 0)"
    and "0 \<le> ctx_nblocks c"
proof -
  have pos: "0 < ctx_blocksize c" "0 \<le> ctx_sourcesize c" using assms by (simp_all add: blocks_ok_def)
  have eq: "blosc2_calculate_blocks c = Some c" using assms by (simp add: blocks_ok_def)
  show l: "ctx_leftover c = ctx_sourcesize c mod ctx_blocksize c"
    using arg_cong[OF eq, of "map_option ctx_leftover"] pos by (simp add: blosc2_calculate_blocks_def Let_def)
  show n: "ctx_nblocks c = ctx_sourcesize c div ctx_blocksize c + (if 0 < ctx_leftover c then 1 else 0)"
    using arg_cong[OF eq, of "map_option ctx_nblocks"] pos by (auto simp: blosc2_calculate_blocks_def Let_def l split: if_splits)
  show "0 \<le> ctx_nblocks c" unfolding n using pos by (simp add: pos_imp_zdiv_nonneg_iff)
qed

lemma block_geometry:
  assumes "blocks_ok c" "int j < ctx_nblocks c"
  shows "block_extent c t j = Some (int (block_len c j), block_left c j)"
    and "block_offset c j = Some (int (block_start c j))"
    and "0 < block_len c j" "int (block_len c j) \<le> ctx_blocksize c"
    and "int (block_start c j + block_len c j) \<le> ctx_sourcesize c"
    and "int (block_start c (Suc j)) \<le> ctx_sourcesize c \<and> block_len c j = nat (ctx_blocksize c) \<or>
      int (Suc j) = ctx_nblocks c \<and> int (block_start c j + block_len c j) = ctx_sourcesize c"
proof -
  let ?B = "ctx_blocksize c" and ?S = "ctx_sourcesize c" and ?L = "ctx_leftover c"
  have pos: "0 < ?B" "0 \<le> ?S" "?S < 2 ^ 31" and vl: "\<not> ctx_vlblocks c" using assms(1) by (simp_all add: blocks_ok_def)
  note cnt = blocks_ok_count[OF assms(1)]
  have S: "?S = ?S div ?B * ?B + ?L" using cnt(1) by simp
  have L: "0 \<le> ?L" "?L < ?B" unfolding cnt(1) using pos(1) by simp_all
  have st: "int (block_start c j) = int j * ?B" using pos(1) by (simp add: block_start_def)
  consider (last) "int j = ?S div ?B" "0 < ?L" | (full) "int j + 1 \<le> ?S div ?B" using cnt(2) assms(2) by (cases "0 < ?L"; simp; linarith)
  note cases = this
  have full: "int j * ?B + ?B \<le> ?S" if "int j + 1 \<le> ?S div ?B"
  proof -
    have "(int j + 1) * ?B \<le> ?S div ?B * ?B" using that pos(1) by (intro mult_right_mono) simp_all
    then show ?thesis using S L(1) by (simp add: distrib_right)
  qed
  have both: "block_extent c t j = Some (int (block_len c j), block_left c j) \<and> 0 < block_len c j \<and> int (block_len c j) \<le> ?B \<and>
    int j * ?B + int (block_len c j) \<le> ?S \<and>
    (int j * ?B + ?B \<le> ?S \<and> block_len c j = nat ?B \<or> int (Suc j) = ctx_nblocks c \<and> int j * ?B + int (block_len c j) = ?S)"
    using cases
  proof cases
    case last
    then have "?S - int j * ?B = ?L" using S by simp
    then have len: "int (block_len c j) = ?L" using L by (simp add: block_len_def)
    have "int j = ctx_nblocks c - 1" using last cnt(2) by simp
    with last len L S vl show ?thesis by (simp add: block_extent_def block_left_def)
  next
    case full': full
    have f: "int j * ?B + ?B \<le> ?S" by (rule full[OF full'])
    then have len: "int (block_len c j) = ?B" using pos(1) by (simp add: block_len_def)
    have "\<not> (int j = ctx_nblocks c - 1 \<and> 0 < ?L)" using full' cnt(2) by auto
    with f len pos(1) vl show ?thesis by (auto simp: block_extent_def block_left_def)
  qed
  show "block_extent c t j = Some (int (block_len c j), block_left c j)" "0 < block_len c j" "int (block_len c j) \<le> ?B"
    "int (block_start c j + block_len c j) \<le> ?S"
    using both st by simp_all
  have "0 \<le> int j * ?B" using pos(1) by simp
  then have "i32 (int j * ?B) = Some (int j * ?B)" using both pos(3) by (intro i32_Some) linarith+
  then show "block_offset c j = Some (int (block_start c j))" by (simp add: block_offset_def st)
  have "int (block_start c (Suc j)) = int j * ?B + ?B" using pos(1) by (simp add: block_start_def distrib_right)
  then show "int (block_start c (Suc j)) \<le> ?S \<and> block_len c j = nat ?B \<or>
      int (Suc j) = ctx_nblocks c \<and> int (block_start c j + block_len c j) = ?S"
    using both st by auto
qed

lemma block_streams_ok:
  assumes "blocks_ok c" "int j < ctx_nblocks c"
  shows "d_nstreams c (block_left c j) = int (block_streams c j)" "0 < block_streams c j"
    and "split_fits c \<Longrightarrow> \<exists>m. 0 < m \<and> block_len c j = block_streams c j * m"
proof -
  have t: "0 < ctx_typesize c" "\<not> ctx_vlblocks c" using assms(1) by (simp_all add: blocks_ok_def)
  then have pos: "0 < d_nstreams c (block_left c j)" by (simp add: d_nstreams_def)
  then show "d_nstreams c (block_left c j) = int (block_streams c j)" "0 < block_streams c j"
    by (simp_all add: block_streams_def)
  note g = block_geometry[OF assms]
  show "\<exists>m. 0 < m \<and> block_len c j = block_streams c j * m" if "split_fits c"
  proof (cases "dont_split c \<or> block_left c j")
    case True
    then have "block_streams c j = 1" using t by (auto simp: block_streams_def d_nstreams_def)
    with g(3) show ?thesis by simp
  next
    case False
    then have k: "block_streams c j = nat (ctx_typesize c)" using t by (simp add: block_streams_def d_nstreams_def)
    have ext: "ctx_blocksize c = int (block_len c j)"
      using g(1)[of None] False t(2) by (auto simp: block_extent_def block_left_def split: if_splits)
    have "ctx_typesize c dvd ctx_blocksize c" using that False by (simp add: split_fits_def)
    then have "int (nat (ctx_typesize c)) dvd int (block_len c j)" unfolding ext using t(1) by simp
    then have "nat (ctx_typesize c) dvd block_len c j" by (simp only: int_dvd_int_iff)
    then obtain m where "block_len c j = block_streams c j * m" using k by (auto elim: dvdE)
    with g(3) show ?thesis by (intro exI[of _ m]) auto
  qed
qed

section \<open>Compressing the blocks\<close>

text \<open>The code of block \<open>j\<close> and its entry in the table of block starts, for the codes from block \<open>j\<close> on at position \<open>N\<close>.\<close>

definition codes_stored ::
    "shuffle_implementation \<Rightarrow> (byte \<Rightarrow> user_filter option) \<Rightarrow> (byte \<Rightarrow> user_filter option) \<Rightarrow> blosc2_context \<Rightarrow> byte \<Rightarrow> buf \<Rightarrow> nat \<Rightarrow> nat \<Rightarrow> buf list \<Rightarrow> buf \<Rightarrow> bool" where
  "codes_stored host user user' c v src j N codes dest \<longleftrightarrow>
    (\<forall>i < length codes. stored_block host user user' c v (block_streams c (j + i)) (block_bytes c src (j + i)) (codes ! i) \<and>
      take 4 (drop (32 + 4 * (j + i)) dest) = int32_bytes True (int (N + length (concat (take i codes)))) \<and>
      take (length (codes ! i)) (drop (N + length (concat (take i codes))) dest) = codes ! i)"

lemma codes_stored_Cons:
  assumes "stored_block host user user' c v (block_streams c j) (block_bytes c src j) code"
    and "take 4 (drop (32 + 4 * j) dest) = int32_bytes True (int N)" "take (length code) (drop N dest) = code"
    and "codes_stored host user user' c v src (Suc j) (N + length code) codes dest"
  shows "codes_stored host user user' c v src j N (code # codes) dest"
  unfolding codes_stored_def
proof (intro allI impI)
  fix i assume "i < length (code # codes)"
  then show "stored_block host user user' c v (block_streams c (j + i)) (block_bytes c src (j + i)) ((code # codes) ! i) \<and>
      take 4 (drop (32 + 4 * (j + i)) dest) = int32_bytes True (int (N + length (concat (take i (code # codes))))) \<and>
      take (length ((code # codes) ! i)) (drop (N + length (concat (take i (code # codes)))) dest) = (code # codes) ! i"
    using assms(1-3) assms(4)[unfolded codes_stored_def, rule_format, of "i - 1"]
    by (cases i) (simp_all add: add.assoc)
qed

lemma memcpyed_flag_iff: "ctx_header_flags c AND BLOSC_MEMCPYED \<noteq> 0 \<longleftrightarrow> bit (ctx_header_flags c) 1"
  by (rule flag_bit(2))

context shuffle_host
begin

lemma serial_compress_blocks:
  assumes "pipeline_ok user user' c" "active_filters c [0..<6] \<le> 2" "v \<noteq> BLOSC1_VERSION_FORMAT" "blosclz_context c" "blocks_ok c"
    and "\<not> bit (ctx_header_flags c) 1" "ctx_bstarts c = Some 32" "ctx_destsize c + ctx_blocksize c < 2 ^ 31 - 16"
    and "int (length src) = ctx_sourcesize c" "nat (ctx_blocksize c) \<le> length tmp" "nat (ctx_blocksize c) \<le> length tmp2"
    and "nat (ctx_destsize c) \<le> length dest" "j \<le> nat (ctx_nblocks c)"
    and "32 + 4 * nat (ctx_nblocks c) \<le> N" "int N \<le> ctx_destsize c" and fits: "split_fits c"
  shows "\<exists>N' dest' t t2. serial_compress le host user enc None None c [j..<nat (ctx_nblocks c)] (int N) [src, dest, tmp, tmp2] =
      Some (int N', [src, dest', t, t2]) \<and> agree 0 (32 + 4 * j) dest dest' \<and>
    (N' \<noteq> 0 \<longrightarrow> int N' \<le> ctx_destsize c \<and> agree (32 + 4 * nat (ctx_nblocks c)) N dest dest' \<and>
      (\<exists>codes. length codes = nat (ctx_nblocks c) - j \<and> N' = N + length (concat codes) \<and>
        codes_stored host user user' c v src j N codes dest'))"
  using assms(10-15)
proof (induction "nat (ctx_nblocks c) - j" arbitrary: j N dest tmp tmp2)
  case 0
  then have "[j..<nat (ctx_nblocks c)] = []" by simp
  then show ?case using 0 by (auto simp: codes_stored_def)
next
  case (Suc k)
  let ?nb = "nat (ctx_nblocks c)" and ?B = "nat (ctx_blocksize c)" and ?n = "block_len c j" and ?o = "block_start c j"
  have jn: "j < ?nb" "int j < ctx_nblocks c" using Suc.hyps(2) by linarith+
  note geo = block_geometry[OF assms(5) jn(2)]
  obtain m where m: "0 < m" "?n = block_streams c j * m" using block_streams_ok(3)[OF assms(5) jn(2) fits] by blast
  have up: "[j..<?nb] = j # [Suc j..<?nb]" using jn(1) by (rule upt_conv_Cons)
  have B: "0 < ctx_blocksize c" "ctx_blocksize c < 2 ^ 31 - 300" using assms(5) by (simp_all add: blocks_ok_def)
  have nB: "?n \<le> ?B" using geo(4) B by linarith
  have "m \<le> ?n" using m block_streams_ok(2)[OF assms(5) jn(2)] by simp
  then have mi: "int m \<le> ctx_blocksize c" using geo(4) by linarith
  then have "m < 2 ^ 31 - 300" using B(2) by simp
  note mb = mi this
  have vl: "\<not> ctx_vlblocks c" and tr: "\<not> dict_training c" using assms(4) by (simp_all add: blosclz_context_def)
  have pos: "32 + 4 * j + 4 \<le> N" using Suc.prems(5) jn(1) by linarith
  have ld: "32 + 4 * j + 4 \<le> length dest" using pos Suc.prems(3,6) by linarith
  let ?d1 = "take (32 + 4 * j) dest @ int32_bytes True (int N) @ drop (32 + 4 * j + 4) dest"
  have "int N < 2 ^ 31" using Suc.prems(6) assms(8) B by linarith
  then have "i32_range (int N)" by (simp add: i32_range_def)
  then have st: "store_bstart le c j (int N) [src, dest, tmp, tmp2] = Some [src, ?d1, tmp, tmp2]"
    using assms(7) ld by (simp add: store_bstart_def deref_def store_sw32_eq store_el_Some)
  have l1: "length ?d1 = length dest" using ld by simp
  have a1: "agree 0 (32 + 4 * j) dest ?d1" "agree (32 + 4 * ?nb) N dest ?d1"
    using blit_agree[of "32 + 4 * j" "int32_bytes True (int N)" dest "32 + 4 * j" 0]
      blit_agree[of "32 + 4 * j" "int32_bytes True (int N)" dest N "32 + 4 * ?nb"] ld jn(1) by simp_all
  have e1: "take 4 (drop (32 + 4 * j) ?d1) = int32_bytes True (int N)" using ld by simp
  have off: "nat (int ?o) + ?n \<le> length src" using geo(5) assms(9) by linarith
  have dlim: "nat (ctx_destsize c) \<le> length ?d1" "ctx_destsize c + int m < 2 ^ 31 - 16"
    using Suc.prems(3) l1 mb(1) assms(8) by simp_all
  obtain r d2 t t2 where r: "blosc_c le host user enc None c (int ?n) (block_left c j) (int N) (ctx_destsize c) 0 (int ?o) N
      [src, ?d1, tmp, tmp2] = Some (int r, [src, d2, t, t2])" "length t = length tmp" "length t2 = length tmp2"
    "within N (nat (ctx_destsize c)) ?d1 d2"
    "r \<noteq> 0 \<longrightarrow> N + r \<le> nat (ctx_destsize c) \<and>
      stored_block host user user' c v (block_streams c j) (take ?n (drop ?o src)) (take r (drop N d2))"
    using blosc_c_block[OF assms(1-4) block_streams_ok(1,2)[OF assms(5) jn(2)] m(2,1) mb(2) off
        order_trans[OF nB Suc.prems(1)] order_trans[OF nB Suc.prems(2)] _ Suc.prems(6) dlim, of le enc]
    by auto
  have a2: "agree 0 N ?d1 d2" by (rule within_agree[OF r(4)])
  have l2: "length d2 = length dest" using agree_length[OF a2] l1 by simp
  have step: "serial_compress le host user enc None None c [j..<?nb] (int N) [src, dest, tmp, tmp2] =
      (if r = 0 then Some (0, [src, d2, t, t2]) else do {
        ntbytes \<leftarrow> i32 (int N + int r);
        serial_compress le host user enc None None c [Suc j..<?nb] ntbytes [src, d2, t, t2] })"
    using assms(6) st tr vl geo(1,2) r(1)
    by (simp add: up memcpyed_flag_iff del: upt_Suc)
  show ?case
  proof (cases "r = 0")
    case True
    then have "serial_compress le host user enc None None c [j..<?nb] (int N) [src, dest, tmp, tmp2] = Some (int 0, [src, d2, t, t2])"
      using step by simp
    moreover have "agree 0 (32 + 4 * j) dest d2"
      using agree_trans[OF a1(1) agree_sub[OF a2, of 0 "32 + 4 * j"]] pos by simp
    ultimately show ?thesis by (intro exI[of _ 0]) auto
  next
    case False
    let ?code = "take r (drop N d2)"
    have nr: "N + r \<le> nat (ctx_destsize c)" using r(5) False by simp
    have lc: "length ?code = r" using nr Suc.prems(3) l2 by simp
    have i: "i32 (int N + int r) = Some (int (N + r))" using nr assms(8) B by simp
    have ih: "nat (ctx_blocksize c) \<le> length t" "nat (ctx_blocksize c) \<le> length t2" "nat (ctx_destsize c) \<le> length d2"
      "Suc j \<le> ?nb" "32 + 4 * ?nb \<le> N + r" "int (N + r) \<le> ctx_destsize c"
      using r(2,3) Suc.prems jn(1) nr l2 B by auto
    have hk: "k = ?nb - Suc j" using Suc.hyps(2) by linarith
    obtain N' d3 t3 t4 where ih': "serial_compress le host user enc None None c [Suc j..<?nb] (int (N + r)) [src, d2, t, t2] =
        Some (int N', [src, d3, t3, t4])" "agree 0 (32 + 4 * Suc j) d2 d3"
      "N' \<noteq> 0 \<longrightarrow> int N' \<le> ctx_destsize c \<and> agree (32 + 4 * ?nb) (N + r) d2 d3 \<and>
        (\<exists>codes. length codes = ?nb - Suc j \<and> N' = N + r + length (concat codes) \<and>
          codes_stored host user user' c v src (Suc j) (N + r) codes d3)"
      using Suc.hyps(1)[OF hk ih] by blast
    have eval: "serial_compress le host user enc None None c [j..<?nb] (int N) [src, dest, tmp, tmp2] = Some (int N', [src, d3, t3, t4])"
      using step False i ih'(1) by simp
    have p: "agree 0 (32 + 4 * j) dest d3"
      using agree_trans[OF agree_trans[OF a1(1) agree_sub[OF a2, of 0 "32 + 4 * j"]] agree_sub[OF ih'(2), of 0 "32 + 4 * j"]] pos by simp
    have "int N' \<le> ctx_destsize c \<and> agree (32 + 4 * ?nb) N dest d3 \<and>
      (\<exists>codes. length codes = ?nb - j \<and> N' = N + length (concat codes) \<and> codes_stored host user user' c v src j N codes d3)"
      if nz: "N' \<noteq> 0"
    proof -
      obtain codes where co: "int N' \<le> ctx_destsize c" "agree (32 + 4 * ?nb) (N + r) d2 d3" "length codes = ?nb - Suc j"
        "N' = N + r + length (concat codes)" "codes_stored host user user' c v src (Suc j) (N + r) codes d3"
        using ih'(3) nz by blast
      have q: "agree (32 + 4 * ?nb) N dest d3"
        using agree_trans[OF agree_trans[OF a1(2) agree_sub[OF a2, of "32 + 4 * ?nb" N]] agree_sub[OF co(2), of "32 + 4 * ?nb" N]] by simp
      have "take 4 (drop (32 + 4 * j) d3) = take 4 (drop (32 + 4 * j) d2)"
        by (rule agree_segment[OF ih'(2)]) simp_all
      also have "\<dots> = take 4 (drop (32 + 4 * j) ?d1)" by (rule agree_segment[OF a2]) (use pos in simp_all)
      finally have b: "take 4 (drop (32 + 4 * j) d3) = int32_bytes True (int N)" using e1 by simp
      have "take r (drop N d3) = ?code" by (rule agree_segment[OF co(2)]) (use Suc.prems(5) in simp_all)
      then have cc: "take (length ?code) (drop N d3) = ?code" using lc by simp
      have sb: "stored_block host user user' c v (block_streams c j) (block_bytes c src j) ?code"
        using r(5) False by (simp add: block_bytes_def)
      have "codes_stored host user user' c v src j N (?code # codes) d3"
        by (rule codes_stored_Cons[OF sb b cc]) (use co(5) lc in simp)
      then show ?thesis using co(1,3,4) q lc jn(1)
        by (intro conjI exI[of _ "?code # codes"]) auto
    qed
    with eval p show ?thesis by blast
  qed
qed

end

section \<open>Decompressing the blocks\<close>

text \<open>How much of the buffer the blocks before block \<open>j\<close> make up, and a destination filled from there on.\<close>

definition done_bytes :: "blosc2_context \<Rightarrow> nat \<Rightarrow> nat" where
  "done_bytes c j = min (block_start c j) (nat (ctx_sourcesize c))"

definition filled :: "nat \<Rightarrow> nat \<Rightarrow> buf \<Rightarrow> buf \<Rightarrow> buf \<Rightarrow> bool" where
  "filled p q src dest dest' \<longleftrightarrow> length dest' = length dest \<and>
    (\<forall>i < length dest. dest' ! i = (if p \<le> i \<and> i < q then src ! i else dest ! i))"

lemma filled_refl: "q \<le> p \<Longrightarrow> filled p q src dest dest"
  by (auto simp: filled_def)

lemma filled_trans: "filled p q src a b \<Longrightarrow> filled q r src b c \<Longrightarrow> p \<le> q \<Longrightarrow> q \<le> r \<Longrightarrow> filled p r src a c"
  by (auto simp: filled_def)

lemma filled_blit:
  assumes "p + n \<le> length dest" "p + n \<le> length src"
  shows "filled p (p + n) src dest (take p dest @ take n (drop p src) @ drop (p + n) dest)"
  unfolding filled_def using assms by (auto simp: nth_blit simp del: append_assoc length_append)

lemma filled_take:
  assumes "filled 0 q src dest dest'" "q \<le> length dest" "q \<le> length src"
  shows "take q dest' = take q src" "drop q dest' = drop q dest"
proof -
  have l: "length dest' = length dest" using assms(1) by (simp add: filled_def)
  show "take q dest' = take q src" by (rule nth_equalityI) (use assms l in \<open>auto simp: filled_def\<close>)
  show "drop q dest' = drop q dest" by (rule nth_equalityI) (use assms l in \<open>auto simp: filled_def\<close>)
qed

lemma done_bytes_block:
  assumes "blocks_ok c" "int j < ctx_nblocks c"
  shows "done_bytes c j = block_start c j" "done_bytes c (Suc j) = block_start c j + block_len c j"
proof -
  note geo = block_geometry[OF assms]
  have B: "0 < ctx_blocksize c" "0 \<le> ctx_sourcesize c" using assms(1) by (simp_all add: blocks_ok_def)
  show "done_bytes c j = block_start c j" using geo(5) by (simp add: done_bytes_def)
  have s: "block_start c (Suc j) = block_start c j + nat (ctx_blocksize c)" by (simp add: block_start_def)
  have "block_len c j \<le> nat (ctx_blocksize c)" using geo(4) by linarith
  with geo(6) s B show "done_bytes c (Suc j) = block_start c j + block_len c j"
    by (auto simp: done_bytes_def)
qed

lemma done_bytes_all:
  assumes "blocks_ok c"
  shows "done_bytes c (nat (ctx_nblocks c)) = nat (ctx_sourcesize c)"
proof (cases "ctx_nblocks c = 0")
  case True
  have B: "0 < ctx_blocksize c" "0 \<le> ctx_sourcesize c" using assms by (simp_all add: blocks_ok_def)
  note cnt = blocks_ok_count[OF assms]
  have "0 \<le> ctx_sourcesize c div ctx_blocksize c" using B by (simp add: pos_imp_zdiv_nonneg_iff)
  with True cnt(2) have z: "ctx_sourcesize c div ctx_blocksize c = 0" "\<not> 0 < ctx_leftover c" by (auto split: if_splits)
  have "ctx_sourcesize c = ctx_sourcesize c div ctx_blocksize c * ctx_blocksize c + ctx_leftover c" using cnt(1) by simp
  then have "ctx_sourcesize c \<le> 0" using z by simp
  then show ?thesis by (simp add: done_bytes_def)
next
  case False
  obtain k where k: "ctx_nblocks c = int k" using nonneg_int_cases[OF blocks_ok_count(3)[OF assms]] by blast
  with False obtain j where "k = Suc j" by (cases k) auto
  with k have j: "ctx_nblocks c = int (Suc j)" by simp
  then have "int j < ctx_nblocks c" by simp
  note geo = block_geometry[OF assms this] and d = done_bytes_block[OF assms this]
  have "int (block_start c j + block_len c j) = ctx_sourcesize c"
  proof -
    have B: "0 < ctx_blocksize c" "0 \<le> ctx_sourcesize c" using assms by (simp_all add: blocks_ok_def)
    note cnt = blocks_ok_count[OF assms]
    have S: "ctx_sourcesize c = ctx_sourcesize c div ctx_blocksize c * ctx_blocksize c + ctx_leftover c" using cnt(1) by simp
    have L: "0 \<le> ctx_leftover c" using cnt(1) B by simp
    have st: "int (block_start c j) = int j * ctx_blocksize c" using B by (simp add: block_start_def)
    show ?thesis
    proof (cases "0 < ctx_leftover c")
      case True
      then have "ctx_sourcesize c - int j * ctx_blocksize c = ctx_leftover c" using S j cnt(2) by simp
      moreover have "ctx_leftover c < ctx_blocksize c" using cnt(1) B by simp
      ultimately show ?thesis using st L by (simp add: block_len_def)
    next
      case False
      then have "ctx_sourcesize c = (int j + 1) * ctx_blocksize c" using S L j cnt(2) by simp
      then have "ctx_sourcesize c - int j * ctx_blocksize c = ctx_blocksize c" by (simp add: distrib_right)
      then show ?thesis using st B by (simp add: block_len_def)
    qed
  qed
  then show ?thesis using d(2) j by (simp add: nat_add_distrib)
qed

text \<open>A reader with the same filters and type size finds the same blocks.\<close>

lemma stored_block_cong:
  assumes "ctx_filters d = ctx_filters c" "ctx_filters_meta d = ctx_filters_meta c" "ctx_typesize d = ctx_typesize c"
  shows "stored_block host user user' d v k x code \<longleftrightarrow> stored_block host user user' c v k x code"
proof -
  have f: "filter_codes host user user' d v n i y z \<longleftrightarrow> filter_codes host user user' c v n i y z" for n i y z
    unfolding filter_codes_def forward_action_def backward_action_def shuffle_typesize_def assms ..
  have "pipeline_codes host user user' d v n is y z \<longleftrightarrow> pipeline_codes host user user' c v n is y z" for n "is" y z
    by (induction "is" arbitrary: y) (simp_all add: f)
  then show ?thesis by (simp add: stored_block_def)
qed

lemma stored_block_nonempty:
  assumes "stored_block host user user' c v k x code" "0 < k"
  shows "code \<noteq> []"
proof -
  obtain z m where "block_code blosclz_decompress k m z code" using assms(1) unfolding stored_block_def by blast
  from block_code_length[OF this] assms(2) show ?thesis by auto
qed

context shuffle_host
begin

lemma stored_block_decodes:
  assumes "pipeline_ok user user' c" "ctx_compformat c = 0" "blocks_ok c" "ctx_special_type c = 0"
    and "ctx_blosc2_flags c AND 8 = 0"
    and "blosc2_cbuffer_sizes le ch = Some (0, cn, cc, cb)" "load ch 0 = Some v"
    and codes: "length codes = nat (ctx_nblocks c)" "codes_stored host user user' c v src 0 N codes ch"
    and N: "0 < N" "int (N + length (concat codes)) \<le> ctx_srcsize c" "ctx_srcsize c < 2 ^ 31" "nat (ctx_srcsize c) \<le> length ch"
      "32 + 4 * nat (ctx_nblocks c) \<le> N"
    and src: "nat (ctx_sourcesize c) \<le> length src"
    and jn: "int j < ctx_nblocks c" and "nat offset + block_len c j \<le> length dest"
    and "nat (ctx_blocksize c) \<le> length t1" "nat (ctx_blocksize c) \<le> length t2" "nat (ctx_blocksize c) \<le> length t3"
  shows "\<exists>p u1 u2 u3. load_sw32 le ch (32 + 4 * j) = Some p \<and>
    blosc_d le host user' dec None None None c (int (block_len c j)) (block_left c j) False ch (ctx_srcsize c) p (int j) 0 offset
      [dest, t1, t2, t3] = Some (int (block_len c j),
        [take (nat offset) dest @ block_bytes c src j @ drop (nat offset + block_len c j) dest, u1, u2, u3]) \<and>
    length u1 = length t1 \<and> length u2 = length t2 \<and> length u3 = length t3"
proof -
  let ?n = "block_len c j" and ?o = "block_start c j"
  note geo = block_geometry[OF assms(3) jn]
  have B: "0 < ctx_blocksize c" "ctx_blocksize c < 2 ^ 31 - 300" and vl: "\<not> ctx_vlblocks c"
    using assms(3) by (simp_all add: blocks_ok_def)
  have nB: "?n \<le> nat (ctx_blocksize c)" using geo(4) by linarith
  let ?code = "codes ! j" and ?p = "N + length (concat (take j codes))"
  have jc: "j < length codes" using codes(1) jn by simp
  have st: "stored_block host user user' c v (block_streams c j) (block_bytes c src j) ?code"
    "take 4 (drop (32 + 4 * j) ch) = int32_bytes True (int ?p)" "take (length ?code) (drop ?p ch) = ?code"
    using codes(2)[unfolded codes_stored_def, rule_format, OF jc] by simp_all
  have cat: "concat codes = concat (take j codes) @ ?code @ concat (drop (Suc j) codes)"
    using jc by (metis append_take_drop_id concat.simps(2) concat_append Cons_nth_drop_Suc)
  have "?code \<noteq> []" by (rule stored_block_nonempty[OF st(1) block_streams_ok(2)[OF assms(3) jn]])
  then have cl: "0 < length ?code" by simp
  have fit: "int (?p + length ?code) \<le> ctx_srcsize c" using N(2) unfolding cat by simp
  then have p: "0 < int ?p" "int ?p < ctx_srcsize c" "int (length ?code) \<le> ctx_srcsize c - int ?p" using N(1) cl by linarith+
  have "int ?p < 2 ^ 31" using p(2) N(3) by linarith
  then have "i32_range (int ?p)" by (simp add: i32_range_def)
  moreover have "32 + 4 * j + 4 \<le> length ch"
  proof -
    have "int N \<le> ctx_srcsize c" using N(2) by linarith
    then have "N \<le> length ch" using N(4) by linarith
    then show ?thesis using N(5) jn by linarith
  qed
  ultimately have bs: "load_sw32 le ch (32 + 4 * j) = Some (int ?p)"
    using st(2) by (simp add: sw32_eq int32_of_bytes_int32_bytes)
  have "?o + ?n \<le> nat (ctx_sourcesize c)" using geo(5) by linarith
  then have lx: "length (block_bytes c src j) = ?n" using src by (simp add: block_bytes_def)
  have "int ?n < 2 ^ 31" using geo(4) B(2) by linarith
  then have ln: "length (block_bytes c src j) < 2 ^ 31" using lx by simp
  have fits: "nat offset + length (block_bytes c src j) \<le> length dest" "length (block_bytes c src j) \<le> length t1"
    "length (block_bytes c src j) \<le> length t2" "length (block_bytes c src j) \<le> length t3"
    using nB assms(17-20) lx by simp_all
  have t: "take (length ?code) (drop (nat (int ?p)) ch) = ?code" using st(3) by (simp only: nat_int)
  from blosc_d_block[OF assms(1,2) vl assms(4,5) block_streams_ok(1,2)[OF assms(3) jn] st(1) ln assms(6,7) p(1,2) t p(3) fits,
    where dec = dec and nblock = "int j"] bs
  show ?thesis unfolding lx by auto
qed

lemma serial_decompress_blocks:
  assumes "pipeline_ok user user' c" "ctx_compformat c = 0" "blocks_ok c" "ctx_special_type c = 0"
    and "ctx_blosc2_flags c AND 8 = 0" "\<not> bit (ctx_header_flags c) 1" "ctx_bstarts c = Some 32"
    and "blosc2_cbuffer_sizes le ch = Some (0, cn, cc, cb)" "load ch 0 = Some v"
    and codes: "length codes = nat (ctx_nblocks c)" "codes_stored host user user' c v src 0 N codes ch"
    and N: "0 < N" "int (N + length (concat codes)) \<le> ctx_srcsize c" "ctx_srcsize c < 2 ^ 31" "nat (ctx_srcsize c) \<le> length ch"
      "32 + 4 * nat (ctx_nblocks c) \<le> N"
    and src: "nat (ctx_sourcesize c) \<le> length src"
    and "nat (ctx_sourcesize c) \<le> length dest"
    and "nat (ctx_blocksize c) \<le> length t1" "nat (ctx_blocksize c) \<le> length t2" "nat (ctx_blocksize c) \<le> length t3"
    and "j \<le> nat (ctx_nblocks c)"
  shows "\<exists>dest' u1 u2 u3. serial_decompress le host user' dec None None None False c ch [j..<nat (ctx_nblocks c)] (int (done_bytes c j))
      [dest, t1, t2, t3] = Some (ctx_sourcesize c, [dest', u1, u2, u3]) \<and>
    filled (done_bytes c j) (nat (ctx_sourcesize c)) src dest dest'"
  using assms(18-22)
proof (induction "nat (ctx_nblocks c) - j" arbitrary: j dest t1 t2 t3)
  case 0
  then have "j = nat (ctx_nblocks c)" by simp
  then have "done_bytes c j = nat (ctx_sourcesize c)" using done_bytes_all[OF assms(3)] by simp
  moreover have "0 \<le> ctx_sourcesize c" using assms(3) by (simp add: blocks_ok_def)
  ultimately show ?case using 0 by (simp add: filled_refl)
next
  case (Suc k)
  let ?nb = "nat (ctx_nblocks c)" and ?n = "block_len c j" and ?o = "block_start c j"
  have jn: "j < ?nb" "int j < ctx_nblocks c" using Suc.hyps(2) by linarith+
  have hk: "k = ?nb - Suc j" using Suc.hyps(2) by linarith
  note geo = block_geometry[OF assms(3) jn(2)]
  note dn = done_bytes_block[OF assms(3) jn(2)]
  have up: "[j..<?nb] = j # [Suc j..<?nb]" using jn(1) by (rule upt_conv_Cons)
  have B: "0 < ctx_blocksize c" "ctx_blocksize c < 2 ^ 31 - 300" "0 \<le> ctx_sourcesize c" "ctx_sourcesize c < 2 ^ 31"
    and vl: "\<not> ctx_vlblocks c" using assms(3) by (simp_all add: blocks_ok_def)
  have nB: "?n \<le> nat (ctx_blocksize c)" using geo(4) by linarith
  have on: "?o + ?n \<le> nat (ctx_sourcesize c)" using geo(5) by linarith
  have lx: "length (block_bytes c src j) = ?n" using on src by (simp add: block_bytes_def)
  have x: "take ?n (drop ?o src) = block_bytes c src j" by (simp add: block_bytes_def)
  let ?d = "take ?o dest @ block_bytes c src j @ drop (?o + ?n) dest"
  have od: "nat (int ?o) + ?n \<le> length dest" using on Suc.prems(1) by simp
  obtain p u1 u2 u3 where bs: "load_sw32 le ch (32 + 4 * j) = Some p" and
    u: "blosc_d le host user' dec None None None c (int ?n) (block_left c j) False ch (ctx_srcsize c) p (int j) 0 (int ?o)
      [dest, t1, t2, t3] = Some (int ?n, [?d, u1, u2, u3])" "length u1 = length t1" "length u2 = length t2" "length u3 = length t3"
    using stored_block_decodes[OF assms(1-5,8,9) codes N src jn(2) od Suc.prems(2-4), where dec = dec] by auto
  have ld: "length ?d = length dest" using on Suc.prems(1) lx by simp
  have fl: "filled ?o (?o + ?n) src dest ?d"
    using filled_blit[of ?o ?n dest src] on Suc.prems(1) src by (simp add: x)
  have i: "i32 (int (done_bytes c j) + int ?n) = Some (int (done_bytes c (Suc j)))"
    using dn geo(5) B by simp
  have eval: "serial_decompress le host user' dec None None None False c ch [j..<?nb] (int (done_bytes c j)) [dest, t1, t2, t3] =
      serial_decompress le host user' dec None None None False c ch [Suc j..<?nb] (int (done_bytes c (Suc j))) [?d, u1, u2, u3]"
    using assms(4,6,7) vl geo(1,2) bs u(1) i by (simp add: up memcpyed_flag_iff del: upt_Suc of_nat_add)
  obtain dest' w1 w2 w3 where w: "serial_decompress le host user' dec None None None False c ch [Suc j..<?nb] (int (done_bytes c (Suc j))) [?d, u1, u2, u3] =
      Some (ctx_sourcesize c, [dest', w1, w2, w3])" "filled (done_bytes c (Suc j)) (nat (ctx_sourcesize c)) src ?d dest'"
    using Suc.hyps(1)[OF hk, of ?d u1 u2 u3] Suc.prems ld u(2-4) jn(1) by auto
  have "filled (done_bytes c j) (nat (ctx_sourcesize c)) src dest dest'"
    using filled_trans[OF fl w(2)[unfolded dn(2)]] dn on by simp
  with eval w(1) show ?case by auto
qed

end

section \<open>Chunks that are copied or of a special value\<close>

lemma serial_compress_copy:
  assumes "blocks_ok c" "bit (ctx_header_flags c) 1" "ctx_header_overhead c = 32" "ctx_sourcesize c + 32 < 2 ^ 31"
    and "int (length src) = ctx_sourcesize c" "32 + nat (ctx_sourcesize c) \<le> length dest" "j \<le> nat (ctx_nblocks c)"
  shows "\<exists>dest'. serial_compress le host user enc None None c [j..<nat (ctx_nblocks c)] (int (32 + done_bytes c j)) [src, dest, tmp, tmp2] =
      Some (32 + ctx_sourcesize c, [src, dest', tmp, tmp2]) \<and>
    filled (32 + done_bytes c j) (32 + nat (ctx_sourcesize c)) (replicate 32 0 @ src) dest dest'"
  using assms(6,7)
proof (induction "nat (ctx_nblocks c) - j" arbitrary: j dest)
  case 0
  then have "j = nat (ctx_nblocks c)" by simp
  then have "done_bytes c j = nat (ctx_sourcesize c)" using done_bytes_all[OF assms(1)] by simp
  moreover have "0 \<le> ctx_sourcesize c" using assms(1) by (simp add: blocks_ok_def)
  ultimately show ?case using 0 by (simp add: filled_refl)
next
  case (Suc k)
  let ?nb = "nat (ctx_nblocks c)" and ?n = "block_len c j" and ?o = "block_start c j"
  have jn: "j < ?nb" "int j < ctx_nblocks c" using Suc.hyps(2) by linarith+
  have hk: "k = ?nb - Suc j" using Suc.hyps(2) by linarith
  note geo = block_geometry[OF assms(1) jn(2)]
  note dn = done_bytes_block[OF assms(1) jn(2)]
  have up: "[j..<?nb] = j # [Suc j..<?nb]" using jn(1) by (rule upt_conv_Cons)
  have on: "?o + ?n \<le> nat (ctx_sourcesize c)" "?o + ?n \<le> length src" using geo(5) assms(5) by linarith+
  have d: "32 + ?o + ?n \<le> length dest" using on(1) Suc.prems(1) by linarith
  let ?d = "take (32 + ?o) dest @ take ?n (drop (32 + ?o) (replicate 32 0 @ src)) @ drop (32 + ?o + ?n) dest"
  have sh: "take ?n (drop (32 + ?o) (replicate 32 0 @ src)) = take ?n (drop ?o src)" by simp
  have cp: "memcpy dest (nat (32 + int ?o)) (drop ?o src) 0 ?n = Some ?d"
    unfolding sh using d on(2) by (simp add: memcpy_def nat_add_distrib)
  have fl: "filled (32 + ?o) (32 + ?o + ?n) (replicate 32 0 @ src) dest ?d"
    by (rule filled_blit) (use d on(2) in simp_all)
  have ld: "length ?d = length dest" using fl by (simp add: filled_def)
  have i: "i32 (int (32 + done_bytes c j) + int ?n) = Some (int (32 + done_bytes c (Suc j)))"
    using dn geo(5) assms(4) by simp
  have eval: "serial_compress le host user enc None None c [j..<?nb] (int (32 + done_bytes c j)) [src, dest, tmp, tmp2] =
      serial_compress le host user enc None None c [Suc j..<?nb] (int (32 + done_bytes c (Suc j))) [src, ?d, tmp, tmp2]"
    using assms(2,3) geo(1,2) cp i by (simp add: up memcpyed_flag_iff deref_def del: upt_Suc of_nat_add)
  have "32 + nat (ctx_sourcesize c) \<le> length ?d" "Suc j \<le> ?nb" using Suc.prems(1) ld jn(1) by simp_all
  from Suc.hyps(1)[OF hk this] obtain dest' where
    w: "serial_compress le host user enc None None c [Suc j..<?nb] (int (32 + done_bytes c (Suc j))) [src, ?d, tmp, tmp2] =
      Some (32 + ctx_sourcesize c, [src, dest', tmp, tmp2])"
    "filled (32 + done_bytes c (Suc j)) (32 + nat (ctx_sourcesize c)) (replicate 32 0 @ src) ?d dest'" by blast
  have "32 + (?o + ?n) = 32 + ?o + ?n" by simp
  then have "filled (32 + done_bytes c j) (32 + nat (ctx_sourcesize c)) (replicate 32 0 @ src) dest dest'"
    using filled_trans[OF fl w(2)[unfolded dn(2) \<open>32 + (?o + ?n) = 32 + ?o + ?n\<close>]] dn on by simp
  with eval w(1) show ?case by auto
qed

text \<open>The way back: every block is filled with its part of \<open>data\<close>.\<close>

lemma serial_decompress_copy:
  assumes "blocks_ok c" "bit (ctx_header_flags c) 1 \<or> ctx_special_type c \<noteq> 0" "ctx_header_overhead c = 32" "ctx_sourcesize c + 32 < 2 ^ 31"
    and "ctx_special_type c = 0 \<longrightarrow> ctx_blosc2_flags c AND 8 = 0 \<and> cc = ctx_sourcesize c + 32"
    and "blosc2_cbuffer_sizes le ch = Some (0, ctx_sourcesize c, cc, cb)"
    and fill: "\<And>i n p d. int i < ctx_nblocks c \<Longrightarrow> p = block_start c i \<Longrightarrow> n = block_len c i \<Longrightarrow> p + n \<le> nat (ctx_sourcesize c) \<Longrightarrow>
      p + n \<le> length d \<Longrightarrow>
      fill_block le c (if ctx_special_type c = BLOSC2_SPECIAL_VALUE then cc - 32 else ctx_typesize c) (int n) ch (32 + int p) d p =
        Some (0, take p d @ take n (drop p data) @ drop (p + n) d)"
    and "nat (ctx_sourcesize c) \<le> length data" "nat (ctx_sourcesize c) \<le> length dest" "j \<le> nat (ctx_nblocks c)"
  shows "\<exists>dest'. serial_decompress le host user' dec None None None False c ch [j..<nat (ctx_nblocks c)] (int (done_bytes c j)) [dest, t1, t2, t3] =
      Some (ctx_sourcesize c, [dest', t1, t2, t3]) \<and> filled (done_bytes c j) (nat (ctx_sourcesize c)) data dest dest'"
  using assms(9,10)
proof (induction "nat (ctx_nblocks c) - j" arbitrary: j dest)
  case 0
  then have "j = nat (ctx_nblocks c)" by simp
  then have "done_bytes c j = nat (ctx_sourcesize c)" using done_bytes_all[OF assms(1)] by simp
  moreover have "0 \<le> ctx_sourcesize c" using assms(1) by (simp add: blocks_ok_def)
  ultimately show ?case using 0 by (simp add: filled_refl)
next
  case (Suc k)
  let ?nb = "nat (ctx_nblocks c)" and ?n = "block_len c j" and ?o = "block_start c j"
  have jn: "j < ?nb" "int j < ctx_nblocks c" using Suc.hyps(2) by linarith+
  have hk: "k = ?nb - Suc j" using Suc.hyps(2) by linarith
  note geo = block_geometry[OF assms(1) jn(2)]
  note dn = done_bytes_block[OF assms(1) jn(2)]
  have B: "0 < ctx_blocksize c" "0 \<le> ctx_sourcesize c" and vl: "\<not> ctx_vlblocks c" using assms(1) by (simp_all add: blocks_ok_def)
  have up: "[j..<?nb] = j # [Suc j..<?nb]" using jn(1) by (rule upt_conv_Cons)
  have on: "?o + ?n \<le> nat (ctx_sourcesize c)" using geo(5) by linarith
  have st: "int j * ctx_blocksize c = int ?o" using B by (simp add: block_start_def)
  let ?d = "take ?o dest @ take ?n (drop ?o data) @ drop (?o + ?n) dest"
  let ?ts = "if ctx_special_type c = BLOSC2_SPECIAL_VALUE then cc - 32 else ctx_typesize c"
  have fb: "fill_block le c ?ts (int ?n) ch (32 + int ?o) dest ?o = Some (0, ?d)"
    using fill[OF jn(2) refl refl, of dest] on Suc.prems(1) by simp
  have size: "(if block_left c j then ctx_sourcesize c smod ctx_blocksize c else int ?n) = int ?n"
  proof (cases "block_left c j")
    case True
    then have "block_extent c None j = Some (ctx_leftover c, True)" using vl by (simp add: block_extent_def block_left_def)
    then have "ctx_leftover c = int ?n" using geo(1)[of None] by simp
    with True B blocks_ok_count(1)[OF assms(1)] show ?thesis by simp
  qed simp
  have i1: "i32 (32 + int ?o) = Some (32 + int ?o)" using geo(5) assms(4) by (intro i32_Some) simp_all
  have i: "i32 (int (done_bytes c j) + int ?n) = Some (int (done_bytes c (Suc j)))"
    using dn geo(5) assms(4) by simp
  have copy: "blosc_d_copy le None c (int ?n) (block_left c j) ?ts (ctx_sourcesize c) cc ch (int j) 0 (int ?o) [dest, t1, t2, t3] =
      Some (int ?n, [?d, t1, t2, t3])"
  proof -
    have "\<not> (block_left c j \<and> ctx_blocksize c = 0)" using B by simp
    moreover have "\<not> (ctx_special_type c = 0 \<and> ctx_sourcesize c + ctx_header_overhead c \<noteq> cc)" using assms(3,5) by simp
    moreover have "\<not> (ctx_special_type c = 0 \<and> cc < 32 + int ?o + int ?n)" using assms(5) geo(5) by auto
    ultimately show ?thesis using i1 fb assms(3)
      by (simp add: blosc_d_copy_def Let_def st size deref_def del: smod_nonneg)
  qed
  have d: "blosc_d le host user' dec None None None c (int ?n) (block_left c j) True ch ss so (int j) 0 (int ?o) [dest, t1, t2, t3] =
      Some (int ?n, [?d, t1, t2, t3])" for ss so
    using assms(3,5,6) copy by (cases "ctx_special_type c = BLOSC2_SPECIAL_VALUE") (auto simp: blosc_d_def Let_def)
  have fl: "filled ?o (?o + ?n) data dest ?d" using on assms(8) Suc.prems(1) by (intro filled_blit) simp_all
  have ld: "length ?d = length dest" using fl by (simp add: filled_def)
  have eval: "serial_decompress le host user' dec None None None False c ch [j..<?nb] (int (done_bytes c j)) [dest, t1, t2, t3] =
      serial_decompress le host user' dec None None None False c ch [Suc j..<?nb] (int (done_bytes c (Suc j))) [?d, t1, t2, t3]"
    using assms(2,3) vl geo(1,2) d i i1 by (simp add: up memcpyed_flag_iff del: upt_Suc of_nat_add)
  have "nat (ctx_sourcesize c) \<le> length ?d" "Suc j \<le> ?nb" using Suc.prems(1) ld jn(1) by simp_all
  from Suc.hyps(1)[OF hk this] obtain dest' where
    w: "serial_decompress le host user' dec None None None False c ch [Suc j..<?nb] (int (done_bytes c (Suc j))) [?d, t1, t2, t3] =
      Some (ctx_sourcesize c, [dest', t1, t2, t3])" "filled (done_bytes c (Suc j)) (nat (ctx_sourcesize c)) data ?d dest'" by blast
  have "filled (done_bytes c j) (nat (ctx_sourcesize c)) data dest dest'"
    using filled_trans[OF fl w(2)[unfolded dn(2)]] dn on by simp
  with eval w(1) show ?case by auto
qed

text \<open>The two kinds of filling.\<close>

lemma fill_block_copy:
  assumes "ctx_special_type c = 0" "32 + S \<le> length ch" "p + n \<le> S" "p + n \<le> length d"
  shows "fill_block le c ts (int n) ch (32 + int p) d p = Some (0, take p d @ take n (drop p (drop 32 ch)) @ drop (p + n) d)"
  using assms by (simp add: fill_block_def memcpy_Some nat_add_distrib add.commute)

lemma fill_block_zero:
  assumes "ctx_special_type c = BLOSC2_SPECIAL_ZERO" "p + n \<le> S" "p + n \<le> length d"
  shows "fill_block le c ts (int n) ch (32 + int p) d p = Some (0, take p d @ take n (drop p (replicate S 0)) @ drop (p + n) d)"
  using assms by (simp add: fill_block_def memset_Some)

section \<open>Headers of the chunks\<close>

text \<open>
  A header for the chunk of context \<open>c\<close>, with flags \<open>f\<close>, compressed size \<open>cbytes\<close> and special value \<open>sp\<close>, and
  the context a reader sets up from it.
\<close>

definition chunk_header :: "blosc2_context \<Rightarrow> byte \<Rightarrow> int \<Rightarrow> int \<Rightarrow> blosc_header \<Rightarrow> bool" where
  "chunk_header c f cbytes sp g \<longleftrightarrow> hdr_version g = 5 \<and> hdr_flags g = f \<and> uint (hdr_typesize g) = ctx_typesize c \<and>
     hdr_nbytes g = ctx_sourcesize c \<and> hdr_blocksize g = ctx_blocksize c \<and> hdr_cbytes g = cbytes \<and>
     hdr_filters g = ctx_filters c \<and> hdr_filters_meta g = ctx_filters_meta c \<and> hdr_blosc2_flags2 g = 0 \<and>
     special_type (hdr_blosc2_flags g) = sp \<and> \<not> bit (hdr_blosc2_flags g) 3 \<and> hdr_blosc2_flags g AND BLOSC2_USEDICT = 0"

definition chunk_reader :: "blosc2_context \<Rightarrow> byte \<Rightarrow> int \<Rightarrow> int \<Rightarrow> blosc2_context \<Rightarrow> bool" where
  "chunk_reader c f cbytes sp d \<longleftrightarrow> ctx_typesize d = ctx_typesize c \<and> ctx_sourcesize d = ctx_sourcesize c \<and>
     ctx_blocksize d = ctx_blocksize c \<and> ctx_nblocks d = ctx_nblocks c \<and> ctx_leftover d = ctx_leftover c \<and>
     ctx_filters d = ctx_filters c \<and> ctx_filters_meta d = ctx_filters_meta c \<and> ctx_header_overhead d = 32 \<and>
     ctx_special_type d = sp \<and> ctx_header_flags d = f \<and> ctx_blosc2_flags2 d = 0 \<and> ctx_blosc2_flags d AND 8 = 0 \<and>
     ctx_srcsize d = cbytes \<and> ctx_output_bytes d = 0 \<and>
     (ctx_bstarts d = Some 32 \<or> ctx_sourcesize c = 0 \<and> cbytes = 32 \<and> sp = 0)"

text \<open>The sizes a chunk of special values must have for its header to be read.\<close>

definition special_sizes :: "int \<Rightarrow> int \<Rightarrow> int \<Rightarrow> int \<Rightarrow> bool" where
  "special_sizes typesize nbytes cbytes sp \<longleftrightarrow> sp = 0 \<or> sp = BLOSC2_SPECIAL_ZERO \<or>
     (sp = BLOSC2_SPECIAL_NAN \<or> sp = BLOSC2_SPECIAL_UNINIT) \<and> nbytes smod typesize = 0 \<or>
     sp = BLOSC2_SPECIAL_VALUE \<and> 32 < cbytes \<and> cbytes - 32 \<le> BLOSC2_MAXTYPESIZE \<and> cbytes - 32 \<le> nbytes \<and> nbytes smod (cbytes - 32) = 0"

text \<open>A context of fixed-size blocks that \<open>write_compression_header\<close> can describe.\<close>

definition chunk_context :: "blosc2_context \<Rightarrow> bool" where
  "chunk_context c \<longleftrightarrow> 0 < ctx_typesize c \<and> ctx_typesize c \<le> 255 \<and> 0 \<le> ctx_sourcesize c \<and> ctx_sourcesize c + 32 < 2 ^ 31 \<and>
     0 < ctx_blocksize c \<and> ctx_blocksize c \<le> max 1 (ctx_sourcesize c) \<and> ctx_blocksize c \<le> BLOSC2_MAXBLOCKSIZE \<and>
     blosc2_calculate_blocks c = Some c \<and> 32 + 4 * ctx_nblocks c < 2 ^ 31 \<and>
     length (ctx_filters c) = 6 \<and> length (ctx_filters_meta c) = 6 \<and> ctx_blosc2_flags2 c = 0 \<and>
     ctx_blosc2_flags c AND BLOSC2_INSTR_CODEC = 0 \<and>
     logical_blocksize c = ctx_blocksize c"

lemma chunk_header_range:
  assumes "chunk_context c" "chunk_header c f cbytes sp g" "i32_range cbytes"
  shows "header_range g" "32 \<le> cbytes \<Longrightarrow> min_header_ok g"
proof -
  note c = assms(1)[unfolded chunk_context_def] and g = assms(2)[unfolded chunk_header_def]
  show "header_range g" using c g assms(3) by (auto simp: header_range_def i32_range_def)
  have "hdr_typesize g \<noteq> 0" using c g by auto
  then show "32 \<le> cbytes \<Longrightarrow> min_header_ok g" using c g by (simp add: min_header_ok_def)
qed

lemma read_chunk:
  assumes "chunk_context c" "chunk_header c f cbytes sp g" "i32_range cbytes" "32 \<le> cbytes" "cbytes \<le> int (length ch)"
    and "take 32 ch = min_header_image True g @ ext_header_image g" "bit f 0" "bit f 2" "special_sizes (ctx_typesize c) (ctx_sourcesize c) cbytes sp"
  shows "read_chunk_header le ch cbytes True = Some (Inr g)"
    and "blosc2_cbuffer_sizes le ch = Some (0, ctx_sourcesize c, cbytes, ctx_blocksize c)"
    and "load ch 0 = Some 5"
proof -
  note c = assms(1)[unfolded chunk_context_def] and g = assms(2)[unfolded chunk_header_def]
  note r = chunk_header_range[OF assms(1-3)]
  have len: "nat cbytes \<le> length ch" "32 \<le> length ch" using assms(4,5) by simp_all
  have ext: "is_extended True (hdr_flags g)" using g assms(7,8) by (simp add: is_extended_def flag_bit)
  have "32 \<le> hdr_cbytes g" using g assms(4) by simp
  note rd = read_header_image[OF r(1) assms(4) len(1) assms(6) r(2)[OF assms(4)] this ext, of le]
  have sp: "check_special g = Inr g" using g assms(9) by (auto simp: check_special_def special_sizes_def Let_def)
  have bs: "\<not> (hdr_nbytes g > 0 \<and> hdr_blocksize g > hdr_nbytes g)" using c g by auto
  then have v: "check_version g = Inr g" using g by (auto simp: check_version_def)
  show "read_chunk_header le ch cbytes True = Some (Inr g)" using rd sp v by simp
  have "take 16 ch = take 16 (take 32 ch)" by simp
  then have t: "take 16 ch = min_header_image True g" unfolding assms(6) by simp
  let ?m = "zero_header\<lparr> hdr_version := hdr_version g, hdr_versionlz := hdr_versionlz g, hdr_flags := hdr_flags g,
    hdr_typesize := hdr_typesize g, hdr_nbytes := hdr_nbytes g, hdr_blocksize := hdr_blocksize g, hdr_cbytes := hdr_cbytes g \<rparr>"
  have "min_header_ok ?m" using r(2)[OF assms(4)] by (simp add: min_header_ok_def)
  then have "read_chunk_header le ch BLOSC_MIN_HEADER_LENGTH False =
      Some (check_version (?m\<lparr> hdr_filters := flags_to_filters (hdr_flags g) \<rparr>))"
    using read_chunk_header_eq[of BLOSC_MIN_HEADER_LENGTH ch le False] len(2)
    by (simp add: t min_header_of_image_image[OF r(1)] is_extended_def)
  moreover have "check_version (?m\<lparr> hdr_filters := flags_to_filters (hdr_flags g) \<rparr>) = Inr (?m\<lparr> hdr_filters := flags_to_filters (hdr_flags g) \<rparr>)"
    using g bs by (auto simp: check_version_def zero_header_def)
  ultimately show "blosc2_cbuffer_sizes le ch = Some (0, ctx_sourcesize c, cbytes, ctx_blocksize c)"
    using g by (simp add: blosc2_cbuffer_sizes_def)
  have "ch ! 0 = take 16 ch ! 0" by simp
  also have "\<dots> = 5" unfolding t using g by (simp add: min_header_image_def)
  finally show "load ch 0 = Some 5" using len(2) by (cases ch) (auto simp: load_def)
qed

lemma and_8_bit: "(x :: byte) AND 8 = 0 \<longleftrightarrow> \<not> bit x 3"
  using and_exp_eq_0_iff_not_bit[of x 3] by simp

lemma context_from_chunk_header:
  assumes "chunk_context c" "chunk_header c f cbytes sp g" "bit f 0" "bit f 2" "ctx_srcsize i = cbytes"
  shows "\<exists>d. blosc2_initialize_context_from_header i g = Some (0, d) \<and> ctx_typesize d = ctx_typesize c \<and>
    ctx_sourcesize d = ctx_sourcesize c \<and> ctx_blocksize d = ctx_blocksize c \<and> ctx_nblocks d = ctx_nblocks c \<and>
    ctx_leftover d = ctx_leftover c \<and> ctx_filters d = ctx_filters c \<and> ctx_filters_meta d = ctx_filters_meta c \<and>
    ctx_header_overhead d = 32 \<and> ctx_header_flags d = f \<and> ctx_blosc2_flags2 d = 0 \<and> ctx_blosc2_flags d = hdr_blosc2_flags g \<and>
    ctx_srcsize d = cbytes \<and> ctx_output_bytes d = ctx_output_bytes i \<and> ctx_destsize d = ctx_destsize i \<and> ctx_special_type d = sp"
proof -
  note c = assms(1)[unfolded chunk_context_def] and g = assms(2)[unfolded chunk_header_def]
  have ext: "f AND BLOSC_DOSHUFFLE \<noteq> 0" "f AND BLOSC_DOBITSHUFFLE \<noteq> 0" "f AND BLOSC_MEMCPYED \<noteq> 0 \<longleftrightarrow> bit f 1"
    using assms(3,4) by (simp_all add: flag_bit)
  have B: "ctx_blocksize c \<noteq> 0" using c by simp
  have blocks: "ctx_nblocks c = (if ctx_sourcesize c smod ctx_blocksize c > 0
      then ctx_sourcesize c sdiv ctx_blocksize c + 1 else ctx_sourcesize c sdiv ctx_blocksize c)"
    "ctx_leftover c = ctx_sourcesize c smod ctx_blocksize c"
    using arg_cong[of _ _ "map_option ctx_nblocks", OF conjunct1[OF conjunct2[OF conjunct2[OF conjunct2[OF conjunct2[OF conjunct2[OF conjunct2[OF conjunct2[OF c]]]]]]]]]
      arg_cong[of _ _ "map_option ctx_leftover", OF conjunct1[OF conjunct2[OF conjunct2[OF conjunct2[OF conjunct2[OF conjunct2[OF conjunct2[OF conjunct2[OF c]]]]]]]]] B
    by (simp_all add: blosc2_calculate_blocks_def Let_def)
  have nb: "0 \<le> ctx_nblocks c" using c unfolding blocks(1) by (simp add: pos_imp_zdiv_nonneg_iff)
  have lazy: "hdr_blosc2_flags g AND 8 = 0" using g by (simp add: and_8_bit)
  show ?thesis
    using g c ext B assms(5) lazy unfolding blosc2_initialize_context_from_header_def blosc2_calculate_blocks_def
    by (simp add: Let_def blocks)
qed

lemma initialize_reader:
  assumes "chunk_context c" "chunk_header c f cbytes sp g" "bit f 0" "bit f 2" "special_sizes (ctx_typesize c) (ctx_sourcesize c) cbytes sp"
    and "ctx_sourcesize c \<le> destsize" "32 \<le> cbytes"
    and "bit f 1 \<Longrightarrow> cbytes = ctx_sourcesize c + 32" "sp = 0 \<Longrightarrow> \<not> bit f 1 \<Longrightarrow> 32 + 4 * ctx_nblocks c \<le> cbytes"
  shows "\<exists>d. initialize_context_decompression le ddict None r g ch cbytes destsize = Some (Inr (d, None)) \<and> chunk_reader c f cbytes sp d"
proof -
  note c = assms(1)[unfolded chunk_context_def] and g = assms(2)[unfolded chunk_header_def]
  have ext: "f AND BLOSC_DOSHUFFLE \<noteq> 0" "f AND BLOSC_DOBITSHUFFLE \<noteq> 0" "f AND BLOSC_MEMCPYED \<noteq> 0 \<longleftrightarrow> bit f 1"
    using assms(3,4) by (simp_all add: flag_bit)
  have B: "ctx_blocksize c \<noteq> 0" using c by simp
  have blocks: "ctx_nblocks c = (if ctx_sourcesize c smod ctx_blocksize c > 0
      then ctx_sourcesize c sdiv ctx_blocksize c + 1 else ctx_sourcesize c sdiv ctx_blocksize c)"
    "ctx_leftover c = ctx_sourcesize c smod ctx_blocksize c"
    using arg_cong[of _ _ "map_option ctx_nblocks", OF conjunct1[OF conjunct2[OF conjunct2[OF conjunct2[OF conjunct2[OF conjunct2[OF conjunct2[OF conjunct2[OF c]]]]]]]]]
      arg_cong[of _ _ "map_option ctx_leftover", OF conjunct1[OF conjunct2[OF conjunct2[OF conjunct2[OF conjunct2[OF conjunct2[OF conjunct2[OF conjunct2[OF c]]]]]]]]] B
    by (simp_all add: blosc2_calculate_blocks_def Let_def)
  have nb: "0 \<le> ctx_nblocks c" using c unfolding blocks(1) by (simp add: pos_imp_zdiv_nonneg_iff)
  have lazy: "hdr_blosc2_flags g AND 8 = 0" using g by (simp add: and_8_bit)
  define i where "i = r\<lparr> ctx_do_compress := False, ctx_srcsize := cbytes, ctx_destsize := destsize, ctx_output_bytes := 0 \<rparr>"
  have i: "ctx_srcsize i = cbytes" "ctx_destsize i = destsize" "ctx_output_bytes i = 0" by (simp_all add: i_def)
  obtain d where d: "blosc2_initialize_context_from_header i g = Some (0, d)" "ctx_typesize d = ctx_typesize c" "ctx_sourcesize d = ctx_sourcesize c"
    "ctx_blocksize d = ctx_blocksize c" "ctx_nblocks d = ctx_nblocks c" "ctx_leftover d = ctx_leftover c"
    "ctx_filters d = ctx_filters c" "ctx_filters_meta d = ctx_filters_meta c" "ctx_header_overhead d = 32"
    "ctx_header_flags d = f" "ctx_blosc2_flags2 d = 0" "ctx_blosc2_flags d = hdr_blosc2_flags g"
    "ctx_srcsize d = cbytes" "ctx_output_bytes d = 0" "ctx_destsize d = destsize"
    using context_from_chunk_header[OF assms(1-4) i(1)] i(2,3) by auto
  have dict: "hdr_blosc2_flags g AND BLOSC2_USEDICT = 0" using g by simp
  have vl: "\<not> ctx_vlblocks d" using d by (simp add: ctx_vlblocks_def)
  have cb: "hdr_cbytes g = cbytes" "hdr_nbytes g = ctx_sourcesize c" "special_type (hdr_blosc2_flags g) = sp" using g by simp_all
  have f: "\<not> ctx_sourcesize c > destsize" "\<not> sp > BLOSC2_SPECIAL_LASTID" "\<not> (bit f 1 \<and> cbytes \<noteq> ctx_sourcesize c + 32)"
    using assms(5,6,8) by (auto simp: special_sizes_def)
  then have no_error: "decompression_error None (d\<lparr> ctx_special_type := sp \<rparr>) g = None"
    using d(2-) by (simp add: decompression_error_def cb ext(3))
  have eval: "initialize_context_decompression le ddict None r g ch cbytes destsize =
      (if ctx_sourcesize c = 0 \<and> cbytes = 32 \<and> sp = 0 then Some (Inr (d\<lparr> ctx_special_type := sp \<rparr>, None))
       else read_sections le ddict (d\<lparr> ctx_special_type := sp, ctx_bstarts := Some 32 \<rparr>) g ch cbytes)"
    unfolding initialize_context_decompression_def i_def[symmetric] d(1) Option.bind.bind_lunit prod.case cb Let_def no_error
    using d(9) by simp
  show ?thesis
  proof (cases "ctx_sourcesize c = 0 \<and> cbytes = 32 \<and> sp = 0")
    case True
    have "chunk_reader c f cbytes sp (d\<lparr> ctx_special_type := sp \<rparr>)"
      using d(2-) lazy True by (simp add: chunk_reader_def)
    with True show ?thesis unfolding eval by auto
  next
    case False
    let ?d = "d\<lparr> ctx_special_type := sp, ctx_bstarts := Some 32 \<rparr>"
    have c9: "32 + 4 * ctx_nblocks c < 2 ^ 31" using c by blast
    have dd: "read_dict le ddict ?d ch e n = Some (Inr ?d)" for e n using d(12) dict by (simp add: read_dict_def)
    have "read_sections le ddict ?d g ch cbytes = Some (Inr (?d, None))"
    proof (cases "sp = 0 \<and> \<not> bit f 1")
      case True
      then show ?thesis using assms(9) nb c9 dd vl d(2-) ext(3) by (simp add: read_sections_def ctx_vlblocks_def)
    next
      case no: False
      then show ?thesis using assms(7) dd vl d(2-) ext(3) by (auto simp: read_sections_def ctx_vlblocks_def)
    qed
    moreover have "chunk_reader c f cbytes sp ?d" using d(2-) lazy by (simp add: chunk_reader_def)
    ultimately show ?thesis using False unfolding eval by auto
  qed
qed

end
