(* ===== verification/Zero_Chunk.thy ===== *)
theory Zero_Chunk
  imports Chunk_Roundtrip
begin

text \<open>
  The special value \<open>BLOSC2_SPECIAL_ZERO\<close> that \<open>blosc_compress_context\<close> gives a chunk whose compressed size is just
  4 bytes for each of its streams: every stream then is a run of zeros, so is every filtered
  block, and with filters that map only zeros to zeros the source is zero too.
\<close>

section \<open>Streams of zeros\<close>

definition zeros :: "buf \<Rightarrow> bool" where
  "zeros x \<longleftrightarrow> (\<forall>b \<in> set x. b = 0)"

lemma zeros_replicate: "zeros x \<longleftrightarrow> x = replicate (length x) 0"
  by (auto simp: zeros_def intro: replicate_eqI) (metis in_set_replicate)

lemma zeros_nth: "zeros x \<longleftrightarrow> (\<forall>i < length x. x ! i = 0)"
  by (simp add: zeros_def all_set_conv_all_nth)

lemma zeros_append [simp]: "zeros (x @ y) \<longleftrightarrow> zeros x \<and> zeros y"
  by (auto simp: zeros_def)

lemma zeros_concat: "zeros (concat xs) \<longleftrightarrow> (\<forall>x \<in> set xs. zeros x)"
  by (auto simp: zeros_def)

lemma short_stream_code: "stream_code d bs code \<Longrightarrow> length code = 4 \<Longrightarrow> zeros bs"
  by (auto simp: stream_code_def zeros_def split: if_splits) (metis in_set_replicate)+

text \<open>A sum of parts of at least 4 bytes that is 4 for each has parts of 4 bytes only.\<close>

lemma tight_concat:
  "\<forall>c \<in> set codes. f c \<le> length c \<Longrightarrow> length (concat codes) \<le> sum_list (map f codes) \<Longrightarrow> \<forall>c \<in> set codes. length c = f c"
proof (induction codes)
  case (Cons c codes)
  have "sum_list (map f codes) \<le> length (concat codes)"
    using Cons.prems(1) by (induction codes) (auto simp: add_mono)
  with Cons show ?case by auto
qed simp

lemma short_block_code:
  assumes "block_code d k n bs code" "length code \<le> 4 * k"
  shows "zeros bs"
proof -
  obtain bss codes where b: "list_all2 (stream_code d) bss codes" "length bss = k" "concat bss = bs" "concat codes = code"
    using assms(1) by (auto simp: block_code_def)
  have l: "length codes = k" using list_all2_lengthD[OF b(1)] b(2) by simp
  have codes: "\<forall>c \<in> set codes. 4 \<le> length c"
    using b(1) by (induction rule: list_all2_induct) (auto dest: stream_code_length)
  have "\<forall>c \<in> set codes. length c = 4"
    by (rule tight_concat[OF codes]) (use assms(2) b(4) l in \<open>simp add: sum_list_triv mult.commute\<close>)
  with b(1) have "\<forall>x \<in> set bss. zeros x"
    by (induction rule: list_all2_induct) (auto dest: short_stream_code)
  with b(3) show ?thesis by (auto simp: zeros_concat)
qed

section \<open>Filters that keep zeros apart\<close>

text \<open>A pipeline of the standard shuffles maps only zeros to zeros.\<close>

definition standard_filters :: "blosc2_context \<Rightarrow> bool" where
  "standard_filters c \<longleftrightarrow> (\<forall>i < 6. ctx_filters c ! i \<in> {BLOSC_NOFILTER, BLOSC_SHUFFLE, BLOSC_BITSHUFFLE})"

lemma bitcol_zero: "(\<And>b. b \<in> set xs \<Longrightarrow> b = 0) \<Longrightarrow> bitcol xs k = 0"
  by (rule bit_eqI) (metis bit_bitcol bit_0_eq bot_apply bot_bool_def nth_mem)

lemma bitunshuffle_byte_zero:
  assumes "sz mod 8 = 0" "k < sz * e" "\<And>i. i < sz * e \<Longrightarrow> a ! i = 0"
  shows "bitunshuffle_byte a sz e k = 0"
proof -
  obtain nr where nr: "sz = 8 * nr" using assms(1) by auto
  have e: "0 < e" using assms(2) by (cases e) auto
  have "k div e < sz" using assms(2) by (simp add: less_mult_imp_div_less)
  then have q: "k div e div 8 < nr" using nr by simp
  have "a ! ((8 * (k mod e) + c) * nr + k div e div 8) = 0" if "c < 8" for c
  proof (rule assms(3))
    have "k mod e < e" using e by simp
    then have "8 * (k mod e) + c < 8 * e" using that by linarith
    from index_lt[OF q this] show "(8 * (k mod e) + c) * nr + k div e div 8 < sz * e" using nr by (simp add: mult_ac)
  qed
  then show ?thesis using nr by (auto simp: bitunshuffle_byte_def intro!: bitcol_zero)
qed

context shuffle_host
begin

lemma zeros_of_filter:
  assumes "1 \<le> ctx_typesize c" "ctx_typesize c \<le> 255" "ctx_filters c ! i \<in> {BLOSC_NOFILTER, BLOSC_SHUFFLE, BLOSC_BITSHUFFLE}"
    and "v \<noteq> BLOSC1_VERSION_FORMAT" "filter_codes host user user' c v n i x z" "zeros z"
  shows "zeros x"
proof (cases "ctx_filters c ! i = BLOSC_NOFILTER")
  case True
  with assms(5,6) show ?thesis by (simp add: filter_codes_def)
next
  case False
  let ?f = "backward_action host user' c v (int n) i"
  have fc: "filter_code (forward_action host user c (int n) i) ?f n x z"
    using assms(5) False by (simp add: filter_codes_def)
  have l: "length x = n" "length z = n" using fc by (simp_all add: filter_code_def)
  have "\<exists>r. 0 \<le> r \<and> ?f z (replicate n 1) = Some (r, x @ drop n (replicate n 1))"
    by (rule fc[unfolded filter_code_def, THEN conjunct2, THEN conjunct2, THEN conjunct2, rule_format]) (use l in simp)
  then have undo: "\<exists>r. 0 \<le> r \<and> ?f z (replicate n 1) = Some (r, x)" by simp
  have z: "\<And>i. i < n \<Longrightarrow> z ! i = 0" using assms(6) l by (simp add: zeros_nth)
  consider "ctx_filters c ! i = BLOSC_SHUFFLE" | "ctx_filters c ! i = BLOSC_BITSHUFFLE" using assms(3) False by auto
  then show ?thesis
  proof cases
    case 1
    define t where "t = nat (shuffle_typesize c i)"
    have "uint (ctx_filters_meta c ! i) < 256" "ctx_filters_meta c ! i \<noteq> 0 \<Longrightarrow> 0 < uint (ctx_filters_meta c ! i)"
      using uint_lt2p[of "ctx_filters_meta c ! i"] by (simp, metis order_le_less uint_ge_0 unsigned_eq_0_iff)
    then have s: "1 \<le> shuffle_typesize c i" "shuffle_typesize c i \<le> 256"
      using assms(1,2) by (auto simp: shuffle_typesize_def)
    then have t: "0 < t" by (simp add: t_def)
    have "x = map (\<lambda>k. z ! unshuffle_ix t n k) [0..<n]"
      using undo 1 s l t by (auto simp: backward_action_def blosc2_unshuffle_def host_unshuffle t_def)
    then show ?thesis using z unshuffle_ix_less[OF t] by (auto simp: zeros_def)
  next
    case 2
    let ?t = "nat (ctx_typesize c)" and ?sz = "n div nat (ctx_typesize c) - n div nat (ctx_typesize c) mod 8"
    have m: "?sz mod 8 = 0" by (simp add: minus_mod_eq_mult_div)
    have "?sz * ?t \<le> n div ?t * ?t" by (intro mult_le_mono1) simp
    also have "\<dots> \<le> n" by simp
    finally have le: "?sz * ?t \<le> n" .
    have "x = map (\<lambda>k. if k < ?sz * ?t then bitunshuffle_byte z ?sz ?t k else z ! k) [0..<n]"
      using undo 2 assms(1,2) l bitshuffle_eq(2)[OF assms(1) _ _ _ _ assms(4), of "int n" z "replicate n 1"]
      by (auto simp: backward_action_def)
    moreover have "bitunshuffle_byte z ?sz ?t k = 0" if "k < ?sz * ?t" for k
      by (rule bitunshuffle_byte_zero[OF m that]) (use z le in simp)
    ultimately show ?thesis using z by (auto simp: zeros_def)
  qed
qed

lemma zeros_of_pipeline:
  assumes "1 \<le> ctx_typesize c" "ctx_typesize c \<le> 255" "\<forall>i \<in> set is. ctx_filters c ! i \<in> {BLOSC_NOFILTER, BLOSC_SHUFFLE, BLOSC_BITSHUFFLE}"
    and "v \<noteq> BLOSC1_VERSION_FORMAT" "pipeline_codes host user user' c v n is x z" "zeros z"
  shows "zeros x"
  using assms(3,5)
proof (induction "is" arbitrary: x)
  case (Cons i rest)
  then obtain y where y: "filter_codes host user user' c v n i x y" "pipeline_codes host user user' c v n rest y z" by auto
  have "zeros y" using Cons.IH[OF _ y(2)] Cons.prems(1) by simp
  with zeros_of_filter[OF assms(1,2) _ assms(4) y(1)] Cons.prems(1) show ?case by simp
qed (use assms(6) in simp)

lemma short_stored_block:
  assumes "1 \<le> ctx_typesize c" "ctx_typesize c \<le> 255" "standard_filters c" "v \<noteq> BLOSC1_VERSION_FORMAT"
    and "stored_block host user user' c v k x code" "length code \<le> 4 * k"
  shows "zeros x"
proof -
  obtain z m where z: "pipeline_codes host user user' c v (length x) [0..<6] x z" "block_code blosclz_decompress k m z code"
    using assms(5) unfolding stored_block_def by blast
  have "\<forall>i \<in> set [0..<6]. ctx_filters c ! i \<in> {BLOSC_NOFILTER, BLOSC_SHUFFLE, BLOSC_BITSHUFFLE}"
    using assms(3) by (simp add: standard_filters_def)
  from zeros_of_pipeline[OF assms(1,2) this assms(4) z(1) short_block_code[OF z(2) assms(6)]] show ?thesis .
qed

end

section \<open>The chunk\<close>

text \<open>\<open>blosc_compress_context\<close> counts the streams of all blocks.\<close>

lemma chunk_nstreams_sum:
  assumes "blocks_ok c"
  shows "chunk_nstreams c = int (\<Sum>j<nat (ctx_nblocks c). block_streams c j)"
proof -
  have t: "0 < ctx_typesize c" "\<not> ctx_vlblocks c" using assms by (simp_all add: blocks_ok_def)
  note cnt = blocks_ok_count[OF assms]
  obtain nb where nb: "ctx_nblocks c = int nb" using nonneg_int_cases[OF cnt(3)] by blast
  have L: "0 \<le> ctx_leftover c" using cnt(1) assms by (simp add: blocks_ok_def)
  show ?thesis
  proof (cases "dont_split c")
    case True
    then have "block_streams c j = 1" for j using t by (simp add: block_streams_def d_nstreams_def)
    with True nb show ?thesis by (simp add: chunk_nstreams_def)
  next
    case False
    have s: "block_streams c j = (if block_left c j then 1 else nat (ctx_typesize c))" for j
      using False t by (simp add: block_streams_def d_nstreams_def)
    show ?thesis
    proof (cases "ctx_leftover c = 0")
      case True
      then have "block_streams c j = nat (ctx_typesize c)" for j using s by (simp add: block_left_def)
      with False True nb t show ?thesis by (simp add: chunk_nstreams_def)
    next
      case left: False
      have "0 \<le> ctx_sourcesize c div ctx_blocksize c" using assms by (simp add: blocks_ok_def pos_imp_zdiv_nonneg_iff)
      then have "0 < nb" using cnt(2) left L nb by simp
      then obtain k where k: "nb = Suc k" by (cases nb) auto
      have "block_streams c j = (if j = k then 1 else nat (ctx_typesize c))" for j
        using s left L nb k by (auto simp: block_left_def)
      then have "(\<Sum>j<nat (ctx_nblocks c). block_streams c j) = k * nat (ctx_typesize c) + 1" unfolding nb k nat_int by simp
      moreover have "chunk_nstreams c = int k * ctx_typesize c + 1" using False left nb k by (simp add: chunk_nstreams_def)
      ultimately show ?thesis using t by simp
    qed
  qed
qed

context shuffle_host
begin

lemma zero_chunk_source:
  assumes "blocks_ok c" "ctx_typesize c \<le> 255" "standard_filters c" "v \<noteq> BLOSC1_VERSION_FORMAT"
    and "length codes = nat (ctx_nblocks c)" "codes_stored host user user' c v src 0 N codes dest"
    and "int (length (concat codes)) = 4 * chunk_nstreams c" "int (length src) = ctx_sourcesize c"
  shows "src = replicate (length src) 0"
proof -
  let ?nb = "nat (ctx_nblocks c)"
  have ts: "1 \<le> ctx_typesize c" using assms(1) by (simp add: blocks_ok_def)
  have st: "stored_block host user user' c v (block_streams c j) (block_bytes c src j) (codes ! j)" if "j < ?nb" for j
    using assms(6)[unfolded codes_stored_def, rule_format, of j] that assms(5) by simp
  have lower: "4 * block_streams c j \<le> length (codes ! j)" if "j < ?nb" for j
    using st[OF that] by (auto simp: stored_block_def dest: block_code_length)
  have total: "(\<Sum>j<?nb. length (codes ! j)) = (\<Sum>j<?nb. 4 * block_streams c j)"
  proof -
    have "length (concat codes) = (\<Sum>j<?nb. length (codes ! j))"
      using assms(5) by (simp add: length_concat sum_list_sum_nth atLeast0LessThan)
    moreover have "int (length (concat codes)) = int (\<Sum>j<?nb. 4 * block_streams c j)"
      unfolding assms(7) chunk_nstreams_sum[OF assms(1)] by (simp add: sum_distrib_left)
    ultimately show ?thesis by (metis of_nat_eq_iff)
  qed
  have exact: "length (codes ! j) = 4 * block_streams c j" if "j < ?nb" for j
    using sum_mono_inv[OF total[symmetric] lower[OF lessThan_iff[THEN iffD1]] _ finite_lessThan] that by simp
  have blocks: "zeros (block_bytes c src j)" if "j < ?nb" for j
    using short_stored_block[OF ts assms(2,3,4) st[OF that]] exact[OF that] by simp
  have "zeros (take (done_bytes c j) src)" if "j \<le> ?nb" for j
    using that
  proof (induction j)
    case (Suc j)
    then have j: "int j < ctx_nblocks c" "j < ?nb" by linarith+
    note d = done_bytes_block[OF assms(1) j(1)]
    have "take (done_bytes c (Suc j)) src = take (done_bytes c j) src @ block_bytes c src j"
      unfolding d block_bytes_def by (simp add: take_add)
    with Suc blocks[OF j(2)] show ?case by simp
  qed (simp add: done_bytes_def block_start_def zeros_def)
  from this[of ?nb] have "zeros src" using done_bytes_all[OF assms(1)] assms(8) by simp
  then show ?thesis by (simp add: zeros_replicate)
qed

end

end
