(* ===== verification/Getitem.thy ===== *)
theory Getitem
  imports Chunk_Roundtrip
begin

text \<open>
  Partial decompression of a chunk in \<open>blosc/blosc2.c\<close>: \<open>_blosc_getitem\<close> and the entry points above it, for a context that is
  created for the call, without the support for ZFP cells. Only the blocks that hold some of the items are decoded.
\<close>

section \<open>The loop over the blocks\<close>

text \<open>
  The loop from block \<open>j\<close> on with \<open>ntbytes\<close> bytes done. \<open>tmps\<close> are the four temporaries of the thread. A block that seems to be the whole
  request is decoded in the destination itself, every other one in the second temporary.
\<close>

definition single_block :: "int \<Rightarrow> int \<Rightarrow> int \<Rightarrow> bool" where
  "single_block startb bsize nitems_bytes = (startb = 0 \<and> bsize = nitems_bytes)"

primrec getitem_blocks ::
    "bool \<Rightarrow> shuffle_implementation \<Rightarrow> (byte \<Rightarrow> user_filter option) \<Rightarrow> (int \<Rightarrow> int \<Rightarrow> codec_fun option) \<Rightarrow> postfilter option \<Rightarrow>
      blosc2_context \<Rightarrow> blosc_header \<Rightarrow> buf \<Rightarrow> int \<Rightarrow> int \<Rightarrow> int \<Rightarrow> int \<Rightarrow> bool \<Rightarrow> nat list \<Rightarrow> int \<Rightarrow> buf \<Rightarrow> buf list \<Rightarrow> (int \<times> buf) option" where
  "getitem_blocks le host user' dec post context header src srcsize start stop nitems_bytes memcpyed [] ntbytes dest tmps = Some (ntbytes, dest)"
| "getitem_blocks le host user' dec post context header src srcsize start stop nitems_bytes memcpyed (j # js) ntbytes dest tmps = do {
     let blocksize = hdr_blocksize header;
     let typesize = uint (hdr_typesize header);
     let leftoverblock = (int j = ctx_nblocks context - 1 \<and> ctx_leftover context > 0);
     let bsize = (if leftoverblock then ctx_leftover context else blocksize);
     block \<leftarrow> i32 (int j * blocksize);
     first \<leftarrow> i32 (start * typesize);
     startb \<leftarrow> i32 (first - block);
     last \<leftarrow> i32 (stop * typesize);
     stopb \<leftarrow> i32 (last - block);
     if stopb \<le> 0 then Some (ntbytes, dest)
     else if startb \<ge> blocksize
     then getitem_blocks le host user' dec post context header src srcsize start stop nitems_bytes memcpyed js ntbytes dest tmps
     else do {
       let startb = (if startb < 0 then 0 else startb);
       let stopb = (if stopb > blocksize then blocksize else stopb);
       let bsize2 = stopb - startb;
       let single = single_block startb bsize nitems_bytes;
       src_offset \<leftarrow> (if memcpyed then i32 (ctx_header_overhead context + block)
         else load_sw32 le src (nat (ctx_header_overhead context) + 4 * j));
       (cbytes, mem) \<leftarrow> blosc_d le host user' dec post None None context bsize leftoverblock memcpyed src srcsize src_offset (int j) 0 0
         [if single then dest else tmps ! 1, tmps ! 0, tmps ! 2, tmps ! 3];
       let dest = (if single then mem ! 0 else dest);
       let tmps = [mem ! 1, if single then tmps ! 1 else mem ! 0, mem ! 2, mem ! 3];
       if cbytes < 0 then Some (cbytes, dest)
       else do {
         dest \<leftarrow> (if single then Some dest else memcpy dest (nat ntbytes) (tmps ! 1) (nat startb) (nat bsize2));
         ntbytes \<leftarrow> i32 (ntbytes + bsize2);
         getitem_blocks le host user' dec post context header src srcsize start stop nitems_bytes memcpyed js ntbytes dest tmps } } }"

section \<open>The entry points\<close>

text \<open>Copied chunks and special values: nothing has to be decoded.\<close>

definition getitem_short ::
    "bool \<Rightarrow> blosc2_context \<Rightarrow> blosc_header \<Rightarrow> buf \<Rightarrow> int \<Rightarrow> int \<Rightarrow> int \<Rightarrow> buf \<Rightarrow> (int \<times> buf) option" where
  "getitem_short le context header src srcsize start_bytes ntbytes dest =
    (if ctx_special_type context = BLOSC2_SPECIAL_VALUE then do {
       (rc, dest) \<leftarrow> set_values (hdr_cbytes header - ctx_header_overhead context) src dest 0 ntbytes;
       Some (if rc < 0 then BLOSC2_ERROR_DATA else ntbytes, dest) }
     else if ctx_special_type context = BLOSC2_SPECIAL_NAN then do {
       (rc, dest) \<leftarrow> set_nans le (ctx_typesize context) dest 0 ntbytes;
       Some (if rc < 0 then BLOSC2_ERROR_DATA else ntbytes, dest) }
     else if ctx_special_type context = BLOSC2_SPECIAL_ZERO then do {
       dest \<leftarrow> memset dest 0 0 (nat ntbytes);
       Some (ntbytes, dest) }
     else if ctx_special_type context = BLOSC2_SPECIAL_UNINIT then Some (ntbytes, dest)
     else if ctx_special_type context = 0 then
       let src_offset = ctx_header_overhead context + start_bytes;
           src_stop = src_offset + ntbytes in
       if src_offset < 0 \<or> src_stop < src_offset \<or> src_stop > srcsize then Some (BLOSC2_ERROR_READ_BUFFER, dest)
       else do {
         dest \<leftarrow> memcpy dest 0 src (nat src_offset) (nat ntbytes);
         Some (ntbytes, dest) }
     else Some (BLOSC2_ERROR_SCHUNK_SPECIAL, dest))"

definition blosc_getitem ::
    "bool \<Rightarrow> shuffle_implementation \<Rightarrow> (byte \<Rightarrow> user_filter option) \<Rightarrow> (int \<Rightarrow> int \<Rightarrow> codec_fun option) \<Rightarrow> postfilter option \<Rightarrow>
      blosc2_context \<Rightarrow> buf list \<Rightarrow> blosc_header \<Rightarrow> buf \<Rightarrow> int \<Rightarrow> int \<Rightarrow> int \<Rightarrow> buf \<Rightarrow> int \<Rightarrow> (int \<times> buf) option" where
  "blosc_getitem le host user' dec post context tmps header src srcsize start nitems dest destsize =
    (let typesize = uint (hdr_typesize header);
         nitems_bytes = nitems * typesize;
         start_bytes = start * typesize;
         stop = start + nitems;
         stop_bytes = stop * typesize;
         chunk_memcpyed = (hdr_flags header AND BLOSC_MEMCPYED \<noteq> 0);
         memcpyed = (chunk_memcpyed \<or> ctx_special_type context \<noteq> 0);
         is_lazy = (ctx_header_overhead context = BLOSC_EXTENDED_HEADER_LENGTH \<and> ctx_blosc2_flags context AND 8 \<noteq> 0 \<and>
                    ctx_special_type context = 0)
     in if nitems = 0 then Some (0, dest)
     else if nitems < 0 then Some (BLOSC2_ERROR_INVALID_PARAM, dest)
     else if nitems_bytes < 0 \<or> nitems_bytes > INT_MAX \<or> nitems_bytes > destsize then Some (BLOSC2_ERROR_WRITE_BUFFER, dest)
     else if start < 0 \<or> start_bytes < 0 \<or> start_bytes > hdr_nbytes header then Some (BLOSC2_ERROR_INVALID_PARAM, dest)
     else if stop < 0 \<or> stop > INT_MAX then Some (BLOSC2_ERROR_INVALID_PARAM, dest)
     else if stop_bytes < 0 \<or> stop_bytes > hdr_nbytes header then Some (BLOSC2_ERROR_INVALID_PARAM, dest)
     else if ctx_special_type context = 0 \<and> \<not> chunk_memcpyed \<and> srcsize < ctx_header_overhead context + 4 * ctx_nblocks context
     then Some (BLOSC2_ERROR_READ_BUFFER, dest)
     else if memcpyed \<and> \<not> is_lazy \<and> post = None
     then getitem_short le context header src srcsize start_bytes nitems_bytes dest
     else do {
       (ntbytes, dest) \<leftarrow> getitem_blocks le host user' dec post context header src srcsize start stop nitems_bytes memcpyed
         [0..<nat (ctx_nblocks context)] 0 dest tmps;
       Some (if ntbytes \<ge> 0 \<and> ntbytes \<noteq> nitems_bytes then BLOSC2_ERROR_DATA else ntbytes, dest) })"

definition getitem_read_header :: "bool \<Rightarrow> buf \<Rightarrow> int \<Rightarrow> (int + blosc_header) option" where
  "getitem_read_header le src srcsize = do {
     r \<leftarrow> read_chunk_header le src srcsize True;
     Some (case r of Inl rc \<Rightarrow> Inl rc
       | Inr header \<Rightarrow> if hdr_blosc2_flags2 header AND BLOSC2_VL_BLOCKS \<noteq> 0 then Inl BLOSC2_ERROR_INVALID_PARAM else Inr header) }"

definition getitem_with_header ::
    "bool \<Rightarrow> shuffle_implementation \<Rightarrow> (nat \<Rightarrow> buf option) \<Rightarrow> (byte \<Rightarrow> user_filter option) \<Rightarrow> (int \<Rightarrow> int \<Rightarrow> codec_fun option) \<Rightarrow> postfilter option \<Rightarrow>
      blosc2_context \<Rightarrow> blosc_header \<Rightarrow> buf \<Rightarrow> int \<Rightarrow> int \<Rightarrow> int \<Rightarrow> buf \<Rightarrow> int \<Rightarrow> (int \<times> buf) option" where
  "getitem_with_header le host alloc user' dec post context header src srcsize start nitems dest destsize = do {
     (rc, context) \<leftarrow> blosc2_initialize_context_from_header (context\<lparr> ctx_srcsize := srcsize, ctx_destsize := destsize \<rparr>) header;
     if rc < 0 then Some (rc, dest)
     else do {
       t \<leftarrow> thread_buffers alloc context;
       case t of None \<Rightarrow> Some (BLOSC2_ERROR_THREAD_CREATE, dest)
       | Some tmps \<Rightarrow> blosc_getitem le host user' dec post context tmps header src srcsize start nitems dest destsize } }"

definition blosc2_getitem_ctx ::
    "bool \<Rightarrow> shuffle_implementation \<Rightarrow> (nat \<Rightarrow> buf option) \<Rightarrow> (byte \<Rightarrow> user_filter option) \<Rightarrow> (int \<Rightarrow> int \<Rightarrow> codec_fun option) \<Rightarrow> postfilter option \<Rightarrow>
      blosc2_context \<Rightarrow> buf \<Rightarrow> int \<Rightarrow> int \<Rightarrow> int \<Rightarrow> buf \<Rightarrow> int \<Rightarrow> (int \<times> buf) option" where
  "blosc2_getitem_ctx le host alloc user' dec post context src srcsize start nitems dest destsize = do {
     r \<leftarrow> getitem_read_header le src srcsize;
     case r of Inl rc \<Rightarrow> Some (rc, dest)
     | Inr header \<Rightarrow> getitem_with_header le host alloc user' dec post context header src srcsize start nitems dest destsize }"

definition blosc2_getitem_bytes_ctx ::
    "bool \<Rightarrow> shuffle_implementation \<Rightarrow> (nat \<Rightarrow> buf option) \<Rightarrow> (byte \<Rightarrow> user_filter option) \<Rightarrow> (int \<Rightarrow> int \<Rightarrow> codec_fun option) \<Rightarrow> postfilter option \<Rightarrow>
      blosc2_context \<Rightarrow> buf \<Rightarrow> int \<Rightarrow> int \<Rightarrow> int \<Rightarrow> buf \<Rightarrow> int \<Rightarrow> (int \<times> buf) option" where
  "blosc2_getitem_bytes_ctx le host alloc user' dec post context src srcsize start nbytes dest destsize = do {
     r \<leftarrow> getitem_read_header le src srcsize;
     case r of Inl rc \<Rightarrow> Some (rc, dest)
     | Inr header \<Rightarrow>
         let typesize = uint (hdr_typesize header) in
         if start < 0 \<or> nbytes < 0 then Some (BLOSC2_ERROR_INVALID_PARAM, dest)
         else if start smod typesize \<noteq> 0 \<or> nbytes smod typesize \<noteq> 0 then Some (BLOSC2_ERROR_INVALID_PARAM, dest)
         else getitem_with_header le host alloc user' dec post context header src srcsize (start sdiv typesize) (nbytes sdiv typesize)
           dest destsize }"

section \<open>The items of decoded blocks\<close>

text \<open>Every block of the chunk \<open>ch\<close> decodes to its part of \<open>bs\<close>, wherever it is decoded.\<close>

definition decodes_blocks ::
    "bool \<Rightarrow> shuffle_implementation \<Rightarrow> (byte \<Rightarrow> user_filter option) \<Rightarrow> (int \<Rightarrow> int \<Rightarrow> codec_fun option) \<Rightarrow> blosc2_context \<Rightarrow> buf \<Rightarrow> int \<Rightarrow> buf \<Rightarrow> bool" where
  "decodes_blocks le host user' dec c ch srcsize bs \<longleftrightarrow>
    (\<forall>j out t1 t2 t3. int j < ctx_nblocks c \<and> block_len c j \<le> length out \<and> nat (ctx_blocksize c) \<le> length t1 \<and>
      nat (ctx_blocksize c) \<le> length t2 \<and> nat (ctx_blocksize c) \<le> length t3 \<longrightarrow>
      (\<exists>off t1' t2' t3'. load_sw32 le ch (32 + 4 * j) = Some off \<and>
        blosc_d le host user' dec None None None c (int (block_len c j)) (block_left c j) False ch srcsize off (int j) 0 0
          [out, t1, t2, t3] = Some (int (block_len c j), [block_bytes c bs j @ drop (block_len c j) out, t1', t2', t3']) \<and>
        length t1' = length t1 \<and> length t2' = length t2 \<and> length t3' = length t3))"

text \<open>
  A request for the bytes from \<open>x\<close> to \<open>y\<close> is regular when a block is as long as the request only where the request is that block.
\<close>

definition regular_request :: "blosc2_context \<Rightarrow> nat \<Rightarrow> nat \<Rightarrow> bool" where
  "regular_request c x y \<longleftrightarrow>
    (\<forall>j. int j < ctx_nblocks c \<and> x \<le> block_start c j \<and> block_start c j < y \<and> block_len c j = y - x \<longrightarrow> x = block_start c j)"

definition items_done :: "blosc2_context \<Rightarrow> nat \<Rightarrow> nat \<Rightarrow> nat \<Rightarrow> nat" where
  "items_done c x y j = min y (max x (block_start c j)) - x"

definition slice_upto :: "buf \<Rightarrow> nat \<Rightarrow> nat \<Rightarrow> buf \<Rightarrow> bool" where
  "slice_upto bs x nt dest \<longleftrightarrow> take nt dest = take nt (drop x bs)"

lemma slice_blit:
  assumes "slice_upto bs x nt dest" "nt + m \<le> length dest" "x + nt + m \<le> length bs"
  shows "slice_upto bs x (nt + m) (take nt dest @ take m (drop (x + nt) bs) @ drop (nt + m) dest)"
proof -
  have "take (nt + m) (drop x bs) = take nt (drop x bs) @ take m (drop (x + nt) bs)"
    using take_add[of nt m "drop x bs"] by (simp only: drop_drop add.commute)
  then show ?thesis using assms by (simp add: slice_upto_def)
qed

lemma blit_rest:
  assumes "t + m \<le> length dest" "x + t + m \<le> length bs" "t + m \<le> n"
  shows "length (take t dest @ take m (drop (x + t) bs) @ drop (t + m) dest) = length dest"
    and "drop n (take t dest @ take m (drop (x + t) bs) @ drop (t + m) dest) = drop n dest"
  using assms by (simp_all add: min_absorb2 min_absorb1)

lemma take_drop_front: "p + m \<le> length xs \<Longrightarrow> take m (drop p (xs @ ys)) = take m (drop p xs)"
  by simp

lemma take_drop_inner: "p + m \<le> n \<Longrightarrow> take m (drop p (take n (drop q xs))) = take m (drop (p + q) xs)"
  by (simp add: drop_take min_absorb1)

lemma getitem_blocks_slice:
  assumes ok: "blocks_ok c" "ctx_header_overhead c = 32" "hdr_blocksize h = ctx_blocksize c"
    and dec: "decodes_blocks le host user' dec c ch srcsize bs" "nat (ctx_sourcesize c) \<le> length bs"
    and xy: "start * uint (hdr_typesize h) = int x" "stop * uint (hdr_typesize h) = int y" "x < y" "int y \<le> ctx_sourcesize c"
    and reg: "regular_request c x y"
    and "j \<le> nat (ctx_nblocks c)" "y - x \<le> length dest" "slice_upto bs x (items_done c x y j) dest"
    and "length tmps = 4" "\<forall>t\<in>set tmps. nat (ctx_blocksize c) \<le> length t"
  shows "\<exists>dest'. getitem_blocks le host user' dec None c h ch srcsize start stop (int (y - x)) False [j..<nat (ctx_nblocks c)]
      (int (items_done c x y j)) dest tmps = Some (int (y - x), dest') \<and>
    length dest' = length dest \<and> slice_upto bs x (y - x) dest' \<and> drop (y - x) dest' = drop (y - x) dest"
  using assms(11-15)
proof (induction "nat (ctx_nblocks c) - j" arbitrary: j dest tmps)
  case 0
  then have "j = nat (ctx_nblocks c)" by simp
  then have "nat (ctx_sourcesize c) \<le> block_start c j" using done_bytes_all[OF ok(1)] by (simp add: done_bytes_def)
  then have "items_done c x y j = y - x" using xy(3,4) by (simp add: items_done_def)
  with 0 show ?case by simp
next
  case (Suc k)
  let ?nb = "nat (ctx_nblocks c)" and ?n = "block_len c j" and ?o = "block_start c j" and ?B = "nat (ctx_blocksize c)"
  have jn: "j < ?nb" "int j < ctx_nblocks c" using Suc.hyps(2) by linarith+
  have hk: "k = ?nb - Suc j" using Suc.hyps(2) by linarith
  note geo = block_geometry[OF ok(1) jn(2)]
  have up: "[j..<?nb] = j # [Suc j..<?nb]" using jn(1) by (rule upt_conv_Cons)
  have B: "0 < ctx_blocksize c" "ctx_sourcesize c < 2 ^ 31" and vl: "\<not> ctx_vlblocks c"
    using ok(1) by (simp_all add: blocks_ok_def)
  have nxt: "block_start c (Suc j) = ?o + ?B" by (simp add: block_start_def)
  have o: "int j * ctx_blocksize c = int ?o" using B(1) by (simp add: block_start_def)
  have ext: "(int j = ctx_nblocks c - 1 \<and> ctx_leftover c > 0) = block_left c j"
    "(if block_left c j then ctx_leftover c else ctx_blocksize c) = int ?n"
    using geo(1)[of None] vl by (auto simp: block_extent_def block_left_def split: if_splits)
  have r: "i32 (int ?o) = Some (int ?o)" "i32 (int x) = Some (int x)" "i32 (int y) = Some (int y)"
    "i32 (int x - int ?o) = Some (int x - int ?o)" "i32 (int y - int ?o) = Some (int y - int ?o)"
    using geo(5) xy(3,4) B(2) by (auto intro!: i32_Some)
  let ?t = "items_done c x y"
  consider "y \<le> ?o" | "?o < y" "?o + ?B \<le> x" | "?o < y" "x < ?o + ?B" by linarith
  then show ?case
  proof cases
    case 1
    then have "?t j = y - x" using xy(3) by (simp add: items_done_def)
    with 1 Suc.prems show ?thesis
      by (simp add: up o r xy ok(3) Let_def del: upt_Suc)
  next
    case 2
    then have t: "?t j = 0" "?t (Suc j) = 0" using xy(3) nxt by (simp_all add: items_done_def)
    have br: "\<not> int y - int ?o \<le> 0" "int x - int ?o \<ge> ctx_blocksize c" using 2 B(1) by auto
    have "getitem_blocks le host user' dec None c h ch srcsize start stop (int (y - x)) False [j..<?nb] (int (?t j)) dest tmps =
        getitem_blocks le host user' dec None c h ch srcsize start stop (int (y - x)) False [Suc j..<?nb] (int (?t (Suc j))) dest tmps"
      using br by (simp only: up getitem_blocks.simps Let_def o r xy ok t bind.bind_lunit if_True if_False)
    moreover have "slice_upto bs x (?t (Suc j)) dest" by (simp add: t slice_upto_def)
    ultimately show ?thesis using Suc.hyps(1)[OF hk, of dest tmps] Suc.prems jn(1) by simp
  next
    case 3
    obtain t0 t1 t2 t3 where tm: "tmps = [t0, t1, t2, t3]" using Suc.prems(4) by (auto simp: length_Suc_conv eval_nat_numeral)
    have tl: "?B \<le> length t0" "?B \<le> length t1" "?B \<le> length t2" "?B \<le> length t3" using Suc.prems(5) tm by auto
    have nB: "?n \<le> ?B" using geo(4) by linarith
    let ?s = "max x ?o - ?o" and ?e = "min y (?o + ?B)"
    let ?m = "?e - max x ?o"
    have en: "?e \<le> ?o + ?n" using geo(5,6) xy(4) nxt by linarith
    have m: "0 < ?m" "?s + ?m \<le> ?n" "?t j + ?m = ?t (Suc j)" "x + ?t j = max x ?o" "?t j + ?m \<le> y - x"
      using 3 xy(3) en nxt B(1) by (auto simp: items_done_def)
    have sb: "(if int x - int ?o < 0 then 0 else int x - int ?o) = int ?s" by simp
    have eb: "(if int y - int ?o > ctx_blocksize c then ctx_blocksize c else int y - int ?o) = int (?e - ?o)"
      using 3 B(1) by auto
    have diff: "int (?e - ?o) - int ?s = int ?m" using 3 xy(3) by auto
    have br: "\<not> int y - int ?o \<le> 0" "\<not> int x - int ?o \<ge> ctx_blocksize c" using 3 B(1) by auto
    have i: "i32 (int (?t j) + int ?m) = Some (int (?t (Suc j)))"
      using m(3,5) xy(4) B(2) by (auto intro!: i32_Some simp flip: of_nat_add)
    show ?thesis
    proof (cases "single_block (int ?s) (int ?n) (int (y - x))")
      case True
      then have s: "x \<le> ?o" "?n = y - x" by (auto simp: single_block_def)
      then have x: "x = ?o" using reg jn(2) 3 by (auto simp: regular_request_def)
      have "?n \<le> length dest" using s(2) Suc.prems(2) by simp
      then obtain off u1 u2 u3 where d: "load_sw32 le ch (32 + 4 * j) = Some off"
        "blosc_d le host user' dec None None None c (int ?n) (block_left c j) False ch srcsize off (int j) 0 0 [dest, t0, t2, t3] =
          Some (int ?n, [block_bytes c bs j @ drop ?n dest, u1, u2, u3])"
        "length u1 = length t0" "length u2 = length t2" "length u3 = length t3"
        using dec(1) jn(2) tl unfolding decodes_blocks_def by blast
      let ?d = "block_bytes c bs j @ drop ?n dest"
      have lb: "length (block_bytes c bs j) = ?n" using geo(5) dec(2) by (simp add: block_bytes_def)
      have t: "?t j = 0" "?t (Suc j) = y - x" "?m = y - x" using x s nxt nB xy(3) by (auto simp: items_done_def)
      have ld: "length ?d = length dest" using lb s(2) Suc.prems(2) by simp
      have sl: "slice_upto bs x (y - x) ?d" using lb s(2) x by (simp add: slice_upto_def block_bytes_def)
      have dd: "drop (y - x) ?d = drop (y - x) dest" using lb s(2) by simp
      have "getitem_blocks le host user' dec None c h ch srcsize start stop (int (y - x)) False [j..<?nb] (int (?t j)) dest tmps =
          getitem_blocks le host user' dec None c h ch srcsize start stop (int (y - x)) False [Suc j..<?nb] (int (?t (Suc j))) ?d [u1, t1, u2, u3]"
        using True br d(1,2) i tm
        by (simp only: up getitem_blocks.simps Let_def o r xy ok ext sb eb diff bind.bind_lunit if_True if_False) simp
      with Suc.hyps(1)[OF hk, of ?d "[u1, t1, u2, u3]"] Suc.prems(2) jn(1) sl dd ld tl d(3-5) t(2) show ?thesis by auto
    next
      case False
      have "?n \<le> length t1" using nB tl by simp
      then obtain off u0 u1 u2 u3 where d: "load_sw32 le ch (32 + 4 * j) = Some off"
        "blosc_d le host user' dec None None None c (int ?n) (block_left c j) False ch srcsize off (int j) 0 0 [t1, t0, t2, t3] =
          Some (int ?n, [u0, u1, u2, u3])" "u0 = block_bytes c bs j @ drop ?n t1"
        "length u1 = length t0" "length u2 = length t2" "length u3 = length t3"
        using dec(1) jn(2) tl unfolding decodes_blocks_def by blast
      have lb: "length (block_bytes c bs j) = ?n" using geo(5) dec(2) by (simp add: block_bytes_def)
      have lu: "length u0 = length t1" using d(3) lb nB tl by simp
      have src: "take ?m (drop ?s u0) = take ?m (drop (x + ?t j) bs)"
      proof -
        have "take ?m (drop ?s u0) = take ?m (drop ?s (block_bytes c bs j))"
          unfolding d(3) by (rule take_drop_front) (use m(2) lb in simp)
        also have "\<dots> = take ?m (drop (?s + ?o) bs)"
          unfolding block_bytes_def by (rule take_drop_inner[OF m(2)])
        also have "?s + ?o = x + ?t j" using m(4) by simp
        finally show ?thesis .
      qed
      let ?d = "take (?t j) dest @ take ?m (drop (x + ?t j) bs) @ drop (?t j + ?m) dest"
      have mc: "memcpy dest (nat (int (?t j))) u0 (nat (int ?s)) (nat (int ?m)) = Some ?d"
      proof -
        have "?t j + ?m \<le> length dest" using m(5) Suc.prems(2) by linarith
        moreover have "?s + ?m \<le> length u0" using m(2) lu nB tl(2) by linarith
        ultimately show ?thesis unfolding nat_int src[symmetric] by (rule memcpy_Some)
      qed
      have bnd: "x + ?t j + ?m \<le> length bs" using m(4) en geo(5) dec(2) 3 xy(3) by auto
      have room: "?t j + ?m \<le> length dest" using m(5) Suc.prems(2) by linarith
      note ld = blit_rest(1)[OF room bnd m(5)] and dd = blit_rest(2)[OF room bnd m(5)]
      have sl: "slice_upto bs x (?t (Suc j)) ?d"
        using slice_blit[OF Suc.prems(3) room bnd] unfolding m(3) .
      have eval: "getitem_blocks le host user' dec None c h ch srcsize start stop (int (y - x)) False [j..<?nb] (int (?t j)) dest tmps =
          getitem_blocks le host user' dec None c h ch srcsize start stop (int (y - x)) False [Suc j..<?nb] (int (?t (Suc j))) ?d [u1, u0, u2, u3]"
        using False br d(1,2) i tm mc
        by (simp only: up getitem_blocks.simps Let_def o r xy ok ext sb eb diff bind.bind_lunit if_True if_False) simp
      have p: "Suc j \<le> ?nb" "length [u1, u0, u2, u3] = 4" using jn(1) by simp_all
      have p2: "y - x \<le> length ?d" unfolding ld by (rule Suc.prems(2))
      have p3: "\<forall>t\<in>set [u1, u0, u2, u3]. ?B \<le> length t" using tl d(4-6) lu by simp
      from Suc.hyps(1)[OF hk p(1) p2 sl p(2) p3] show ?thesis unfolding eval ld dd .
    qed
  qed
qed

text \<open>The same for the whole call, in a chunk of encoded blocks and in one that is copied or all zeros.\<close>

definition item_request :: "int \<Rightarrow> int \<Rightarrow> int \<Rightarrow> int \<Rightarrow> int \<Rightarrow> bool" where
  "item_request typesize nbytes start nitems destsize \<longleftrightarrow> 0 < typesize \<and> 0 \<le> start \<and> 0 < nitems \<and>
     (start + nitems) * typesize \<le> nbytes \<and> nbytes < 2 ^ 31 \<and> nitems * typesize \<le> destsize"

definition item_slice :: "int \<Rightarrow> int \<Rightarrow> int \<Rightarrow> buf \<Rightarrow> buf \<Rightarrow> buf" where
  "item_slice typesize start nitems bs out =
    take (nat (nitems * typesize)) (drop (nat (start * typesize)) bs) @ drop (nat (nitems * typesize)) out"

lemma item_requestD:
  assumes "item_request typesize nbytes start nitems destsize"
  shows "0 < nitems * typesize" "0 \<le> start * typesize" "(start + nitems) * typesize = start * typesize + nitems * typesize"
    "start * typesize + nitems * typesize \<le> nbytes" "nitems * typesize \<le> INT_MAX" "start + nitems \<le> INT_MAX"
proof -
  have r: "0 < typesize" "0 \<le> start" "0 < nitems" "(start + nitems) * typesize \<le> nbytes" "nbytes < 2 ^ 31"
    using assms by (simp_all add: item_request_def)
  show "0 < nitems * typesize" "0 \<le> start * typesize" using r by simp_all
  show e: "(start + nitems) * typesize = start * typesize + nitems * typesize" by (simp add: distrib_right)
  show le: "start * typesize + nitems * typesize \<le> nbytes" using r(4) e by simp
  have "nbytes \<le> INT_MAX" using r(5) by simp
  then show "nitems * typesize \<le> INT_MAX" using le \<open>0 \<le> start * typesize\<close> by linarith
  have "(start + nitems) * 1 \<le> (start + nitems) * typesize" using r by (intro mult_left_mono) auto
  then show "start + nitems \<le> INT_MAX" using r(4,5) by simp
qed

lemma getitem_blocks_ok:
  assumes ok: "blocks_ok c" "ctx_header_overhead c = 32" "hdr_blocksize h = ctx_blocksize c" "hdr_nbytes h = ctx_sourcesize c"
    and plain: "ctx_special_type c = 0" "hdr_flags h AND BLOSC_MEMCPYED = 0" "32 + 4 * ctx_nblocks c \<le> srcsize"
    and dec: "decodes_blocks le host user' dec c ch srcsize bs" "int (length bs) = ctx_sourcesize c"
    and req: "item_request (uint (hdr_typesize h)) (ctx_sourcesize c) start nitems destsize"
      "nat (nitems * uint (hdr_typesize h)) \<le> length out"
    and reg: "regular_request c (nat (start * uint (hdr_typesize h))) (nat ((start + nitems) * uint (hdr_typesize h)))"
    and tmps: "length tmps = 4" "\<forall>t\<in>set tmps. nat (ctx_blocksize c) \<le> length t"
  shows "blosc_getitem le host user' dec None c tmps h ch srcsize start nitems out destsize =
    Some (nitems * uint (hdr_typesize h), item_slice (uint (hdr_typesize h)) start nitems bs out)"
proof -
  let ?ts = "uint (hdr_typesize h)"
  let ?x = "nat (start * ?ts)" and ?y = "nat ((start + nitems) * ?ts)"
  note r = item_requestD[OF req(1)]
  have d: "nitems * ?ts \<le> destsize" "0 \<le> start" "0 < nitems" using req(1) by (simp_all add: item_request_def)
  have xy: "start * ?ts = int ?x" "(start + nitems) * ?ts = int ?y" "?x < ?y" "int ?y \<le> ctx_sourcesize c"
    "?y - ?x = nat (nitems * ?ts)"
    unfolding r(3) using r(1,2,4) by auto
  have bs: "nat (ctx_sourcesize c) \<le> length bs" using dec(2) by simp
  have t0: "items_done c ?x ?y 0 = 0" using xy(3) by (simp add: items_done_def block_start_def)
  have "slice_upto bs ?x (items_done c ?x ?y 0) out" by (simp add: t0 slice_upto_def)
  from getitem_blocks_slice[OF ok(1-3) dec(1) bs xy(1-4) reg _ _ this tmps] req(2)
  obtain out' where o: "getitem_blocks le host user' dec None c h ch srcsize start (start + nitems) (nitems * ?ts) False
      [0..<nat (ctx_nblocks c)] 0 out tmps = Some (nitems * ?ts, out')"
    "length out' = length out" "take (?y - ?x) out' = take (?y - ?x) (drop ?x bs)" "drop (?y - ?x) out' = drop (?y - ?x) out"
    unfolding t0 xy(5) slice_upto_def using r(1) by auto
  have "out' = take (?y - ?x) out' @ drop (?y - ?x) out'" by simp
  then have e: "out' = item_slice ?ts start nitems bs out" unfolding item_slice_def xy(5)[symmetric] using o(3,4) by metis
  have n: "0 \<le> (start + nitems) * ?ts" "0 \<le> start + nitems" using xy(2) d by auto
  have s: "start * ?ts \<le> ctx_sourcesize c" "(start + nitems) * ?ts \<le> ctx_sourcesize c" using r by auto
  show ?thesis using o(1) e r d n s plain ok
    by (simp add: blosc_getitem_def Let_def not_less)
qed

lemma getitem_short_ok:
  assumes ok: "ctx_header_overhead c = 32" "hdr_nbytes h = ctx_sourcesize c" "ctx_blosc2_flags c AND 8 = 0"
    and kind: "ctx_special_type c = 0 \<and> hdr_flags h AND BLOSC_MEMCPYED \<noteq> 0 \<and> srcsize = ctx_sourcesize c + 32 \<and>
        nat srcsize \<le> length ch \<and> take (length bs) (drop 32 ch) = bs \<or>
      ctx_special_type c = BLOSC2_SPECIAL_ZERO \<and> bs = replicate (length bs) 0"
    and bs: "int (length bs) = ctx_sourcesize c"
    and req: "item_request (uint (hdr_typesize h)) (ctx_sourcesize c) start nitems destsize"
      "nat (nitems * uint (hdr_typesize h)) \<le> length out"
  shows "blosc_getitem le host user' dec None c tmps h ch srcsize start nitems out destsize =
    Some (nitems * uint (hdr_typesize h), item_slice (uint (hdr_typesize h)) start nitems bs out)"
proof -
  let ?ts = "uint (hdr_typesize h)"
  let ?x = "nat (start * ?ts)" and ?n = "nat (nitems * ?ts)"
  note r = item_requestD[OF req(1)]
  have d: "nitems * ?ts \<le> destsize" "0 \<le> start" "0 < nitems" using req(1) by (simp_all add: item_request_def)
  have n: "0 \<le> (start + nitems) * ?ts" "0 \<le> start + nitems" using r d by auto
  have s: "start * ?ts \<le> ctx_sourcesize c" "(start + nitems) * ?ts \<le> ctx_sourcesize c" using r by auto
  have xn: "?x + ?n \<le> length bs" using r(1,2,4) bs by linarith
  have short: "getitem_short le c h ch srcsize (start * ?ts) (nitems * ?ts) out = Some (nitems * ?ts, item_slice ?ts start nitems bs out)"
    using kind
  proof
    assume k: "ctx_special_type c = 0 \<and> hdr_flags h AND BLOSC_MEMCPYED \<noteq> 0 \<and> srcsize = ctx_sourcesize c + 32 \<and>
        nat srcsize \<le> length ch \<and> take (length bs) (drop 32 ch) = bs"
    have off: "nat (32 + start * ?ts) = 32 + ?x" using r(2) by simp
    have "take ?n (drop (32 + ?x) ch) = take ?n (drop ?x (take (length bs) (drop 32 ch)))"
      using take_drop_inner[OF xn, of 32 ch] by (simp add: add.commute)
    also have "\<dots> = take ?n (drop ?x bs)" using k by simp
    finally have "take ?n (drop (32 + ?x) ch) = take ?n (drop ?x bs)" .
    moreover have "32 + ?x + ?n \<le> length ch" using k xn bs by linarith
    ultimately show ?thesis using k r(1,2,4) ok(1) req(2) off
      by (simp add: getitem_short_def memcpy_Some item_slice_def Let_def)
  next
    assume k: "ctx_special_type c = BLOSC2_SPECIAL_ZERO \<and> bs = replicate (length bs) 0"
    have "take ?n (drop ?x bs) = replicate ?n 0"
      by (subst conjunct2[OF k]) (use xn in simp)
    then show ?thesis using k req(2) by (simp add: getitem_short_def memset_Some item_slice_def)
  qed
  show ?thesis using short r d n s kind ok
    by (auto simp: blosc_getitem_def Let_def not_less)
qed

end
