(* ===== verification/Codec_Roundtrip.thy ===== *)
theory Codec_Roundtrip
  imports Zero_Chunk Getitem
begin

text \<open>
  The compression and the decompression of whole chunks: what \<open>blosc2_compress_ctx\<close> writes with BloscLZ and the
  standard filters, \<open>blosc2_decompress_ctx\<close> restores, on hosts of any byte order and for each of the three kinds
  of chunk: compressed blocks, copied bytes and zeros; and \<open>blosc2_getitem_ctx\<close> reads slices of it.
\<close>

section \<open>Changes of a written header\<close>

lemma store_flags:
  "store (min_header_image True h @ e) 2 f = Some (min_header_image True (h\<lparr> hdr_flags := f \<rparr>) @ e)"
  by (simp add: store_def min_header_image_def)

lemma store_special:
  assumes "header_range h"
  shows "load (min_header_image True h @ ext_header_image h @ e) 31 = Some (hdr_blosc2_flags h)"
    and "store (min_header_image True h @ ext_header_image h @ e) 31 f =
      Some (min_header_image True (h\<lparr> hdr_blosc2_flags := f \<rparr>) @ ext_header_image (h\<lparr> hdr_blosc2_flags := f \<rparr>) @ e)"
  using assms by (simp_all add: load_def store_def nth_append list_update_append header_range_def min_header_image_def ext_header_image_def)

section \<open>The context of a written header\<close>

lemma calculate_blocks_iff:
  "blosc2_calculate_blocks c = Some c \<longleftrightarrow> ctx_blocksize c \<noteq> 0 \<and> ctx_leftover c = ctx_sourcesize c smod ctx_blocksize c \<and>
    ctx_nblocks c = ctx_sourcesize c sdiv ctx_blocksize c + (if ctx_leftover c > 0 then 1 else 0)"
proof -
  have "blosc2_calculate_blocks c = Some c \<longleftrightarrow> ctx_blocksize c \<noteq> 0 \<and>
     c\<lparr> ctx_nblocks := (if ctx_sourcesize c smod ctx_blocksize c > 0 then ctx_sourcesize c sdiv ctx_blocksize c + 1
       else ctx_sourcesize c sdiv ctx_blocksize c), ctx_leftover := ctx_sourcesize c smod ctx_blocksize c \<rparr> = c"
    by (simp add: blosc2_calculate_blocks_def Let_def)
  also have "\<dots> \<longleftrightarrow> ctx_blocksize c \<noteq> 0 \<and> ctx_leftover c = ctx_sourcesize c smod ctx_blocksize c \<and>
    ctx_nblocks c = ctx_sourcesize c sdiv ctx_blocksize c + (if ctx_leftover c > 0 then 1 else 0)"
    by (cases c) auto
  finally show ?thesis .
qed

lemma prepared_more:
  assumes "prepared c d"
  shows "ctx_leftover d = ctx_leftover c" "ctx_clevel d = ctx_clevel c" "ctx_destsize d = ctx_destsize c"
  using arg_cong[OF assms[unfolded prepared_def, THEN conjunct2, THEN conjunct2], of ctx_leftover]
    arg_cong[OF assms[unfolded prepared_def, THEN conjunct2, THEN conjunct2], of ctx_clevel]
    arg_cong[OF assms[unfolded prepared_def, THEN conjunct2, THEN conjunct2], of ctx_destsize]
  by simp_all

text \<open>The two ways of \<open>prepare_header\<close> without dictionaries: a copy, or block starts and the flags of the codec.\<close>

lemma prepare_header_cases:
  assumes "0 \<le> ctx_nblocks c" "32 + 4 * ctx_nblocks c < 2 ^ 31" "ctx_blosc2_flags2 c = 0" "\<not> ctx_use_dict c" "0 \<le> ctx_clevel c"
  obtains c' where "prepare_header c True = Some c'" "prepared c c'" "\<not> ctx_use_dict c'"
    "bit (ctx_header_flags c') 1 \<or>
     ctx_bstarts c' = Some 32 \<and> ctx_output_bytes c' = 32 + 4 * ctx_nblocks c \<and> ctx_output_bytes c' \<le> ctx_destsize c \<and>
     0 < ctx_clevel c \<and> ctx_header_flags c' = 5 OR codec_flags c"
proof -
  obtain c' where c': "prepare_header c True = Some c'" "prepared c c'" using prepare_header_spec[OF assms(1,2)] by blast
  have d: "\<not> ctx_use_dict c'"
    using c'(1) assms(1,2,4) by (auto simp: prepare_header_def place_bstarts_def header_start_def Let_def split: if_splits)
  have "ctx_bstarts c' = Some 32 \<and> ctx_output_bytes c' = 32 + 4 * ctx_nblocks c \<and> ctx_output_bytes c' \<le> ctx_destsize c \<and>
     0 < ctx_clevel c \<and> ctx_header_flags c' = 5 OR codec_flags c" if "\<not> bit (ctx_header_flags c') 1"
  proof -
    let ?s = "header_start c True"
    have not: "\<not> bit (ctx_header_flags ?s) 1" "0 < ctx_clevel c" "ctx_header_flags ?s = 5"
      using c'(1) that assms
      by (auto simp: prepare_header_def place_bstarts_def header_start_def memcpyed_flag_def Let_def bit_or_iff flag_bit split: if_splits)
    then show ?thesis using c'(1) that assms
      by (auto simp: prepare_header_def place_bstarts_def header_start_def memcpyed_flag_def codec_flags_def split_block_def Let_def bit_or_iff flag_bit split: if_splits)
  qed
  with c' d that show ?thesis by blast
qed


lemma codec_flags_bits:
  assumes "ctx_compcode c = BLOSC_BLOSCLZ" "ctx_blosc2_flags2 c = 0" "ctx_header_flags c' = 5 OR codec_flags c"
  shows "ctx_compformat c' = 0" "dont_split c' \<longleftrightarrow> \<not> split_block c (ctx_typesize c) (ctx_blocksize c)"
proof -
  have "\<not> bit (ctx_header_flags c') k" if "5 \<le> k" for k
    using assms that by (auto simp: codec_flags_def compcode_to_compformat_def bit_or_iff bit_and_iff bit_numeral_rec bit_1_iff numeral_eq_Suc Suc_le_eq split: nat.splits)
  then have "ctx_header_flags c' AND 224 = 0"
    by (intro bit_eqI) (auto simp: bit_and_iff bit_numeral_rec bit_1_iff split: nat.splits)
  then show "ctx_compformat c' = 0" by (simp add: ctx_compformat_def)
  have "bit (ctx_header_flags c') 4 \<longleftrightarrow> \<not> split_block c (ctx_typesize c) (ctx_blocksize c)"
    using assms by (simp add: codec_flags_def compcode_to_compformat_def bit_or_iff bit_and_iff bit_numeral_rec)
  then show "dont_split c' \<longleftrightarrow> \<not> split_block c (ctx_typesize c) (ctx_blocksize c)"
    using and_exp_eq_0_iff_not_bit[of "ctx_header_flags c'" 4] by (simp add: dont_split_def)
qed

lemma blocks_ok_cong:
  assumes "blocks_ok c" "ctx_typesize d = ctx_typesize c" "ctx_sourcesize d = ctx_sourcesize c" "ctx_blocksize d = ctx_blocksize c"
    and "ctx_nblocks d = ctx_nblocks c" "ctx_leftover d = ctx_leftover c" "ctx_blosc2_flags2 d = ctx_blosc2_flags2 c"
  shows "blocks_ok d"
  using assms unfolding blocks_ok_def calculate_blocks_iff ctx_vlblocks_def by auto

section \<open>Hosts\<close>

text \<open>The shuffles of two hosts do the same.\<close>

lemma same_filter_code:
  assumes "\<And>src dest. n \<le> length src \<Longrightarrow> n \<le> length dest \<Longrightarrow> f src dest = f' src dest"
    and "\<And>src dest. n \<le> length src \<Longrightarrow> n \<le> length dest \<Longrightarrow> g src dest = g' src dest"
  shows "filter_code f g n x z \<longleftrightarrow> filter_code f' g' n x z"
  unfolding filter_code_def using assms by auto

lemma hosts_agree:
  assumes "shuffle_host host" "shuffle_host host'" "1 \<le> t" "t \<le> 256" "n \<le> length src" "n \<le> length dest"
  shows "blosc2_shuffle host t (int n) src dest = blosc2_shuffle host' t (int n) src dest"
    and "blosc2_unshuffle host t (int n) src dest = blosc2_unshuffle host' t (int n) src dest"
    and "blosc2_bitshuffle host t (int n) src dest = blosc2_bitshuffle host' t (int n) src dest"
    and "v \<noteq> BLOSC1_VERSION_FORMAT \<Longrightarrow> bitunshuffle host t (int n) src dest v = bitunshuffle host' t (int n) src dest v"
proof -
  show "blosc2_shuffle host t (int n) src dest = blosc2_shuffle host' t (int n) src dest"
    using assms shuffle_host.host_shuffle[OF assms(1), of "nat t" n src dest] shuffle_host.host_shuffle[OF assms(2), of "nat t" n src dest]
    by (simp add: blosc2_shuffle_def)
  show "blosc2_unshuffle host t (int n) src dest = blosc2_unshuffle host' t (int n) src dest"
    using assms shuffle_host.host_unshuffle[OF assms(1), of "nat t" n src dest] shuffle_host.host_unshuffle[OF assms(2), of "nat t" n src dest]
    by (simp add: blosc2_unshuffle_def)
  show "blosc2_bitshuffle host t (int n) src dest = blosc2_bitshuffle host' t (int n) src dest"
    using assms(3-6) shuffle_host.bitshuffle_eq(1)[OF assms(1,3,4), of "int n" src dest]
      shuffle_host.bitshuffle_eq(1)[OF assms(2,3,4), of "int n" src dest] by simp
  show "bitunshuffle host t (int n) src dest v = bitunshuffle host' t (int n) src dest v" if "v \<noteq> BLOSC1_VERSION_FORMAT"
    using assms(3-6) that shuffle_host.bitshuffle_eq(2)[OF assms(1,3,4), of "int n" src dest v]
      shuffle_host.bitshuffle_eq(2)[OF assms(2,3,4), of "int n" src dest v] by simp
qed

lemma shuffle_typesize_range:
  assumes "1 \<le> ctx_typesize c" "ctx_typesize c \<le> 255"
  shows "1 \<le> shuffle_typesize c i" "shuffle_typesize c i \<le> 256"
proof -
  have "uint (ctx_filters_meta c ! i) < 256" "ctx_filters_meta c ! i \<noteq> 0 \<Longrightarrow> 0 < uint (ctx_filters_meta c ! i)"
    using uint_lt2p[of "ctx_filters_meta c ! i"] by (simp, metis order_le_less uint_ge_0 unsigned_eq_0_iff)
  then show "1 \<le> shuffle_typesize c i" "shuffle_typesize c i \<le> 256"
    using assms by (auto simp: shuffle_typesize_def)
qed

lemma stored_block_hosts:
  assumes "shuffle_host host" "shuffle_host host'" "1 \<le> ctx_typesize c" "ctx_typesize c \<le> 255" "standard_filters c" "v \<noteq> BLOSC1_VERSION_FORMAT"
  shows "stored_block host user user' c v k x code \<longleftrightarrow> stored_block host' user2 user2' c v k x code"
proof -
  have f: "filter_codes host user user' c v n i y z \<longleftrightarrow> filter_codes host' user2 user2' c v n i y z" if "i < 6" for n i y z
  proof -
    have "ctx_filters c ! i \<in> {BLOSC_NOFILTER, BLOSC_SHUFFLE, BLOSC_BITSHUFFLE}" using assms(5) that by (simp add: standard_filters_def)
    moreover have "ctx_typesize c \<le> 256" using assms(4) by simp
    ultimately show ?thesis
      using hosts_agree[OF assms(1,2) shuffle_typesize_range[OF assms(3,4)]] hosts_agree[OF assms(1,2,3)] assms(6)
      by (auto simp: filter_codes_def forward_action_def backward_action_def intro!: same_filter_code)
  qed
  have "pipeline_codes host user user' c v n is y z \<longleftrightarrow> pipeline_codes host' user2 user2' c v n is y z" if "\<forall>i \<in> set is. i < 6" for n "is" y z
    using that by (induction "is" arbitrary: y) (simp_all add: f)
  then show ?thesis by (simp add: stored_block_def)
qed


section \<open>Decompressing a chunk\<close>

text \<open>An allocator that does not fail, and the temporaries it gives a thread.\<close>

definition allocates :: "(nat \<Rightarrow> buf option) \<Rightarrow> bool" where
  "allocates alloc \<longleftrightarrow> (\<forall>n. \<exists>b. alloc n = Some b \<and> length b = n)"

lemma thread_buffers_Some:
  assumes "allocates alloc" "0 \<le> ctx_blocksize c" "0 \<le> ctx_typesize c" "ctx_blocksize c + 4 * ctx_typesize c < 2 ^ 31"
  shows "\<exists>t0 t1 t2 t3. thread_buffers alloc c = Some (Some [t0, t1, t2, t3]) \<and> nat (ctx_blocksize c) \<le> length t0 \<and>
    nat (ctx_blocksize c) \<le> length t1 \<and> nat (ctx_blocksize c) \<le> length t2 \<and> nat (ctx_blocksize c) \<le> length t3"
proof -
  define e where "e = nat (ctx_blocksize c + ctx_typesize c * 4)"
  obtain b where b: "alloc (4 * e) = Some b" "length b = 4 * e" using assms(1) unfolding allocates_def by blast
  have le: "nat (ctx_blocksize c) \<le> e" using assms(2,3) by (simp add: e_def)
  have "thread_buffers alloc c = Some (Some (map (\<lambda>k. take e (drop (k * e) b)) [0..<4]))"
    using assms(2-4) b(1) by (simp add: thread_buffers_def mult.commute flip: e_def)
  moreover have "[0..<4] = [0, 1, 2, 3 :: nat]" by (simp add: upt_rec)
  ultimately show ?thesis using b(2) le by simp
qed

lemma filled_all:
  assumes "filled 0 (length src) src out out'" "length src \<le> length out"
  shows "out' = src @ drop (length src) out"
  using filled_take[OF assms(1,2)] append_take_drop_id[of "length src" out'] by simp

lemma decompress_chunk:
  assumes "chunk_context c" "chunk_header c f cbytes sp g" "bit f 0" "bit f 2" "special_sizes (ctx_typesize c) (ctx_sourcesize c) cbytes sp"
    and "ch = min_header_image True g @ ext_header_image g @ rest" "32 \<le> cbytes" "cbytes \<le> int (length ch)" "cbytes < 2 ^ 31"
    and "bit f 1 \<Longrightarrow> cbytes = ctx_sourcesize c + 32" "sp = 0 \<Longrightarrow> \<not> bit f 1 \<Longrightarrow> 32 + 4 * ctx_nblocks c \<le> cbytes"
    and "allocates alloc" "\<not> ctx_do_compress r" "ctx_sourcesize c \<le> osize" "int (length src) = ctx_sourcesize c" "length src \<le> length out"
    and run: "\<And>d t1 t2 t3. chunk_reader c f cbytes sp d \<Longrightarrow> nat (ctx_blocksize c) \<le> length t1 \<Longrightarrow> nat (ctx_blocksize c) \<le> length t2 \<Longrightarrow>
      nat (ctx_blocksize c) \<le> length t3 \<Longrightarrow> blosc2_cbuffer_sizes le ch = Some (0, ctx_sourcesize c, cbytes, ctx_blocksize c) \<Longrightarrow>
      load ch 0 = Some 5 \<Longrightarrow>
      \<exists>out' ts. serial_decompress le host user' dec None None None False d ch [0..<nat (ctx_nblocks c)] 0 [out, t1, t2, t3] =
        Some (ctx_sourcesize c, out' # ts) \<and> filled 0 (length src) src out out'"
  shows "blosc2_decompress_ctx le host alloc user' dec ddict None None r ch cbytes out osize =
    Some (ctx_sourcesize c, src @ drop (length src) out)"
proof -
  note c = assms(1)[unfolded chunk_context_def]
  have ext: "length (ext_header_image g) = 16" using assms(2) c by (simp add: ext_header_image_def chunk_header_def)
  have len: "32 \<le> cbytes" "i32_range cbytes" using assms(7,9) by (simp_all add: i32_range_def)
  have img: "take 32 ch = min_header_image True g @ ext_header_image g" using assms(6) ext by simp
  note rd = read_chunk[OF assms(1,2) len(2,1) assms(8) img assms(3-5)]
  obtain d where d: "initialize_context_decompression le ddict None r g ch cbytes osize = Some (Inr (d, None))" "chunk_reader c f cbytes sp d"
    using initialize_reader[OF assms(1-5,14) len(1) assms(10,11)] by blast
  note dr = d(2)[unfolded chunk_reader_def]
  have tb: "0 \<le> ctx_blocksize d" "0 \<le> ctx_typesize d" "ctx_blocksize d + 4 * ctx_typesize d < 2 ^ 31" using dr c by simp_all
  obtain t0 t1 t2 t3 where t: "thread_buffers alloc d = Some (Some [t0, t1, t2, t3])" "nat (ctx_blocksize d) \<le> length t0"
    "nat (ctx_blocksize d) \<le> length t1" "nat (ctx_blocksize d) \<le> length t2" "nat (ctx_blocksize d) \<le> length t3"
    using thread_buffers_Some[OF assms(12) tb] by blast
  have bs: "ctx_blocksize d = ctx_blocksize c" using dr by simp
  obtain out' ts where s: "serial_decompress le host user' dec None None None False d ch [0..<nat (ctx_nblocks c)] 0 [out, t0, t1, t3] =
      Some (ctx_sourcesize c, out' # ts)" "filled 0 (length src) src out out'"
    using run[OF d(2) t(2,3,5)[unfolded bs] rd(2)[of le] rd(3)] by blast
  have "do_decompress_job le host alloc user' dec None None None d ch out = Some (ctx_sourcesize c, out')"
    using t(1) s(1) dr by (simp add: do_decompress_job_def)
  moreover have "hdr_nbytes g = ctx_sourcesize c" using assms(2) by (simp add: chunk_header_def)
  ultimately show ?thesis
    using rd(1)[of le] d(1) assms(13,14) filled_all[OF s(2) assms(16)]
    by (simp add: blosc2_decompress_ctx_def blosc_run_decompression_with_context_def)
qed


text \<open>A call for items sets up the context of a reader.\<close>

lemma getitem_ctx_eq:
  assumes "chunk_context c" "chunk_header c f cbytes sp g" "bit f 0" "bit f 2" "special_sizes (ctx_typesize c) (ctx_sourcesize c) cbytes sp"
    and "ch = min_header_image True g @ ext_header_image g @ rest" "32 \<le> cbytes" "cbytes \<le> int (length ch)" "cbytes < 2 ^ 31"
    and "allocates alloc"
  obtains d tmps where "blosc2_getitem_ctx le host alloc user' dec None r ch cbytes start nitems out osize =
      blosc_getitem le host user' dec None d tmps g ch cbytes start nitems out osize"
    "length tmps = 4" "\<forall>t\<in>set tmps. nat (ctx_blocksize c) \<le> length t"
    "ctx_typesize d = ctx_typesize c" "ctx_sourcesize d = ctx_sourcesize c" "ctx_blocksize d = ctx_blocksize c"
    "ctx_nblocks d = ctx_nblocks c" "ctx_leftover d = ctx_leftover c" "ctx_filters d = ctx_filters c"
    "ctx_filters_meta d = ctx_filters_meta c" "ctx_header_overhead d = 32" "ctx_header_flags d = f" "ctx_blosc2_flags2 d = 0"
    "ctx_blosc2_flags d AND 8 = 0" "ctx_srcsize d = cbytes" "ctx_special_type d = sp"
    "blosc2_cbuffer_sizes le ch = Some (0, ctx_sourcesize c, cbytes, ctx_blocksize c)" "load ch 0 = Some 5"
    "load ch 3 = Some (hdr_typesize g)"
proof -
  note c = assms(1)[unfolded chunk_context_def] and g = assms(2)[unfolded chunk_header_def]
  have ext: "length (ext_header_image g) = 16" using g c by (simp add: ext_header_image_def)
  have len: "32 \<le> cbytes" "i32_range cbytes" using assms(7,9) by (simp_all add: i32_range_def)
  have img: "take 32 ch = min_header_image True g @ ext_header_image g" using assms(6) ext by simp
  note rd = read_chunk[OF assms(1,2) len(2,1) assms(8) img assms(3-5)]
  obtain d where d: "blosc2_initialize_context_from_header (r\<lparr> ctx_srcsize := cbytes, ctx_destsize := osize \<rparr>) g = Some (0, d)"
    "ctx_typesize d = ctx_typesize c" "ctx_sourcesize d = ctx_sourcesize c" "ctx_blocksize d = ctx_blocksize c"
    "ctx_nblocks d = ctx_nblocks c" "ctx_leftover d = ctx_leftover c" "ctx_filters d = ctx_filters c"
    "ctx_filters_meta d = ctx_filters_meta c" "ctx_header_overhead d = 32" "ctx_header_flags d = f" "ctx_blosc2_flags2 d = 0"
    "ctx_blosc2_flags d = hdr_blosc2_flags g" "ctx_srcsize d = cbytes" "ctx_special_type d = sp"
    using context_from_chunk_header[OF assms(1-4), of "r\<lparr> ctx_srcsize := cbytes, ctx_destsize := osize \<rparr>"] by auto
  have tb: "0 \<le> ctx_blocksize d" "0 \<le> ctx_typesize d" "ctx_blocksize d + 4 * ctx_typesize d < 2 ^ 31" using d c by simp_all
  obtain t0 t1 t2 t3 where t: "thread_buffers alloc d = Some (Some [t0, t1, t2, t3])" "nat (ctx_blocksize d) \<le> length t0"
    "nat (ctx_blocksize d) \<le> length t1" "nat (ctx_blocksize d) \<le> length t2" "nat (ctx_blocksize d) \<le> length t3"
    using thread_buffers_Some[OF assms(10) tb] by blast
  have hd: "getitem_read_header le ch cbytes = Some (Inr g)" using rd(1)[of le] g by (simp add: getitem_read_header_def)
  have "ch ! 3 = take 32 ch ! 3" by simp
  also have "\<dots> = hdr_typesize g" unfolding img by (simp add: min_header_image_def)
  finally have ts: "load ch 3 = Some (hdr_typesize g)" using assms(7,8) by (simp add: load_def)
  have eq: "blosc2_getitem_ctx le host alloc user' dec None r ch cbytes start nitems out osize =
      blosc_getitem le host user' dec None d [t0, t1, t2, t3] g ch cbytes start nitems out osize"
    using hd d(1) t(1) by (simp add: blosc2_getitem_ctx_def getitem_with_header_def)
  have lazy: "ctx_blosc2_flags d AND 8 = 0" using d(12) g by (simp add: and_8_bit)
  show thesis
    by (rule that[OF eq _ _ d(2-11) lazy d(13,14) rd(2,3) ts]) (use t d(4) in auto)
qed

text \<open>Regular requests in terms of the block size \<open>B\<close> and the size \<open>S\<close> of the buffer.\<close>

definition regular_slice :: "int \<Rightarrow> int \<Rightarrow> int \<Rightarrow> int \<Rightarrow> bool" where
  "regular_slice B S x y \<longleftrightarrow> (\<forall>j. 0 \<le> j \<and> x \<le> j * B \<and> j * B < y \<and> min B (S - j * B) = y - x \<longrightarrow> x = j * B)"

lemma regular_slice_request:
  assumes "blocks_ok c" "regular_slice (ctx_blocksize c) (ctx_sourcesize c) x y" "0 \<le> x" "x < y"
  shows "regular_request c (nat x) (nat y)"
  unfolding regular_request_def
proof (intro allI impI, elim conjE)
  fix j assume j: "int j < ctx_nblocks c" "nat x \<le> block_start c j" "block_start c j < nat y" "block_len c j = nat y - nat x"
  have B: "0 < ctx_blocksize c" using assms(1) by (simp add: blocks_ok_def)
  have s: "int (block_start c j) = int j * ctx_blocksize c" using B by (simp add: block_start_def)
  have "0 < block_len c j" by (rule block_geometry(3)[OF assms(1) j(1)])
  then have l: "int (block_len c j) = min (ctx_blocksize c) (ctx_sourcesize c - int j * ctx_blocksize c)"
    by (simp add: block_len_def)
  have "min (ctx_blocksize c) (ctx_sourcesize c - int j * ctx_blocksize c) = y - x" using l j(4) assms(3,4) by linarith
  moreover have "x \<le> int j * ctx_blocksize c" "int j * ctx_blocksize c < y" using s j(2,3) assms(3,4) by linarith+
  ultimately have "x = int j * ctx_blocksize c" using assms(2) unfolding regular_slice_def by (metis of_nat_0_le_iff)
  then show "nat x = block_start c j" using s by simp
qed

section \<open>The three kinds of chunk\<close>

lemma standard_pipeline_ok:
  assumes "standard_filters c" "1 \<le> ctx_typesize c" "ctx_typesize c \<le> 255"
  shows "pipeline_ok user user' c"
  using assms by (simp add: pipeline_ok_def invertible_filter_def standard_filters_def)

text \<open>A reader with the blocks of the writer finds the codes of the writer behind the header.\<close>

lemma codes_stored_reader:
  assumes "shuffle_host host" "shuffle_host host'" "1 \<le> ctx_typesize c" "ctx_typesize c \<le> 255" "standard_filters c" "v \<noteq> BLOSC1_VERSION_FORMAT"
    and same: "ctx_filters d = ctx_filters c" "ctx_filters_meta d = ctx_filters_meta c" "ctx_typesize d = ctx_typesize c"
    "ctx_header_flags d = ctx_header_flags c" "ctx_blosc2_flags2 d = ctx_blosc2_flags2 c" "ctx_nblocks d = ctx_nblocks c"
    "ctx_leftover d = ctx_leftover c" "ctx_blocksize d = ctx_blocksize c" "ctx_sourcesize d = ctx_sourcesize c"
    and seg: "\<And>p n. 32 \<le> p \<Longrightarrow> p + n \<le> N + length (concat codes) \<Longrightarrow> take n (drop p ch) = take n (drop p dest)"
    and "32 + 4 * length codes \<le> N" "codes_stored host user user' c v src 0 N codes dest"
  shows "codes_stored host' user2 user2' d v src 0 N codes ch"
  unfolding codes_stored_def
proof (intro allI impI conjI)
  fix i assume i: "i < length codes"
  note st = assms(18)[unfolded codes_stored_def, rule_format, OF i]
  have geo: "block_streams d j = block_streams c j" "block_bytes d src j = block_bytes c src j" for j
    by (auto simp: block_streams_def block_bytes_def block_len_def block_start_def d_nstreams_def ctx_vlblocks_def dont_split_def block_left_def same)
  show "stored_block host' user2 user2' d v (block_streams d (0 + i)) (block_bytes d src (0 + i)) (codes ! i)"
    unfolding geo stored_block_cong[OF same(1-3)] using st stored_block_hosts[OF assms(1-6)] by blast
  let ?p = "N + length (concat (take i codes))"
  have cat: "concat codes = concat (take i codes) @ codes ! i @ concat (drop (Suc i) codes)"
    using i by (metis append_take_drop_id concat.simps(2) concat_append Cons_nth_drop_Suc)
  have e: "?p + length (codes ! i) \<le> N + length (concat codes)" unfolding cat by simp
  have "32 + 4 * i + 4 \<le> N" using i assms(17) by linarith
  then have "32 + 4 * (0 + i) + 4 \<le> N + length (concat codes)" by (simp add: trans_le_add1)
  from seg[OF _ this] st show "take 4 (drop (32 + 4 * (0 + i)) ch) = int32_bytes True (int ?p)" by simp
  have "32 \<le> ?p" using assms(17) by simp
  from seg[OF this e] st show "take (length (codes ! i)) (drop ?p ch) = codes ! i" by simp
qed

lemma decompress_stored_codes:
  assumes "shuffle_host host" "shuffle_host host'" "chunk_context c" "prepared c c'" "blocks_ok c'" "standard_filters c"
    and "ctx_compformat c' = 0" "\<not> bit (ctx_header_flags c') 1" "chunk_header c (ctx_header_flags c') cbytes 0 g"
    and ch: "ch = min_header_image True g @ ext_header_image g @ rest" "32 \<le> cbytes" "cbytes \<le> int (length ch)" "cbytes < 2 ^ 31"
    and codes: "length codes = nat (ctx_nblocks c)" "codes_stored host user user' c' 5 src 0 N codes dest"
    "N = 32 + 4 * nat (ctx_nblocks c)" "cbytes = int (N + length (concat codes))"
    and seg: "\<And>p n. 32 \<le> p \<Longrightarrow> int (p + n) \<le> cbytes \<Longrightarrow> take n (drop p ch) = take n (drop p dest)"
    and "allocates alloc" "\<not> ctx_do_compress r" "ctx_sourcesize c \<le> osize" "int (length src) = ctx_sourcesize c" "length src \<le> length out"
  shows "blosc2_decompress_ctx le host' alloc user2' dec ddict None None r ch cbytes out osize =
    Some (ctx_sourcesize c, src @ drop (length src) out)"
proof (rule decompress_chunk[OF assms(3,9) _ _ _ ch])
  note c = assms(3)[unfolded chunk_context_def]
  show "special_sizes (ctx_typesize c) (ctx_sourcesize c) cbytes 0" by (simp add: special_sizes_def)
  show "bit (ctx_header_flags c') 0" "bit (ctx_header_flags c') 2" using assms(4) by (simp_all add: prepared_def)
  have nb: "ctx_nblocks c' = ctx_nblocks c" using prepared_same[OF assms(4)] by simp
  have nb0: "0 \<le> ctx_nblocks c" using blocks_ok_count(3)[OF assms(5)] nb by simp
  show "32 + 4 * ctx_nblocks c \<le> cbytes" using codes(3,4) nb0 by simp
  fix d and t1 t2 t3 :: buf
  assume d: "chunk_reader c (ctx_header_flags c') cbytes 0 d" and t: "nat (ctx_blocksize c) \<le> length t1" "nat (ctx_blocksize c) \<le> length t2"
    "nat (ctx_blocksize c) \<le> length t3" and sz: "blosc2_cbuffer_sizes le ch = Some (0, ctx_sourcesize c, cbytes, ctx_blocksize c)"
    "load ch 0 = Some 5"
  note dr = d[unfolded chunk_reader_def]
  have c32: "32 + 4 * ctx_nblocks c \<le> cbytes" by fact
  note p = prepared_same[OF assms(4)] prepared_more[OF assms(4)]
  have f2: "ctx_blosc2_flags2 c = 0" using c by blast
  have same: "ctx_filters d = ctx_filters c'" "ctx_filters_meta d = ctx_filters_meta c'" "ctx_typesize d = ctx_typesize c'"
    "ctx_header_flags d = ctx_header_flags c'" "ctx_blosc2_flags2 d = ctx_blosc2_flags2 c'" "ctx_nblocks d = ctx_nblocks c'"
    "ctx_leftover d = ctx_leftover c'" "ctx_blocksize d = ctx_blocksize c'" "ctx_sourcesize d = ctx_sourcesize c'"
    using dr p f2 by simp_all
  have ts: "1 \<le> ctx_typesize c'" "ctx_typesize c' \<le> 255" and sf: "standard_filters c'" using c p assms(6) by (simp_all add: standard_filters_def)
  have seg': "take n (drop p ch) = take n (drop p dest)" if "32 \<le> p" "p + n \<le> N + length (concat codes)" for p n
    using seg that codes(4) by simp
  have stored: "codes_stored host' user2 user2' d 5 src 0 N codes ch"
    using codes_stored_reader[OF assms(1,2) ts sf _ same seg' _ codes(2)] codes(1,3) by simp
  have pd: "pipeline_ok user2 user2' d"
    by (rule standard_pipeline_ok) (use same sf ts in \<open>simp_all add: standard_filters_def\<close>)
  have bd: "blocks_ok d" by (rule blocks_ok_cong[OF assms(5)]) (use same in simp_all)
  have cf: "ctx_compformat d = 0" using assms(7) same by (simp add: ctx_compformat_def)
  show "\<exists>out' ts. serial_decompress le host' user2' dec None None None False d ch [0..<nat (ctx_nblocks c)] 0 [out, t1, t2, t3] =
      Some (ctx_sourcesize c, out' # ts) \<and> filled 0 (length src) src out out'"
  proof (cases "ctx_sourcesize c = 0")
    case True
    then have "ctx_nblocks c = 0" using blocks_ok_count[OF assms(5)] p by simp
    with True assms(22) show ?thesis by (simp add: filled_refl)
  next
    case False
    have dsz: "ctx_sourcesize d = ctx_sourcesize c" "ctx_nblocks d = ctx_nblocks c" "ctx_blocksize d = ctx_blocksize c" using dr by simp_all
    have rd: "ctx_special_type d = 0" "ctx_blosc2_flags d AND 8 = 0" "\<not> bit (ctx_header_flags d) 1" "ctx_bstarts d = Some 32"
      "ctx_srcsize d = cbytes" using dr False assms(8) by auto
    have N: "0 < N" "int (N + length (concat codes)) \<le> ctx_srcsize d" "ctx_srcsize d < 2 ^ 31" "nat (ctx_srcsize d) \<le> length ch"
      "32 + 4 * nat (ctx_nblocks d) \<le> N"
      unfolding rd(5) dsz using ch(3,4) codes(4) by (simp_all add: codes(3) nat_le_iff)
    have len: "length codes = nat (ctx_nblocks d)" "nat (ctx_sourcesize d) \<le> length src" "nat (ctx_sourcesize d) \<le> length out"
      "nat (ctx_blocksize d) \<le> length t1" "nat (ctx_blocksize d) \<le> length t2" "nat (ctx_blocksize d) \<le> length t3" "0 \<le> nat (ctx_nblocks d)"
      using codes(1) assms(22,23) t dsz by simp_all
    have "done_bytes d 0 = 0" by (simp add: done_bytes_def block_start_def)
    moreover have "nat (ctx_sourcesize d) = length src" using assms(22) dsz by simp
    moreover note shuffle_host.serial_decompress_blocks[OF assms(2) pd cf bd rd(1-4) sz len(1) stored N len(2-7), of dec]
    ultimately show ?thesis using dsz by auto
  qed
qed (use assms in simp_all)


lemma getitem_stored_codes:
  assumes "shuffle_host host" "shuffle_host host'" "chunk_context c" "prepared c c'" "blocks_ok c'" "standard_filters c"
    and "ctx_compformat c' = 0" "\<not> bit (ctx_header_flags c') 1" "chunk_header c (ctx_header_flags c') cbytes 0 g"
    and ch: "ch = min_header_image True g @ ext_header_image g @ rest" "32 \<le> cbytes" "cbytes \<le> int (length ch)" "cbytes < 2 ^ 31"
    and codes: "length codes = nat (ctx_nblocks c)" "codes_stored host user user' c' 5 src 0 N codes dest"
    "N = 32 + 4 * nat (ctx_nblocks c)" "cbytes = int (N + length (concat codes))"
    and seg: "\<And>p n. 32 \<le> p \<Longrightarrow> int (p + n) \<le> cbytes \<Longrightarrow> take n (drop p ch) = take n (drop p dest)"
    and "allocates alloc" "int (length src) = ctx_sourcesize c"
    and req: "load ch 3 = Some ts" "blosc2_cbuffer_sizes le ch = Some (0, int (length src), cbytes, B)"
      "item_request (uint ts) (int (length src)) start nitems osize" "nat (nitems * uint ts) \<le> length out"
      "regular_slice B (int (length src)) (start * uint ts) ((start + nitems) * uint ts)"
  shows "blosc2_getitem_ctx le host' alloc user2' dec None r ch cbytes start nitems out osize =
    Some (nitems * uint ts, item_slice (uint ts) start nitems src out)"
proof -
  note c = assms(3)[unfolded chunk_context_def]
  have bits: "bit (ctx_header_flags c') 0" "bit (ctx_header_flags c') 2" using assms(4) by (simp_all add: prepared_def)
  have sp: "special_sizes (ctx_typesize c) (ctx_sourcesize c) cbytes 0" by (simp add: special_sizes_def)
  obtain d tmps where eq: "blosc2_getitem_ctx le host' alloc user2' dec None r ch cbytes start nitems out osize =
      blosc_getitem le host' user2' dec None d tmps g ch cbytes start nitems out osize"
    and tm: "length tmps = 4" "\<forall>t\<in>set tmps. nat (ctx_blocksize c) \<le> length t"
    and d: "ctx_typesize d = ctx_typesize c" "ctx_sourcesize d = ctx_sourcesize c" "ctx_blocksize d = ctx_blocksize c"
    "ctx_nblocks d = ctx_nblocks c" "ctx_leftover d = ctx_leftover c" "ctx_filters d = ctx_filters c"
    "ctx_filters_meta d = ctx_filters_meta c" "ctx_header_overhead d = 32" "ctx_header_flags d = ctx_header_flags c'"
    "ctx_blosc2_flags2 d = 0" "ctx_blosc2_flags d AND 8 = 0" "ctx_srcsize d = cbytes" "ctx_special_type d = 0"
    and sz: "blosc2_cbuffer_sizes le ch = Some (0, ctx_sourcesize c, cbytes, ctx_blocksize c)" "load ch 0 = Some 5"
    "load ch 3 = Some (hdr_typesize g)"
    by (rule getitem_ctx_eq[OF assms(3,9) bits sp ch assms(19)])
  have ts: "ts = hdr_typesize g" "B = ctx_blocksize c" using req(1,2) sz by auto
  note p = prepared_same[OF assms(4)] prepared_more[OF assms(4)]
  have f2: "ctx_blosc2_flags2 c = 0" using c by blast
  have same: "ctx_filters d = ctx_filters c'" "ctx_filters_meta d = ctx_filters_meta c'" "ctx_typesize d = ctx_typesize c'"
    "ctx_header_flags d = ctx_header_flags c'" "ctx_blosc2_flags2 d = ctx_blosc2_flags2 c'" "ctx_nblocks d = ctx_nblocks c'"
    "ctx_leftover d = ctx_leftover c'" "ctx_blocksize d = ctx_blocksize c'" "ctx_sourcesize d = ctx_sourcesize c'"
    using d p f2 by simp_all
  have tsr: "1 \<le> ctx_typesize c'" "ctx_typesize c' \<le> 255" and sf: "standard_filters c'" using c p assms(6) by (simp_all add: standard_filters_def)
  have seg': "take n (drop p ch) = take n (drop p dest)" if "32 \<le> p" "p + n \<le> N + length (concat codes)" for p n
    using seg that codes(4) by simp
  have stored: "codes_stored host' user2 user2' d 5 src 0 N codes ch"
    using codes_stored_reader[OF assms(1,2) tsr sf _ same seg' _ codes(2)] codes(1,3) by simp
  have pd: "pipeline_ok user2 user2' d"
    by (rule standard_pipeline_ok) (use same sf tsr in \<open>simp_all add: standard_filters_def\<close>)
  have bd: "blocks_ok d" by (rule blocks_ok_cong[OF assms(5)]) (use same in simp_all)
  have cf: "ctx_compformat d = 0" using assms(7) same by (simp add: ctx_compformat_def)
  have nb0: "0 \<le> ctx_nblocks c" using blocks_ok_count(3)[OF assms(5)] p by simp
  have N: "0 < N" "int (N + length (concat codes)) \<le> ctx_srcsize d" "ctx_srcsize d < 2 ^ 31" "nat (ctx_srcsize d) \<le> length ch"
    "32 + 4 * nat (ctx_nblocks d) \<le> N"
    unfolding d(12,4) using ch(3,4) codes(4) by (simp_all add: codes(3) nat_le_iff)
  have len: "length codes = nat (ctx_nblocks d)" "nat (ctx_sourcesize d) \<le> length src"
    using codes(1) assms(20) d by simp_all
  have dec: "decodes_blocks le host' user2' dec d ch cbytes src"
    unfolding decodes_blocks_def
  proof (intro allI impI, elim conjE)
    fix j and o1 t1 t2 t3 :: buf
    assume j: "int j < ctx_nblocks d" "block_len d j \<le> length o1" "nat (ctx_blocksize d) \<le> length t1"
      "nat (ctx_blocksize d) \<le> length t2" "nat (ctx_blocksize d) \<le> length t3"
    then have o1: "nat 0 + block_len d j \<le> length o1" by simp
    from shuffle_host.stored_block_decodes[OF assms(2) pd cf bd d(13,11) sz(1,2) len(1) stored N len(2) j(1) o1 j(3-5), of dec]
    show "\<exists>off t1' t2' t3'. load_sw32 le ch (32 + 4 * j) = Some off \<and>
        blosc_d le host' user2' dec None None None d (int (block_len d j)) (block_left d j) False ch cbytes off (int j) 0 0
          [o1, t1, t2, t3] = Some (int (block_len d j), [block_bytes d src j @ drop (block_len d j) o1, t1', t2', t3']) \<and>
        length t1' = length t1 \<and> length t2' = length t2 \<and> length t3' = length t3"
      unfolding d(12) by simp
  qed
  have h: "hdr_blocksize g = ctx_blocksize d" "hdr_nbytes g = ctx_sourcesize d" "hdr_flags g = ctx_header_flags c'"
    using assms(9) d by (simp_all add: chunk_header_def)
  have mc: "hdr_flags g AND BLOSC_MEMCPYED = 0" using assms(8) flag_bit(2) unfolding h(3) by blast
  have S: "int (length src) = ctx_sourcesize d" using assms(20) d by simp
  have nbd: "32 + 4 * ctx_nblocks d \<le> cbytes" using codes(3,4) nb0 d by simp
  note r = item_requestD[OF req(3)]
  have reg: "regular_request d (nat (start * uint ts)) (nat ((start + nitems) * uint ts))"
    by (rule regular_slice_request[OF bd]) (use req(5) S d(3) ts(2) r in auto)
  from getitem_blocks_ok[OF bd d(8) h(1,2) d(13) mc nbd dec S _ _ reg[unfolded ts(1)] tm(1), of osize out]
  show ?thesis unfolding eq using req(3,4) S tm(2) d(3) ts(1) by simp
qed

text \<open>A reader whose blocks only have to be filled.\<close>

lemma reader_blocks_ok:
  assumes "blocks_ok c'" "prepared c c'" "ctx_blosc2_flags2 c = 0" "chunk_reader c f cbytes sp d"
  shows "blocks_ok d"
  by (rule blocks_ok_cong[OF assms(1)])
    (use assms prepared_same[OF assms(2)] prepared_more[OF assms(2)] in \<open>simp_all add: chunk_reader_def\<close>)

text \<open>A chunk whose blocks are not compressed: each block is filled with its part of \<open>src\<close>.\<close>

lemma decompress_filled_by:
  assumes "chunk_context c" "blocks_ok c" "chunk_header c f cbytes sp g" "bit f 0" "bit f 2"
    and sp: "special_sizes (ctx_typesize c) (ctx_sourcesize c) cbytes sp" "bit f 1 \<Longrightarrow> cbytes = ctx_sourcesize c + 32" "sp = 0 \<Longrightarrow> bit f 1"
    and ch: "ch = min_header_image True g @ ext_header_image g @ rest" "32 \<le> cbytes" "cbytes \<le> int (length ch)" "cbytes < 2 ^ 31"
    and fill: "\<And>d i n p b. chunk_reader c f cbytes sp d \<Longrightarrow> int i < ctx_nblocks c \<Longrightarrow> p = block_start c i \<Longrightarrow> n = block_len c i \<Longrightarrow>
      p + n \<le> length src \<Longrightarrow> p + n \<le> length b \<Longrightarrow>
      fill_block le d (if sp = BLOSC2_SPECIAL_VALUE then cbytes - 32 else ctx_typesize c) (int n) ch (32 + int p) b p =
        Some (0, take p b @ take n (drop p src) @ drop (p + n) b)"
    and "allocates alloc" "\<not> ctx_do_compress r" "ctx_sourcesize c \<le> osize" "int (length src) = ctx_sourcesize c" "length src \<le> length out"
  shows "blosc2_decompress_ctx le host alloc user dec ddict None None r ch cbytes out osize =
    Some (ctx_sourcesize c, src @ drop (length src) out)"
proof (rule decompress_chunk[OF assms(1,3-5) sp(1) ch(1)])
  note c = assms(1)[unfolded chunk_context_def]
  fix d and t1 t2 t3 :: buf
  assume d: "chunk_reader c f cbytes sp d" and sz: "blosc2_cbuffer_sizes le ch = Some (0, ctx_sourcesize c, cbytes, ctx_blocksize c)"
  note dr = d[unfolded chunk_reader_def]
  have bd: "blocks_ok d" by (rule blocks_ok_cong[OF assms(2)]) (use dr c in simp_all)
  have S: "nat (ctx_sourcesize c) = length src" using assms(17) by simp
  have same: "block_start d = block_start c" "block_len d = block_len c" "ctx_sourcesize d = ctx_sourcesize c" "ctx_nblocks d = ctx_nblocks c"
    "ctx_special_type d = sp" "ctx_typesize d = ctx_typesize c"
    using dr by (simp_all add: fun_eq_iff block_start_def block_len_def)
  have "bit (ctx_header_flags d) 1 \<or> ctx_special_type d \<noteq> 0" "ctx_header_overhead d = 32" "ctx_sourcesize d + 32 < 2 ^ 31"
    "ctx_special_type d = 0 \<longrightarrow> ctx_blosc2_flags d AND 8 = 0 \<and> cbytes = ctx_sourcesize d + 32"
    using dr c sp by auto
  note pre = this
  have "done_bytes d 0 = 0" by (simp add: done_bytes_def block_start_def)
  moreover have "\<exists>out'. serial_decompress le host user dec None None None False d ch [0..<nat (ctx_nblocks d)] (int (done_bytes d 0))
      [out, t1, t2, t3] = Some (ctx_sourcesize d, [out', t1, t2, t3]) \<and> filled (done_bytes d 0) (nat (ctx_sourcesize d)) src out out'"
  proof (rule serial_decompress_copy[OF bd pre])
    show "blosc2_cbuffer_sizes le ch = Some (0, ctx_sourcesize d, cbytes, ctx_blocksize c)" using sz same by simp
    fix i n p and b :: buf
    assume a: "int i < ctx_nblocks d" "p = block_start d i" "n = block_len d i" "p + n \<le> nat (ctx_sourcesize d)" "p + n \<le> length b"
    show "fill_block le d (if ctx_special_type d = BLOSC2_SPECIAL_VALUE then cbytes - 32 else ctx_typesize d) (int n) ch (32 + int p) b p =
        Some (0, take p b @ take n (drop p src) @ drop (p + n) b)"
      unfolding same(5,6) by (rule fill[OF d]) (use a S same in simp_all)
  qed (use S same assms(18) in simp_all)
  ultimately show "\<exists>out' ts. serial_decompress le host user dec None None None False d ch [0..<nat (ctx_nblocks c)] 0 [out, t1, t2, t3] =
      Some (ctx_sourcesize c, out' # ts) \<and> filled 0 (length src) src out out'"
    using same S by auto
qed (use assms in auto)

lemma decompress_filled:
  assumes "chunk_context c" "prepared c c'" "blocks_ok c'" "chunk_header c f cbytes sp g" "bit f 0" "bit f 2"
    and ch: "ch = min_header_image True g @ ext_header_image g @ rest" "32 \<le> cbytes" "cbytes \<le> int (length ch)" "cbytes < 2 ^ 31"
    and kind: "bit f 1 \<and> sp = 0 \<and> cbytes = ctx_sourcesize c + 32 \<and> take (length src) rest = src \<or> sp = BLOSC2_SPECIAL_ZERO \<and> \<not> bit f 1 \<and> src = replicate (length src) 0"
    and "allocates alloc" "\<not> ctx_do_compress r" "ctx_sourcesize c \<le> osize" "int (length src) = ctx_sourcesize c" "length src \<le> length out"
  shows "blosc2_decompress_ctx le host alloc user dec ddict None None r ch cbytes out osize =
    Some (ctx_sourcesize c, src @ drop (length src) out)"
proof (rule decompress_filled_by[OF assms(1) _ assms(4-6) _ _ _ ch])
  note c = assms(1)[unfolded chunk_context_def]
  have l32: "length (min_header_image True g @ ext_header_image g) = 32"
    using assms(4) c by (simp add: ext_header_image_def chunk_header_def)
  show "blocks_ok c" by (rule blocks_ok_cong[OF assms(3)]) (use prepared_same[OF assms(2)] prepared_more[OF assms(2)] c in simp_all)
  show "special_sizes (ctx_typesize c) (ctx_sourcesize c) cbytes sp" using kind by (auto simp: special_sizes_def)
  show "cbytes = ctx_sourcesize c + 32" if "bit f 1" using that kind by auto
  show "bit f 1" if "sp = 0" using that kind by auto
  fix d p n and b :: buf
  assume d: "chunk_reader c f cbytes sp d" and that: "p + n \<le> length src" "p + n \<le> length b"
  let ?ts = "if sp = BLOSC2_SPECIAL_VALUE then cbytes - 32 else ctx_typesize c"
  have sp: "ctx_special_type d = sp" using d by (simp add: chunk_reader_def)
  show "fill_block le d ?ts (int n) ch (32 + int p) b p = Some (0, take p b @ take n (drop p src) @ drop (p + n) b)"
    using kind
  proof
    assume k: "bit f 1 \<and> sp = 0 \<and> cbytes = ctx_sourcesize c + 32 \<and> take (length src) rest = src"
    have "drop 32 ch = rest" "32 + length src \<le> length ch" using k ch l32 assms(15) by simp_all
    moreover have "take n (drop p rest) = take n (drop p src)"
    proof -
      have "take n (drop p (take (length src) rest)) = take n (drop p rest)"
        using that(1) by (simp add: drop_take min_absorb1)
      with k show ?thesis by simp
    qed
    ultimately show ?thesis using fill_block_copy[of d "length src" ch p n b le ?ts] that sp k by simp
  next
    assume k: "sp = BLOSC2_SPECIAL_ZERO \<and> \<not> bit f 1 \<and> src = replicate (length src) 0"
    then have "ctx_special_type d = BLOSC2_SPECIAL_ZERO" using sp by simp
    from fill_block_zero[OF this, of p n "length src" b le ?ts ch] k that show ?thesis by simp
  qed
qed (use assms in auto)


lemma getitem_filled:
  assumes "chunk_context c" "chunk_header c f cbytes sp g" "bit f 0" "bit f 2"
    and ch: "ch = min_header_image True g @ ext_header_image g @ rest" "32 \<le> cbytes" "cbytes \<le> int (length ch)" "cbytes < 2 ^ 31"
    and kind: "bit f 1 \<and> sp = 0 \<and> cbytes = ctx_sourcesize c + 32 \<and> take (length src) rest = src \<or> sp = BLOSC2_SPECIAL_ZERO \<and> \<not> bit f 1 \<and> src = replicate (length src) 0"
    and "allocates alloc" "int (length src) = ctx_sourcesize c"
    and req: "load ch 3 = Some ts" "item_request (uint ts) (int (length src)) start nitems osize" "nat (nitems * uint ts) \<le> length out"
  shows "blosc2_getitem_ctx le host alloc user dec None r ch cbytes start nitems out osize =
    Some (nitems * uint ts, item_slice (uint ts) start nitems src out)"
proof -
  note c = assms(1)[unfolded chunk_context_def]
  have sp: "special_sizes (ctx_typesize c) (ctx_sourcesize c) cbytes sp" using kind by (auto simp: special_sizes_def)
  obtain d tmps where eq: "blosc2_getitem_ctx le host alloc user dec None r ch cbytes start nitems out osize =
      blosc_getitem le host user dec None d tmps g ch cbytes start nitems out osize"
    and d: "ctx_sourcesize d = ctx_sourcesize c" "ctx_header_overhead d = 32" "ctx_blosc2_flags d AND 8 = 0" "ctx_special_type d = sp"
    and ts: "load ch 3 = Some (hdr_typesize g)"
    using getitem_ctx_eq[OF assms(1-4) sp ch assms(10)] by metis
  have h: "hdr_nbytes g = ctx_sourcesize d" "hdr_flags g = f" using assms(2) d by (simp_all add: chunk_header_def)
  have l32: "length (min_header_image True g @ ext_header_image g) = 32"
    using assms(2) c by (simp add: ext_header_image_def chunk_header_def)
  then have rest: "drop 32 ch = rest" unfolding ch(1) by simp
  have k: "ctx_special_type d = 0 \<and> hdr_flags g AND BLOSC_MEMCPYED \<noteq> 0 \<and> cbytes = ctx_sourcesize d + 32 \<and>
        nat cbytes \<le> length ch \<and> take (length src) (drop 32 ch) = src \<or>
      ctx_special_type d = BLOSC2_SPECIAL_ZERO \<and> src = replicate (length src) 0"
    using kind ch(3) unfolding rest d(1,4) h(2) flag_bit(2) by linarith
  have S: "int (length src) = ctx_sourcesize d" using assms(11) d by simp
  have "ts = hdr_typesize g" using req(1) ts by simp
  with getitem_short_ok[OF d(2) h(1) d(3) k S] req(2,3) S show ?thesis unfolding eq by simp
qed

section \<open>Compressing a chunk\<close>

text \<open>The header in the destination.\<close>

lemma write_header_chunk:
  assumes "chunk_context c" "\<not> ctx_use_dict c" "0 \<le> ctx_clevel c" "32 \<le> length dest"
  obtains c' g where "write_compression_header le cv c True dest = Some (1, c', min_header_image True g @ ext_header_image g @ drop 32 dest)"
    "prepared c c'" "\<not> ctx_use_dict c'" "chunk_header c (ctx_header_flags c') 0 0 g"
    "bit (ctx_header_flags c') 1 \<or>
     ctx_bstarts c' = Some 32 \<and> ctx_output_bytes c' = 32 + 4 * ctx_nblocks c \<and> ctx_output_bytes c' \<le> ctx_destsize c \<and>
     0 < ctx_clevel c \<and> ctx_header_flags c' = 5 OR codec_flags c"
proof -
  note c = assms(1)[unfolded chunk_context_def]
  have cut: "blosc2_calculate_blocks c = Some c" "0 < ctx_blocksize c" "0 \<le> ctx_sourcesize c" "32 + 4 * ctx_nblocks c < 2 ^ 31"
    "ctx_blosc2_flags2 c = 0" "ctx_blosc2_flags c AND BLOSC2_INSTR_CODEC = 0" using c by blast+
  have nb: "0 \<le> ctx_nblocks c" using cut(1-3) unfolding calculate_blocks_iff by (simp add: pos_imp_zdiv_nonneg_iff)
  obtain c' where c': "prepare_header c True = Some c'" "prepared c c'" "\<not> ctx_use_dict c'"
    "bit (ctx_header_flags c') 1 \<or>
     ctx_bstarts c' = Some 32 \<and> ctx_output_bytes c' = 32 + 4 * ctx_nblocks c \<and> ctx_output_bytes c' \<le> ctx_destsize c \<and>
     0 < ctx_clevel c \<and> ctx_header_flags c' = 5 OR codec_flags c"
    using prepare_header_cases[OF nb cut(4,5) assms(2,3)] by blast
  note same = prepared_same[OF c'(2)]
  have "logical_blocksize c' = logical_blocksize c" unfolding logical_blocksize_def same ..
  then have bsz: "logical_blocksize c' = ctx_blocksize c" using c by simp
  define g where "g = logical_header le cv c'"
  have ts: "uint (word_of_int (ctx_typesize c) :: byte) = ctx_typesize c"
    using c by (simp add: uint_word_of_int)
  have "special_type (hdr_blosc2_flags g) = 0" "\<not> bit (hdr_blosc2_flags g) 3" "hdr_blosc2_flags g AND BLOSC2_USEDICT = 0"
    using c'(3) cut(6) same by (simp_all add: g_def logical_header_def init_header_fields special_type_def bit_or_iff bit_numeral_rec bit.conj_disj_distrib2)
  then have g: "chunk_header c (ctx_header_flags c') 0 0 g"
    using c ts by (simp add: chunk_header_def g_def logical_header_def init_header_fields same bsz)
  have range: "i32_range (ctx_sourcesize c')" "i32_range (logical_blocksize c')"
    using c bsz same by (auto simp: i32_range_def)
  have "header_range g" by (rule chunk_header_range(1)[OF assms(1) g]) (simp add: i32_range_def)
  then have "length (ext_header_image g) = 16" by (rule length_ext_header_image)
  then have "write_compression_header le cv c True dest = Some (1, c', min_header_image True g @ ext_header_image g @ drop 32 dest)"
    using assms(4) written_image[OF range, of le cv]
    by (simp add: write_compression_header_def c'(1) store_el_Some Let_def flip: g_def)
  with c' g that show ?thesis by blast
qed

lemma copy_job:
  assumes "blocks_ok c" "bit (ctx_header_flags c) 1" "ctx_header_overhead c = 32" "ctx_output_bytes c = 32" "ctx_sourcesize c + 32 < 2 ^ 31"
    and "ctx_blocksize c + 4 * ctx_typesize c < 2 ^ 31" "int (length src) = ctx_sourcesize c" "32 + length src \<le> length dest" "allocates alloc"
  shows "do_compress_job le host alloc user enc None None c [] src dest =
    Some (32 + ctx_sourcesize c, src, take 32 dest @ src @ drop (32 + length src) dest)"
proof -
  have "0 \<le> ctx_blocksize c" "0 \<le> ctx_typesize c" using assms(1) by (simp_all add: blocks_ok_def)
  then obtain t0 t1 t2 t3 where t: "thread_buffers alloc c = Some (Some [t0, t1, t2, t3])"
    using thread_buffers_Some[OF assms(9) _ _ assms(6)] by blast
  have z: "done_bytes c 0 = 0" by (simp add: done_bytes_def block_start_def)
  have S: "nat (ctx_sourcesize c) = length src" using assms(7) by simp
  obtain d' where d: "serial_compress le host user enc None None c [0..<nat (ctx_nblocks c)] 32 [src, dest, t0, t1] =
      Some (32 + ctx_sourcesize c, [src, d', t0, t1])" "filled 32 (32 + length src) (replicate 32 0 @ src) dest d'"
    using serial_compress_copy[OF assms(1-3,5,7), of dest 0 le host user enc t0 t1, unfolded z S] assms(8) by auto
  have l: "length d' = length dest" using d(2) by (simp add: filled_def)
  have "d' = take 32 dest @ src @ drop (32 + length src) dest"
    by (rule nth_equalityI) (use d(2) l assms(8) in \<open>auto simp: filled_def nth_append\<close>)
  with t d(1) assms(4) show ?thesis by (simp add: do_compress_job_def)
qed

lemma blocks_job:
  assumes "shuffle_host host" "standard_filters c" "ctx_typesize c \<le> 255" "active_filters c [0..<6] \<le> 2" "blosclz_context c" "blocks_ok c" "split_fits c"
    and "\<not> bit (ctx_header_flags c) 1" "ctx_bstarts c = Some 32" "ctx_destsize c + ctx_blocksize c < 2 ^ 31 - 16"
    and "ctx_output_bytes c = 32 + 4 * ctx_nblocks c" "ctx_output_bytes c \<le> ctx_destsize c"
    and "ctx_blocksize c + 4 * ctx_typesize c < 2 ^ 31" "int (length src) = ctx_sourcesize c" "nat (ctx_destsize c) \<le> length dest" "allocates alloc"
  obtains N' dest' where "do_compress_job le host alloc user enc None None c [] src dest = Some (int N', src, dest')" "agree 0 32 dest dest'"
    "N' \<noteq> 0 \<longrightarrow> int N' \<le> ctx_destsize c \<and>
      (\<exists>codes. length codes = nat (ctx_nblocks c) \<and> N' = 32 + 4 * nat (ctx_nblocks c) + length (concat codes) \<and>
        codes_stored host user (\<lambda>_. None) c 5 src 0 (32 + 4 * nat (ctx_nblocks c)) codes dest')"
proof -
  have pos: "0 \<le> ctx_blocksize c" "1 \<le> ctx_typesize c" "0 \<le> ctx_typesize c" using assms(6) by (simp_all add: blocks_ok_def)
  obtain t0 t1 t2 t3 where t: "thread_buffers alloc c = Some (Some [t0, t1, t2, t3])" "nat (ctx_blocksize c) \<le> length t0" "nat (ctx_blocksize c) \<le> length t1"
    using thread_buffers_Some[OF assms(16) pos(1,3) assms(13)] by blast
  have pp: "pipeline_ok user (\<lambda>_. None) c" by (rule standard_pipeline_ok[OF assms(2) pos(2) assms(3)])
  let ?N = "32 + 4 * nat (ctx_nblocks c)"
  have n: "int ?N = ctx_output_bytes c" using assms(11) blocks_ok_count(3)[OF assms(6)] by simp
  have v: "(5 :: byte) \<noteq> BLOSC1_VERSION_FORMAT" by simp
  have "int ?N \<le> ctx_destsize c" using n assms(12) by simp
  from shuffle_host.serial_compress_blocks[OF assms(1) pp assms(4) v assms(5,6,8,9,10,14) t(2,3) assms(15) le0 order_refl this assms(7), of le enc]
  obtain N' dest' u u2 where w: "serial_compress le host user enc None None c [0..<nat (ctx_nblocks c)] (int ?N) [src, dest, t0, t1] =
      Some (int N', [src, dest', u, u2])" "agree 0 (32 + 4 * 0) dest dest'"
    "N' \<noteq> 0 \<longrightarrow> int N' \<le> ctx_destsize c \<and> agree (32 + 4 * nat (ctx_nblocks c)) ?N dest dest' \<and>
      (\<exists>codes. length codes = nat (ctx_nblocks c) - 0 \<and> N' = ?N + length (concat codes) \<and>
        codes_stored host user (\<lambda>_. None) c 5 src 0 ?N codes dest')"
    by blast
  have "do_compress_job le host alloc user enc None None c [] src dest = Some (int N', src, dest')"
    using t(1) w(1) n by (simp add: do_compress_job_def)
  with w(2,3) that show ?thesis by simp
qed


section \<open>Round trip of a chunk\<close>

text \<open>
  The items of \<open>src\<close> can be read from a chunk that starts with the first \<open>cb\<close> bytes of \<open>d\<close>: the slice is put in front of what the
  destination held.
\<close>

definition items_of :: "buf \<Rightarrow> int \<Rightarrow> buf \<Rightarrow> bool" where
  "items_of src cb d \<longleftrightarrow>
   (\<forall>host le alloc user dec r ch out osize start nitems ts B.
    shuffle_host host \<and> allocates alloc \<and> take (nat cb) ch = take (nat cb) d \<and> nat cb \<le> length ch \<and>
    load ch 3 = Some ts \<and> blosc2_cbuffer_sizes le ch = Some (0, int (length src), cb, B) \<and>
    item_request (uint ts) (int (length src)) start nitems osize \<and> nat (nitems * uint ts) \<le> length out \<and>
    regular_slice B (int (length src)) (start * uint ts) ((start + nitems) * uint ts) \<longrightarrow>
    blosc2_getitem_ctx le host alloc user dec None r ch cb start nitems out osize =
      Some (nitems * uint ts, item_slice (uint ts) start nitems src out))"

text \<open>
  The first \<open>cb\<close> bytes of \<open>d\<close> are a chunk of \<open>src\<close>: from every buffer that starts with them, with every table of
  routines, allocator and destination that is large enough, \<open>blosc2_decompress_ctx\<close> writes \<open>src\<close> and changes nothing behind it.
  The header says how long the data are, and that the blocks are not of variable length.
\<close>

definition chunk_of :: "buf \<Rightarrow> int \<Rightarrow> buf \<Rightarrow> bool" where
  "chunk_of src cb d \<longleftrightarrow>
   (\<forall>le ch. take (nat cb) ch = take (nat cb) d \<and> nat cb \<le> length ch \<longrightarrow>
     (\<exists>bs. blosc2_cbuffer_sizes le ch = Some (0, int (length src), cb, bs)) \<and> load ch 30 = Some 0) \<and>
   (\<forall>host le alloc user dec ddict r ch out osize.
    shuffle_host host \<and> allocates alloc \<and> \<not> ctx_do_compress r \<and> take (nat cb) ch = take (nat cb) d \<and> nat cb \<le> length ch \<and>
    int (length src) \<le> osize \<and> length src \<le> length out \<longrightarrow>
    blosc2_decompress_ctx le host alloc user dec ddict None None r ch cb out osize =
      Some (int (length src), src @ drop (length src) out))"

definition item_chunk :: "buf \<Rightarrow> int \<Rightarrow> buf \<Rightarrow> bool" where
  "item_chunk src cb d \<longleftrightarrow> chunk_of src cb d \<and> items_of src cb d"

text \<open>A context of a compression that can be undone.\<close>

definition compressible :: "blosc2_context \<Rightarrow> bool" where
  "compressible c \<longleftrightarrow> chunk_context c \<and> ctx_compcode c = BLOSC_BLOSCLZ \<and> 0 \<le> ctx_clevel c \<and> ctx_clevel c \<le> 9 \<and>
     \<not> ctx_use_dict c \<and> standard_filters c \<and> active_filters c [0..<6] \<le> 2 \<and>
     (split_block c (ctx_typesize c) (ctx_blocksize c) \<longrightarrow> ctx_typesize c dvd ctx_blocksize c) \<and>
     0 \<le> ctx_destsize c \<and> ctx_destsize c + ctx_blocksize c < 2 ^ 31 - 16"

lemma compressible_blocks_ok: "compressible c \<Longrightarrow> blocks_ok c"
  by (auto simp: compressible_def chunk_context_def blocks_ok_def ctx_vlblocks_def)

lemma compressible_prepared:
  assumes "compressible c" "prepared c c'"
  shows "chunk_context c" "blocks_ok c'" "standard_filters c'" "1 \<le> ctx_typesize c'" "ctx_typesize c' \<le> 255" "0 \<le> ctx_sourcesize c"
    "ctx_sourcesize c + 32 < 2 ^ 31"
proof -
  note c = assms(1)[unfolded compressible_def]
  note p = prepared_same[OF assms(2)] prepared_more[OF assms(2)]
  show cc: "chunk_context c" using c by blast
  show "blocks_ok c'" by (rule blocks_ok_cong[OF compressible_blocks_ok[OF assms(1)]]) (simp_all add: p)
  show "standard_filters c'" "1 \<le> ctx_typesize c'" "ctx_typesize c' \<le> 255" "0 \<le> ctx_sourcesize c" "ctx_sourcesize c + 32 < 2 ^ 31"
    using c cc by (simp_all add: p standard_filters_def chunk_context_def)
qed

lemma chunk_ofI:
  assumes "\<And>le ch. take (nat cb) ch = take (nat cb) d \<Longrightarrow> nat cb \<le> length ch \<Longrightarrow>
      (\<exists>bs. blosc2_cbuffer_sizes le ch = Some (0, S, cb, bs)) \<and> load ch 30 = Some 0"
    and "\<And>host le alloc user dec ddict r ch out osize. shuffle_host host \<Longrightarrow> allocates alloc \<Longrightarrow> \<not> ctx_do_compress r \<Longrightarrow>
    take (nat cb) ch = take (nat cb) d \<Longrightarrow> nat cb \<le> length ch \<Longrightarrow> S \<le> osize \<Longrightarrow>
    length src \<le> length out \<Longrightarrow> blosc2_decompress_ctx le host alloc user dec ddict None None r ch cb out osize =
      Some (S, src @ drop (length src) out)"
    and "int (length src) = S" "items_of src cb d"
  shows "item_chunk src cb d"
  unfolding item_chunk_def chunk_of_def assms(3) using assms(1,2,4) by blast

lemma same_header:
  assumes "take (nat cb) ch = take (nat cb) (h @ rest)" "length h = 32" "32 \<le> cb"
  shows "ch = h @ drop 32 ch" "take (nat cb - 32) (drop 32 ch) = take (nat cb - 32) rest"
proof -
  have "take 32 (take (nat cb) ch) = take 32 (take (nat cb) (h @ rest))" using assms(1) by simp
  then have "take 32 ch = h" using assms(2,3) by (simp add: min_absorb1)
  then show "ch = h @ drop 32 ch" using append_take_drop_id[of 32 ch] by simp
  have "drop 32 (take (nat cb) ch) = drop 32 (take (nat cb) (h @ rest))" using assms(1) by simp
  then have "take (nat cb - 32) (drop 32 ch) = take (nat cb - 32) (drop 32 (h @ rest))" by (simp only: drop_take)
  then show "take (nat cb - 32) (drop 32 ch) = take (nat cb - 32) rest" using assms(2) by simp
qed

lemma chunk_sizes:
  assumes "chunk_context c" "chunk_header c f cb sp g" "bit f 0" "bit f 2" "special_sizes (ctx_typesize c) (ctx_sourcesize c) cb sp" "32 \<le> cb" "cb < 2 ^ 31"
    and "take (nat cb) ch = take (nat cb) (min_header_image True g @ ext_header_image g @ rest)" "nat cb \<le> length ch"
  shows "(\<exists>bs. blosc2_cbuffer_sizes le ch = Some (0, ctx_sourcesize c, cb, bs)) \<and> load ch 30 = Some 0"
proof -
  have rng: "i32_range cb" using assms(6,7) by (simp add: i32_range_def)
  have hr: "header_range g" by (rule chunk_header_range(1)[OF assms(1,2) rng])
  then have l: "length (min_header_image True g @ ext_header_image g) = 32" using length_ext_header_image by simp
  have ch: "ch = (min_header_image True g @ ext_header_image g) @ drop 32 ch"
    using same_header(1)[of cb ch "min_header_image True g @ ext_header_image g" rest] assms(6,8) l by simp
  have t: "take 32 ch = min_header_image True g @ ext_header_image g" by (subst ch) (use l in simp)
  have len: "cb \<le> int (length ch)" using assms(9) by simp
  have "ch ! 30 = take 32 ch ! 30" by simp
  also have "\<dots> = ext_header_image g ! 14" unfolding t by (simp add: nth_append min_header_image_def)
  also have "\<dots> = 0" using assms(2) hr by (simp add: ext_header_image_def chunk_header_def header_range_def nth_append)
  finally have "load ch 30 = Some 0" using len assms(6) by (simp add: load_def)
  with read_chunk(2)[OF assms(1,2) rng assms(6) len t assms(3-5)] show ?thesis by blast
qed

lemma chunk_parts:
  assumes "chunk_context c" "chunk_header c f cb sp g" "32 \<le> cb" "cb < 2 ^ 31"
    and same: "take (nat cb) ch = take (nat cb) (min_header_image True g @ ext_header_image g @ rest)"
  shows "ch = min_header_image True g @ ext_header_image g @ drop 32 ch"
    and "take (nat cb - 32) (drop 32 ch) = take (nat cb - 32) rest"
proof -
  have "i32_range cb" using assms(3,4) by (simp add: i32_range_def)
  then have l: "length (min_header_image True g @ ext_header_image g) = 32"
    using length_ext_header_image chunk_header_range(1)[OF assms(1,2)] by simp
  show "ch = min_header_image True g @ ext_header_image g @ drop 32 ch"
    "take (nat cb - 32) (drop 32 ch) = take (nat cb - 32) rest"
    using same_header[of cb ch "min_header_image True g @ ext_header_image g" rest] same l assms(3) by simp_all
qed

lemma filled_items:
  assumes "compressible c" "prepared c c'" "bit f 0" "bit f 2" "chunk_header c f cb sp g" "int (length src) = ctx_sourcesize c"
    and kind: "bit f 1 \<and> sp = 0 \<and> cb = 32 + ctx_sourcesize c \<and> (\<exists>rest'. rest = src @ rest') \<or>
      sp = BLOSC2_SPECIAL_ZERO \<and> \<not> bit f 1 \<and> cb = 32 \<and> src = replicate (length src) 0"
  shows "items_of src cb (min_header_image True g @ ext_header_image g @ rest)"
  unfolding items_of_def
proof (intro allI impI, elim conjE)
  fix host le alloc user dec osize start nitems ts B and ch out :: buf and r :: blosc2_context
  assume a: "allocates alloc" and same: "take (nat cb) ch = take (nat cb) (min_header_image True g @ ext_header_image g @ rest)"
    "nat cb \<le> length ch" and req: "load ch 3 = Some ts" "item_request (uint ts) (int (length src)) start nitems osize"
    "nat (nitems * uint ts) \<le> length out"
  note c = compressible_prepared[OF assms(1,2)]
  have cb: "32 \<le> cb" "cb < 2 ^ 31" "cb \<le> int (length ch)" using kind c(6,7) same(2) by auto
  note ch = chunk_parts[OF c(1) assms(5) cb(1,2) same(1)]
  have k: "bit f 1 \<and> sp = 0 \<and> cb = ctx_sourcesize c + 32 \<and> take (length src) (drop 32 ch) = src \<or>
      sp = BLOSC2_SPECIAL_ZERO \<and> \<not> bit f 1 \<and> src = replicate (length src) 0"
    using kind
  proof
    assume copy: "bit f 1 \<and> sp = 0 \<and> cb = 32 + ctx_sourcesize c \<and> (\<exists>rest'. rest = src @ rest')"
    then have "nat cb - 32 = length src" using assms(6) by (simp add: nat_add_distrib)
    with copy ch(2) show ?thesis by auto
  qed auto
  show "blosc2_getitem_ctx le host alloc user dec None r ch cb start nitems out osize =
      Some (nitems * uint ts, item_slice (uint ts) start nitems src out)"
    by (rule getitem_filled[OF c(1) assms(5,3,4) ch(1) cb(1,3,2) k a assms(6) req])
qed

lemma filled_chunk:
  assumes "compressible c" "prepared c c'" "bit f 0" "bit f 2" "chunk_header c f cb sp g" "int (length src) = ctx_sourcesize c"
    and kind: "bit f 1 \<and> sp = 0 \<and> cb = 32 + ctx_sourcesize c \<and> (\<exists>rest'. rest = src @ rest') \<or>
      sp = BLOSC2_SPECIAL_ZERO \<and> \<not> bit f 1 \<and> cb = 32 \<and> src = replicate (length src) 0"
  shows "item_chunk src cb (min_header_image True g @ ext_header_image g @ rest)"
proof (rule chunk_ofI[OF _ _ assms(6) filled_items[OF assms]])
  note c = compressible_prepared[OF assms(1,2)]
  have cb: "32 \<le> cb" "cb < 2 ^ 31" using kind c(6,7) by auto
  show "(\<exists>bs. blosc2_cbuffer_sizes le ch = Some (0, ctx_sourcesize c, cb, bs)) \<and> load ch 30 = Some 0"
    if "take (nat cb) ch = take (nat cb) (min_header_image True g @ ext_header_image g @ rest)" "nat cb \<le> length ch" for le ch
    by (rule chunk_sizes[OF c(1) assms(5,3,4) _ cb that]) (use kind in \<open>auto simp: special_sizes_def\<close>)
  fix host le alloc user dec ddict osize and ch out :: buf and r :: blosc2_context
  assume a: "allocates alloc" "\<not> ctx_do_compress r" "ctx_sourcesize c \<le> osize" "length src \<le> length out"
    and same: "take (nat cb) ch = take (nat cb) (min_header_image True g @ ext_header_image g @ rest)" "nat cb \<le> length ch"
  note c = compressible_prepared[OF assms(1,2)]
  have cb: "32 \<le> cb" "cb < 2 ^ 31" "cb \<le> int (length ch)" using kind c(6,7) same(2) by auto
  then have "i32_range cb" by (simp add: i32_range_def)
  then have l: "length (min_header_image True g @ ext_header_image g) = 32"
    using length_ext_header_image chunk_header_range(1)[OF c(1) assms(5)] by simp
  have ch: "ch = min_header_image True g @ ext_header_image g @ drop 32 ch" "take (nat cb - 32) (drop 32 ch) = take (nat cb - 32) rest"
    using same_header[of cb ch "min_header_image True g @ ext_header_image g" rest] same(1) l cb(1) by simp_all
  have k: "bit f 1 \<and> sp = 0 \<and> cb = ctx_sourcesize c + 32 \<and> take (length src) (drop 32 ch) = src \<or>
      sp = BLOSC2_SPECIAL_ZERO \<and> \<not> bit f 1 \<and> src = replicate (length src) 0"
    using kind
  proof
    assume copy: "bit f 1 \<and> sp = 0 \<and> cb = 32 + ctx_sourcesize c \<and> (\<exists>rest'. rest = src @ rest')"
    then have "nat cb - 32 = length src" using assms(6) by (simp add: nat_add_distrib)
    with copy ch(2) show ?thesis by auto
  qed auto
  show "blosc2_decompress_ctx le host alloc user dec ddict None None r ch cb out osize =
      Some (ctx_sourcesize c, src @ drop (length src) out)"
    by (rule decompress_filled[OF c(1) assms(2) c(2) assms(5,3,4) ch(1) cb(1,3,2) k a(1,2,3) assms(6) a(4)])
qed

lemma same_segment:
  assumes "take (nat cb - 32) (drop 32 ch) = take (nat cb - 32) (drop 32 dest)" "32 \<le> p" "int (p + n) \<le> cb"
  shows "take n (drop p ch) = take n (drop p (dest :: buf))"
proof -
  have k: "n \<le> nat cb - 32 - (p - 32)" "drop p xs = drop (p - 32) (drop 32 xs)" for xs :: buf using assms(2,3) by simp_all
  have "take n (drop p ch) = take n (drop (p - 32) (take (nat cb - 32) (drop 32 ch)))"
    unfolding k(2)[of ch] using k(1) by (simp only: drop_take take_take min_absorb1)
  also have "\<dots> = take n (drop p dest)"
    unfolding assms(1) k(2)[of dest] using k(1) by (simp only: drop_take take_take min_absorb1)
  finally show ?thesis .
qed

lemma codes_items:
  assumes "compressible c" "prepared c c'" "shuffle_host host" "ctx_compformat c' = 0" "\<not> bit (ctx_header_flags c') 1"
    and "chunk_header c (ctx_header_flags c') cb 0 g" "int (length src) = ctx_sourcesize c"
    and codes: "length codes = nat (ctx_nblocks c)" "codes_stored host user user' c' 5 src 0 (32 + 4 * nat (ctx_nblocks c)) codes dest"
      "cb = int (32 + 4 * nat (ctx_nblocks c) + length (concat codes))"
    and "cb \<le> int (length dest)" "cb < 2 ^ 31" "rest = drop 32 dest"
  shows "items_of src cb (min_header_image True g @ ext_header_image g @ rest)"
  unfolding items_of_def
proof (intro allI impI, elim conjE)
  fix host' le alloc user2 dec osize start nitems ts B and ch out :: buf and r :: blosc2_context
  assume a: "shuffle_host host'" "allocates alloc"
    and same: "take (nat cb) ch = take (nat cb) (min_header_image True g @ ext_header_image g @ rest)" "nat cb \<le> length ch"
    and req: "load ch 3 = Some ts" "blosc2_cbuffer_sizes le ch = Some (0, int (length src), cb, B)"
      "item_request (uint ts) (int (length src)) start nitems osize" "nat (nitems * uint ts) \<le> length out"
      "regular_slice B (int (length src)) (start * uint ts) ((start + nitems) * uint ts)"
  note c = compressible_prepared[OF assms(1,2)]
  have sf: "standard_filters c" using assms(1) by (simp add: compressible_def)
  have cb: "32 \<le> cb" "cb \<le> int (length ch)" using codes(3) same(2) by simp_all
  note ch = chunk_parts[OF c(1) assms(6) cb(1) assms(12) same(1)]
  have seg: "take n (drop p ch) = take n (drop p dest)" if "32 \<le> p" "int (p + n) \<le> cb" for p n
    by (rule same_segment[OF ch(2)[unfolded assms(13)] that])
  show "blosc2_getitem_ctx le host' alloc user2 dec None r ch cb start nitems out osize =
      Some (nitems * uint ts, item_slice (uint ts) start nitems src out)"
    by (rule getitem_stored_codes[OF assms(3) a(1) c(1) assms(2) c(2) sf assms(4,5,6) ch(1) cb assms(12) codes(1,2) refl codes(3) seg a(2) assms(7) req])
qed

lemma codes_chunk:
  assumes "compressible c" "prepared c c'" "shuffle_host host" "ctx_compformat c' = 0" "\<not> bit (ctx_header_flags c') 1"
    and "chunk_header c (ctx_header_flags c') cb 0 g" "int (length src) = ctx_sourcesize c"
    and codes: "length codes = nat (ctx_nblocks c)" "codes_stored host user user' c' 5 src 0 (32 + 4 * nat (ctx_nblocks c)) codes dest"
      "cb = int (32 + 4 * nat (ctx_nblocks c) + length (concat codes))"
    and "cb \<le> int (length dest)" "cb < 2 ^ 31" "rest = drop 32 dest"
  shows "item_chunk src cb (min_header_image True g @ ext_header_image g @ rest)"
proof (rule chunk_ofI[OF _ _ assms(7) codes_items[OF assms]])
  note c = compressible_prepared[OF assms(1,2)]
  have bits: "bit (ctx_header_flags c') 0" "bit (ctx_header_flags c') 2" using assms(2) by (simp_all add: prepared_def)
  have cb: "32 \<le> cb" using codes(3) by simp
  show "(\<exists>bs. blosc2_cbuffer_sizes le ch = Some (0, ctx_sourcesize c, cb, bs)) \<and> load ch 30 = Some 0"
    if "take (nat cb) ch = take (nat cb) (min_header_image True g @ ext_header_image g @ rest)" "nat cb \<le> length ch" for le ch
    by (rule chunk_sizes[OF c(1) assms(6) bits _ cb assms(12) that]) (simp add: special_sizes_def)
  fix host' le alloc user2 dec ddict osize and ch out :: buf and r :: blosc2_context
  assume a: "shuffle_host host'" "allocates alloc" "\<not> ctx_do_compress r" "ctx_sourcesize c \<le> osize" "length src \<le> length out"
    and same: "take (nat cb) ch = take (nat cb) (min_header_image True g @ ext_header_image g @ rest)" "nat cb \<le> length ch"
  note c = compressible_prepared[OF assms(1,2)]
  have sf: "standard_filters c" using assms(1) by (simp add: compressible_def)
  have cb: "32 \<le> cb" "cb \<le> int (length ch)" using codes(3) same(2) by simp_all
  then have "i32_range cb" using assms(12) by (simp add: i32_range_def)
  then have l: "length (min_header_image True g @ ext_header_image g) = 32"
    using length_ext_header_image chunk_header_range(1)[OF c(1) assms(6)] by simp
  have ch: "ch = min_header_image True g @ ext_header_image g @ drop 32 ch" "take (nat cb - 32) (drop 32 ch) = take (nat cb - 32) rest"
    using same_header[of cb ch "min_header_image True g @ ext_header_image g" rest] same(1) l cb(1) by simp_all
  have seg: "take n (drop p ch) = take n (drop p dest)" if "32 \<le> p" "int (p + n) \<le> cb" for p n
    by (rule same_segment[OF ch(2)[unfolded assms(13)] that])
  show "blosc2_decompress_ctx le host' alloc user2 dec ddict None None r ch cb out osize =
      Some (ctx_sourcesize c, src @ drop (length src) out)"
    by (rule decompress_stored_codes[OF assms(3) a(1) c(1) assms(2) c(2) sf assms(4,5,6) ch(1) cb assms(12) codes(1,2) refl codes(3) seg a(2-4) assms(7) a(5)])
qed


text \<open>The last resort of \<open>blosc_compress_context\<close>: a copy, if it fits.\<close>

lemma compress_context_copies:
  assumes "compressible c" "prepared c c'" "chunk_header c f0 0 0 g" "int (length src) = ctx_sourcesize c" "allocates alloc"
    and first: "bit (ctx_header_flags c') 1 \<and> d0 = d \<or>
      \<not> bit (ctx_header_flags c') 1 \<and> do_compress_job le host alloc user enc None None c' [] src d = Some (0, src, d0)"
    and d0: "d0 = min_header_image True g @ ext_header_image g @ rest" "ctx_destsize c \<le> int (length d0)"
  obtains cb c2 d2 where "blosc_compress_context le host alloc user enc None None c' [] src d = Some (cb, c2, src, d2)" "ctx_use_dict c2 = ctx_use_dict c'" "length d2 = length d0"
    "cb = 0 \<and> ctx_destsize c < 32 + ctx_sourcesize c \<or> cb = 32 + ctx_sourcesize c \<and> cb \<le> ctx_destsize c \<and> item_chunk src cb d2"
proof -
  note c = compressible_prepared[OF assms(1,2)]
  note p = prepared_same[OF assms(2)] prepared_more[OF assms(2)]
  let ?S = "ctx_sourcesize c" and ?cb = "32 + ctx_sourcesize c"
  define c1 where "c1 = c'\<lparr> ctx_header_flags := ctx_header_flags c' OR BLOSC_MEMCPYED \<rparr>"
  define f where "f = ctx_header_flags c' OR BLOSC_MEMCPYED"
  have fb: "bit f 0" "bit f 1" "bit f 2" using assms(2) by (simp_all add: f_def prepared_def bit_or_iff bit_numeral_rec)
  have c1: "ctx_sourcesize c1 = ?S" "ctx_header_overhead c1 = 32" "ctx_destsize c1 = ctx_destsize c" "ctx_header_flags c1 = f" "ctx_use_dict c1 = ctx_use_dict c'"
    by (simp_all add: c1_def p f_def)
  have l: "length (ext_header_image g) = 16" using length_ext_header_image chunk_header_range(1)[OF c(1) assms(3)] by (simp add: i32_range_def)
  have bit1: "ctx_header_flags c' AND BLOSC_MEMCPYED \<noteq> 0 \<longleftrightarrow> bit (ctx_header_flags c') 1" by (rule flag_bit(2))
  have tot: "i32 (?S + 32) = Some (?S + 32)" using c(6,7) by simp
  have rng: "i32_range 0" "i32_range ?cb" using c(6,7) by (simp_all add: i32_range_def)
  show ?thesis
  proof (cases "?S + 32 > ctx_destsize c")
    case True
    let ?d2 = "min_header_image True (g\<lparr> hdr_cbytes := 0 \<rparr>) @ ext_header_image g @ rest"
    have st: "store_sw32 le d0 12 0 = Some ?d2" unfolding d0(1) by (rule store_cbytes[OF rng(1)])
    have "blosc_compress_context le host alloc user enc None None c' [] src d = Some (0, c1\<lparr> ctx_destsize := 0 \<rparr>, src, ?d2)"
      using first
    proof
      assume "bit (ctx_header_flags c') 1 \<and> d0 = d"
      with True st tot show ?thesis unfolding blosc_compress_context_def bit1 by (simp add: Let_def p c1_def[symmetric] c1)
    next
      assume "\<not> bit (ctx_header_flags c') 1 \<and> do_compress_job le host alloc user enc None None c' [] src d = Some (0, src, d0)"
      with True st tot show ?thesis unfolding blosc_compress_context_def bit1 by (simp add: Let_def p c1_def[symmetric] c1)
    qed
    moreover have "length ?d2 = length d0" using d0(1) by simp
    moreover have "ctx_use_dict (c1\<lparr> ctx_destsize := 0 \<rparr>) = ctx_use_dict c'" using c1 by simp
    moreover have "ctx_destsize c < 32 + ctx_sourcesize c" using True by simp
    ultimately show ?thesis using that by blast
  next
    case False
    let ?c2 = "c1\<lparr> ctx_output_bytes := 32 \<rparr>"
    have ok: "blocks_ok ?c2" by (rule blocks_ok_cong[OF c(2)]) (simp_all add: c1_def)
    have fits: "ctx_blocksize ?c2 + 4 * ctx_typesize ?c2 < 2 ^ 31" "32 + length src \<le> length d0"
      using c(1) False d0(2) assms(4) by (simp_all add: c1_def p chunk_context_def)
    let ?d1 = "min_header_image True g @ ext_header_image g @ src @ drop (32 + length src) d0"
    let ?g = "g\<lparr> hdr_flags := f, hdr_cbytes := ?cb \<rparr>"
    let ?d2 = "min_header_image True ?g @ ext_header_image ?g @ src @ drop (32 + length src) d0"
    have job: "do_compress_job le host alloc user enc None None ?c2 [] src d0 = Some (?cb, src, ?d1)"
      using copy_job[OF ok _ _ _ _ fits(1) _ fits(2) assms(5)] fb c1 c(7) assms(4) d0(1) l by simp
    have st: "store ?d1 2 f = Some (min_header_image True (g\<lparr> hdr_flags := f \<rparr>) @ ext_header_image g @ src @ drop (32 + length src) d0)"
      by (rule store_flags)
    have e: "ext_header_image ?g = ext_header_image g" by (simp add: ext_header_image_def)
    have st2: "store_sw32 le (min_header_image True (g\<lparr> hdr_flags := f \<rparr>) @ ext_header_image g @ src @ drop (32 + length src) d0) 12 ?cb = Some ?d2"
      unfolding store_cbytes[OF rng(2)] e by simp
    have run: "\<exists>c3. blosc_compress_context le host alloc user enc None None c' [] src d = Some (?cb, c3, src, ?d2) \<and> ctx_use_dict c3 = ctx_use_dict c'"
      using first
    proof
      assume "bit (ctx_header_flags c') 1 \<and> d0 = d"
      with False c(6) job st st2 tot show ?thesis unfolding blosc_compress_context_def bit1 by (simp add: Let_def p c1_def[symmetric] c1)
    next
      assume "\<not> bit (ctx_header_flags c') 1 \<and> do_compress_job le host alloc user enc None None c' [] src d = Some (0, src, d0)"
      with False c(6) job st st2 tot show ?thesis unfolding blosc_compress_context_def bit1 by (simp add: Let_def p c1_def[symmetric] c1)
    qed
    have g: "chunk_header c f ?cb 0 ?g" using assms(3) by (simp add: chunk_header_def)
    have "item_chunk src ?cb ?d2"
      by (rule filled_chunk[OF assms(1,2) fb(1,3) g assms(4)]) (use fb in auto)
    moreover have "length ?d2 = length d0" using d0(1) l e fits(2) by simp
    ultimately show ?thesis using run False that by (metis add.commute not_le)
  qed
qed


lemma special_or:
  assumes "special_type b = 0"
  shows "special_type (b OR 16) = BLOSC2_SPECIAL_ZERO"
proof -
  have s: "special_type x = uint (take_bit 3 (drop_bit 4 x))" for x
  proof -
    have "uint (drop_bit 4 x) mod 8 = take_bit 3 (uint (drop_bit 4 x))" by (simp add: take_bit_eq_mod)
    then show ?thesis by (simp add: special_type_def unsigned_take_bit_eq)
  qed
  have z0: "take_bit 3 (drop_bit 4 b) = 0" using assms unfolding s by (simp only: unsigned_eq_0_iff)
  have z: "\<not> bit b (4 + n)" if "n < 3" for n
  proof -
    have "bit b (4 + n) \<longleftrightarrow> bit (take_bit 3 (drop_bit 4 b)) n" using that by (simp add: bit_take_bit_iff bit_drop_bit_eq)
    then show ?thesis unfolding z0 by simp
  qed
  have "take_bit 3 (drop_bit 4 (b OR 16)) = 1"
  proof (rule bit_eqI)
    fix n
    show "bit (take_bit 3 (drop_bit 4 (b OR 16))) n \<longleftrightarrow> bit (1 :: byte) n"
      using z[of n] by (cases n) (auto simp: bit_take_bit_iff bit_drop_bit_eq bit_or_iff bit_numeral_rec bit_1_iff)
  qed
  then show ?thesis unfolding s by simp
qed

lemma agree_header:
  assumes "agree 0 32 d d0" "d = h @ rest" "length h = 32"
  shows "d0 = h @ drop 32 d0"
proof -
  have "take 32 d0 = take 32 d" using agree_segment[OF assms(1), of 0 32] by simp
  then show ?thesis using assms(2,3) append_take_drop_id[of 32 d0] by simp
qed

lemma compress_context_blocks:
  assumes "compressible c" "prepared c c'" "\<not> ctx_use_dict c'" "chunk_header c (ctx_header_flags c') 0 0 g" "int (length src) = ctx_sourcesize c"
    and "allocates alloc" "shuffle_host host" "ctx_compformat c' = 0" "\<not> bit (ctx_header_flags c') 1"
    and job: "do_compress_job le host alloc user enc None None c' [] src d = Some (int N', src, d0)" "N' \<noteq> 0" "int N' \<le> ctx_destsize c"
    and codes: "length codes = nat (ctx_nblocks c)" "N' = 32 + 4 * nat (ctx_nblocks c) + length (concat codes)"
      "codes_stored host user user' c' 5 src 0 (32 + 4 * nat (ctx_nblocks c)) codes d0"
    and d0: "d0 = min_header_image True g @ ext_header_image g @ rest" "ctx_destsize c \<le> int (length d0)"
  obtains cb c2 d2 where "blosc_compress_context le host alloc user enc None None c' [] src d = Some (cb, c2, src, d2)" "ctx_use_dict c2 = ctx_use_dict c'" "length d2 = length d0"
    "32 \<le> cb" "cb \<le> ctx_destsize c" "item_chunk src cb d2"
proof -
  note c = compressible_prepared[OF assms(1,2)]
  note p = prepared_same[OF assms(2)] prepared_more[OF assms(2)]
  have bits: "bit (ctx_header_flags c') 0" "bit (ctx_header_flags c') 2" using assms(2) by (simp_all add: prepared_def)
  have bit1: "\<not> ctx_header_flags c' AND BLOSC_MEMCPYED \<noteq> 0" using assms(9) flag_bit(2)[of "ctx_header_flags c'"] by blast
  have hr: "header_range g" using chunk_header_range(1)[OF c(1) assms(4)] by (simp add: i32_range_def)
  have l: "length (ext_header_image g) = 16" by (rule length_ext_header_image[OF hr])
  have nb0: "0 \<le> ctx_nblocks c" using blocks_ok_count(3)[OF c(2)] p by simp
  have dlim: "ctx_destsize c < 2 ^ 31" "32 + 4 * ctx_nblocks c < 2 ^ 31"
    using assms(1) c(1) unfolding compressible_def chunk_context_def by linarith+
  have Nr: "i32_range (int N')" using job(3) dlim by (simp add: i32_range_def)
  have train: "\<not> dict_training c'" using assms(3) by (simp add: dict_training_def)
  have start: "i32 (ctx_header_overhead c' + 4 * ctx_nblocks c') = Some (32 + 4 * ctx_nblocks c)" using nb0 dlim(2) by (simp add: p)
  have N: "int N' = 32 + 4 * ctx_nblocks c + int (length (concat codes))" using codes(2) nb0 by simp
  have eval: "blosc_compress_context le host alloc user enc None None c' [] src d = do {
      (nt, dest) \<leftarrow> finish_chunk le c' (int N') d0;
      if nt < 0 then Some (nt, c', src, dest)
      else do { dest \<leftarrow> store_sw32 le dest 12 nt; Some (nt, c'\<lparr> ctx_destsize := nt \<rparr>, src, dest) } }"
    unfolding blosc_compress_context_def using bit1 job(1,2)
    by (cases "finish_chunk le c' (int N') d0") (auto simp: Let_def)
  show ?thesis
  proof (cases "int N' = 32 + 4 * ctx_nblocks c + 4 * chunk_nstreams c'")
    case True
    let ?f = "hdr_blosc2_flags g OR 16"
    let ?g = "g\<lparr> hdr_blosc2_flags := ?f, hdr_cbytes := 32 \<rparr>"
    have "length codes = nat (ctx_nblocks c')" "int (length (concat codes)) = 4 * chunk_nstreams c'" "int (length src) = ctx_sourcesize c'"
      "(5 :: byte) \<noteq> BLOSC1_VERSION_FORMAT"
      using True N codes(1) assms(5) by (simp_all add: p)
    then have zero: "src = replicate (length src) 0"
      using shuffle_host.zero_chunk_source[OF assms(7) c(2,5,3) _ _ codes(3)] by blast
    let ?d2 = "min_header_image True ?g @ ext_header_image ?g @ rest"
    have fin: "finish_chunk le c' (int N') d0 = Some (32, min_header_image True (g\<lparr> hdr_blosc2_flags := ?f \<rparr>) @ ext_header_image (g\<lparr> hdr_blosc2_flags := ?f \<rparr>) @ rest)"
      unfolding finish_chunk_def start d0(1) using True train store_special[OF hr, of rest] by (simp add: p)
    have e: "ext_header_image (g\<lparr> hdr_blosc2_flags := ?f \<rparr>) = ext_header_image ?g" by (simp add: ext_header_image_def)
    have "store_sw32 le (min_header_image True (g\<lparr> hdr_blosc2_flags := ?f \<rparr>) @ ext_header_image (g\<lparr> hdr_blosc2_flags := ?f \<rparr>) @ rest) 12 32 = Some ?d2"
      unfolding e by (subst store_cbytes) (simp_all add: i32_range_def)
    then have "blosc_compress_context le host alloc user enc None None c' [] src d = Some (32, c'\<lparr> ctx_destsize := 32 \<rparr>, src, ?d2)"
      unfolding eval fin by simp
    moreover have "ctx_use_dict (c'\<lparr> ctx_destsize := nt \<rparr>) = ctx_use_dict c'" for nt by simp
    moreover have gh: "chunk_header c (ctx_header_flags c') 32 BLOSC2_SPECIAL_ZERO ?g"
      using assms(4) special_or[of "hdr_blosc2_flags g"] by (simp add: chunk_header_def bit_or_iff bit_numeral_rec bit.conj_disj_distrib2)
    have "item_chunk src 32 ?d2"
      by (rule filled_chunk[OF assms(1,2) bits gh assms(5)]) (use zero assms(9) in auto)
    moreover have "length ?d2 = length d0" using d0(1) l by (simp add: ext_header_image_def)
    moreover have "32 \<le> ctx_destsize c" using job(3) N nb0 by linarith
    ultimately show ?thesis using that[of 32] by simp
  next
    case False
    let ?g = "g\<lparr> hdr_cbytes := int N' \<rparr>"
    let ?d2 = "min_header_image True ?g @ ext_header_image ?g @ rest"
    have fin: "finish_chunk le c' (int N') d0 = Some (int N', d0)"
      unfolding finish_chunk_def start using False by simp
    have e: "ext_header_image ?g = ext_header_image g" by (simp add: ext_header_image_def)
    have "store_sw32 le d0 12 (int N') = Some ?d2" unfolding d0(1) e by (rule store_cbytes[OF Nr])
    then have "blosc_compress_context le host alloc user enc None None c' [] src d = Some (int N', c'\<lparr> ctx_destsize := int N' \<rparr>, src, ?d2)"
      unfolding eval fin by simp
    moreover have "ctx_use_dict (c'\<lparr> ctx_destsize := nt \<rparr>) = ctx_use_dict c'" for nt by simp
    moreover have gh: "chunk_header c (ctx_header_flags c') (int N') 0 ?g" using assms(4) by (simp add: chunk_header_def)
    have "rest = drop 32 d0" "int N' \<le> int (length d0)" "int N' < 2 ^ 31" using d0 l job(3) dlim by simp_all
    then have "item_chunk src (int N') ?d2"
      using codes_chunk[OF assms(1,2,7,8,9) gh assms(5) codes(1,3)] codes(2) by blast
    moreover have "length ?d2 = length d0" using d0(1) l e by simp
    moreover have "32 \<le> int N'" using N nb0 by linarith
    ultimately show ?thesis using that job(3) by blast
  qed
qed


text \<open>The header and the body of a chunk, for a context whose blocks are cut.\<close>

lemma compress_chunk:
  assumes "compressible c" "32 \<le> length dest" "ctx_destsize c \<le> int (length dest)" "int (length src) = ctx_sourcesize c"
    and "allocates alloc" "shuffle_host host"
  shows "\<exists>c' d cb c2 d2. write_compression_header le cv c True dest = Some (1, c', d) \<and> prepared c c' \<and>
    blosc_compress_context le host alloc user enc None None c' [] src d = Some (cb, c2, src, d2) \<and> length d2 = length dest \<and>
    (cb = 0 \<and> ctx_destsize c < 32 + ctx_sourcesize c \<or> 32 \<le> cb \<and> cb \<le> ctx_destsize c \<and> item_chunk src cb d2) \<and> \<not> ctx_use_dict c2" (is ?Q)
proof -
  note cs = assms(1)[unfolded compressible_def]
  have cc: "chunk_context c" "\<not> ctx_use_dict c" "0 \<le> ctx_clevel c" using cs by blast+
  obtain c' g where w: "write_compression_header le cv c True dest = Some (1, c', min_header_image True g @ ext_header_image g @ drop 32 dest)"
    "prepared c c'" "\<not> ctx_use_dict c'" "chunk_header c (ctx_header_flags c') 0 0 g"
    "bit (ctx_header_flags c') 1 \<or>
     ctx_bstarts c' = Some 32 \<and> ctx_output_bytes c' = 32 + 4 * ctx_nblocks c \<and> ctx_output_bytes c' \<le> ctx_destsize c \<and>
     0 < ctx_clevel c \<and> ctx_header_flags c' = 5 OR codec_flags c"
    using write_header_chunk[OF cc assms(2)] by blast
  note c = compressible_prepared[OF assms(1) w(2)]
  note p = prepared_same[OF w(2)] prepared_more[OF w(2)]
  have hr: "header_range g" using chunk_header_range(1)[OF c(1) w(4)] by (simp add: i32_range_def)
  have l: "length (ext_header_image g) = 16" by (rule length_ext_header_image[OF hr])
  let ?d = "min_header_image True g @ ext_header_image g @ drop 32 dest"
  have ld: "length ?d = length dest" using l assms(2) by simp
  have copy: ?Q if "bit (ctx_header_flags c') 1 \<and> d0 = ?d \<or>
      \<not> bit (ctx_header_flags c') 1 \<and> do_compress_job le host alloc user enc None None c' [] src ?d = Some (0, src, d0)"
    "d0 = min_header_image True g @ ext_header_image g @ rest" "length d0 = length ?d" for d0 rest
  proof -
    note start = that
    have "ctx_destsize c \<le> int (length d0)" using start(3) ld assms(3) by simp
    then obtain cb c2 d2 where r: "blosc_compress_context le host alloc user enc None None c' [] src ?d = Some (cb, c2, src, d2)" "ctx_use_dict c2 = ctx_use_dict c'" "length d2 = length d0"
      "cb = 0 \<and> ctx_destsize c < 32 + ctx_sourcesize c \<or> cb = 32 + ctx_sourcesize c \<and> cb \<le> ctx_destsize c \<and> item_chunk src cb d2"
      using compress_context_copies[OF assms(1) w(2,4) assms(4,5) start(1,2)] by blast
    with c(6) have "cb = 0 \<and> ctx_destsize c < 32 + ctx_sourcesize c \<or> 32 \<le> cb \<and> cb \<le> ctx_destsize c \<and> item_chunk src cb d2" by auto
    with r(1-3) w(1,2,3) start(3) ld show ?Q by metis
  qed
  show ?Q
  proof (cases "bit (ctx_header_flags c') 1")
    case True
    then show ?thesis using copy[of ?d "drop 32 dest"] by simp
  next
    case False
    have k: "ctx_bstarts c' = Some 32" "ctx_output_bytes c' = 32 + 4 * ctx_nblocks c'" "ctx_output_bytes c' \<le> ctx_destsize c'"
      "0 < ctx_clevel c" "ctx_header_flags c' = 5 OR codec_flags c" using w(5) False p by auto
    have bz: "ctx_compcode c = BLOSC_BLOSCLZ" "ctx_blosc2_flags2 c = 0" using cs c(1) by (auto simp: chunk_context_def)
    note cf = codec_flags_bits[OF bz k(5)]
    have train: "\<not> dict_training c'" using w(3) by (simp add: dict_training_def)
    have "blosclz_context c'" using cs k(4) bz train cf(1) by (simp add: blosclz_context_def p ctx_vlblocks_def)
    moreover have "split_fits c'" using cs cf(2) by (auto simp: split_fits_def p)
    moreover have "active_filters c' [0..<6] \<le> 2" using cs by (simp add: active_filters_def p)
    moreover have "ctx_destsize c' + ctx_blocksize c' < 2 ^ 31 - 16" "ctx_blocksize c' + 4 * ctx_typesize c' < 2 ^ 31"
      "int (length src) = ctx_sourcesize c'" "nat (ctx_destsize c') \<le> length ?d"
      using cs c(1) assms(3,4) ld by (simp_all add: p chunk_context_def)
    ultimately obtain N' d0 where job: "do_compress_job le host alloc user enc None None c' [] src ?d = Some (int N', src, d0)" "agree 0 32 ?d d0"
      "N' \<noteq> 0 \<longrightarrow> int N' \<le> ctx_destsize c' \<and>
      (\<exists>codes. length codes = nat (ctx_nblocks c') \<and> N' = 32 + 4 * nat (ctx_nblocks c') + length (concat codes) \<and>
        codes_stored host user (\<lambda>_. None) c' 5 src 0 (32 + 4 * nat (ctx_nblocks c')) codes d0)"
      using blocks_job[OF assms(6) c(3,5) _ _ c(2) _ False k(1) _ k(2,3) _ _ _ assms(5)] by blast
    have d0: "d0 = min_header_image True g @ ext_header_image g @ drop 32 d0"
      using agree_header[OF job(2), of "min_header_image True g @ ext_header_image g" "drop 32 dest"] l by simp
    have l0: "length d0 = length ?d" by (rule agree_length[OF job(2)])
    show ?thesis
    proof (cases "N' = 0")
      case True
      then show ?thesis using copy[OF _ d0 l0] job(1) False by simp
    next
      case N: False
      then obtain codes where codes: "int N' \<le> ctx_destsize c" "length codes = nat (ctx_nblocks c)" "N' = 32 + 4 * nat (ctx_nblocks c) + length (concat codes)"
        "codes_stored host user (\<lambda>_. None) c' 5 src 0 (32 + 4 * nat (ctx_nblocks c)) codes d0" using job(3) p by auto
      have "ctx_destsize c \<le> int (length d0)" using l0 ld assms(3) by simp
      from compress_context_blocks[OF assms(1) w(2,3,4) assms(4,5,6) cf(1) False job(1) N codes d0 this]
      obtain cb c2 d2 where "blosc_compress_context le host alloc user enc None None c' [] src ?d = Some (cb, c2, src, d2)" "ctx_use_dict c2 = ctx_use_dict c'" "length d2 = length d0"
        "32 \<le> cb" "cb \<le> ctx_destsize c" "item_chunk src cb d2" .
      with w(1,2,3) l0 ld show ?thesis by metis
    qed
  qed
qed


section \<open>What compression leaves of the context\<close>

definition same_settings :: "blosc2_context \<Rightarrow> blosc2_context \<Rightarrow> bool" where
  "same_settings c d \<longleftrightarrow> ctx_do_compress d = ctx_do_compress c \<and> ctx_typesize d = ctx_typesize c \<and> ctx_compcode d = ctx_compcode c \<and>
     ctx_clevel d = ctx_clevel c \<and> ctx_use_dict d = ctx_use_dict c \<and> ctx_filters d = ctx_filters c \<and>
     ctx_filters_meta d = ctx_filters_meta c \<and> ctx_splitmode d = ctx_splitmode c \<and> ctx_blosc2_flags d = ctx_blosc2_flags c"

lemma prepared_settings:
  assumes "prepared c d"
  shows "ctx_do_compress d = ctx_do_compress c" "ctx_splitmode d = ctx_splitmode c"
  using arg_cong[OF assms[unfolded prepared_def, THEN conjunct2, THEN conjunct2], of ctx_do_compress]
    arg_cong[OF assms[unfolded prepared_def, THEN conjunct2, THEN conjunct2], of ctx_splitmode]
  by simp_all

text \<open>\<open>yields P x\<close>: the result of \<open>x\<close>, if there is one, satisfies \<open>P\<close>.\<close>

definition yields :: "('a \<Rightarrow> bool) \<Rightarrow> 'a option \<Rightarrow> bool" where
  "yields P x \<longleftrightarrow> (\<forall>y. x = Some y \<longrightarrow> P y)"

lemma yields_Some [simp]: "yields P (Some y) = P y"
  by (simp add: yields_def)

lemma yields_bind: "yields Q f \<Longrightarrow> (\<And>y. Q y \<Longrightarrow> yields P (g y)) \<Longrightarrow> yields P (Option.bind f g)"
  by (cases f) (auto simp: yields_def)

lemma yields_any: "(\<And>y. yields P (g y)) \<Longrightarrow> yields P (Option.bind f g)"
  by (cases f) (auto simp: yields_def)

lemma yields_if: "(b \<Longrightarrow> yields P x) \<Longrightarrow> (\<not> b \<Longrightarrow> yields P y) \<Longrightarrow> yields P (if b then x else y)"
  by simp

text \<open>\<open>blosc_compress_context\<close> changes flags and sizes only.\<close>

definition kept :: "blosc2_context \<Rightarrow> int \<times> blosc2_context \<times> buf \<times> buf \<Rightarrow> bool" where
  "kept c = (\<lambda>(cb, d, s, t). same_settings c d \<and> ctx_blocksize d = ctx_blocksize c)"

lemma kept_simps:
  "kept (c\<lparr> ctx_header_flags := f \<rparr>) = kept c" "kept c (cb, c, s, t)"
  "kept c (cb, d\<lparr> ctx_header_flags := f \<rparr>, s, t) = kept c (cb, d, s, t)"
  "kept c (cb, d\<lparr> ctx_destsize := n \<rparr>, s, t) = kept c (cb, d, s, t)"
  "kept c (cb, d\<lparr> ctx_output_bytes := n \<rparr>, s, t) = kept c (cb, d, s, t)"
  "kept c (cb, d\<lparr> ctx_output_bytes := n, ctx_header_flags := f \<rparr>, s, t) = kept c (cb, d, s, t)"
  by (simp_all add: kept_def same_settings_def fun_eq_iff)

lemma kept_result: "kept c (cb, d, s, t) \<longleftrightarrow> same_settings c d \<and> ctx_blocksize d = ctx_blocksize c"
  by (simp add: kept_def)

lemma compress_context_kept: "yields (kept c) (blosc_compress_context le host alloc user enc pre tables c vl src dest)"
  unfolding blosc_compress_context_def Let_def
  apply (rule yields_any)
  apply (simp only: split_paired_all prod.case)
  apply (rule yields_if)
   apply (simp add: kept_simps)
  apply (rule yields_bind[where Q = "kept c"])
   apply (rule yields_if)
    apply (rule yields_any, rule yields_if)
     apply (simp add: kept_simps)
    apply (rule yields_any)
  apply (simp only: split_paired_all prod.case)
    apply (rule yields_if)
     apply (simp add: kept_simps)
    apply (rule yields_any)
    apply (simp add: kept_simps)
   apply (rule yields_any)
  apply (simp only: split_paired_all prod.case)
   apply (simp add: kept_simps)
  apply (simp only: split_paired_all prod.case)
  apply (rule yields_if)
   apply (simp add: kept_simps)
  apply (rule yields_any)
  apply (simp add: kept_def same_settings_def)
  done

section \<open>From the buffer to the chunk and back\<close>

text \<open>The block size the tuner chooses is small enough for the sizes in a chunk and large enough for their number.\<close>

lemma clip_blocksize_lower:
  assumes "0 < t" "t \<le> 255" "8192 \<le> n" "8192 \<le> b"
  shows "4096 \<le> clip_blocksize n t b"
proof -
  define c where "c = (if b > n then n else b)"
  have c: "8192 \<le> c" using assms by (simp add: c_def)
  have "c mod t < t" using assms(1) by simp
  then have "c - t < c div t * t" by (simp add: minus_mod_eq_div_mult[symmetric])
  with c assms show ?thesis unfolding clip_blocksize_def Let_def c_def[symmetric] by simp
qed

lemma tuner_choice:
  assumes "0 < ctx_typesize c" "ctx_typesize c \<le> 255" "0 \<le> ctx_sourcesize c" "ctx_blocksize c = 0"
  obtains b where "blosc_stune_next_blocksize c = Some (0, c\<lparr> ctx_blocksize := b \<rparr>)" "0 < b" "b \<le> max 1 (ctx_sourcesize c)" "b \<le> 2 ^ 22"
    "ctx_sourcesize c < ctx_typesize c \<and> b = 1 \<or> ctx_typesize c dvd b" "2 ^ 15 \<le> ctx_sourcesize c \<Longrightarrow> 4096 \<le> b"
proof -
  let ?t = "ctx_typesize c" and ?n = "ctx_sourcesize c"
  let ?split = "0 < ctx_clevel c \<and> split_block c ?t ?n"
  show ?thesis
  proof (cases "?n < ?t")
    case True
    then show ?thesis using assms by (intro that[of 1]) (simp_all add: blosc_stune_next_blocksize_def)
  next
    case False
    then have n: "?t \<le> ?n" by simp
    obtain b where b: "(if ?split then split_blocksize (ctx_clevel c) ?t
        else Some (if L1 \<le> ?n then level_blocksize c else ?n)) = Some b"
      and B: "0 < b" "?t \<le> b" "?n < 2 ^ 15 \<or> b \<le> 2 ^ 22" "2 ^ 15 \<le> ?n \<Longrightarrow> 8192 \<le> b"
    proof (cases ?split)
      case True
      obtain b where "split_blocksize (ctx_clevel c) ?t = Some b" "32 * 1024 \<le> b" "b \<le> 4 * 1024 * 1024"
        using split_blocksize_Some[OF assms(1,2)] by blast
      with True assms(2) show ?thesis by (intro that[of b]) simp_all
    next
      case False
      with level_blocksize_bounds[of c] assms(1,2) n show ?thesis
        by (intro that[of "if L1 \<le> ?n then level_blocksize c else ?n"]) (auto simp: L1_def)
    qed
    let ?b = "clip_blocksize ?n ?t b"
    have "blosc_stune_next_blocksize c = Some (0, c\<lparr> ctx_blocksize := ?b \<rparr>)"
      using n b assms(4) by (simp add: blosc_stune_next_blocksize_def Let_def)
    moreover note r = clip_blocksize_bounds[OF assms(1) n B(1)] clip_blocksize_multiple[OF assms(1) n B(2)]
    moreover have "?b \<le> 2 ^ 22" using r(1) B(3) by auto
    moreover have "4096 \<le> ?b" if "2 ^ 15 \<le> ?n" using clip_blocksize_lower[OF assms(1,2) _ B(4)[OF that]] that by simp
    ultimately show ?thesis by (intro that[of ?b]) auto
  qed
qed

text \<open>
  What the caller of a compression sets up. The block size is left to the tuner, or given, and then the size of the data and
  the block size are multiples of the type size: \<open>stored_blocksize_differs\<close> shows what happens otherwise.
\<close>

definition block_request :: "blosc2_context \<Rightarrow> int \<Rightarrow> bool" where
  "block_request c srcsize \<longleftrightarrow> ctx_blocksize c = 0 \<or>
     ctx_typesize c \<le> ctx_blocksize c \<and> ctx_typesize c dvd ctx_blocksize c \<and> ctx_blocksize c \<le> 2 ^ 22 \<and>
     ctx_typesize c \<le> srcsize \<and> ctx_typesize c dvd srcsize \<and> srcsize div ctx_blocksize c < 2 ^ 28"

definition compression_request :: "blosc2_context \<Rightarrow> int \<Rightarrow> int \<Rightarrow> bool" where
  "compression_request c srcsize destsize \<longleftrightarrow> ctx_do_compress c \<and> block_request c srcsize \<and> 1 \<le> ctx_typesize c \<and> ctx_typesize c \<le> 255 \<and>
     ctx_compcode c = BLOSC_BLOSCLZ \<and> 0 \<le> ctx_clevel c \<and> ctx_clevel c \<le> 9 \<and> \<not> ctx_use_dict c \<and>
     length (ctx_filters c) = 6 \<and> length (ctx_filters_meta c) = 6 \<and> standard_filters c \<and> active_filters c [0..<6] \<le> 2 \<and>
     ctx_blosc2_flags c AND BLOSC2_INSTR_CODEC = 0 \<and> (ctx_splitmode c = BLOSC_ALWAYS_SPLIT \<longrightarrow> ctx_typesize c \<le> srcsize) \<and>
     0 \<le> srcsize \<and> srcsize \<le> BLOSC2_MAX_BUFFERSIZE \<and> 32 \<le> destsize \<and> destsize < 2 ^ 31 - 2 ^ 22 - 16"

lemma clip_multiple:
  assumes "0 < t" "t \<le> n" "t dvd n" "t dvd b"
  shows "clip_blocksize n t b = min n b"
  using assms by (auto simp: clip_blocksize_def Let_def min_def)

lemma requested_blocksize:
  assumes "1 \<le> ctx_typesize c" "ctx_typesize c \<le> 255" "0 \<le> ctx_sourcesize c" "block_request c (ctx_sourcesize c)"
    and "ctx_header_blocksize c = ctx_blocksize c" "ctx_blosc2_flags2 c = 0" "ctx_sourcesize c < 2 ^ 31"
  obtains b where "blosc_stune_next_blocksize c = Some (0, c\<lparr> ctx_blocksize := b \<rparr>)" "0 < b" "b \<le> max 1 (ctx_sourcesize c)" "b \<le> 2 ^ 22"
    "ctx_sourcesize c < ctx_typesize c \<and> b = 1 \<or> ctx_typesize c dvd b" "ctx_sourcesize c div b < 2 ^ 28"
    "logical_blocksize (c\<lparr> ctx_blocksize := b \<rparr>) = b"
proof (cases "ctx_blocksize c = 0")
  case True
  let ?n = "ctx_sourcesize c"
  obtain b where b: "blosc_stune_next_blocksize c = Some (0, c\<lparr> ctx_blocksize := b \<rparr>)" "0 < b" "b \<le> max 1 ?n" "b \<le> 2 ^ 22"
    "?n < ctx_typesize c \<and> b = 1 \<or> ctx_typesize c dvd b" "2 ^ 15 \<le> ?n \<Longrightarrow> 4096 \<le> b"
    using tuner_choice[of c] True assms(1-3) by auto
  have "?n div b < 2 ^ 28" if "?n < 2 ^ 31"
  proof (cases "2 ^ 15 \<le> ?n")
    case True
    have "?n div b \<le> ?n div 4096" using b(6)[OF True] assms(3) by (intro zdiv_mono2) simp_all
    also have "\<dots> \<le> 2 ^ 31 div 4096" using that by (intro zdiv_mono1) simp_all
    finally show ?thesis by simp
  next
    case False
    have "?n div b \<le> ?n div 1" using b(2) assms(3) by (intro zdiv_mono2) simp_all
    with False show ?thesis by simp
  qed
  moreover have "logical_blocksize (c\<lparr> ctx_blocksize := b \<rparr>) = b"
    using b(2,3) assms(5,6) True by (auto simp: logical_blocksize_def Let_def)
  ultimately show ?thesis using that b assms(7) by blast
next
  case False
  let ?n = "ctx_sourcesize c" and ?t = "ctx_typesize c" and ?B = "ctx_blocksize c"
  have r: "?t \<le> ?B" "?t dvd ?B" "?B \<le> 2 ^ 22" "?t \<le> ?n" "?t dvd ?n" "?n div ?B < 2 ^ 28"
    using assms(4) False by (simp_all add: block_request_def)
  have "clip_blocksize ?n ?t ?B = min ?n ?B" using r assms(1) by (intro clip_multiple) simp_all
  then have "blosc_stune_next_blocksize c = Some (0, c\<lparr> ctx_blocksize := min ?n ?B \<rparr>)"
    using False r(4) by (simp add: blosc_stune_next_blocksize_def Let_def)
  moreover have "?n div min ?n ?B < 2 ^ 28" using r(6) assms(1) r(4) by (cases "?n \<le> ?B") (simp_all add: min_def)
  moreover have "logical_blocksize (c\<lparr> ctx_blocksize := min ?n ?B \<rparr>) = min ?n ?B"
    using assms(1,5,6) r by (auto simp: logical_blocksize_def Let_def min_def)
  moreover have "?t dvd min ?n ?B" using r by (simp add: min_def)
  ultimately show ?thesis using that r assms(1) by auto
qed

lemma request_compressible:
  assumes "compression_request c srcsize destsize"
  obtains c' where "initialize_context_compression c False srcsize destsize (ctx_clevel c) (ctx_filters c)
      (ctx_filters_meta c) (ctx_typesize c) (ctx_compcode c) (ctx_blocksize c) (ctx_splitmode c) = Some (1, c')"
    "compressible c'" "ctx_sourcesize c' = srcsize" "ctx_destsize c' = destsize" "same_settings c c'" "ctx_blocksize c' \<le> 2 ^ 22"
    "ctx_typesize c \<le> srcsize \<Longrightarrow> ctx_typesize c dvd ctx_blocksize c'"
proof -
  note r = assms[unfolded compression_request_def]
  define c1 where "c1 = c\<lparr> ctx_do_compress := True, ctx_srcsize := srcsize, ctx_output_bytes := 0,
       ctx_destsize := destsize, ctx_sourcesize := srcsize, ctx_typesize := ctx_typesize c,
       ctx_filter_flags := filters_to_flags (ctx_filters c), ctx_filters := take BLOSC2_MAX_FILTERS (ctx_filters c),
       ctx_filters_meta := take BLOSC2_MAX_FILTERS (ctx_filters_meta c), ctx_compcode := ctx_compcode c,
       ctx_clevel := ctx_clevel c, ctx_splitmode := ctx_splitmode c, ctx_header_blocksize := ctx_blocksize c,
       ctx_blosc2_flags2 := 0, ctx_blocksize := ctx_blocksize c \<rparr>"
  have f: "ctx_sourcesize c1 = srcsize" "ctx_typesize c1 = ctx_typesize c" "ctx_blocksize c1 = ctx_blocksize c" "ctx_destsize c1 = destsize"
    "ctx_filters c1 = ctx_filters c" "ctx_filters_meta c1 = ctx_filters_meta c" "ctx_compcode c1 = BLOSC_BLOSCLZ"
    "ctx_clevel c1 = ctx_clevel c" "ctx_header_blocksize c1 = ctx_blocksize c" "ctx_blosc2_flags2 c1 = 0" "ctx_splitmode c1 = ctx_splitmode c"
    "ctx_use_dict c1 = ctx_use_dict c" "ctx_blosc2_flags c1 = ctx_blosc2_flags c"
    using r by (simp_all add: c1_def)
  have br: "block_request c1 (ctx_sourcesize c1)" using r by (simp add: block_request_def f)
  obtain b where b: "blosc_stune_next_blocksize c1 = Some (0, c1\<lparr> ctx_blocksize := b \<rparr>)" "0 < b" "b \<le> max 1 srcsize" "b \<le> 2 ^ 22"
    "srcsize < ctx_typesize c \<and> b = 1 \<or> ctx_typesize c dvd b" "srcsize div b < 2 ^ 28" "logical_blocksize (c1\<lparr> ctx_blocksize := b \<rparr>) = b"
    using requested_blocksize[of c1] r f br by auto
  let ?L = "srcsize mod b"
  define c' where "c' = c1\<lparr> ctx_blocksize := b, ctx_nblocks := (if ?L > 0 then srcsize div b + 1 else srcsize div b), ctx_leftover := ?L \<rparr>"
  have calc: "blosc2_calculate_blocks (c1\<lparr> ctx_blocksize := b \<rparr>) = Some c'"
    using b(2) r f by (simp add: blosc2_calculate_blocks_def c'_def Let_def)
  have init: "initialize_context_compression c False srcsize destsize (ctx_clevel c) (ctx_filters c)
      (ctx_filters_meta c) (ctx_typesize c) (ctx_compcode c) (ctx_blocksize c) (ctx_splitmode c) = Some (1, c')"
    using r f b(1) calc unfolding initialize_context_compression_def c1_def[symmetric] by simp
  have nb: "32 + 4 * ctx_nblocks c' < 2 ^ 31" using b(6) by (simp add: c'_def)
  have cut: "blosc2_calculate_blocks c' = Some c'"
    unfolding calculate_blocks_iff using b(2) r f by (simp add: c'_def)
  have "logical_blocksize c' = logical_blocksize (c1\<lparr> ctx_blocksize := b \<rparr>)" by (simp add: logical_blocksize_def Let_def c'_def)
  with b(7) have log: "logical_blocksize c' = b" by simp
  have "chunk_context c'"
    unfolding chunk_context_def log using cut nb b(2-4) r f by (simp add: c'_def)
  moreover have "ctx_typesize c' dvd ctx_blocksize c'" if "split_block c' (ctx_typesize c') (ctx_blocksize c')"
  proof (rule ccontr)
    assume "\<not> ctx_typesize c' dvd ctx_blocksize c'"
    with b(5) f have one: "srcsize < ctx_typesize c" "b = 1" by (auto simp: c'_def)
    have "1 div ctx_typesize c \<le> 1 div 1" using r by (intro zdiv_mono2) simp_all
    then have "1 sdiv ctx_typesize c < 32" using r by simp
    with that one r f show False by (auto simp: c'_def split_block_def Let_def split: if_splits)
  qed
  ultimately have "compressible c'"
    using r f b(4) by (simp add: compressible_def c'_def standard_filters_def active_filters_def)
  moreover have "same_settings c c'" using r f by (simp add: same_settings_def c'_def c1_def)
  moreover have "ctx_typesize c dvd ctx_blocksize c'" if "ctx_typesize c \<le> srcsize" using b(5) that by (auto simp: c'_def)
  ultimately show ?thesis using init f b(4) that[of c'] by (simp add: c'_def)
qed

text \<open>One compression: the chunk, and the context for the next one, whose block size is fixed from now on.\<close>

lemma compress_ctx_items:
  assumes "compression_request c (int (length src)) destsize" "destsize \<le> int (length dest)" "allocates alloc" "shuffle_host host"
  obtains cb c' dest' where "blosc2_compress_ctx le host alloc user enc cv train None c src (int (length src)) dest destsize =
      Some (cb, c', src, dest')" "length dest' = length dest"
    "cb = 0 \<and> destsize < int (length src) + 32 \<or> 32 \<le> cb \<and> cb \<le> destsize \<and> item_chunk src cb dest'"
    "same_settings c c'" "0 < ctx_blocksize c'" "ctx_blocksize c' \<le> 2 ^ 22"
    "ctx_typesize c \<le> int (length src) \<Longrightarrow> ctx_typesize c dvd ctx_blocksize c'"
proof -
  obtain c1 where c1: "initialize_context_compression c False (int (length src)) destsize (ctx_clevel c) (ctx_filters c)
      (ctx_filters_meta c) (ctx_typesize c) (ctx_compcode c) (ctx_blocksize c) (ctx_splitmode c) = Some (1, c1)"
    "compressible c1" "ctx_sourcesize c1 = int (length src)" "ctx_destsize c1 = destsize" "same_settings c c1" "ctx_blocksize c1 \<le> 2 ^ 22"
    "ctx_typesize c \<le> int (length src) \<Longrightarrow> ctx_typesize c dvd ctx_blocksize c1"
    using request_compressible[OF assms(1)] by metis
  have pos: "0 < ctx_blocksize c1" using c1(2) by (simp add: compressible_def chunk_context_def)
  have "32 \<le> length dest" "ctx_do_compress c" using assms(1,2) by (simp_all add: compression_request_def)
  with compress_chunk[OF c1(2) _ _ c1(3)[symmetric] assms(3,4), of dest le cv user enc, unfolded c1(3,4)] assms(2)
  obtain c' d cb c2 d2 where w: "write_compression_header le cv c1 True dest = Some (1, c', d)" "prepared c1 c'"
    "blosc_compress_context le host alloc user enc None None c' [] src d = Some (cb, c2, src, d2)" "length d2 = length dest"
    "cb = 0 \<and> destsize < 32 + int (length src) \<or> 32 \<le> cb \<and> cb \<le> destsize \<and> item_chunk src cb d2" "\<not> ctx_use_dict c2" by auto
  have "kept c' (cb, c2, src, d2)"
    using compress_context_kept[of c' le host alloc user enc None None "[]" src d] w(3) by (simp add: yields_def)
  then have c2: "same_settings c' c2" "ctx_blocksize c2 = ctx_blocksize c1"
    using prepared_same[OF w(2)] by (simp_all add: kept_result)
  have "ctx_use_dict c' = ctx_use_dict c2" using c2(1) by (simp add: same_settings_def)
  moreover have "\<not> ctx_use_dict c1" using c1(2) by (simp add: compressible_def)
  ultimately have "same_settings c1 c2"
    using c2(1) w(6) prepared_same[OF w(2)] prepared_more[OF w(2)] prepared_settings[OF w(2)] by (simp add: same_settings_def)
  then have ss: "same_settings c c2" using c1(5) by (simp add: same_settings_def)
  have "\<not> cb < 0" using w(5) by auto
  moreover have "\<not> dict_training c2" using w(6) by (simp add: dict_training_def)
  ultimately have "blosc2_compress_ctx le host alloc user enc cv train None c src (int (length src)) dest destsize = Some (cb, c2, src, d2)"
    using c1(1) w(1,3) \<open>ctx_do_compress c\<close> by (simp add: blosc2_compress_ctx_def)
  moreover have "cb = 0 \<and> destsize < int (length src) + 32 \<or> 32 \<le> cb \<and> cb \<le> destsize \<and> item_chunk src cb d2" using w(5) by auto
  ultimately show ?thesis using that w(4) ss c1(6,7) pos unfolding c2(2)[symmetric] by blast
qed

lemma compress_ctx_chunk:
  assumes "compression_request c (int (length src)) destsize" "destsize \<le> int (length dest)" "allocates alloc" "shuffle_host host"
  obtains cb c' dest' where "blosc2_compress_ctx le host alloc user enc cv train None c src (int (length src)) dest destsize =
      Some (cb, c', src, dest')" "length dest' = length dest"
    "cb = 0 \<and> destsize < int (length src) + 32 \<or> 32 \<le> cb \<and> cb \<le> destsize \<and> chunk_of src cb dest'"
    "same_settings c c'" "0 < ctx_blocksize c'" "ctx_blocksize c' \<le> 2 ^ 22"
    "ctx_typesize c \<le> int (length src) \<Longrightarrow> ctx_typesize c dvd ctx_blocksize c'"
  using compress_ctx_items[OF assms, of le user enc cv train] unfolding item_chunk_def by metis

text \<open>
  C1. Whole chunks, for the requests of \<open>compression_request\<close>: a compression context of BloscLZ at any level from 0 to 9, without
  dictionary and instrumented codec, with at most two filters, all of them shuffles or bit shuffles, a type size from 1 to 255, and a buffer of any length that is valid. The
  block size is left to the tuner, and then the buffer may have any length, except that always splitting asks for at least one item; or it is given, and then it is a positive
  multiple of the type size of at most 4 MB, and the buffer is a positive number of whole items in less than \<open>2 ^ 28\<close> blocks. The destination has at
  least 32 bytes and less than 2 GB by a margin of one block. Other given block sizes and other buffers with a given one are excluded: their blocks may be cut with a size that the
  header does not store. For these requests \<open>blosc2_compress_ctx\<close> ends without an undefined operation and without changing the
  source. Its result is 0 only when not even a copy fits the destination; otherwise it is the length of a chunk within the destination that
  \<open>blosc2_decompress_ctx\<close> turns back into the source: with any table of routines that meets the contract, on a
  host of any byte order, into any destination that is large enough, and with nothing behind the
  restored bytes changed. This covers chunks of compressed blocks, copied chunks and chunks of zeros.
\<close>

theorem compress_decompress_roundtrip:
  assumes "compression_request c (int (length src)) destsize" "destsize \<le> int (length dest)" "allocates alloc" "shuffle_host host"
  shows "\<exists>cb c' dest'. blosc2_compress_ctx le host alloc user enc cv train None c src (int (length src)) dest destsize =
      Some (cb, c', src, dest') \<and> length dest' = length dest \<and>
    (cb = 0 \<and> destsize < int (length src) + 32 \<or> 32 \<le> cb \<and> cb \<le> destsize \<and>
      (\<forall>host' le' alloc' user' dec ddict r ch out osize.
        shuffle_host host' \<and> allocates alloc' \<and> \<not> ctx_do_compress r \<and> take (nat cb) ch = take (nat cb) dest' \<and> nat cb \<le> length ch \<and>
        int (length src) \<le> osize \<and> length src \<le> length out \<longrightarrow>
        blosc2_decompress_ctx le' host' alloc' user' dec ddict None None r ch cb out osize =
          Some (int (length src), src @ drop (length src) out)))"
  using compress_ctx_chunk[OF assms, of le user enc cv train] unfolding chunk_of_def by metis

text \<open>A request for 64 bytes of 4-byte elements at level 5.\<close>

definition sample_request :: blosc2_context where
  "sample_request = sample_context BLOSC_BLOSCLZ 5 4 64 0"

lemma sample_compression_request: "compression_request sample_request (int (length (replicate 64 (7 :: byte)))) 100"
proof -
  have six: "i < 6 \<Longrightarrow> i \<in> {0, 1, 2, 3, 4, 5 :: nat}" for i by auto
  have "standard_filters sample_request"
    unfolding standard_filters_def using six by (fastforce simp: sample_request_def sample_context_def)
  moreover have "active_filters sample_request [0..<6] \<le> 2"
    by (simp add: active_filters_def sample_request_def sample_context_def upt_rec)
  ultimately show ?thesis
    by (simp add: compression_request_def block_request_def) (simp add: sample_request_def sample_context_def)
qed

theorem compress_decompress_roundtrip_witness:
  "\<exists>cb c' dest'. blosc2_compress_ctx True (get_shuffle_implementation True calloc_ok) calloc_ok (\<lambda>_. None) (\<lambda>_. None) (\<lambda>_. None) (\<lambda>_ _ _. None) None
      sample_request (replicate 64 7) (int (length (replicate 64 (7 :: byte)))) (replicate 100 0) 100 =
      Some (cb, c', replicate 64 7, dest') \<and> length dest' = length (replicate 100 (0 :: byte)) \<and>
    (cb = 0 \<and> 100 < int (length (replicate 64 (7 :: byte))) + 32 \<or> 32 \<le> cb \<and> cb \<le> 100 \<and>
      (\<forall>host' le' alloc' user' dec ddict r ch out osize.
        shuffle_host host' \<and> allocates alloc' \<and> \<not> ctx_do_compress r \<and> take (nat cb) ch = take (nat cb) dest' \<and> nat cb \<le> length ch \<and>
        int (length (replicate 64 (7 :: byte))) \<le> osize \<and> length (replicate 64 (7 :: byte)) \<le> length out \<longrightarrow>
        blosc2_decompress_ctx le' host' alloc' user' dec ddict None None r ch cb out osize =
          Some (int (length (replicate 64 (7 :: byte))), replicate 64 7 @ drop (length (replicate 64 (7 :: byte))) out)))"
proof (rule compress_decompress_roundtrip[OF sample_compression_request])
  show "allocates calloc_ok" by (simp add: allocates_def calloc_ok_def)
  show "shuffle_host (get_shuffle_implementation True calloc_ok)" by (rule generic_host.shuffle_host_axioms)
qed simp

text \<open>
  C2. Items of a chunk. From every chunk that \<open>blosc2_compress_ctx\<close> writes for a request of \<open>compression_request\<close> (BloscLZ,
  at most two shuffle filters, a type size up to 255, and with a given block size that and the buffer multiples of the type size: the requests of
  the round trip of whole chunks), \<open>blosc2_getitem_ctx\<close> reads any range of items of the chunk without
  decoding the rest: the bytes of these items, in front of what the destination held, the same as a slice of the source, for chunks of compressed blocks, copied
  chunks and chunks of zeros. The type size and the block size are those of the header. A request must be regular: where it has the length of a block and
  covers the start of that block, it begins there.
\<close>

theorem compress_getitem:
  assumes "compression_request c (int (length src)) destsize" "destsize \<le> int (length dest)" "allocates alloc" "shuffle_host host"
  shows "\<exists>cb c' dest'. blosc2_compress_ctx le host alloc user enc cv train None c src (int (length src)) dest destsize =
      Some (cb, c', src, dest') \<and>
    (cb = 0 \<and> destsize < int (length src) + 32 \<or> 32 \<le> cb \<and> cb \<le> destsize \<and>
      (\<forall>host' le' alloc' user' dec r ch out osize start nitems ts B.
        shuffle_host host' \<and> allocates alloc' \<and> take (nat cb) ch = take (nat cb) dest' \<and> nat cb \<le> length ch \<and>
        load ch 3 = Some ts \<and> blosc2_cbuffer_sizes le' ch = Some (0, int (length src), cb, B) \<and>
        item_request (uint ts) (int (length src)) start nitems osize \<and> nat (nitems * uint ts) \<le> length out \<and>
        regular_slice B (int (length src)) (start * uint ts) ((start + nitems) * uint ts) \<longrightarrow>
        blosc2_getitem_ctx le' host' alloc' user' dec None r ch cb start nitems out osize =
          Some (nitems * uint ts, item_slice (uint ts) start nitems src out)))"
proof -
  obtain cb c' dest' where w: "blosc2_compress_ctx le host alloc user enc cv train None c src (int (length src)) dest destsize =
      Some (cb, c', src, dest')"
    "cb = 0 \<and> destsize < int (length src) + 32 \<or> 32 \<le> cb \<and> cb \<le> destsize \<and> item_chunk src cb dest'"
    by (rule compress_ctx_items[OF assms, of le user enc cv train])
  from w(2) have "cb = 0 \<and> destsize < int (length src) + 32 \<or> 32 \<le> cb \<and> cb \<le> destsize \<and> items_of src cb dest'"
    unfolding item_chunk_def by (elim disjE conjE) simp_all
  then show ?thesis
    unfolding items_of_def by (intro exI[of _ cb] exI[of _ c'] exI[of _ dest'] conjI[OF w(1)])
qed

theorem compress_getitem_witness:
  "\<exists>cb c' dest'. blosc2_compress_ctx True (get_shuffle_implementation True calloc_ok) calloc_ok (\<lambda>_. None) (\<lambda>_. None) (\<lambda>_. None) (\<lambda>_ _ _. None) None
      sample_request (replicate 64 7) (int (length (replicate 64 (7 :: byte)))) (replicate 100 0) 100 =
      Some (cb, c', replicate 64 7, dest') \<and>
    (cb = 0 \<and> 100 < int (length (replicate 64 (7 :: byte))) + 32 \<or> 32 \<le> cb \<and> cb \<le> 100 \<and>
      (\<forall>host' le' alloc' user' dec r ch out osize start nitems ts B.
        shuffle_host host' \<and> allocates alloc' \<and> take (nat cb) ch = take (nat cb) dest' \<and> nat cb \<le> length ch \<and>
        load ch 3 = Some ts \<and> blosc2_cbuffer_sizes le' ch = Some (0, int (length (replicate 64 (7 :: byte))), cb, B) \<and>
        item_request (uint ts) (int (length (replicate 64 (7 :: byte)))) start nitems osize \<and> nat (nitems * uint ts) \<le> length out \<and>
        regular_slice B (int (length (replicate 64 (7 :: byte)))) (start * uint ts) ((start + nitems) * uint ts) \<longrightarrow>
        blosc2_getitem_ctx le' host' alloc' user' dec None r ch cb start nitems out osize =
          Some (nitems * uint ts, item_slice (uint ts) start nitems (replicate 64 7) out)))"
proof (rule compress_getitem[OF sample_compression_request])
  show "allocates calloc_ok" by (simp add: allocates_def calloc_ok_def)
  show "shuffle_host (get_shuffle_implementation True calloc_ok)" by (rule generic_host.shuffle_host_axioms)
qed simp

end
