(* ===== verification/Schunk.thy ===== *)
theory Schunk
  imports Chunk_Codec
begin

text \<open>
  \<open>blosc/schunk.c\<close>: the super-chunk in memory, a list of chunks with counters. A super-chunk with an attached frame, where
  every operation goes on to the frame, is not modelled: here the pointer \<open>frame\<close> is null.

  The array \<open>data\<close> of pointers is a list of slots, one for each of its \<open>data_len / 8\<close> pointers. A slot of memory
  that has not been written is \<open>Unset\<close>, and reading it is undefined. Chunks are values, as the super-chunk owns
  them. The allocator of this file is assumed not to fail: the code does not check it.
\<close>

section \<open>The super-chunk\<close>

datatype slot = Unset | NullSlot | Chunk buf

type_synonym metalayer = "string \<times> buf"

record schunk =
  sc_typesize :: int
  sc_chunksize :: int
  sc_flags2 :: byte
  sc_nchunks :: int
  sc_current_nchunk :: int
  sc_nbytes :: int
  sc_cbytes :: int
  sc_data :: "slot list"
  sc_metalayers :: "metalayer list"
  sc_vlmetalayers :: "metalayer list"
  sc_cctx :: blosc2_context
  sc_dctx :: blosc2_context

text \<open>What \<open>blosc2_schunk_new\<close> and \<open>update_schunk_properties\<close> set up: no chunks, and a chunk size to be found out.\<close>

definition blosc2_schunk_new :: "int \<Rightarrow> blosc2_context \<Rightarrow> blosc2_context \<Rightarrow> schunk" where
  "blosc2_schunk_new typesize cctx dctx =
    \<lparr> sc_typesize = typesize, sc_chunksize = - 1, sc_flags2 = 0, sc_nchunks = 0, sc_current_nchunk = 0, sc_nbytes = 0,
      sc_cbytes = 0, sc_data = [], sc_metalayers = [], sc_vlmetalayers = [], sc_cctx = cctx, sc_dctx = dctx \<rparr>"

text \<open>The counters are 64-bit integers.\<close>

definition i64 :: "int \<Rightarrow> int option" where
  "i64 x = (if - (2 ^ 63) \<le> x \<and> x < 2 ^ 63 then Some x else None)"

definition validate_nchunk :: "schunk \<Rightarrow> int \<Rightarrow> bool \<Rightarrow> int" where
  "validate_nchunk schunk nchunk allow_end =
    (if nchunk < 0 then BLOSC2_ERROR_INVALID_PARAM
     else if allow_end then (if nchunk > sc_nchunks schunk then BLOSC2_ERROR_INVALID_PARAM else 0)
     else if nchunk \<ge> sc_nchunks schunk then BLOSC2_ERROR_INVALID_PARAM
     else 0)"

text \<open>The chunk a slot points to; for a null pointer or an unset slot there is none.\<close>

definition chunk_at :: "schunk \<Rightarrow> int \<Rightarrow> buf option" where
  "chunk_at schunk nchunk = do {
     slot \<leftarrow> load (sc_data schunk) (nat nchunk);
     case slot of Chunk chunk \<Rightarrow> Some chunk | _ \<Rightarrow> None }"

definition get_chunk_flags2 :: "buf \<Rightarrow> int \<Rightarrow> byte option" where
  "get_chunk_flags2 chunk chunk_cbytes = do {
     flags \<leftarrow> load chunk 2;
     if \<not> (flags AND BLOSC_DOSHUFFLE \<noteq> 0 \<and> flags AND BLOSC_DOBITSHUFFLE \<noteq> 0) \<or> chunk_cbytes < BLOSC_EXTENDED_HEADER_LENGTH
     then Some 0
     else load chunk 30 }"

definition schunk_get_chunk_nbytes :: "bool \<Rightarrow> schunk \<Rightarrow> int \<Rightarrow> (int \<times> int) option" where
  "schunk_get_chunk_nbytes le schunk nchunk = do {
     chunk \<leftarrow> chunk_at schunk nchunk;
     (rc, nbytes, _, _) \<leftarrow> blosc2_cbuffer_sizes le chunk;
     Some (rc, nbytes) }"

definition schunk_get_chunk_flags2 :: "bool \<Rightarrow> schunk \<Rightarrow> int \<Rightarrow> (int \<times> byte) option" where
  "schunk_get_chunk_flags2 le schunk nchunk = do {
     chunk \<leftarrow> chunk_at schunk nchunk;
     (rc, _, cbytes, _) \<leftarrow> blosc2_cbuffer_sizes le chunk;
     if rc < 0 then Some (rc, 0)
     else do { flags2 \<leftarrow> get_chunk_flags2 chunk cbytes; Some (0, flags2) } }"

section \<open>Taking in a chunk\<close>

text \<open>Regular chunks and chunks with blocks of variable length do not mix: the check against chunk \<open>ref\<close>.\<close>

definition check_vlblocks :: "bool \<Rightarrow> schunk \<Rightarrow> int \<Rightarrow> byte \<Rightarrow> int \<Rightarrow> int option" where
  "check_vlblocks le schunk ref flags2 err = do {
     (rc, ref_flags2) \<leftarrow> schunk_get_chunk_flags2 le schunk ref;
     Some (if rc < 0 then rc
           else if (ref_flags2 AND BLOSC2_VL_BLOCKS \<noteq> 0) \<noteq> (flags2 AND BLOSC2_VL_BLOCKS \<noteq> 0) then err
           else 0) }"

text \<open>Whether the chunks keep one size, for a new chunk at position \<open>nchunk\<close>; \<open>err\<close> is the error of the caller.\<close>

definition settle_chunksize :: "bool \<Rightarrow> schunk \<Rightarrow> int \<Rightarrow> int \<Rightarrow> int \<Rightarrow> (int \<times> schunk) option" where
  "settle_chunksize le schunk nchunk chunk_nbytes err =
    (let nchunks = sc_nchunks schunk;
         variable_chunksize = (sc_chunksize schunk = 0);
         schunk = (if sc_chunksize schunk = - 1 then schunk\<lparr> sc_chunksize := chunk_nbytes \<rparr> else schunk);
         chunksize = sc_chunksize schunk
     in do {
       (rc, variable_chunksize, schunk) \<leftarrow> (if \<not> variable_chunksize \<and> nchunks > 0 then do {
           (rc, last_nbytes) \<leftarrow> schunk_get_chunk_nbytes le schunk (nchunks - 1);
           Some (if rc < 0 then (rc, False, schunk)
                 else if last_nbytes < chunksize \<or> chunk_nbytes > chunksize \<or> (nchunk \<noteq> nchunks \<and> chunk_nbytes \<noteq> chunksize)
                 then (0, True, schunk\<lparr> sc_chunksize := 0 \<rparr>)
                 else (0, False, schunk)) }
         else Some (0, variable_chunksize, schunk));
       Some (if rc < 0 then (rc, schunk)
             else if \<not> variable_chunksize \<and> chunksize > 0 \<and> chunk_nbytes > chunksize then (err, schunk)
             else (0, schunk)) })"

text \<open>The chunk the super-chunk keeps: a copy, or the caller's chunk shrunk to its length.\<close>

definition own_chunk :: "bool \<Rightarrow> buf \<Rightarrow> int \<Rightarrow> int \<Rightarrow> buf option" where
  "own_chunk copy chunk chunk_nbytes chunk_cbytes =
    (if copy \<or> chunk_cbytes < chunk_nbytes
     then if nat chunk_cbytes \<le> length chunk then Some (take (nat chunk_cbytes) chunk) else None
     else Some chunk)"

text \<open>Room for one more pointer: the array grows by 4096 bytes.\<close>

definition extend_data :: "schunk \<Rightarrow> slot list" where
  "extend_data schunk =
    (if sc_nchunks schunk + 1 > int (length (sc_data schunk)) then sc_data schunk @ replicate 512 Unset else sc_data schunk)"

text \<open>From the sizes of the chunk to the counters, for the position \<open>nchunk\<close>: what appending and inserting share.\<close>

definition take_in_chunk :: "bool \<Rightarrow> schunk \<Rightarrow> int \<Rightarrow> buf \<Rightarrow> bool \<Rightarrow> int \<Rightarrow> (int \<times> schunk \<times> buf) option" where
  "take_in_chunk le schunk nchunk chunk copy err = do {
     (rc, chunk_nbytes, chunk_cbytes, _) \<leftarrow> blosc2_cbuffer_sizes le chunk;
     if rc < 0 then Some (rc, schunk, chunk)
     else do {
       flags2 \<leftarrow> get_chunk_flags2 chunk chunk_cbytes;
       rc \<leftarrow> (if sc_nchunks schunk > 0 then check_vlblocks le schunk 0 flags2 err else Some 0);
       if rc < 0 then Some (rc, schunk, chunk)
       else do {
         let schunk = (if sc_nchunks schunk > 0 then schunk else schunk\<lparr> sc_flags2 := flags2 \<rparr>);
         (rc, schunk) \<leftarrow> settle_chunksize le schunk nchunk chunk_nbytes err;
         if rc < 0 then Some (rc, schunk, chunk)
         else do {
           nbytes \<leftarrow> i64 (sc_nbytes schunk + chunk_nbytes);
           cbytes \<leftarrow> i64 (sc_cbytes schunk + chunk_cbytes);
           owned \<leftarrow> own_chunk copy chunk chunk_nbytes chunk_cbytes;
           Some (0, schunk\<lparr> sc_current_nchunk := nchunk, sc_nchunks := sc_nchunks schunk + 1, sc_nbytes := nbytes,
             sc_cbytes := cbytes, sc_data := extend_data schunk \<rparr>, owned) } } } }"

definition blosc2_schunk_append_chunk :: "bool \<Rightarrow> schunk \<Rightarrow> buf \<Rightarrow> bool \<Rightarrow> (int \<times> schunk) option" where
  "blosc2_schunk_append_chunk le schunk chunk copy = do {
     let nchunks = sc_nchunks schunk;
     (rc, schunk, owned) \<leftarrow> take_in_chunk le schunk nchunks chunk copy BLOSC2_ERROR_CHUNK_APPEND;
     if rc < 0 then Some (rc, schunk)
     else do {
       data \<leftarrow> store (sc_data schunk) (nat nchunks) (Chunk owned);
       Some (sc_nchunks schunk, schunk\<lparr> sc_data := data \<rparr>) } }"

text \<open>The loop that moves the pointers from \<open>nchunk\<close> on one place up.\<close>

definition shift_up :: "nat \<Rightarrow> nat \<Rightarrow> slot list \<Rightarrow> slot list option" where
  "shift_up nchunk nchunks data = for_range 0 (nchunks - nchunk) (\<lambda>k data. do {
     slot \<leftarrow> load data (nchunks - k - 1);
     store data (nchunks - k) slot }) data"

definition blosc2_schunk_insert_chunk :: "bool \<Rightarrow> schunk \<Rightarrow> int \<Rightarrow> buf \<Rightarrow> bool \<Rightarrow> (int \<times> schunk) option" where
  "blosc2_schunk_insert_chunk le schunk nchunk chunk copy =
    (let rc = validate_nchunk schunk nchunk True in
     if rc < 0 then Some (rc, schunk)
     else do {
       let nchunks = sc_nchunks schunk;
       (rc, schunk, owned) \<leftarrow> take_in_chunk le schunk nchunk chunk copy BLOSC2_ERROR_CHUNK_INSERT;
       if rc < 0 then Some (rc, schunk)
       else do {
         data \<leftarrow> shift_up (nat nchunk) (nat nchunks) (sc_data schunk);
         data \<leftarrow> store data (nat nchunk) (Chunk owned);
         Some (sc_nchunks schunk, schunk\<lparr> sc_data := data \<rparr>) } })"

section \<open>Reading, replacing and deleting chunks\<close>

text \<open>\<open>blosc2_schunk_get_chunk\<close>: its result, the chunk unless the pointer is null, and the super-chunk.\<close>

definition blosc2_schunk_get_chunk :: "bool \<Rightarrow> schunk \<Rightarrow> int \<Rightarrow> (int \<times> buf option \<times> schunk) option" where
  "blosc2_schunk_get_chunk le schunk nchunk =
    (let rc = validate_nchunk schunk nchunk False in
     if rc < 0 then Some (rc, None, schunk)
     else do {
       let schunk = schunk\<lparr> sc_current_nchunk := nchunk \<rparr>;
       slot \<leftarrow> load (sc_data schunk) (nat nchunk);
       case slot of Unset \<Rightarrow> None | NullSlot \<Rightarrow> Some (0, None, schunk)
       | Chunk chunk \<Rightarrow> do {
           (rc, _, cbytes, _) \<leftarrow> blosc2_cbuffer_sizes le chunk;
           Some (if rc < 0 then rc else cbytes, Some chunk, schunk) } })"

text \<open>The sizes of the chunk that goes, where a chunk of just a header counts as empty.\<close>

definition old_sizes :: "bool \<Rightarrow> buf option \<Rightarrow> (int \<times> int \<times> int) option" where
  "old_sizes le chunk_old =
    (case chunk_old of None \<Rightarrow> Some (0, 0, 0)
     | Some chunk \<Rightarrow> do {
         (rc, nbytes, cbytes, _) \<leftarrow> blosc2_cbuffer_sizes le chunk;
         Some (rc, nbytes, if cbytes = BLOSC2_MAX_OVERHEAD then 0 else cbytes) })"

definition blosc2_schunk_update_chunk :: "bool \<Rightarrow> schunk \<Rightarrow> int \<Rightarrow> buf \<Rightarrow> bool \<Rightarrow> (int \<times> schunk) option" where
  "blosc2_schunk_update_chunk le schunk nchunk chunk copy =
    (let rc = validate_nchunk schunk nchunk False in
     if rc < 0 then Some (rc, schunk)
     else do {
       (rc, chunk_nbytes, chunk_cbytes, _) \<leftarrow> blosc2_cbuffer_sizes le chunk;
       if rc < 0 then Some (rc, schunk)
       else do {
         flags2 \<leftarrow> get_chunk_flags2 chunk chunk_cbytes;
         let others = (sc_nchunks schunk > 1 \<or> sc_nchunks schunk = 1 \<and> nchunk \<noteq> 0);
         rc \<leftarrow> (if others then check_vlblocks le schunk (if nchunk = 0 then 1 else 0) flags2 BLOSC2_ERROR_CHUNK_UPDATE else Some 0);
         if rc < 0 then Some (rc, schunk)
         else do {
           let schunk = (if others then schunk else schunk\<lparr> sc_flags2 := flags2 \<rparr>);
           let variable_chunksize = (sc_chunksize schunk = 0);
           let schunk = (if sc_chunksize schunk = - 1 then schunk\<lparr> sc_chunksize := chunk_nbytes \<rparr> else schunk);
           let chunksize = sc_chunksize schunk;
           let resized = (\<not> variable_chunksize \<and> (chunk_nbytes > chunksize \<or> (nchunk \<noteq> sc_nchunks schunk - 1 \<and> chunk_nbytes \<noteq> chunksize)));
           let schunk = (if resized then schunk\<lparr> sc_chunksize := 0 \<rparr> else schunk);
           if \<not> (variable_chunksize \<or> resized) \<and> chunksize > 0 \<and> chunk_nbytes > chunksize
           then Some (BLOSC2_ERROR_CHUNK_UPDATE, schunk)
           else do {
             (err, chunk_old, schunk) \<leftarrow> blosc2_schunk_get_chunk le schunk nchunk;
             if err < 0 then Some (- 1, schunk)
             else do {
               (rc, chunk_nbytes_old, chunk_cbytes_old) \<leftarrow> old_sizes le chunk_old;
               if rc < 0 then Some (rc, schunk)
               else do {
                 nbytes \<leftarrow> i64 (sc_nbytes schunk + chunk_nbytes);
                 nbytes \<leftarrow> i64 (nbytes - chunk_nbytes_old);
                 cbytes \<leftarrow> i64 (sc_cbytes schunk + chunk_cbytes);
                 cbytes \<leftarrow> i64 (cbytes - chunk_cbytes_old);
                 owned \<leftarrow> own_chunk copy chunk chunk_nbytes chunk_cbytes;
                 data \<leftarrow> store (sc_data schunk) (nat nchunk) (Chunk owned);
                 Some (sc_nchunks schunk, schunk\<lparr> sc_nbytes := nbytes, sc_cbytes := cbytes, sc_data := data \<rparr>) } } } } } })"

text \<open>The loop that moves the pointers behind \<open>nchunk\<close> one place down.\<close>

definition shift_down :: "nat \<Rightarrow> nat \<Rightarrow> 'a list \<Rightarrow> 'a list option" where
  "shift_down nchunk nchunks data = for_range nchunk nchunks (\<lambda>i data. do {
     slot \<leftarrow> load data (i + 1);
     store data i slot }) data"

definition blosc2_schunk_delete_chunk :: "bool \<Rightarrow> schunk \<Rightarrow> int \<Rightarrow> (int \<times> schunk) option" where
  "blosc2_schunk_delete_chunk le schunk nchunk =
    (let rc = validate_nchunk schunk nchunk False in
     if rc < 0 then Some (rc, schunk)
     else do {
       (err, chunk_old, schunk) \<leftarrow> blosc2_schunk_get_chunk le schunk nchunk;
       if err < 0 then Some (- 1, schunk)
       else do {
         (rc, chunk_nbytes_old, chunk_cbytes_old) \<leftarrow> old_sizes le chunk_old;
         if rc < 0 then Some (rc, schunk)
         else do {
           let nchunks = sc_nchunks schunk - 1;
           nbytes \<leftarrow> i64 (sc_nbytes schunk - chunk_nbytes_old);
           cbytes \<leftarrow> i64 (sc_cbytes schunk - chunk_cbytes_old);
           data \<leftarrow> shift_down (nat nchunk) (nat nchunks) (sc_data schunk);
           data \<leftarrow> store data (nat nchunks) NullSlot;
           Some (nchunks, schunk\<lparr> sc_nchunks := nchunks, sc_flags2 := (if nchunks = 0 then 0 else sc_flags2 schunk),
             sc_nbytes := nbytes, sc_cbytes := cbytes, sc_data := data \<rparr>) } } })"

section \<open>Reordering the chunks\<close>

text \<open>
  The loop that checks the order: every index in range, and none used before. \<open>index_check\<close> is the array of marks,
  \<open>i\<close> the loop counter and the first argument the number of rounds left.
\<close>

fun check_offsets :: "nat \<Rightarrow> nat \<Rightarrow> int \<Rightarrow> int list \<Rightarrow> bool list \<Rightarrow> int option" where
  "check_offsets 0 i nchunks offsets_order index_check = Some 0"
| "check_offsets (Suc n) i nchunks offsets_order index_check = do {
     index \<leftarrow> load offsets_order i;
     if index < 0 \<or> index \<ge> nchunks then Some BLOSC2_ERROR_DATA
     else do {
       used \<leftarrow> load index_check (nat index);
       if \<not> used then do {
         index_check \<leftarrow> store index_check (nat index) True;
         check_offsets n (Suc i) nchunks offsets_order index_check }
       else Some BLOSC2_ERROR_DATA } }"

definition blosc2_schunk_reorder_offsets :: "schunk \<Rightarrow> int list \<Rightarrow> (int \<times> schunk) option" where
  "blosc2_schunk_reorder_offsets schunk offsets_order = do {
     let nchunks = nat (sc_nchunks schunk);
     rc \<leftarrow> check_offsets nchunks 0 (sc_nchunks schunk) offsets_order (replicate nchunks False);
     if rc < 0 then Some (rc, schunk)
     else do {
       let offsets_copy = sc_data schunk;
       data \<leftarrow> for_range 0 nchunks (\<lambda>i data. do {
         index \<leftarrow> load offsets_order i;
         slot \<leftarrow> load offsets_copy (nat index);
         store data i slot }) (sc_data schunk);
       Some (0, schunk\<lparr> sc_data := data \<rparr>) } }"

text \<open>The chunks a slice of items touches; an empty super-chunk has none.\<close>

definition schunk_get_slice_nchunks :: "schunk \<Rightarrow> int \<Rightarrow> int \<Rightarrow> (int \<times> int list) option" where
  "schunk_get_slice_nchunks schunk start stop =
    (if sc_nchunks schunk = 0 then Some (0, [])
     else do {
       byte_start \<leftarrow> i64 (start * sc_typesize schunk);
       byte_stop \<leftarrow> i64 (stop * sc_typesize schunk);
       if sc_chunksize schunk = 0 then None
       else let nchunk_start = byte_start sdiv sc_chunksize schunk;
                nchunk_stop = byte_stop sdiv sc_chunksize schunk;
                nchunk_stop = (if byte_stop smod sc_chunksize schunk \<noteq> 0 then nchunk_stop + 1 else nchunk_stop);
                nchunks = nchunk_stop - nchunk_start
            in Some (nchunks, map (\<lambda>i. nchunk_start + int i) [0..<nat nchunks]) })"

text \<open>The length of a frame; without one, an estimate.\<close>

definition blosc2_schunk_frame_len :: "schunk \<Rightarrow> int option" where
  "blosc2_schunk_frame_len schunk = i64 (sc_cbytes schunk + sc_nchunks schunk * 8)"

end
