(* ===== verification/Schunk_Contents.thy ===== *)
theory Schunk_Contents
  imports Schunk
begin

text \<open>
  What a super-chunk in memory promises: it is a list of chunks. Each operation on chunks is an operation on that list
  and keeps the invariant of the counters and sizes; refused operations leave the list as it is.
\<close>

section \<open>Sizes and contents of a chunk\<close>

text \<open>The bytes a super-chunk may rely on: a readable header whose sizes make sense, and all the bytes it announces.\<close>

definition chunk_nb :: "bool \<Rightarrow> buf \<Rightarrow> int" where
  "chunk_nb le chunk = (case blosc2_cbuffer_sizes le chunk of Some (rc, nbytes, cbytes, _) \<Rightarrow> nbytes | None \<Rightarrow> 0)"

definition chunk_cb :: "bool \<Rightarrow> buf \<Rightarrow> int" where
  "chunk_cb le chunk = (case blosc2_cbuffer_sizes le chunk of Some (rc, nbytes, cbytes, _) \<Rightarrow> cbytes | None \<Rightarrow> 0)"

definition chunk_ok :: "bool \<Rightarrow> buf \<Rightarrow> bool" where
  "chunk_ok le chunk =
    (case blosc2_cbuffer_sizes le chunk of
       Some (rc, nbytes, cbytes, _) \<Rightarrow> 0 \<le> rc \<and> 0 \<le> nbytes \<and> cbytes \<le> int (length chunk)
     | None \<Rightarrow> False)"

definition chunk_vl :: "bool \<Rightarrow> buf \<Rightarrow> bool" where
  "chunk_vl le chunk =
    (case get_chunk_flags2 chunk (chunk_cb le chunk) of Some flags2 \<Rightarrow> flags2 AND BLOSC2_VL_BLOCKS \<noteq> 0 | None \<Rightarrow> False)"

definition content :: "bool \<Rightarrow> buf \<Rightarrow> buf" where
  "content le chunk = take (nat (chunk_cb le chunk)) chunk"

lemma cbuffer_sizes_cases:
  assumes "blosc2_cbuffer_sizes le chunk = Some (rc, nbytes, cbytes, bs)"
  shows "16 \<le> length chunk"
    and "rc = 0 \<and> 16 \<le> cbytes \<and> nbytes < 2 ^ 31 \<and> cbytes < 2 ^ 31 \<or> rc < 0"
proof -
  from assms obtain r where r: "read_chunk_header le chunk 16 False = Some r"
    and res: "(rc, nbytes, cbytes, bs) = (case r of Inl err \<Rightarrow> (err, 0, 0, 0) | Inr h \<Rightarrow> (0, hdr_nbytes h, hdr_cbytes h, hdr_blocksize h))"
    by (auto simp: blosc2_cbuffer_sizes_def Option.bind_eq_Some_conv)
  show len: "16 \<le> length chunk"
    using r by (auto simp: read_chunk_header_def load_el_def Option.bind_eq_Some_conv split: if_splits)
  show "rc = 0 \<and> 16 \<le> cbytes \<and> nbytes < 2 ^ 31 \<and> cbytes < 2 ^ 31 \<or> rc < 0"
  proof (cases r)
    case (Inl err)
    with read_chunk_header_total[of 16 chunk False] len r have "err < 0" by auto
    with Inl res show ?thesis by simp
  next
    case (Inr h)
    with read_chunk_header_total[of 16 chunk False] len r have "header_ok False h" by auto
    with Inr res show ?thesis by (simp add: header_ok_def i32_range_def)
  qed
qed

lemma chunk_okE:
  assumes "chunk_ok le chunk"
  obtains bs flags2 where
    "blosc2_cbuffer_sizes le chunk = Some (0, chunk_nb le chunk, chunk_cb le chunk, bs)"
    "get_chunk_flags2 chunk (chunk_cb le chunk) = Some flags2"
    "chunk_vl le chunk = (flags2 AND BLOSC2_VL_BLOCKS \<noteq> 0)"
    "0 \<le> chunk_nb le chunk" "chunk_nb le chunk < 2 ^ 31" "16 \<le> chunk_cb le chunk" "chunk_cb le chunk < 2 ^ 31"
    "chunk_cb le chunk \<le> int (length chunk)"
proof -
  from assms obtain rc nbytes cbytes bs where s: "blosc2_cbuffer_sizes le chunk = Some (rc, nbytes, cbytes, bs)"
    and b: "0 \<le> rc" "0 \<le> nbytes" "cbytes \<le> int (length chunk)"
    by (auto simp: chunk_ok_def split: option.splits)
  have c: "rc = 0" "16 \<le> cbytes" "nbytes < 2 ^ 31" "cbytes < 2 ^ 31" "16 \<le> length chunk"
    using cbuffer_sizes_cases[OF s] b by auto
  have nc: "chunk_nb le chunk = nbytes" "chunk_cb le chunk = cbytes"
    using s by (simp_all add: chunk_nb_def chunk_cb_def)
  have "\<exists>flags2. get_chunk_flags2 chunk cbytes = Some flags2"
    using c b by (cases "cbytes < 32") (auto simp: get_chunk_flags2_def load_Some)
  then obtain flags2 where f: "get_chunk_flags2 chunk cbytes = Some flags2" ..
  show ?thesis
    by (rule that[of bs flags2]) (use s b c nc f in \<open>simp_all add: chunk_vl_def\<close>)
qed

text \<open>A chunk cut to the length in its header has the same sizes and flags.\<close>

lemma cbuffer_sizes_take:
  assumes "16 \<le> n"
  shows "blosc2_cbuffer_sizes le (take n chunk) = blosc2_cbuffer_sizes le chunk"
proof -
  have "load_el 16 (take n chunk) 0 = load_el 16 chunk 0" using assms by (simp add: load_el_def min_def)
  then show ?thesis by (simp add: blosc2_cbuffer_sizes_def read_chunk_header_def Let_def cong: if_cong)
qed

lemma content_ok:
  assumes "chunk_ok le chunk"
  shows "chunk_ok le (content le chunk)" "chunk_nb le (content le chunk) = chunk_nb le chunk"
    "chunk_cb le (content le chunk) = chunk_cb le chunk" "chunk_vl le (content le chunk) = chunk_vl le chunk"
    "content le (content le chunk) = content le chunk"
proof -
  obtain bs flags2 where s: "blosc2_cbuffer_sizes le chunk = Some (0, chunk_nb le chunk, chunk_cb le chunk, bs)"
    and b: "0 \<le> chunk_nb le chunk" "16 \<le> chunk_cb le chunk" "chunk_cb le chunk \<le> int (length chunk)"
    by (rule chunk_okE[OF assms])
  let ?n = "nat (chunk_cb le chunk)"
  have t: "blosc2_cbuffer_sizes le (take ?n chunk) = Some (0, chunk_nb le chunk, chunk_cb le chunk, bs)"
    using s b by (simp add: cbuffer_sizes_take)
  show "chunk_ok le (content le chunk)" using t b by (simp add: content_def chunk_ok_def)
  show nb: "chunk_nb le (content le chunk) = chunk_nb le chunk"
    and cb: "chunk_cb le (content le chunk) = chunk_cb le chunk"
    using t by (simp_all add: content_def chunk_nb_def[of le "take _ _"] chunk_cb_def[of le "take _ _"])
  show "content le (content le chunk) = content le chunk" using cb by (simp add: content_def[of le "content le chunk"]) (simp add: content_def)
  have "get_chunk_flags2 (content le chunk) (chunk_cb le chunk) = get_chunk_flags2 chunk (chunk_cb le chunk)"
    using b by (cases "chunk_cb le chunk < 32") (auto simp: get_chunk_flags2_def load_def content_def)
  with cb show "chunk_vl le (content le chunk) = chunk_vl le chunk" by (simp add: chunk_vl_def)
qed

lemma own_chunk_content:
  assumes "chunk_ok le chunk"
  obtains owned where "own_chunk copy chunk (chunk_nb le chunk) (chunk_cb le chunk) = Some owned" "chunk_ok le owned"
    "chunk_nb le owned = chunk_nb le chunk" "chunk_cb le owned = chunk_cb le chunk" "chunk_vl le owned = chunk_vl le chunk"
    "content le owned = content le chunk"
proof -
  have "\<exists>owned. own_chunk copy chunk (chunk_nb le chunk) (chunk_cb le chunk) = Some owned \<and>
      (owned = chunk \<or> owned = content le chunk)"
    using assms by (rule chunk_okE) (simp add: own_chunk_def content_def nat_le_iff)
  then obtain owned where "own_chunk copy chunk (chunk_nb le chunk) (chunk_cb le chunk) = Some owned"
    "owned = chunk \<or> owned = content le chunk" by blast
  with that[of owned] content_ok[OF assms] assms show ?thesis by auto
qed

section \<open>The invariant\<close>

text \<open>The super-chunk holds the chunks \<open>cs\<close>; slots behind them are of no account.\<close>

definition holds :: "schunk \<Rightarrow> buf list \<Rightarrow> bool" where
  "holds schunk cs \<longleftrightarrow> sc_nchunks schunk = int (length cs) \<and> take (length cs) (sc_data schunk) = map Chunk cs"

definition total :: "(buf \<Rightarrow> int) \<Rightarrow> buf list \<Rightarrow> int" where
  "total f cs = sum_list (map f cs)"

definition same_kind :: "bool \<Rightarrow> buf list \<Rightarrow> bool" where
  "same_kind le cs \<longleftrightarrow> (\<forall>c\<in>set cs. chunk_vl le c = chunk_vl le (hd cs))"

text \<open>
  The counters count the chunks, and a chunk size that is known bounds each of them. The compressed size may have drifted up:
  appending counts the 32 bytes of a chunk that is just a header, and replacing or deleting it does not.
\<close>

definition schunk_inv :: "bool \<Rightarrow> schunk \<Rightarrow> buf list \<Rightarrow> bool" where
  "schunk_inv le schunk cs \<longleftrightarrow>
    holds schunk cs \<and> (\<forall>c\<in>set cs. chunk_ok le c) \<and> sc_nbytes schunk = total (chunk_nb le) cs \<and>
    total (chunk_cb le) cs \<le> sc_cbytes schunk \<and> same_kind le cs \<and>
    - 1 \<le> sc_chunksize schunk \<and> (sc_chunksize schunk = - 1 \<longrightarrow> cs = []) \<and>
    (0 < sc_chunksize schunk \<longrightarrow> (\<forall>c\<in>set cs. chunk_nb le c \<le> sc_chunksize schunk))"

text \<open>A chunk size above 0 is the size of all chunks but the last, as long as the chunks are not reordered.\<close>

definition regular :: "bool \<Rightarrow> schunk \<Rightarrow> buf list \<Rightarrow> bool" where
  "regular le schunk cs \<longleftrightarrow> (0 < sc_chunksize schunk \<longrightarrow> (\<forall>c\<in>set (butlast cs). chunk_nb le c = sc_chunksize schunk))"

definition room :: "schunk \<Rightarrow> int \<Rightarrow> bool" where
  "room schunk n \<longleftrightarrow> sc_nbytes schunk + n * 2 ^ 31 < 2 ^ 63 \<and> sc_cbytes schunk + n * 2 ^ 31 < 2 ^ 63"

lemma total_simps [simp]:
  "total f [] = 0" "total f (c # cs) = f c + total f cs" "total f (cs @ ds) = total f cs + total f ds"
  by (simp_all add: total_def)

lemma total_nonneg: "\<forall>c\<in>set cs. 0 \<le> f c \<Longrightarrow> 0 \<le> total f cs"
  by (induction cs) auto

lemma holds_nth:
  assumes "holds schunk cs" "i < length cs"
  shows "i < length (sc_data schunk)" "sc_data schunk ! i = Chunk (cs ! i)"
proof -
  have l: "length (take (length cs) (sc_data schunk)) = length cs" using assms(1) by (simp add: holds_def)
  then show "i < length (sc_data schunk)" using assms(2) by simp
  have "take (length cs) (sc_data schunk) ! i = Chunk (cs ! i)" using assms by (simp add: holds_def)
  then show "sc_data schunk ! i = Chunk (cs ! i)" using assms(2) by simp
qed

lemma holds_length:
  assumes "holds schunk cs"
  shows "length cs \<le> length (sc_data schunk)"
proof -
  have "length (take (length cs) (sc_data schunk)) = length cs" using assms by (simp add: holds_def)
  then show ?thesis by simp
qed

lemma holdsI:
  assumes "sc_nchunks schunk = int (length cs)" "length cs \<le> length (sc_data schunk)"
    "\<And>i. i < length cs \<Longrightarrow> sc_data schunk ! i = Chunk (cs ! i)"
  shows "holds schunk cs"
  using assms by (auto simp: holds_def intro: nth_equalityI)

lemma chunk_at_holds: "holds schunk cs \<Longrightarrow> i < length cs \<Longrightarrow> chunk_at schunk (int i) = Some (cs ! i)"
  by (simp add: chunk_at_def load_def holds_nth)

lemma chunk_sizes_at:
  assumes "schunk_inv le schunk cs" "i < length cs"
  shows "schunk_get_chunk_nbytes le schunk (int i) = Some (0, chunk_nb le (cs ! i))"
    and "\<exists>flags2. schunk_get_chunk_flags2 le schunk (int i) = Some (0, flags2) \<and>
      (flags2 AND BLOSC2_VL_BLOCKS \<noteq> 0) = chunk_vl le (cs ! i)"
proof -
  have h: "chunk_at schunk (int i) = Some (cs ! i)" and ok: "chunk_ok le (cs ! i)"
    using assms by (simp_all add: schunk_inv_def chunk_at_holds)
  from ok obtain bs flags2 where s: "blosc2_cbuffer_sizes le (cs ! i) = Some (0, chunk_nb le (cs ! i), chunk_cb le (cs ! i), bs)"
    "get_chunk_flags2 (cs ! i) (chunk_cb le (cs ! i)) = Some flags2" "chunk_vl le (cs ! i) = (flags2 AND BLOSC2_VL_BLOCKS \<noteq> 0)"
    by (rule chunk_okE)
  from h s(1) show "schunk_get_chunk_nbytes le schunk (int i) = Some (0, chunk_nb le (cs ! i))"
    by (simp add: schunk_get_chunk_nbytes_def)
  from h s show "\<exists>flags2. schunk_get_chunk_flags2 le schunk (int i) = Some (0, flags2) \<and>
      (flags2 AND BLOSC2_VL_BLOCKS \<noteq> 0) = chunk_vl le (cs ! i)"
    by (simp add: schunk_get_chunk_flags2_def)
qed

lemma check_vlblocks_at:
  assumes "schunk_inv le schunk cs" "i < length cs"
  shows "check_vlblocks le schunk (int i) flags2 err =
    Some (if chunk_vl le (cs ! i) \<noteq> (flags2 AND BLOSC2_VL_BLOCKS \<noteq> 0) then err else 0)"
  using chunk_sizes_at(2)[OF assms] by (auto simp: check_vlblocks_def)

lemma inv_sizes: "schunk_inv le schunk cs \<Longrightarrow> 0 \<le> sc_nbytes schunk \<and> 0 \<le> sc_cbytes schunk"
proof -
  assume inv: "schunk_inv le schunk cs"
  have "0 \<le> chunk_nb le c \<and> 0 \<le> chunk_cb le c" if "c \<in> set cs" for c
  proof -
    have "chunk_ok le c" using inv that by (simp add: schunk_inv_def)
    then show ?thesis by (rule chunk_okE) simp
  qed
  then have "0 \<le> total (chunk_nb le) cs" "0 \<le> total (chunk_cb le) cs" by (simp_all add: total_nonneg)
  with inv show ?thesis by (simp add: schunk_inv_def)
qed

section \<open>Appending and inserting\<close>

text \<open>When a chunk is refused: another kind of blocks, or larger than the chunk size of a super-chunk that was emptied.\<close>

definition refused :: "bool \<Rightarrow> schunk \<Rightarrow> buf list \<Rightarrow> buf \<Rightarrow> bool" where
  "refused le schunk cs chunk \<longleftrightarrow>
    (if cs = [] then 0 < sc_chunksize schunk \<and> sc_chunksize schunk < chunk_nb le chunk
     else chunk_vl le (cs ! 0) \<noteq> chunk_vl le chunk)"

text \<open>The chunk size after the check.\<close>

definition settled :: "bool \<Rightarrow> int \<Rightarrow> buf list \<Rightarrow> int \<Rightarrow> int \<Rightarrow> int" where
  "settled le chunksize cs n nbytes =
    (if chunksize = - 1 then nbytes
     else if cs = [] then chunksize
     else if chunk_nb le (last cs) < chunksize \<or> chunksize < nbytes \<or> n \<noteq> int (length cs) \<and> nbytes \<noteq> chunksize then 0
     else chunksize)"

lemma settle_chunksize_eq:
  assumes inv: "schunk_inv le schunk cs" and nb: "0 \<le> nbytes"
  shows "settle_chunksize le schunk n nbytes err =
    (if cs = [] \<and> 0 < sc_chunksize schunk \<and> sc_chunksize schunk < nbytes then Some (err, schunk)
     else Some (0, schunk\<lparr> sc_chunksize := settled le (sc_chunksize schunk) cs n nbytes \<rparr>))"
proof (cases "cs = []")
  case True
  with inv have "sc_nchunks schunk = 0" "- 1 \<le> sc_chunksize schunk" by (simp_all add: schunk_inv_def holds_def)
  with True nb show ?thesis by (auto simp: settle_chunksize_def settled_def Let_def)
next
  case False
  with inv have n: "sc_nchunks schunk = int (length cs)" and z: "0 \<le> sc_chunksize schunk"
    by (auto simp: schunk_inv_def holds_def)
  have l: "schunk_get_chunk_nbytes le schunk (int (length cs) - 1) = Some (0, chunk_nb le (last cs))"
    using chunk_sizes_at(1)[OF inv, of "length cs - 1"] False by (simp add: of_nat_diff last_conv_nth Suc_leI)
  show ?thesis
  proof (cases "sc_chunksize schunk = 0")
    case True
    with False show ?thesis using chunk_sizes_at(1)[OF inv] nb by (simp add: settle_chunksize_def settled_def Let_def n)
  next
    case nz: False
    with False z l nb show ?thesis
      by (cases "chunk_nb le (last cs) < sc_chunksize schunk \<or> sc_chunksize schunk < nbytes \<or>
          n \<noteq> int (length cs) \<and> nbytes \<noteq> sc_chunksize schunk")
        (simp_all add: settle_chunksize_def settled_def Let_def n)
  qed
qed

lemma take_in_chunk_refused:
  assumes inv: "schunk_inv le schunk cs" and ok: "chunk_ok le chunk" and err: "err < 0" and ref: "refused le schunk cs chunk"
  shows "\<exists>flags2. take_in_chunk le schunk n chunk copy err = Some (err, schunk\<lparr> sc_flags2 := flags2 \<rparr>, chunk)"
proof -
  obtain bs flags2 where s: "blosc2_cbuffer_sizes le chunk = Some (0, chunk_nb le chunk, chunk_cb le chunk, bs)"
    "get_chunk_flags2 chunk (chunk_cb le chunk) = Some flags2" "chunk_vl le chunk = (flags2 AND BLOSC2_VL_BLOCKS \<noteq> 0)"
    "0 \<le> chunk_nb le chunk" by (rule chunk_okE[OF ok])
  show ?thesis
  proof (cases "cs = []")
    case True
    have inv': "schunk_inv le (schunk\<lparr> sc_flags2 := flags2 \<rparr>) cs" using inv by (simp add: schunk_inv_def holds_def)
    have "sc_nchunks schunk = 0" using inv True by (simp add: schunk_inv_def holds_def)
    moreover have "settle_chunksize le (schunk\<lparr> sc_flags2 := flags2 \<rparr>) n (chunk_nb le chunk) err =
        Some (err, schunk\<lparr> sc_flags2 := flags2 \<rparr>)"
      using ref True by (subst settle_chunksize_eq[OF inv' s(4)]) (simp add: refused_def)
    ultimately show ?thesis using s err by (intro exI[of _ flags2]) (simp add: take_in_chunk_def)
  next
    case False
    then have "sc_nchunks schunk > 0" using inv by (simp add: schunk_inv_def holds_def)
    moreover have "check_vlblocks le schunk 0 flags2 err = Some err"
      using check_vlblocks_at[OF inv, of 0] False ref s(3) by (simp add: refused_def)
    ultimately show ?thesis
      using s err by (intro exI[of _ "sc_flags2 schunk"]) (simp add: take_in_chunk_def)
  qed
qed

text \<open>The super-chunk with the new chunk counted, before its pointer is stored.\<close>

definition taken :: "bool \<Rightarrow> schunk \<Rightarrow> buf list \<Rightarrow> int \<Rightarrow> buf \<Rightarrow> byte \<Rightarrow> schunk" where
  "taken le schunk cs n chunk flags2 = schunk\<lparr> sc_flags2 := flags2,
     sc_chunksize := settled le (sc_chunksize schunk) cs n (chunk_nb le chunk), sc_current_nchunk := n,
     sc_nchunks := sc_nchunks schunk + 1, sc_nbytes := sc_nbytes schunk + chunk_nb le chunk,
     sc_cbytes := sc_cbytes schunk + chunk_cb le chunk, sc_data := extend_data schunk \<rparr>"

lemma take_in_chunk_accepted:
  assumes inv: "schunk_inv le schunk cs" and ok: "chunk_ok le chunk" and acc: "\<not> refused le schunk cs chunk"
    and room: "room schunk 1"
  obtains flags2 owned where
    "take_in_chunk le schunk n chunk copy err = Some (0, taken le schunk cs n chunk flags2, owned)"
    "chunk_ok le owned" "chunk_nb le owned = chunk_nb le chunk" "chunk_cb le owned = chunk_cb le chunk"
    "chunk_vl le owned = chunk_vl le chunk" "content le owned = content le chunk"
proof -
  obtain bs flags2 where s: "blosc2_cbuffer_sizes le chunk = Some (0, chunk_nb le chunk, chunk_cb le chunk, bs)"
    "get_chunk_flags2 chunk (chunk_cb le chunk) = Some flags2" "chunk_vl le chunk = (flags2 AND BLOSC2_VL_BLOCKS \<noteq> 0)"
    and b: "0 \<le> chunk_nb le chunk" "chunk_nb le chunk < 2 ^ 31" "16 \<le> chunk_cb le chunk" "chunk_cb le chunk < 2 ^ 31"
    by (rule chunk_okE[OF ok])
  obtain owned where o: "own_chunk copy chunk (chunk_nb le chunk) (chunk_cb le chunk) = Some owned" "chunk_ok le owned"
    "chunk_nb le owned = chunk_nb le chunk" "chunk_cb le owned = chunk_cb le chunk" "chunk_vl le owned = chunk_vl le chunk"
    "content le owned = content le chunk" by (rule own_chunk_content[OF ok])
  have i: "i64 (sc_nbytes schunk + chunk_nb le chunk) = Some (sc_nbytes schunk + chunk_nb le chunk)"
    "i64 (sc_cbytes schunk + chunk_cb le chunk) = Some (sc_cbytes schunk + chunk_cb le chunk)"
    using inv_sizes[OF inv] room b by (simp_all add: room_def i64_def)
  define f where "f = (if cs = [] then flags2 else sc_flags2 schunk)"
  have inv': "schunk_inv le (schunk\<lparr> sc_flags2 := f \<rparr>) cs" using inv by (simp add: schunk_inv_def holds_def)
  have st: "settle_chunksize le (schunk\<lparr> sc_flags2 := f \<rparr>) n (chunk_nb le chunk) err = Some (0, schunk\<lparr> sc_flags2 := f,
      sc_chunksize := settled le (sc_chunksize schunk) cs n (chunk_nb le chunk) \<rparr>)"
    using acc by (subst settle_chunksize_eq[OF inv' b(1)], cases "cs = []") (auto simp: refused_def)
  have vl: "(if sc_nchunks schunk > 0 then check_vlblocks le schunk 0 flags2 err else Some 0) = Some 0"
  proof (cases "cs = []")
    case False
    then show ?thesis using check_vlblocks_at[OF inv, of 0 flags2 err] acc s(3) by (simp add: refused_def)
  qed (use inv in \<open>simp add: schunk_inv_def holds_def\<close>)
  have f': "(if sc_nchunks schunk > 0 then schunk else schunk\<lparr> sc_flags2 := flags2 \<rparr>) = schunk\<lparr> sc_flags2 := f \<rparr>"
    using inv by (simp add: f_def schunk_inv_def holds_def)
  show ?thesis
    by (rule that[of f owned])
      (use s(1,2) vl st i o in \<open>simp_all add: take_in_chunk_def f' extend_data_def taken_def\<close>)
qed

text \<open>Putting a chunk with the sizes and the content of the new one into the list keeps the invariant.\<close>

definition put :: "nat \<Rightarrow> 'a \<Rightarrow> 'a list \<Rightarrow> 'a list" where
  "put n x xs = take n xs @ x # drop n xs"

lemma set_put [simp]: "set (put n x xs) = insert x (set xs)"
  unfolding put_def by (metis Un_insert_right append_take_drop_id list.set(2) set_append)

lemma length_put [simp]: "length (put n x xs) = Suc (length xs)"
  by (simp add: put_def)

lemma total_put [simp]: "total f (put n x xs) = f x + total f xs"
proof -
  have "total f xs = total f (take n xs) + total f (drop n xs)" by (subst append_take_drop_id[of n xs, symmetric]) (simp only: total_simps)
  then show ?thesis by (simp add: put_def)
qed

lemma nth_put: "n \<le> length xs \<Longrightarrow> put n x xs ! i = (if i < n then xs ! i else if i = n then x else xs ! (i - 1))"
  by (auto simp: put_def nth_append nth_Cons' min_def)

lemma put_end [simp]: "put (length xs) x xs = xs @ [x]"
  by (simp add: put_def)

lemma map_put: "map f (put n x xs) = put n (f x) (map f xs)"
  by (simp add: put_def take_map drop_map)

lemma same_kind_put:
  assumes "same_kind le cs" "cs \<noteq> [] \<Longrightarrow> chunk_vl le (cs ! 0) = chunk_vl le c"
  shows "same_kind le (put n c cs)"
proof -
  have "chunk_vl le d = chunk_vl le c" if "d \<in> set (put n c cs)" for d
    using assms that by (cases "cs = []") (auto simp: same_kind_def hd_conv_nth)
  moreover have "hd (put n c cs) \<in> set (put n c cs)"
    by (rule hd_in_set) (metis length_put length_0_conv nat.distinct(1))
  ultimately show ?thesis unfolding same_kind_def by metis
qed

lemma accepted_inv:
  assumes inv: "schunk_inv le schunk cs" and ok: "chunk_ok le c" and acc: "\<not> refused le schunk cs chunk"
    and c: "chunk_nb le c = chunk_nb le chunk" "chunk_cb le c = chunk_cb le chunk" "chunk_vl le c = chunk_vl le chunk"
    and n: "n \<le> length cs"
    and z: "sc_chunksize schunk' = settled le (sc_chunksize schunk) cs (int n) (chunk_nb le chunk)"
    and s': "sc_nbytes schunk' = sc_nbytes schunk + chunk_nb le chunk" "sc_cbytes schunk' = sc_cbytes schunk + chunk_cb le chunk"
    and h: "holds schunk' (put n c cs)"
  shows "schunk_inv le schunk' (put n c cs)" "regular le schunk cs \<Longrightarrow> regular le schunk' (put n c cs)"
proof -
  let ?z = "settled le (sc_chunksize schunk) cs (int n) (chunk_nb le chunk)"
  have nb: "0 \<le> chunk_nb le chunk" using ok c(1) by (metis chunk_okE)
  have zi: "- 1 \<le> sc_chunksize schunk" "sc_chunksize schunk = - 1 \<longrightarrow> cs = []"
    "0 < sc_chunksize schunk \<longrightarrow> (\<forall>c\<in>set cs. chunk_nb le c \<le> sc_chunksize schunk)"
    using inv by (simp_all add: schunk_inv_def)
  have z0: "0 \<le> ?z" using nb zi(1) by (auto simp: settled_def)
  have fits: "\<forall>d\<in>set (put n c cs). chunk_nb le d \<le> ?z" if "0 < ?z"
    using that zi acc c(1) by (auto simp: settled_def refused_def split: if_splits)
  have kind: "same_kind le (put n c cs)"
    by (rule same_kind_put) (use inv acc c in \<open>auto simp: schunk_inv_def refused_def\<close>)
  show "schunk_inv le schunk' (put n c cs)"
    unfolding schunk_inv_def z
    using inv h s' c ok z0 fits kind by (auto simp: schunk_inv_def)
  show "regular le schunk' (put n c cs)" if reg: "regular le schunk cs"
    unfolding regular_def z
  proof (intro impI ballI)
    fix d assume pos: "0 < ?z" and d: "d \<in> set (butlast (put n c cs))"
    show "chunk_nb le d = ?z"
    proof (cases "cs = []")
      case True
      with d show ?thesis by (simp add: put_def)
    next
      case False
      with zi pos have zz: "?z = sc_chunksize schunk" "0 < sc_chunksize schunk" "\<not> chunk_nb le (last cs) < sc_chunksize schunk"
        "int n \<noteq> int (length cs) \<longrightarrow> chunk_nb le chunk = sc_chunksize schunk"
        by (auto simp: settled_def split: if_splits)
      have all: "chunk_nb le e = sc_chunksize schunk" if "e \<in> set cs" for e
      proof (cases "e \<in> set (butlast cs)")
        case True
        with reg zz show ?thesis by (simp add: regular_def)
      next
        case nb: False
        with that have "e = last cs" using False by (metis append_butlast_last_id in_set_conv_decomp_last insert_iff list.set(2) not_in_set_insert rotate1.simps(2) set_rotate1)
        with zz zi False that show ?thesis by (metis last_in_set linorder_not_less order_antisym)
      qed
      show ?thesis
      proof (cases "n = length cs")
        case True
        with d all zz show ?thesis by simp
      next
        case False
        with d all zz c(1) show ?thesis by (auto dest!: in_set_butlastD)
      qed
    qed
  qed
qed

lemma shift_up_eq:
  assumes "N < length data" "n \<le> N"
  shows "\<exists>data'. shift_up n N data = Some data' \<and> length data' = length data \<and>
    (\<forall>i<length data. data' ! i = (if n < i \<and> i \<le> N then data ! (i - 1) else data ! i))"
proof -
  let ?I = "\<lambda>k d. length d = length data \<and>
    (\<forall>i<length data. d ! i = (if N - k < i \<and> i \<le> N then data ! (i - 1) else data ! i))"
  have "\<exists>d. shift_up n N data = Some d \<and> ?I (N - n) d"
    unfolding shift_up_def
  proof (rule for_range_invariant)
    fix k d assume k: "k < N - n" and I: "?I k d"
    have i: "N - k - 1 < length d" "N - k < length d" using I k assms by auto
    show "\<exists>d'. (load d (N - k - 1) \<bind> store d (N - k)) = Some d' \<and> ?I (Suc k) d'"
      using i I k by (auto simp: load_Some store_Some nth_list_update Suc_diff_Suc not_less_eq)
  qed auto
  moreover have "N - (N - n) = n" using assms(2) by simp
  ultimately show ?thesis by simp
qed

lemma length_extend_data: "int (length (sc_data schunk)) \<ge> sc_nchunks schunk \<Longrightarrow> int (length (extend_data schunk)) > sc_nchunks schunk"
  by (simp add: extend_data_def)

lemma nth_extend_data: "i < length (sc_data schunk) \<Longrightarrow> extend_data schunk ! i = sc_data schunk ! i"
  by (simp add: extend_data_def nth_append)

text \<open>The counters move by \<open>nbytes\<close> and \<open>cbytes\<close>; the settings, contexts and metalayers stay.\<close>

definition same_setup :: "schunk \<Rightarrow> schunk \<Rightarrow> bool" where
  "same_setup schunk schunk' \<longleftrightarrow> sc_typesize schunk' = sc_typesize schunk \<and> sc_cctx schunk' = sc_cctx schunk \<and>
    sc_dctx schunk' = sc_dctx schunk \<and> sc_metalayers schunk' = sc_metalayers schunk \<and> sc_vlmetalayers schunk' = sc_vlmetalayers schunk"

definition counts :: "schunk \<Rightarrow> schunk \<Rightarrow> int \<Rightarrow> int \<Rightarrow> bool" where
  "counts schunk schunk' nbytes cbytes \<longleftrightarrow>
    sc_nbytes schunk' = sc_nbytes schunk + nbytes \<and> sc_cbytes schunk' = sc_cbytes schunk + cbytes \<and> same_setup schunk schunk'"

lemma insert_refines:
  assumes inv: "schunk_inv le schunk cs" and ok: "chunk_ok le chunk" and room: "room schunk 1" and n: "n \<le> length cs"
  shows "\<exists>rc schunk'. blosc2_schunk_insert_chunk le schunk (int n) chunk copy = Some (rc, schunk') \<and>
    (if refused le schunk cs chunk
     then rc = BLOSC2_ERROR_CHUNK_INSERT \<and> (\<exists>flags2. schunk' = schunk\<lparr> sc_flags2 := flags2 \<rparr>)
     else rc = int (length cs) + 1 \<and> counts schunk schunk' (chunk_nb le chunk) (chunk_cb le chunk) \<and> (\<exists>owned. content le owned = content le chunk \<and> schunk_inv le schunk' (put n owned cs) \<and>
       (regular le schunk cs \<longrightarrow> regular le schunk' (put n owned cs))))"
proof (cases "refused le schunk cs chunk")
  case True
  have v: "validate_nchunk schunk (int n) True = 0" using n inv by (simp add: validate_nchunk_def schunk_inv_def holds_def)
  show ?thesis
    using True take_in_chunk_refused[OF inv ok _ True, of BLOSC2_ERROR_CHUNK_INSERT "int n" copy] v
    by (auto simp: blosc2_schunk_insert_chunk_def)
next
  case False
  have v: "validate_nchunk schunk (int n) True = 0" using n inv by (simp add: validate_nchunk_def schunk_inv_def holds_def)
  have hold: "holds schunk cs" and N: "sc_nchunks schunk = int (length cs)" using inv by (simp_all add: schunk_inv_def holds_def)
  obtain flags2 owned where t: "take_in_chunk le schunk (int n) chunk copy BLOSC2_ERROR_CHUNK_INSERT = Some (0, taken le schunk cs (int n) chunk flags2, owned)"
    and o: "chunk_ok le owned" "chunk_nb le owned = chunk_nb le chunk" "chunk_cb le owned = chunk_cb le chunk"
    "chunk_vl le owned = chunk_vl le chunk" "content le owned = content le chunk"
    by (rule take_in_chunk_accepted[OF inv ok False room])
  have ext: "length cs < length (extend_data schunk)"
    using length_extend_data[of schunk] holds_length[OF hold] N by simp
  obtain data where d: "shift_up n (length cs) (extend_data schunk) = Some data" "length data = length (extend_data schunk)"
    "\<forall>i<length data. data ! i = (if n < i \<and> i \<le> length cs then extend_data schunk ! (i - 1) else extend_data schunk ! i)"
    using shift_up_eq[OF ext n] by auto
  let ?s = "(taken le schunk cs (int n) chunk flags2)\<lparr> sc_data := data[n := Chunk owned] \<rparr>"
  have r: "blosc2_schunk_insert_chunk le schunk (int n) chunk copy = Some (int (length cs) + 1, ?s)"
    using v t d n ext by (simp add: blosc2_schunk_insert_chunk_def taken_def N store_Some)
  have h: "holds ?s (put n owned cs)"
  proof (rule holdsI)
    fix i assume i: "i < length (put n owned cs)"
    have "extend_data schunk ! j = Chunk (cs ! j)" if "j < length cs" for j
      using holds_nth[OF hold that] by (simp add: nth_extend_data)
    then show "sc_data ?s ! i = Chunk (put n owned cs ! i)"
      using d ext n i by (auto simp: nth_put nth_list_update)
  qed (use d ext N in \<open>simp_all add: taken_def\<close>)
  show ?thesis
    using False r o(5) accepted_inv[OF inv o(1) False o(2-4) n _ _ _ h] by (auto simp: taken_def counts_def same_setup_def)
qed

lemma append_refines:
  assumes inv: "schunk_inv le schunk cs" and ok: "chunk_ok le chunk" and room: "room schunk 1"
  shows "\<exists>rc schunk'. blosc2_schunk_append_chunk le schunk chunk copy = Some (rc, schunk') \<and>
    (if refused le schunk cs chunk
     then rc = BLOSC2_ERROR_CHUNK_APPEND \<and> (\<exists>flags2. schunk' = schunk\<lparr> sc_flags2 := flags2 \<rparr>)
     else rc = int (length cs) + 1 \<and> counts schunk schunk' (chunk_nb le chunk) (chunk_cb le chunk) \<and> (\<exists>owned. content le owned = content le chunk \<and> schunk_inv le schunk' (cs @ [owned]) \<and>
       (regular le schunk cs \<longrightarrow> regular le schunk' (cs @ [owned]))))"
proof (cases "refused le schunk cs chunk")
  case True
  show ?thesis
    using True take_in_chunk_refused[OF inv ok _ True, of BLOSC2_ERROR_CHUNK_APPEND "sc_nchunks schunk" copy]
    by (auto simp: blosc2_schunk_append_chunk_def)
next
  case False
  have hold: "holds schunk cs" and N: "sc_nchunks schunk = int (length cs)" using inv by (simp_all add: schunk_inv_def holds_def)
  obtain flags2 owned where t: "take_in_chunk le schunk (int (length cs)) chunk copy BLOSC2_ERROR_CHUNK_APPEND = Some (0, taken le schunk cs (int (length cs)) chunk flags2, owned)"
    and o: "chunk_ok le owned" "chunk_nb le owned = chunk_nb le chunk" "chunk_cb le owned = chunk_cb le chunk"
    "chunk_vl le owned = chunk_vl le chunk" "content le owned = content le chunk"
    by (rule take_in_chunk_accepted[OF inv ok False room])
  have ext: "length cs < length (extend_data schunk)"
    using length_extend_data[of schunk] holds_length[OF hold] N by simp
  let ?s = "(taken le schunk cs (int (length cs)) chunk flags2)\<lparr> sc_data := (extend_data schunk)[length cs := Chunk owned] \<rparr>"
  have r: "blosc2_schunk_append_chunk le schunk chunk copy = Some (int (length cs) + 1, ?s)"
    using t ext by (simp add: blosc2_schunk_append_chunk_def taken_def Let_def N store_Some)
  have h: "holds ?s (put (length cs) owned cs)"
  proof (rule holdsI)
    fix i assume i: "i < length (put (length cs) owned cs)"
    have "extend_data schunk ! j = Chunk (cs ! j)" if "j < length cs" for j
      using holds_nth[OF hold that] by (simp add: nth_extend_data)
    then show "sc_data ?s ! i = Chunk (put (length cs) owned cs ! i)"
      using ext i by (auto simp: nth_put nth_list_update nth_append)
  qed (use ext N in \<open>simp_all add: taken_def\<close>)
  show ?thesis
    using False r o(5) accepted_inv[OF inv o(1) False o(2-4) _ _ _ _ h] by (auto simp: taken_def counts_def same_setup_def)
qed

section \<open>Reading, replacing and deleting\<close>

lemma get_eq:
  assumes h: "holds schunk cs" and ok: "chunk_ok le (cs ! n)" and n: "n < length cs"
  shows "blosc2_schunk_get_chunk le schunk (int n) =
    Some (chunk_cb le (cs ! n), Some (cs ! n), schunk\<lparr> sc_current_nchunk := int n \<rparr>)"
proof -
  have N: "sc_nchunks schunk = int (length cs)" using h by (simp add: holds_def)
  obtain bs flags2 where "blosc2_cbuffer_sizes le (cs ! n) = Some (0, chunk_nb le (cs ! n), chunk_cb le (cs ! n), bs)"
    by (rule chunk_okE[OF ok])
  then show ?thesis
    using holds_nth[OF h n] n by (simp add: blosc2_schunk_get_chunk_def validate_nchunk_def N load_Some)
qed

lemma get_refines: "schunk_inv le schunk cs \<Longrightarrow> n < length cs \<Longrightarrow> blosc2_schunk_get_chunk le schunk (int n) =
    Some (chunk_cb le (cs ! n), Some (cs ! n), schunk\<lparr> sc_current_nchunk := int n \<rparr>)"
  by (rule get_eq) (simp_all add: schunk_inv_def)

definition counted :: "bool \<Rightarrow> buf \<Rightarrow> int" where
  "counted le chunk = (if chunk_cb le chunk = BLOSC2_MAX_OVERHEAD then 0 else chunk_cb le chunk)"

lemma old_sizes_eq: "chunk_ok le c \<Longrightarrow> old_sizes le (Some c) = Some (0, chunk_nb le c, counted le c)"
  by (erule chunk_okE) (simp add: old_sizes_def counted_def)

lemma total_split: "n < length cs \<Longrightarrow> total f cs = total f (take n cs) + f (cs ! n) + total f (drop (Suc n) cs)"
  by (subst id_take_nth_drop[of n cs]) simp_all

lemma total_list_update: "n < length cs \<Longrightarrow> total f (cs[n := c]) = total f cs - f (cs ! n) + f c"
  using total_split[of n cs f] by (simp add: upd_conv_take_nth_drop)

text \<open>What the chunk that goes was counted for is covered by the counters.\<close>

lemma old_counts:
  assumes inv: "schunk_inv le schunk cs" and n: "n < length cs"
  shows "0 \<le> counted le (cs ! n)" "counted le (cs ! n) \<le> chunk_cb le (cs ! n)"
    "chunk_nb le (cs ! n) \<le> sc_nbytes schunk" "chunk_cb le (cs ! n) \<le> sc_cbytes schunk"
    "0 \<le> chunk_nb le (cs ! n)"
proof -
  have b: "0 \<le> chunk_nb le c \<and> 16 \<le> chunk_cb le c" if "c \<in> set cs" for c
  proof -
    have "chunk_ok le c" using inv that by (simp add: schunk_inv_def)
    then show ?thesis by (rule chunk_okE) simp
  qed
  then have "0 \<le> chunk_nb le (cs ! n)" "16 \<le> chunk_cb le (cs ! n)" using n by simp_all
  then show "0 \<le> counted le (cs ! n)" "counted le (cs ! n) \<le> chunk_cb le (cs ! n)" "0 \<le> chunk_nb le (cs ! n)"
    by (simp_all add: counted_def)
  have "0 \<le> total (chunk_nb le) (take n cs)" "0 \<le> total (chunk_nb le) (drop (Suc n) cs)"
    "0 \<le> total (chunk_cb le) (take n cs)" "0 \<le> total (chunk_cb le) (drop (Suc n) cs)"
    using b by (intro total_nonneg; fastforce dest: in_set_takeD in_set_dropD)+
  then show "chunk_nb le (cs ! n) \<le> sc_nbytes schunk" "chunk_cb le (cs ! n) \<le> sc_cbytes schunk"
    using inv total_split[OF n, of "chunk_nb le"] total_split[OF n, of "chunk_cb le"] by (simp_all add: schunk_inv_def)
qed

text \<open>An update is refused when another chunk of the super-chunk has another kind of blocks.\<close>

definition update_refused :: "bool \<Rightarrow> buf list \<Rightarrow> nat \<Rightarrow> buf \<Rightarrow> bool" where
  "update_refused le cs n chunk \<longleftrightarrow>
    1 < length cs \<and> chunk_vl le (cs ! (if n = 0 then 1 else 0)) \<noteq> chunk_vl le chunk"

definition update_size :: "int \<Rightarrow> nat \<Rightarrow> nat \<Rightarrow> int \<Rightarrow> int" where
  "update_size chunksize nchunks n nbytes =
    (if chunksize < nbytes \<or> n \<noteq> nchunks - 1 \<and> nbytes \<noteq> chunksize then 0 else chunksize)"

definition updated :: "bool \<Rightarrow> schunk \<Rightarrow> buf list \<Rightarrow> nat \<Rightarrow> buf \<Rightarrow> byte \<Rightarrow> buf \<Rightarrow> schunk" where
  "updated le schunk cs n chunk flags2 owned = schunk\<lparr> sc_flags2 := flags2,
     sc_chunksize := update_size (sc_chunksize schunk) (length cs) n (chunk_nb le chunk), sc_current_nchunk := int n,
     sc_nbytes := sc_nbytes schunk + chunk_nb le chunk - chunk_nb le (cs ! n),
     sc_cbytes := sc_cbytes schunk + chunk_cb le chunk - counted le (cs ! n), sc_data := (sc_data schunk)[n := Chunk owned] \<rparr>"

lemma update_chunk_eq:
  assumes inv: "schunk_inv le schunk cs" and ok: "chunk_ok le chunk" and room: "room schunk 1" and n: "n < length cs"
  shows "\<exists>flags2 owned. content le owned = content le chunk \<and> chunk_ok le owned \<and> chunk_nb le owned = chunk_nb le chunk \<and>
    chunk_cb le owned = chunk_cb le chunk \<and> chunk_vl le owned = chunk_vl le chunk \<and>
    blosc2_schunk_update_chunk le schunk (int n) chunk copy = Some (
      if update_refused le cs n chunk then (BLOSC2_ERROR_CHUNK_UPDATE, schunk)
      else (int (length cs), updated le schunk cs n chunk flags2 owned))"
proof -
  have hold: "holds schunk cs" and N: "sc_nchunks schunk = int (length cs)" and z: "0 \<le> sc_chunksize schunk"
    and ok': "chunk_ok le (cs ! n)"
    using inv n by (auto simp: schunk_inv_def holds_def)
  have v: "validate_nchunk schunk (int n) False = 0" using n by (simp add: validate_nchunk_def N)
  obtain bs flags2 where s: "blosc2_cbuffer_sizes le chunk = Some (0, chunk_nb le chunk, chunk_cb le chunk, bs)"
    "get_chunk_flags2 chunk (chunk_cb le chunk) = Some flags2" "chunk_vl le chunk = (flags2 AND BLOSC2_VL_BLOCKS \<noteq> 0)"
    and b: "0 \<le> chunk_nb le chunk" "chunk_nb le chunk < 2 ^ 31" "16 \<le> chunk_cb le chunk" "chunk_cb le chunk < 2 ^ 31"
    by (rule chunk_okE[OF ok])
  obtain owned where o: "own_chunk copy chunk (chunk_nb le chunk) (chunk_cb le chunk) = Some owned" "chunk_ok le owned"
    "chunk_nb le owned = chunk_nb le chunk" "chunk_cb le owned = chunk_cb le chunk" "chunk_vl le owned = chunk_vl le chunk"
    "content le owned = content le chunk" by (rule own_chunk_content[OF ok])
  let ?f = "if 1 < length cs then sc_flags2 schunk else flags2"
  have vl: "(if 1 < length cs then check_vlblocks le schunk (if n = 0 then 1 else 0) flags2 BLOSC2_ERROR_CHUNK_UPDATE else Some 0) =
      Some (if update_refused le cs n chunk then BLOSC2_ERROR_CHUNK_UPDATE else 0)"
    using check_vlblocks_at[OF inv, of "if n = 0 then 1 else 0" flags2 BLOSC2_ERROR_CHUNK_UPDATE] s(3)
    by (cases "n = 0"; cases "1 < length cs"; cases "cs = []") (auto simp: update_refused_def)
  show ?thesis
  proof (cases "update_refused le cs n chunk")
    case True
    then have "1 < length cs" by (simp add: update_refused_def)
    with v s(1,2) vl True have "blosc2_schunk_update_chunk le schunk (int n) chunk copy = Some (BLOSC2_ERROR_CHUNK_UPDATE, schunk)"
      by (simp add: blosc2_schunk_update_chunk_def N)
    with True o show ?thesis by auto
  next
    case False
    have g: "blosc2_schunk_get_chunk le s (int n) = Some (chunk_cb le (cs ! n), Some (cs ! n), s\<lparr> sc_current_nchunk := int n \<rparr>)"
      if "sc_nchunks s = int (length cs)" "sc_data s = sc_data schunk" for s
      using that hold ok' n by (intro get_eq) (simp_all add: holds_def)
    have cb: "0 \<le> chunk_cb le (cs ! n)" using old_counts[OF inv n] by simp
    have i: "i64 (sc_nbytes schunk + chunk_nb le chunk) = Some (sc_nbytes schunk + chunk_nb le chunk)"
      "i64 (sc_cbytes schunk + chunk_cb le chunk) = Some (sc_cbytes schunk + chunk_cb le chunk)"
      "i64 (sc_nbytes schunk + chunk_nb le chunk - chunk_nb le (cs ! n)) = Some (sc_nbytes schunk + chunk_nb le chunk - chunk_nb le (cs ! n))"
      "i64 (sc_cbytes schunk + chunk_cb le chunk - counted le (cs ! n)) = Some (sc_cbytes schunk + chunk_cb le chunk - counted le (cs ! n))"
      using old_counts[OF inv n] room b by (simp_all add: room_def i64_def)
    have st: "store (sc_data schunk) n (Chunk owned) = Some ((sc_data schunk)[n := Chunk owned])"
      using holds_nth[OF hold n] by (simp add: store_Some)
    show ?thesis
    proof (intro exI[of _ ?f] exI[of _ owned] conjI o)
      have others: "(int (length cs) > 1 \<or> int (length cs) = 1 \<and> int n \<noteq> 0) = (1 < length cs)" using n by auto
      have ref: "(if int n = 0 then 1 else 0 :: int) = (if n = 0 then 1 else 0)" by simp
      define p where "p \<longleftrightarrow> n \<noteq> length cs - 1"
      have last: "int n = int (length cs) - 1 \<longleftrightarrow> \<not> p" using n by (auto simp: p_def)
      have "sc_chunksize schunk \<noteq> - 1" using z by simp
      then have "blosc2_schunk_update_chunk le schunk (int n) chunk copy =
          Some (int (length cs), updated le schunk cs n chunk ?f owned)"
        using v s(1,2) vl False z g i st o(1) cb old_sizes_eq[OF ok'] b
        unfolding blosc2_schunk_update_chunk_def N others ref Let_def updated_def update_size_def p_def[symmetric]
        by (cases "sc_chunksize schunk = 0"; cases "1 < length cs"; cases "sc_chunksize schunk < chunk_nb le chunk";
            cases p; cases "chunk_nb le chunk = sc_chunksize schunk")
          (simp_all add: N last)
      with False show "blosc2_schunk_update_chunk le schunk (int n) chunk copy = Some (
          if update_refused le cs n chunk then (BLOSC2_ERROR_CHUNK_UPDATE, schunk)
          else (int (length cs), updated le schunk cs n chunk ?f owned))" by simp
    qed
  qed
qed

lemma update_refines:
  assumes inv: "schunk_inv le schunk cs" and ok: "chunk_ok le chunk" and room: "room schunk 1" and n: "n < length cs"
  shows "\<exists>rc schunk'. blosc2_schunk_update_chunk le schunk (int n) chunk copy = Some (rc, schunk') \<and>
    (if update_refused le cs n chunk then rc = BLOSC2_ERROR_CHUNK_UPDATE \<and> schunk' = schunk
     else rc = int (length cs) \<and>
       counts schunk schunk' (chunk_nb le chunk - chunk_nb le (cs ! n)) (chunk_cb le chunk - counted le (cs ! n)) \<and> (\<exists>owned. content le owned = content le chunk \<and> schunk_inv le schunk' (cs[n := owned]) \<and>
       (regular le schunk cs \<longrightarrow> regular le schunk' (cs[n := owned]))))"
proof (cases "update_refused le cs n chunk")
  case True
  with update_chunk_eq[OF assms] show ?thesis by auto
next
  case False
  have hold: "holds schunk cs" and z: "0 \<le> sc_chunksize schunk" using inv n by (auto simp: schunk_inv_def)
  obtain flags2 owned where o: "content le owned = content le chunk" "chunk_ok le owned" "chunk_nb le owned = chunk_nb le chunk"
    "chunk_cb le owned = chunk_cb le chunk" "chunk_vl le owned = chunk_vl le chunk"
    and r: "blosc2_schunk_update_chunk le schunk (int n) chunk copy = Some (int (length cs), updated le schunk cs n chunk flags2 owned)"
    using update_chunk_eq[OF assms, of copy] False by auto
  let ?s = "updated le schunk cs n chunk flags2 owned"
  have h: "holds ?s (cs[n := owned])"
  proof (rule holdsI)
    show "sc_nchunks ?s = int (length (cs[n := owned]))" using hold by (simp add: updated_def holds_def)
    show "length (cs[n := owned]) \<le> length (sc_data ?s)" using holds_length[OF hold] by (simp add: updated_def)
    show "sc_data ?s ! i = Chunk (cs[n := owned] ! i)" if "i < length (cs[n := owned])" for i
      using that holds_nth[OF hold, of i] by (cases "i = n") (simp_all add: updated_def)
  qed
  have upd: "e = owned \<or> e \<in> set cs" if "e \<in> set (cs[n := owned])" for e
    using that set_update_subset_insert[of cs n owned] by auto
  have kind: "same_kind le (cs[n := owned])"
  proof (cases "1 < length cs")
    case True
    then have "chunk_vl le (cs ! (if n = 0 then 1 else 0)) = chunk_vl le owned" "cs ! (if n = 0 then 1 else 0) \<in> set cs"
      using False o(5) by (auto simp: update_refused_def intro!: nth_mem)
    then have "chunk_vl le d = chunk_vl le owned" if "d \<in> set cs" for d
      using that inv unfolding schunk_inv_def same_kind_def by metis
    then have "chunk_vl le d = chunk_vl le owned" if "d \<in> set (cs[n := owned])" for d
      using upd[OF that] by auto
    moreover have "hd (cs[n := owned]) \<in> set (cs[n := owned])" by (rule hd_in_set) (use n in auto)
    ultimately show ?thesis unfolding same_kind_def by metis
  next
    case False
    with n show ?thesis by (cases cs) (auto simp: same_kind_def)
  qed
  have "schunk_inv le ?s (cs[n := owned])"
    unfolding schunk_inv_def
  proof (intro conjI)
    show "\<forall>c\<in>set (cs[n := owned]). chunk_ok le c" using upd o(2) inv by (auto simp: schunk_inv_def)
    show "sc_nbytes ?s = total (chunk_nb le) (cs[n := owned])" "total (chunk_cb le) (cs[n := owned]) \<le> sc_cbytes ?s"
      using inv o(3,4) old_counts[OF inv n] by (simp_all add: total_list_update[OF n] updated_def schunk_inv_def)
    show "- 1 \<le> sc_chunksize ?s" "sc_chunksize ?s = - 1 \<longrightarrow> cs[n := owned] = []"
      using z by (simp_all add: updated_def update_size_def)
    show "0 < sc_chunksize ?s \<longrightarrow> (\<forall>c\<in>set (cs[n := owned]). chunk_nb le c \<le> sc_chunksize ?s)"
      using inv upd o(3) by (fastforce simp: updated_def update_size_def schunk_inv_def)
  qed (fact h kind)+
  moreover have "regular le ?s (cs[n := owned])" if "regular le schunk cs"
    using that o(3) set_update_subset_insert[of "butlast cs" n owned]
    by (auto simp: regular_def updated_def update_size_def butlast_list_update split: if_splits)
  ultimately show ?thesis using False r o(1) by (auto simp: counts_def same_setup_def updated_def)
qed

text \<open>Taking the chunk at \<open>n\<close> out of the list.\<close>

definition del :: "nat \<Rightarrow> 'a list \<Rightarrow> 'a list" where
  "del n xs = take n xs @ drop (Suc n) xs"

lemma set_del: "set (del n xs) \<subseteq> set xs"
  by (auto simp: del_def dest: in_set_takeD in_set_dropD)

lemma length_del: "n < length xs \<Longrightarrow> length (del n xs) = length xs - 1"
  by (simp add: del_def)

lemma nth_del: "n < length xs \<Longrightarrow> i < length xs - 1 \<Longrightarrow> del n xs ! i = (if i < n then xs ! i else xs ! (i + 1))"
  by (simp add: del_def nth_append)

lemma map_del: "map f (del n xs) = del n (map f xs)"
  by (simp add: del_def take_map drop_map)

lemma butlast_del: "n < length xs \<Longrightarrow> set (butlast (del n xs)) \<subseteq> set (butlast xs)"
proof
  fix x assume n: "n < length xs" and x: "x \<in> set (butlast (del n xs))"
  then obtain i where i: "i < length xs - Suc (Suc 0)" "x = del n xs ! i"
    by (auto simp: in_set_conv_nth length_del nth_butlast)
  with n have "x = butlast xs ! i \<or> x = butlast xs ! (i + 1)" by (simp add: nth_del nth_butlast)
  with i show "x \<in> set (butlast xs)" by (auto intro: nth_mem)
qed

lemma shift_down_eq:
  assumes "N < length data"
  shows "\<exists>data'. shift_down n N data = Some data' \<and> length data' = length data \<and>
    (\<forall>i<length data. data' ! i = (if n \<le> i \<and> i < N then data ! (i + 1) else data ! i))"
proof (cases "n \<le> N")
  case True
  let ?I = "\<lambda>k d. length d = length data \<and> (\<forall>i<length data. d ! i = (if n \<le> i \<and> i < k then data ! (i + 1) else data ! i))"
  show ?thesis
    unfolding shift_down_def
  proof (rule for_range_invariant[OF True])
    fix k d assume k: "n \<le> k" "k < N" and I: "?I k d"
    then show "\<exists>d'. (load d (k + 1) \<bind> store d k) = Some d' \<and> ?I (Suc k) d'"
      using assms by (auto simp: load_Some store_Some nth_list_update less_Suc_eq)
  qed auto
qed (auto simp: shift_down_def)

lemma delete_refines:
  assumes inv: "schunk_inv le schunk cs" and room: "room schunk 0" and n: "n < length cs"
  shows "\<exists>schunk'. blosc2_schunk_delete_chunk le schunk (int n) = Some (int (length cs) - 1, schunk') \<and>
    counts schunk schunk' (- chunk_nb le (cs ! n)) (- counted le (cs ! n)) \<and>
    schunk_inv le schunk' (del n cs) \<and> (regular le schunk cs \<longrightarrow> regular le schunk' (del n cs))"
proof -
  have hold: "holds schunk cs" and N: "sc_nchunks schunk = int (length cs)" and z: "0 \<le> sc_chunksize schunk"
    and ok: "chunk_ok le (cs ! n)"
    using inv n by (auto simp: schunk_inv_def holds_def)
  note old = old_counts[OF inv n]
  have v: "validate_nchunk schunk (int n) False = 0" using n by (simp add: validate_nchunk_def N)
  have len: "length cs \<le> length (sc_data schunk)" by (rule holds_length[OF hold])
  with n have "length cs - 1 < length (sc_data schunk)" by linarith
  then obtain data where d: "shift_down n (length cs - 1) (sc_data schunk) = Some data" "length data = length (sc_data schunk)"
    "\<forall>i<length data. data ! i = (if n \<le> i \<and> i < length cs - 1 then sc_data schunk ! (i + 1) else sc_data schunk ! i)"
    using shift_down_eq[of "length cs - 1" "sc_data schunk" n] by auto
  have i: "i64 (sc_nbytes schunk - chunk_nb le (cs ! n)) = Some (sc_nbytes schunk - chunk_nb le (cs ! n))"
    "i64 (sc_cbytes schunk - counted le (cs ! n)) = Some (sc_cbytes schunk - counted le (cs ! n))"
    using old room by (simp_all add: room_def i64_def)
  let ?s = "schunk\<lparr> sc_current_nchunk := int n, sc_nchunks := int (length cs) - 1,
     sc_flags2 := (if length cs = 1 then 0 else sc_flags2 schunk), sc_nbytes := sc_nbytes schunk - chunk_nb le (cs ! n),
     sc_cbytes := sc_cbytes schunk - counted le (cs ! n), sc_data := data[length cs - 1 := NullSlot] \<rparr>"
  have "nat (int (length cs) - 1) = length cs - 1" "int (length cs) - 1 = 0 \<longleftrightarrow> length cs = 1" by auto
  moreover have "0 \<le> chunk_cb le (cs ! n)" using old by simp
  ultimately have r: "blosc2_schunk_delete_chunk le schunk (int n) = Some (int (length cs) - 1, ?s)"
    using v get_refines[OF inv n] old_sizes_eq[OF ok] i d n len
    by (simp add: blosc2_schunk_delete_chunk_def Let_def N store_Some)
  have h: "holds ?s (del n cs)"
  proof (rule holdsI)
    show "sc_nchunks ?s = int (length (del n cs))" using n by (simp add: length_del of_nat_diff)
    show "length (del n cs) \<le> length (sc_data ?s)" using n len d by (simp add: length_del)
    show "sc_data ?s ! i = Chunk (del n cs ! i)" if "i < length (del n cs)" for i
      using that n len d holds_nth[OF hold] by (simp add: length_del nth_del nth_list_update)
  qed
  have kind: "same_kind le (del n cs)"
  proof (cases "del n cs")
    case (Cons e es)
    then have "e \<in> set cs" using set_del[of n cs] by auto
    then show ?thesis using inv set_del[of n cs] Cons by (auto simp: schunk_inv_def same_kind_def)
  qed (simp add: same_kind_def)
  have t: "total f (del n cs) = total f cs - f (cs ! n)" for f
    using total_split[OF n, of f] by (simp add: del_def)
  have "schunk_inv le ?s (del n cs)"
    unfolding schunk_inv_def
  proof (intro conjI)
    show "\<forall>c\<in>set (del n cs). chunk_ok le c" using set_del[of n cs] inv by (auto simp: schunk_inv_def)
    show "sc_nbytes ?s = total (chunk_nb le) (del n cs)" "total (chunk_cb le) (del n cs) \<le> sc_cbytes ?s"
      using inv old by (simp_all add: t schunk_inv_def)
    show "- 1 \<le> sc_chunksize ?s" "sc_chunksize ?s = - 1 \<longrightarrow> del n cs = []" using z by simp_all
    show "0 < sc_chunksize ?s \<longrightarrow> (\<forall>c\<in>set (del n cs). chunk_nb le c \<le> sc_chunksize ?s)"
      using inv set_del[of n cs] by (auto simp: schunk_inv_def)
  qed (fact h kind)+
  moreover have "regular le ?s (del n cs)" if "regular le schunk cs"
    using that butlast_del[OF n] by (auto simp: regular_def)
  moreover have "counts schunk ?s (- chunk_nb le (cs ! n)) (- counted le (cs ! n))" by (simp add: counts_def same_setup_def)
  ultimately show ?thesis using r by blast
qed

section \<open>Reordering\<close>

text \<open>The orders that are accepted: one index for each chunk, and none twice.\<close>

definition is_order :: "int list \<Rightarrow> nat \<Rightarrow> bool" where
  "is_order order n \<longleftrightarrow> (\<forall>x\<in>set (take n order). 0 \<le> x \<and> x < int n) \<and> distinct (take n order)"

definition permuted :: "int list \<Rightarrow> 'a list \<Rightarrow> 'a list" where
  "permuted order xs = map (\<lambda>i. xs ! nat (order ! i)) [0..<length xs]"

lemma check_offsets_eq:
  assumes "i + n \<le> length order"
  shows "check_offsets n i (int (length check)) order check =
    Some (if (\<forall>x\<in>set (take n (drop i order)). 0 \<le> x \<and> x < int (length check) \<and> \<not> check ! nat x) \<and>
             distinct (take n (drop i order)) then 0 else BLOSC2_ERROR_DATA)"
  using assms
proof (induction n arbitrary: i check)
  case 0
  then show ?case by simp
next
  case (Suc n)
  let ?x = "order ! i" and ?xs = "take n (drop (Suc i) order)"
  have t: "take (Suc n) (drop i order) = ?x # ?xs" using Suc.prems by (simp add: Cons_nth_drop_Suc[symmetric])
  show ?case
  proof (cases "0 \<le> ?x \<and> ?x < int (length check) \<and> \<not> check ! nat ?x")
    case False
    with Suc.prems show ?thesis unfolding t by (auto simp: load_def)
  next
    case True
    have marks: "check[nat ?x := True] ! nat x \<longleftrightarrow> x = ?x \<or> check ! nat x" if "0 \<le> x" "x < int (length check)" for x
      using that True by (auto simp: nth_list_update eq_nat_nat_iff split: if_splits)
    have "check_offsets n (Suc i) (int (length check)) order (check[nat ?x := True]) =
      Some (if (\<forall>x\<in>set ?xs. 0 \<le> x \<and> x < int (length check) \<and> \<not> check[nat ?x := True] ! nat x) \<and> distinct ?xs
            then 0 else BLOSC2_ERROR_DATA)"
      using Suc.IH[of "Suc i" "check[nat ?x := True]"] Suc.prems by simp
    moreover have "(\<forall>x\<in>set ?xs. 0 \<le> x \<and> x < int (length check) \<and> \<not> check[nat ?x := True] ! nat x) \<longleftrightarrow>
        (\<forall>x\<in>set ?xs. 0 \<le> x \<and> x < int (length check) \<and> \<not> check ! nat x) \<and> ?x \<notin> set ?xs"
      using marks True by blast
    ultimately show ?thesis using True Suc.prems unfolding t by (auto simp: load_def store_def)
  qed
qed

lemma check_order:
  assumes "n \<le> length order"
  shows "check_offsets n 0 (int n) order (replicate n False) = Some (if is_order order n then 0 else BLOSC2_ERROR_DATA)"
proof -
  have "(0 \<le> x \<and> x < int n \<and> \<not> replicate n False ! nat x) = (0 \<le> x \<and> x < int n)" for x by auto
  then show ?thesis
    using check_offsets_eq[of 0 n order "replicate n False"] assms by (simp add: is_order_def)
qed

lemma is_order_bij:
  assumes "is_order order n" "n \<le> length order"
  shows "bij_betw (\<lambda>i. nat (order ! i)) {..<n} {..<n}"
proof -
  have nth: "0 \<le> order ! i \<and> order ! i < int n" if "i < n" for i
  proof -
    have "take n order ! i \<in> set (take n order)" by (rule nth_mem) (use that assms(2) in simp)
    with that assms(1) show ?thesis by (auto simp: is_order_def)
  qed
  have "inj_on (\<lambda>i. nat (order ! i)) {..<n}"
  proof (rule inj_onI)
    fix i j assume ij: "i \<in> {..<n}" "j \<in> {..<n}" "nat (order ! i) = nat (order ! j)"
    then have "take n order ! i = take n order ! j" using nth[of i] nth[of j] by (simp add: eq_nat_nat_iff)
    with ij assms show "i = j" using nth_eq_iff_index_eq[of "take n order" i j] by (simp add: is_order_def)
  qed
  moreover have "(\<lambda>i. nat (order ! i)) ` {..<n} \<subseteq> {..<n}" using nth by (auto simp: nat_less_iff)
  ultimately show ?thesis by (simp add: bij_betw_def endo_inj_surj)
qed

lemma total_permuted:
  assumes "is_order order (length cs)" "length cs \<le> length order"
  shows "total f (permuted order cs) = total f cs" "set (permuted order cs) = set cs"
proof -
  have bij: "bij_betw (\<lambda>i. nat (order ! i)) {..<length cs} {..<length cs}" by (rule is_order_bij[OF assms])
  have "total f (permuted order cs) = (\<Sum>i<length cs. f (cs ! nat (order ! i)))"
    by (simp add: total_def permuted_def comp_def interv_sum_list_conv_sum_set_nat atLeast0LessThan)
  also have "\<dots> = (\<Sum>i<length cs. f (cs ! i))" by (rule sum.reindex_bij_betw[OF bij])
  also have "\<dots> = total f cs" by (simp add: total_def sum_list_sum_nth atLeast0LessThan)
  finally show "total f (permuted order cs) = total f cs" .
  have "set (permuted order cs) = (\<lambda>i. cs ! i) ` ((\<lambda>i. nat (order ! i)) ` {..<length cs})"
    by (auto simp: permuted_def)
  also have "\<dots> = set cs" unfolding bij_betw_imp_surj_on[OF bij] by (auto simp: set_conv_nth)
  finally show "set (permuted order cs) = set cs" .
qed

lemma reorder_refines:
  assumes inv: "schunk_inv le schunk cs" and len: "length cs \<le> length order"
  shows "\<exists>schunk'. blosc2_schunk_reorder_offsets schunk order =
      Some (if is_order order (length cs) then (0, schunk') else (BLOSC2_ERROR_DATA, schunk)) \<and>
    (is_order order (length cs) \<longrightarrow> schunk_inv le schunk' (permuted order cs))"
proof (cases "is_order order (length cs)")
  case False
  have "sc_nchunks schunk = int (length cs)" using inv by (simp add: schunk_inv_def holds_def)
  with False check_order[OF len] show ?thesis by (simp add: blosc2_schunk_reorder_offsets_def Let_def)
next
  case True
  let ?n = "length cs" and ?d = "sc_data schunk"
  have hold: "holds schunk cs" and N: "sc_nchunks schunk = int ?n" using inv by (simp_all add: schunk_inv_def holds_def)
  have d: "?n \<le> length ?d" by (rule holds_length[OF hold])
  have lt: "nat (order ! i) < ?n" if "i < ?n" for i
    using bij_betw_apply[OF is_order_bij[OF True len]] that by auto
  let ?I = "\<lambda>k data. length data = length ?d \<and> (\<forall>i<length ?d. data ! i = (if i < k then ?d ! nat (order ! i) else ?d ! i))"
  have "\<exists>data. for_range 0 ?n (\<lambda>i data. do {
         index \<leftarrow> load order i;
         slot \<leftarrow> load ?d (nat index);
         store data i slot }) ?d = Some data \<and> ?I ?n data"
  proof (rule for_range_invariant)
    fix k data assume k: "k < ?n" and I: "?I k data"
    have b: "k < length order" "nat (order ! k) < length ?d" "k < length data" using k lt[OF k] len d I by auto
    with I show "\<exists>data'. (load order k \<bind> (\<lambda>index. load ?d (nat index) \<bind> store data k)) = Some data' \<and> ?I (Suc k) data'"
      by (auto simp: load_Some store_Some nth_list_update less_Suc_eq)
  qed auto
  then obtain data where r: "for_range 0 ?n (\<lambda>i data. do {
         index \<leftarrow> load order i;
         slot \<leftarrow> load ?d (nat index);
         store data i slot }) ?d = Some data" and I: "?I ?n data" by blast
  let ?s = "schunk\<lparr> sc_data := data \<rparr>"
  have h: "holds ?s (permuted order cs)"
    by (rule holdsI) (use N I d lt holds_nth[OF hold] in \<open>simp_all add: permuted_def\<close>)
  have c: "check_offsets ?n 0 (int ?n) order (replicate ?n False) = Some 0"
    using True check_order[OF len] by simp
  note perm = total_permuted[OF True len]
  have kind: "same_kind le (permuted order cs)"
  proof (cases "permuted order cs")
    case (Cons e es)
    then have "e \<in> set cs" using perm(2) by auto
    with inv perm(2) Cons show ?thesis by (simp add: schunk_inv_def same_kind_def)
  qed (simp add: same_kind_def)
  have "permuted order cs = [] \<longleftrightarrow> cs = []" by (simp add: permuted_def)
  with inv h kind have "schunk_inv le ?s (permuted order cs)" by (auto simp: schunk_inv_def perm)
  with True r c show ?thesis by (auto simp: blosc2_schunk_reorder_offsets_def Let_def N)
qed

end
