(* ===== verification/Schunk_Refinement.thy ===== *)
theory Schunk_Refinement
  imports Schunk_Contents
begin

text \<open>
  The contract of a super-chunk, as an interface (\<open>chunk_store\<close>, \<open>chunk_array\<close>) with the lemmas of its clients, its
  interpretation on the model of \<open>blosc/schunk.c\<close>, and the properties over whole sequences of operations: the refinement
  of lists of chunks, the invariant of all super-chunks that can be reached, and where the counters drift.
\<close>

section \<open>The interface\<close>

text \<open>
  A store of chunks: \<open>inv s cs\<close> says that the state \<open>s\<close> holds the chunks \<open>cs\<close>, \<open>view\<close> what a chunk is to its readers,
  \<open>room s n\<close> that \<open>n\<close> more operations cannot overflow a counter. Appending answers the new number of chunks, or a
  negative code and leaves the chunks as they are.
\<close>

locale chunk_store =
  fixes inv :: "'s \<Rightarrow> 'c list \<Rightarrow> bool"
    and append_chunk :: "'s \<Rightarrow> 'c \<Rightarrow> (int \<times> 's) option"
    and ok :: "'c \<Rightarrow> bool"
    and room :: "'s \<Rightarrow> int \<Rightarrow> bool"
    and view :: "'c \<Rightarrow> 'v"
  assumes append_chunk: "inv s cs \<Longrightarrow> ok c \<Longrightarrow> room s (n + 1) \<Longrightarrow> 0 \<le> n \<Longrightarrow>
    \<exists>rc s'. append_chunk s c = Some (rc, s') \<and> room s' n \<and>
      (rc < 0 \<and> inv s' cs \<or> rc = int (length cs) + 1 \<and> (\<exists>c'. view c' = view c \<and> inv s' (cs @ [c'])))"

text \<open>The loop of the clients that copy or fill a super-chunk: append one chunk after the other, stop at the first error.\<close>

fun append_all :: "('s \<Rightarrow> 'c \<Rightarrow> (int \<times> 's) option) \<Rightarrow> 's \<Rightarrow> 'c list \<Rightarrow> (int \<times> 's) option" where
  "append_all append_chunk s [] = Some (0, s)"
| "append_all append_chunk s (c # cs) = do {
     (rc, s) \<leftarrow> append_chunk s c;
     if rc < 0 then Some (rc, s) else append_all append_chunk s cs }"

context chunk_store
begin

lemma append_all:
  assumes "inv s cs" "\<forall>c\<in>set ds. ok c" "room s (int (length ds))"
  shows "\<exists>rc s' es. append_all append_chunk s ds = Some (rc, s') \<and> inv s' (cs @ es) \<and>
    (if rc < 0 then \<exists>k<length ds. map view es = map view (take k ds) else map view es = map view ds)"
  using assms
proof (induction ds arbitrary: s cs)
  case Nil
  then show ?case by (intro exI[of _ 0] exI[of _ s] exI[of _ "[]"]) simp
next
  case (Cons d ds)
  then obtain rc s1 where a: "append_chunk s d = Some (rc, s1)" "room s1 (int (length ds))"
    "rc < 0 \<and> inv s1 cs \<or> rc = int (length cs) + 1 \<and> (\<exists>c'. view c' = view d \<and> inv s1 (cs @ [c']))"
    using append_chunk[of s cs d "int (length ds)"] by (auto simp: add.commute)
  show ?case
  proof (cases "rc < 0")
    case True
    with a show ?thesis by (intro exI[of _ rc] exI[of _ s1] exI[of _ "[]"]) auto
  next
    case False
    then obtain c' where c': "view c' = view d" "inv s1 (cs @ [c'])" using a(3) by auto
    obtain rc' s' es where r: "append_all append_chunk s1 ds = Some (rc', s')" "inv s' ((cs @ [c']) @ es)"
      "if rc' < 0 then \<exists>k<length ds. map view es = map view (take k ds) else map view es = map view ds"
      using Cons.IH[OF c'(2) _ a(2)] Cons.prems(2) by auto
    have "if rc' < 0 then \<exists>k<length (d # ds). map view (c' # es) = map view (take k (d # ds))
        else map view (c' # es) = map view (d # ds)"
    proof (cases "rc' < 0")
      case True
      with r(3) obtain k where "k < length ds" "map view es = map view (take k ds)" by auto
      with True c'(1) show ?thesis by (auto intro!: exI[of _ "Suc k"])
    qed (use r(3) c'(1) in simp)
    with a(1) r(1,2) False show ?thesis by (intro exI[of _ rc'] exI[of _ s'] exI[of _ "c' # es"]) auto
  qed
qed

end

text \<open>A store whose chunks can also be read, inserted, replaced and deleted at an index.\<close>

locale chunk_array = chunk_store +
  fixes insert_chunk :: "'s \<Rightarrow> nat \<Rightarrow> 'c \<Rightarrow> (int \<times> 's) option"
    and update_chunk :: "'s \<Rightarrow> nat \<Rightarrow> 'c \<Rightarrow> (int \<times> 's) option"
    and delete_chunk :: "'s \<Rightarrow> nat \<Rightarrow> (int \<times> 's) option"
    and get_chunk :: "'s \<Rightarrow> nat \<Rightarrow> (int \<times> 'c option \<times> 's) option"
  assumes insert_chunk: "inv s cs \<Longrightarrow> ok c \<Longrightarrow> room s (n + 1) \<Longrightarrow> 0 \<le> n \<Longrightarrow> i \<le> length cs \<Longrightarrow>
      \<exists>rc s'. insert_chunk s i c = Some (rc, s') \<and> room s' n \<and>
        (rc < 0 \<and> inv s' cs \<or> rc = int (length cs) + 1 \<and> (\<exists>c'. view c' = view c \<and> inv s' (put i c' cs)))"
    and update_chunk: "inv s cs \<Longrightarrow> ok c \<Longrightarrow> room s (n + 1) \<Longrightarrow> 0 \<le> n \<Longrightarrow> i < length cs \<Longrightarrow>
      \<exists>rc s'. update_chunk s i c = Some (rc, s') \<and> room s' n \<and>
        (rc < 0 \<and> inv s' cs \<or> rc = int (length cs) \<and> (\<exists>c'. view c' = view c \<and> inv s' (cs[i := c'])))"
    and delete_chunk: "inv s cs \<Longrightarrow> room s n \<Longrightarrow> 0 \<le> n \<Longrightarrow> i < length cs \<Longrightarrow>
      \<exists>s'. delete_chunk s i = Some (int (length cs) - 1, s') \<and> room s' n \<and> inv s' (del i cs)"
    and get_chunk: "inv s cs \<Longrightarrow> i < length cs \<Longrightarrow>
      \<exists>rc s'. get_chunk s i = Some (rc, Some (cs ! i), s') \<and> 0 \<le> rc \<and> inv s' cs"

context chunk_array
begin

text \<open>A chunk that was inserted can be read back, and deleting it restores the chunks.\<close>

lemma insert_get:
  assumes "inv s cs" "ok c" "room s 1" "i \<le> length cs" "insert_chunk s i c = Some (rc, s')" "0 \<le> rc"
  shows "\<exists>rc' c' s''. get_chunk s' i = Some (rc', Some c', s'') \<and> 0 \<le> rc' \<and> view c' = view c"
proof -
  obtain c' where "view c' = view c" "inv s' (put i c' cs)"
    using insert_chunk[of s cs c 0 i] assms by auto
  then show ?thesis using get_chunk[of s' "put i c' cs" i] assms(4) by (auto simp: nth_put)
qed

lemma insert_delete:
  assumes "inv s cs" "ok c" "room s 1" "i \<le> length cs" "insert_chunk s i c = Some (rc, s')" "0 \<le> rc"
  shows "\<exists>s''. delete_chunk s' i = Some (int (length cs), s'') \<and> inv s'' cs"
proof -
  obtain c' where c': "inv s' (put i c' cs)" and r: "room s' 0"
    using insert_chunk[of s cs c 0 i] assms by auto
  have "del i (put i c' cs) = cs" using assms(4) by (simp add: del_def put_def)
  then show ?thesis using delete_chunk[OF c' r, of i] assms(4) by auto
qed

lemma update_get:
  assumes "inv s cs" "ok c" "room s 1" "i < length cs" "update_chunk s i c = Some (rc, s')" "0 \<le> rc"
    and "j < length cs"
  shows "\<exists>rc' c' s''. get_chunk s' j = Some (rc', Some c', s'') \<and> view c' = view (if j = i then c else cs ! j)"
proof -
  obtain c' where "view c' = view c" "inv s' (cs[i := c'])"
    using update_chunk[of s cs c 0 i] assms by auto
  then show ?thesis using get_chunk[of s' "cs[i := c']" j] assms(4,7) by (auto simp: nth_list_update)
qed

end

section \<open>The super-chunk provides it\<close>

lemma room_counts:
  assumes "room schunk (n + 1)" "counts schunk schunk' nbytes cbytes" "nbytes \<le> 2 ^ 31" "cbytes \<le> 2 ^ 31"
  shows "room schunk' n"
  using assms by (simp add: room_def counts_def algebra_simps)

lemma chunk_sizes_bound: "chunk_ok le c \<Longrightarrow> chunk_nb le c \<le> 2 ^ 31 \<and> chunk_cb le c \<le> 2 ^ 31"
  by (erule chunk_okE) simp

lemma room_flags2 [simp]: "room (schunk\<lparr> sc_flags2 := f \<rparr>) n = room schunk n"
  by (simp add: room_def)

lemma room_less: "room schunk n \<Longrightarrow> m \<le> n \<Longrightarrow> room schunk m"
  using mult_right_mono[of m n "2 ^ 31 :: int"] by (simp add: room_def)

lemma inv_flags2: "schunk_inv le (schunk\<lparr> sc_flags2 := f \<rparr>) cs = schunk_inv le schunk cs"
  by (simp add: schunk_inv_def holds_def)

lemma inv_current: "schunk_inv le (schunk\<lparr> sc_current_nchunk := n \<rparr>) cs = schunk_inv le schunk cs"
  by (simp add: schunk_inv_def holds_def)

interpretation sc: chunk_store "schunk_inv le" "\<lambda>s c. blosc2_schunk_append_chunk le s c copy" "chunk_ok le" room "content le"
  for le copy
proof
  fix s cs c and n :: int
  assume inv: "schunk_inv le s cs" and ok: "chunk_ok le c" and r: "room s (n + 1)" and n: "0 \<le> n"
  obtain rc s' where a: "blosc2_schunk_append_chunk le s c copy = Some (rc, s')"
    and c: "if refused le s cs c then rc = BLOSC2_ERROR_CHUNK_APPEND \<and> (\<exists>flags2. s' = s\<lparr> sc_flags2 := flags2 \<rparr>)
      else rc = int (length cs) + 1 \<and> counts s s' (chunk_nb le c) (chunk_cb le c) \<and>
        (\<exists>owned. content le owned = content le c \<and> schunk_inv le s' (cs @ [owned]) \<and> (regular le s cs \<longrightarrow> regular le s' (cs @ [owned])))"
    using append_refines[OF inv ok room_less[OF r], of copy] n by auto
  have "room s' n"
    using c r room_less[OF r, of n] room_counts[OF r] chunk_sizes_bound[OF ok] by (auto split: if_splits)
  with a c inv show "\<exists>rc s'. blosc2_schunk_append_chunk le s c copy = Some (rc, s') \<and> room s' n \<and>
      (rc < 0 \<and> schunk_inv le s' cs \<or>
       rc = int (length cs) + 1 \<and> (\<exists>c'. content le c' = content le c \<and> schunk_inv le s' (cs @ [c'])))"
    by (auto simp: inv_flags2 split: if_splits)
qed

lemma old_nonneg:
  assumes "schunk_inv le schunk cs" "n < length cs"
  shows "0 \<le> chunk_nb le (cs ! n)" "0 \<le> counted le (cs ! n)"
  using old_counts[OF assms] by simp_all

interpretation sc: chunk_array "schunk_inv le" "\<lambda>s c. blosc2_schunk_append_chunk le s c copy" "chunk_ok le" room "content le"
  "\<lambda>s i c. blosc2_schunk_insert_chunk le s (int i) c copy" "\<lambda>s i c. blosc2_schunk_update_chunk le s (int i) c copy"
  "\<lambda>s i. blosc2_schunk_delete_chunk le s (int i)" "\<lambda>s i. blosc2_schunk_get_chunk le s (int i)"
  for le copy
proof
  fix s cs c i and n :: int
  assume inv: "schunk_inv le s cs" and ok: "chunk_ok le c" and r: "room s (n + 1)" and n: "0 \<le> n" and i: "i \<le> length cs"
  obtain rc s' where a: "blosc2_schunk_insert_chunk le s (int i) c copy = Some (rc, s')"
    and c: "if refused le s cs c then rc = BLOSC2_ERROR_CHUNK_INSERT \<and> (\<exists>flags2. s' = s\<lparr> sc_flags2 := flags2 \<rparr>)
      else rc = int (length cs) + 1 \<and> counts s s' (chunk_nb le c) (chunk_cb le c) \<and>
        (\<exists>owned. content le owned = content le c \<and> schunk_inv le s' (put i owned cs) \<and> (regular le s cs \<longrightarrow> regular le s' (put i owned cs)))"
    using insert_refines[OF inv ok room_less[OF r] i, of copy] n by auto
  have "room s' n"
    using c r room_less[OF r, of n] room_counts[OF r] chunk_sizes_bound[OF ok] by (auto split: if_splits)
  with a c inv show "\<exists>rc s'. blosc2_schunk_insert_chunk le s (int i) c copy = Some (rc, s') \<and> room s' n \<and>
      (rc < 0 \<and> schunk_inv le s' cs \<or>
       rc = int (length cs) + 1 \<and> (\<exists>c'. content le c' = content le c \<and> schunk_inv le s' (put i c' cs)))"
    by (auto simp: inv_flags2 split: if_splits)
next
  fix s cs c i and n :: int
  assume inv: "schunk_inv le s cs" and ok: "chunk_ok le c" and r: "room s (n + 1)" and n: "0 \<le> n" and i: "i < length cs"
  obtain rc s' where a: "blosc2_schunk_update_chunk le s (int i) c copy = Some (rc, s')"
    and c: "if update_refused le cs i c then rc = BLOSC2_ERROR_CHUNK_UPDATE \<and> s' = s
      else rc = int (length cs) \<and> counts s s' (chunk_nb le c - chunk_nb le (cs ! i)) (chunk_cb le c - counted le (cs ! i)) \<and>
        (\<exists>owned. content le owned = content le c \<and> schunk_inv le s' (cs[i := owned]) \<and> (regular le s cs \<longrightarrow> regular le s' (cs[i := owned])))"
    using update_refines[OF inv ok room_less[OF r] i, of copy] n by auto
  have "chunk_nb le c - chunk_nb le (cs ! i) \<le> 2 ^ 31" "chunk_cb le c - counted le (cs ! i) \<le> 2 ^ 31"
    using chunk_sizes_bound[OF ok] old_nonneg[OF inv i] by auto
  then have "room s' n"
    using c r room_less[OF r, of n] room_counts[OF r] by (auto split: if_splits)
  with a c inv show "\<exists>rc s'. blosc2_schunk_update_chunk le s (int i) c copy = Some (rc, s') \<and> room s' n \<and>
      (rc < 0 \<and> schunk_inv le s' cs \<or>
       rc = int (length cs) \<and> (\<exists>c'. content le c' = content le c \<and> schunk_inv le s' (cs[i := c'])))"
    by (auto split: if_splits)
next
  fix s cs i and n :: int
  assume inv: "schunk_inv le s cs" and r: "room s n" and n: "0 \<le> n" and i: "i < length cs"
  obtain s' where d: "blosc2_schunk_delete_chunk le s (int i) = Some (int (length cs) - 1, s')"
    "counts s s' (- chunk_nb le (cs ! i)) (- counted le (cs ! i))" "schunk_inv le s' (del i cs)"
    using delete_refines[OF inv room_less[OF r n] i] by auto
  have "room s' n" using d(2) r old_nonneg[OF inv i] by (simp add: room_def counts_def)
  with d show "\<exists>s'. blosc2_schunk_delete_chunk le s (int i) = Some (int (length cs) - 1, s') \<and> room s' n \<and>
      schunk_inv le s' (del i cs)" by blast
next
  fix s cs i
  assume inv: "schunk_inv le s cs" and i: "i < length cs"
  have "0 \<le> chunk_cb le (cs ! i)" using old_counts[OF inv i] by simp
  with get_refines[OF inv i] inv show "\<exists>rc s'. blosc2_schunk_get_chunk le s (int i) = Some (rc, Some (cs ! i), s') \<and> 0 \<le> rc \<and> schunk_inv le s' cs"
    by (simp add: inv_current)
qed

section \<open>Sequences of operations\<close>

text \<open>A call of a function of the super-chunk; a chunk may be handed over (\<open>copy\<close> false) or copied.\<close>

datatype schunk_call = AppendChunk buf bool | InsertChunk int buf bool | UpdateChunk int buf bool | DeleteChunk int
  | GetChunk int | ReorderOffsets "int list"

fun call_schunk :: "bool \<Rightarrow> schunk_call \<Rightarrow> schunk \<Rightarrow> (int \<times> schunk) option" where
  "call_schunk le (AppendChunk chunk copy) s = blosc2_schunk_append_chunk le s chunk copy"
| "call_schunk le (InsertChunk nchunk chunk copy) s = blosc2_schunk_insert_chunk le s nchunk chunk copy"
| "call_schunk le (UpdateChunk nchunk chunk copy) s = blosc2_schunk_update_chunk le s nchunk chunk copy"
| "call_schunk le (DeleteChunk nchunk) s = blosc2_schunk_delete_chunk le s nchunk"
| "call_schunk le (GetChunk nchunk) s = map_option (\<lambda>(rc, chunk, s). (rc, s)) (blosc2_schunk_get_chunk le s nchunk)"
| "call_schunk le (ReorderOffsets order) s = blosc2_schunk_reorder_offsets s order"

text \<open>The same calls on a list of chunk contents.\<close>

fun call_list :: "bool \<Rightarrow> schunk_call \<Rightarrow> buf list \<Rightarrow> buf list" where
  "call_list le (AppendChunk chunk copy) xs = xs @ [content le chunk]"
| "call_list le (InsertChunk nchunk chunk copy) xs = put (nat nchunk) (content le chunk) xs"
| "call_list le (UpdateChunk nchunk chunk copy) xs = xs[nat nchunk := content le chunk]"
| "call_list le (DeleteChunk nchunk) xs = del (nat nchunk) xs"
| "call_list le (GetChunk nchunk) xs = xs"
| "call_list le (ReorderOffsets order) xs = permuted order xs"

text \<open>What the caller owes: chunks that can be read, and an order with an entry for each chunk.\<close>

fun call_ok :: "bool \<Rightarrow> schunk_call \<Rightarrow> nat \<Rightarrow> bool" where
  "call_ok le (AppendChunk chunk copy) n = chunk_ok le chunk"
| "call_ok le (InsertChunk nchunk chunk copy) n = chunk_ok le chunk"
| "call_ok le (UpdateChunk nchunk chunk copy) n = chunk_ok le chunk"
| "call_ok le (DeleteChunk nchunk) n = True"
| "call_ok le (GetChunk nchunk) n = True"
| "call_ok le (ReorderOffsets order) n = (n \<le> length order)"

fun reorders :: "schunk_call \<Rightarrow> bool" where
  "reorders (ReorderOffsets order) = True"
| "reorders _ = False"

lemma map_permuted: "is_order order (length xs) \<Longrightarrow> length xs \<le> length order \<Longrightarrow> map f (permuted order xs) = permuted order (map f xs)"
  using bij_betw_apply[OF is_order_bij] by (auto simp: permuted_def)

lemma bad_index:
  assumes "schunk_inv le s cs"
  shows "nchunk < 0 \<or> int (length cs) < nchunk \<Longrightarrow> validate_nchunk s nchunk True = BLOSC2_ERROR_INVALID_PARAM"
    and "nchunk < 0 \<or> int (length cs) \<le> nchunk \<Longrightarrow> validate_nchunk s nchunk False = BLOSC2_ERROR_INVALID_PARAM"
  using assms by (auto simp: validate_nchunk_def schunk_inv_def holds_def)

definition simulates :: "bool \<Rightarrow> schunk_call \<Rightarrow> schunk \<Rightarrow> buf list \<Rightarrow> int \<Rightarrow> schunk \<Rightarrow> bool" where
  "simulates le call s cs rc s' \<longleftrightarrow> (\<exists>cs'. schunk_inv le s' cs' \<and>
     map (content le) cs' = (if rc < 0 then map (content le) cs else call_list le call (map (content le) cs)) \<and>
     (regular le s cs \<longrightarrow> \<not> reorders call \<longrightarrow> regular le s' cs'))"

lemma simulates_refused:
  "schunk_inv le s cs \<Longrightarrow> rc < 0 \<Longrightarrow> simulates le call s cs rc s"
  "schunk_inv le s cs \<Longrightarrow> rc < 0 \<Longrightarrow> simulates le call s cs rc (s\<lparr> sc_flags2 := f \<rparr>)"
  by (auto simp: simulates_def inv_flags2 regular_def)

lemma simulates_accepted:
  "schunk_inv le s' cs' \<Longrightarrow> 0 \<le> rc \<Longrightarrow> map (content le) cs' = call_list le call (map (content le) cs) \<Longrightarrow>
   (regular le s cs \<longrightarrow> regular le s' cs') \<Longrightarrow> simulates le call s cs rc s'"
  by (auto simp: simulates_def)

lemma call_simulates:
  assumes inv: "schunk_inv le s cs" and ok: "call_ok le call (length cs)" and room: "room s 1"
  shows "\<exists>rc s'. call_schunk le call s = Some (rc, s') \<and> simulates le call s cs rc s'"
proof (cases call)
  case (AppendChunk chunk copy)
  then have "chunk_ok le chunk" using ok by simp
  note app = append_refines[OF inv this room, of copy]
  show ?thesis
  proof (cases "refused le s cs chunk")
    case True
    with app AppendChunk show ?thesis using simulates_refused(2)[OF inv, of BLOSC2_ERROR_CHUNK_APPEND] by auto
  next
    case False
    with app obtain s' owned where "blosc2_schunk_append_chunk le s chunk copy = Some (int (length cs) + 1, s')"
      "content le owned = content le chunk" "schunk_inv le s' (cs @ [owned])" "regular le s cs \<longrightarrow> regular le s' (cs @ [owned])"
      by auto
    with AppendChunk show ?thesis by (auto intro: simulates_accepted)
  qed
next
  case (InsertChunk nchunk chunk copy)
  show ?thesis
  proof (cases "nchunk < 0 \<or> int (length cs) < nchunk")
    case True
    with InsertChunk show ?thesis
      using bad_index(1)[OF inv True] simulates_refused(1)[OF inv] by (simp add: blosc2_schunk_insert_chunk_def)
  next
    case False
    then have n: "nat nchunk \<le> length cs" "int (nat nchunk) = nchunk" by auto
    have "chunk_ok le chunk" using InsertChunk ok by simp
    note ins = insert_refines[OF inv this room n(1), of copy]
    show ?thesis
    proof (cases "refused le s cs chunk")
      case True
      with ins InsertChunk n show ?thesis using simulates_refused(2)[OF inv, of BLOSC2_ERROR_CHUNK_INSERT] by auto
    next
      case False
      with ins n obtain s' owned where "blosc2_schunk_insert_chunk le s nchunk chunk copy = Some (int (length cs) + 1, s')"
        "content le owned = content le chunk" "schunk_inv le s' (put (nat nchunk) owned cs)"
        "regular le s cs \<longrightarrow> regular le s' (put (nat nchunk) owned cs)" by auto
      with InsertChunk show ?thesis by (auto simp: map_put intro: simulates_accepted)
    qed
  qed
next
  case (UpdateChunk nchunk chunk copy)
  show ?thesis
  proof (cases "nchunk < 0 \<or> int (length cs) \<le> nchunk")
    case True
    with UpdateChunk show ?thesis
      using bad_index(2)[OF inv True] simulates_refused(1)[OF inv] by (simp add: blosc2_schunk_update_chunk_def)
  next
    case False
    then have n: "nat nchunk < length cs" "int (nat nchunk) = nchunk" by auto
    have "chunk_ok le chunk" using UpdateChunk ok by simp
    note upd = update_refines[OF inv this room n(1), of copy]
    show ?thesis
    proof (cases "update_refused le cs (nat nchunk) chunk")
      case True
      with upd UpdateChunk n show ?thesis using simulates_refused(1)[OF inv, of BLOSC2_ERROR_CHUNK_UPDATE] by auto
    next
      case False
      with upd n obtain s' owned where "blosc2_schunk_update_chunk le s nchunk chunk copy = Some (int (length cs), s')"
        "content le owned = content le chunk" "schunk_inv le s' (cs[nat nchunk := owned])"
        "regular le s cs \<longrightarrow> regular le s' (cs[nat nchunk := owned])" by auto
      with UpdateChunk show ?thesis by (auto simp: map_update intro: simulates_accepted)
    qed
  qed
next
  case (DeleteChunk nchunk)
  show ?thesis
  proof (cases "nchunk < 0 \<or> int (length cs) \<le> nchunk")
    case True
    with DeleteChunk show ?thesis
      using bad_index(2)[OF inv True] simulates_refused(1)[OF inv] by (simp add: blosc2_schunk_delete_chunk_def)
  next
    case False
    then have n: "nat nchunk < length cs" "int (nat nchunk) = nchunk" by auto
    from delete_refines[OF inv room_less[OF room] n(1)] obtain s' where
      d: "blosc2_schunk_delete_chunk le s nchunk = Some (int (length cs) - 1, s')" "schunk_inv le s' (del (nat nchunk) cs)"
      "regular le s cs \<longrightarrow> regular le s' (del (nat nchunk) cs)"
      using n(2) by auto
    have "simulates le call s cs (int (length cs) - 1) s'"
      by (rule simulates_accepted[OF d(2)]) (use n d(3) DeleteChunk in \<open>auto simp: map_del\<close>)
    with d(1) DeleteChunk show ?thesis by auto
  qed
next
  case (GetChunk nchunk)
  show ?thesis
  proof (cases "nchunk < 0 \<or> int (length cs) \<le> nchunk")
    case True
    with GetChunk show ?thesis
      using bad_index(2)[OF inv True] simulates_refused(1)[OF inv] by (simp add: blosc2_schunk_get_chunk_def)
  next
    case False
    then have n: "nat nchunk < length cs" "int (nat nchunk) = nchunk" by auto
    have "0 \<le> chunk_cb le (cs ! nat nchunk)" using old_counts[OF inv n(1)] by simp
    with GetChunk n inv show ?thesis
      using get_refines[OF inv n(1)] by (auto simp: inv_current regular_def intro!: simulates_accepted)
  qed
next
  case (ReorderOffsets order)
  then have len: "length cs \<le> length order" using ok by simp
  show ?thesis
  proof (cases "is_order order (length cs)")
    case True
    with ReorderOffsets reorder_refines[OF inv len] show ?thesis
      using map_permuted[OF _ len, of "content le"] by (auto simp: simulates_def)
  next
    case False
    with ReorderOffsets reorder_refines[OF inv len] show ?thesis
      using simulates_refused(1)[OF inv] by auto
  qed
qed

text \<open>The super-chunks that calls can lead to, as long as the counters stay below the limit of 64 bits.\<close>

inductive schunk_run :: "bool \<Rightarrow> schunk \<Rightarrow> schunk_call list \<Rightarrow> schunk \<Rightarrow> bool" for le s where
  start: "schunk_run le s [] s"
| step: "schunk_run le s calls s1 \<Longrightarrow> call_ok le call (nat (sc_nchunks s1)) \<Longrightarrow> room s1 1 \<Longrightarrow>
    call_schunk le call s1 = Some (rc, s2) \<Longrightarrow> schunk_run le s (calls @ [call]) s2"

inductive_cases schunk_runE: "schunk_run le s calls s'"

lemma new_inv: "schunk_inv le (blosc2_schunk_new typesize cctx dctx) []" "regular le (blosc2_schunk_new typesize cctx dctx) []"
  by (simp_all add: schunk_inv_def holds_def same_kind_def regular_def blosc2_schunk_new_def)

lemma run_inv:
  assumes "schunk_run le s calls s'" "schunk_inv le s cs" "regular le s cs"
  shows "\<exists>cs'. schunk_inv le s' cs' \<and> ((\<forall>call\<in>set calls. \<not> reorders call) \<longrightarrow> regular le s' cs')"
  using assms
proof (induction rule: schunk_run.induct)
  case (step calls s1 call rc s2)
  then obtain cs1 where cs1: "schunk_inv le s1 cs1" "(\<forall>call\<in>set calls. \<not> reorders call) \<longrightarrow> regular le s1 cs1" by blast
  then have "call_ok le call (length cs1)" using step.hyps(2) by (simp add: schunk_inv_def holds_def)
  from call_simulates[OF cs1(1) this step.hyps(3)] step.hyps(4) have "simulates le call s1 cs1 rc s2" by auto
  with cs1(2) show ?case by (auto simp: simulates_def)
qed blast

text \<open>A chunk of zeros, in 32 bytes, to see the properties at work.\<close>

definition sample_chunk :: buf where
  "sample_chunk = [5, 1, 5, 4, 8, 0, 0, 0, 8, 0, 0, 0, 32, 0, 0, 0, 0, 0, 0, 0, 0, 0, 0, 0, 0, 0, 0, 0, 0, 0, 0, 16]"

lemma new_room: "room (blosc2_schunk_new typesize cctx dctx) 1"
  by (simp add: room_def blosc2_schunk_new_def)

lemma new_accepts: "\<not> refused le (blosc2_schunk_new typesize cctx dctx) [] chunk"
  by (simp add: refused_def blosc2_schunk_new_def)

lemma sample_sizes: "blosc2_cbuffer_sizes True sample_chunk = Some (0, 8, 32, 8)"
  by code_simp

lemma sample_ok: "chunk_ok True sample_chunk" "chunk_nb True sample_chunk = 8" "chunk_cb True sample_chunk = 32"
  by (simp_all add: chunk_ok_def chunk_nb_def chunk_cb_def sample_sizes) (simp add: sample_chunk_def)

definition sample_schunk :: schunk where
  "sample_schunk = blosc2_schunk_new 4 (sample_context BLOSC_BLOSCLZ 5 4 64 0) (sample_context BLOSC_BLOSCLZ 5 4 64 0)"

section \<open>Properties\<close>

text \<open>
  C5. A super-chunk refines the list of its chunks: in a super-chunk that satisfies the invariant, every call
  returns a code and a super-chunk that satisfies it again (no read or write outside the array of pointers, no overflow
  of a counter while there is room for one more chunk). A negative code leaves the contents of the chunks as they were; any other
  one says that they are what appending, inserting, replacing, deleting or permuting gives on the list of the contents.
\<close>

theorem schunk_refines_list:
  assumes "schunk_inv le s cs" "call_ok le call (length cs)" "room s 1"
  shows "\<exists>rc s' cs'. call_schunk le call s = Some (rc, s') \<and> schunk_inv le s' cs' \<and>
    map (content le) cs' = (if rc < 0 then map (content le) cs else call_list le call (map (content le) cs))"
  using call_simulates[OF assms] unfolding simulates_def by blast

theorem schunk_refines_list_witness:
  "\<exists>rc s' cs'. call_schunk True (AppendChunk sample_chunk True) sample_schunk = Some (rc, s') \<and>
    schunk_inv True s' cs' \<and> map (content True) cs' =
      (if rc < 0 then map (content True) [] else call_list True (AppendChunk sample_chunk True) (map (content True) []))"
  by (rule schunk_refines_list) (simp_all add: sample_schunk_def new_inv new_room sample_ok)

text \<open>
  C6. The invariant of every super-chunk that calls can lead to from a new one: the number of chunks, their
  pointers, \<open>nbytes\<close> and the kind of their blocks are consistent, \<open>cbytes\<close> counts at least the chunks' bytes, and no chunk is
  larger than a known chunk size. If the chunks were never reordered, then all but the last have exactly that size.
\<close>

theorem schunk_run_invariant:
  assumes "schunk_run le (blosc2_schunk_new typesize cctx dctx) calls s"
  shows "\<exists>cs. schunk_inv le s cs \<and> ((\<forall>call\<in>set calls. \<not> reorders call) \<longrightarrow> regular le s cs)"
  by (rule run_inv[OF assms new_inv])

theorem schunk_run_invariant_witness:
  "\<exists>s. schunk_run True sample_schunk [AppendChunk sample_chunk True] s \<and>
    (\<exists>cs. schunk_inv True s cs \<and> ((\<forall>call\<in>set [AppendChunk sample_chunk True]. \<not> reorders call) \<longrightarrow> regular True s cs))"
proof -
  have ok: "call_ok True (AppendChunk sample_chunk True) n" for n by (simp add: sample_ok)
  have new: "schunk_inv True sample_schunk []" "room sample_schunk 1" by (simp_all add: sample_schunk_def new_inv new_room)
  obtain rc s where "call_schunk True (AppendChunk sample_chunk True) sample_schunk = Some (rc, s)"
    using call_simulates[OF new(1) ok new(2)] by blast
  from schunk_run.step[OF schunk_run.start ok new(2) this]
  have run: "schunk_run True sample_schunk [AppendChunk sample_chunk True] s" by simp
  from schunk_run_invariant[OF run[unfolded sample_schunk_def]]
  have "\<exists>cs. schunk_inv True s cs \<and> ((\<forall>call\<in>set [AppendChunk sample_chunk True]. \<not> reorders call) \<longrightarrow> regular True s cs)" .
  with run show ?thesis by (intro exI[of _ s] conjI)
qed

text \<open>
  C25. The compressed size drifts: appending a chunk that is just a header counts its 32 bytes,
  deleting it does not take them off again, so the super-chunk is left with 32 bytes more than before, with the same chunks.
\<close>

theorem deleted_header_still_counted:
  assumes "schunk_inv le s cs" "chunk_ok le chunk" "chunk_cb le chunk = BLOSC2_MAX_OVERHEAD" "\<not> refused le s cs chunk" "room s 1"
  shows "\<exists>s1 s2. blosc2_schunk_append_chunk le s chunk copy = Some (int (length cs) + 1, s1) \<and>
    blosc2_schunk_delete_chunk le s1 (int (length cs)) = Some (int (length cs), s2) \<and>
    schunk_inv le s2 cs \<and> sc_nbytes s2 = sc_nbytes s \<and> sc_cbytes s2 = sc_cbytes s + BLOSC2_MAX_OVERHEAD"
proof -
  obtain s1 owned where a: "blosc2_schunk_append_chunk le s chunk copy = Some (int (length cs) + 1, s1)"
    "counts s s1 (chunk_nb le chunk) (chunk_cb le chunk)" "content le owned = content le chunk" "schunk_inv le s1 (cs @ [owned])"
    using append_refines[OF assms(1,2,5), of copy] assms(4) by auto
  have ok: "chunk_ok le owned" using a(4) by (simp add: schunk_inv_def)
  have c: "chunk_nb le owned = chunk_nb le chunk" "chunk_cb le owned = chunk_cb le chunk"
    using content_ok[OF ok] content_ok[OF assms(2)] a(3) by metis+
  have "room s1 0" using assms(2,5) a(2) chunk_sizes_bound[OF assms(2)] by (intro room_counts[of s 0]) auto
  from delete_refines[OF a(4) this, of "length cs"] obtain s2 where
    d: "blosc2_schunk_delete_chunk le s1 (int (length cs)) = Some (int (length cs), s2)"
    "counts s1 s2 (- chunk_nb le chunk) 0" "schunk_inv le s2 cs"
    using assms(3) c by (auto simp: counted_def del_def)
  from a d assms(3) show ?thesis by (auto simp: counts_def)
qed

theorem deleted_header_still_counted_witness:
  "\<exists>s1 s2. blosc2_schunk_append_chunk True sample_schunk sample_chunk True = Some (int (length ([] :: buf list)) + 1, s1) \<and>
    blosc2_schunk_delete_chunk True s1 (int (length ([] :: buf list))) = Some (int (length ([] :: buf list)), s2) \<and>
    schunk_inv True s2 [] \<and> sc_nbytes s2 = sc_nbytes sample_schunk \<and>
    sc_cbytes s2 = sc_cbytes sample_schunk + BLOSC2_MAX_OVERHEAD"
  by (rule deleted_header_still_counted)
    (simp_all add: sample_schunk_def new_inv new_room new_accepts sample_ok)

end
