(* ===== verification/Schunk_Buffers.thy ===== *)
theory Schunk_Buffers
  imports Schunk_Refinement Codec_Roundtrip
begin

text \<open>
  The operations of \<open>blosc/schunk.c\<close> that compress and decompress: appending a buffer, decompressing a chunk, and the proof
  that the buffers appended to a new super-chunk come back, one by one, with the context's settings kept from chunk to chunk.
\<close>

section \<open>The operations\<close>

text \<open>
  \<open>alloc\<close> is the allocator, \<open>None\<close> its failure: the code does not test it, and a null destination is undefined.
  The result: the number of chunks or an error, the super-chunk with its compression context, and the source.
\<close>

definition blosc2_schunk_append_buffer ::
    "bool \<Rightarrow> shuffle_implementation \<Rightarrow> (nat \<Rightarrow> buf option) \<Rightarrow> (byte \<Rightarrow> user_filter option) \<Rightarrow> (int \<Rightarrow> codec_fun option) \<Rightarrow> (int \<Rightarrow> int option) \<Rightarrow>
      (blosc2_context \<Rightarrow> buf \<Rightarrow> buf \<Rightarrow> (int \<times> blosc2_context \<times> buf \<times> buf) option) \<Rightarrow> prefilter option \<Rightarrow> schunk \<Rightarrow> buf \<Rightarrow> int \<Rightarrow>
      (int \<times> schunk \<times> buf) option" where
  "blosc2_schunk_append_buffer le host alloc user enc udcodec_version train pre schunk src nbytes = do {
     destsize \<leftarrow> i32 (nbytes + BLOSC2_MAX_OVERHEAD);
     chunk \<leftarrow> alloc (nat destsize);
     let schunk = schunk\<lparr> sc_current_nchunk := sc_nchunks schunk \<rparr>;
     (cbytes, cctx, src, chunk) \<leftarrow>
       blosc2_compress_ctx le host alloc user enc udcodec_version train pre (sc_cctx schunk) src nbytes chunk destsize;
     let schunk = schunk\<lparr> sc_cctx := cctx \<rparr>;
     if cbytes < 0 then Some (cbytes, schunk, src)
     else do {
       (nchunks, schunk) \<leftarrow> blosc2_schunk_append_chunk le schunk chunk False;
       Some (nchunks, schunk, src) } }"

text \<open>The result: the number of bytes or an error, the super-chunk, and the destination.\<close>

definition blosc2_schunk_decompress_chunk ::
    "bool \<Rightarrow> shuffle_implementation \<Rightarrow> (nat \<Rightarrow> buf option) \<Rightarrow> (byte \<Rightarrow> user_filter option) \<Rightarrow> (int \<Rightarrow> int \<Rightarrow> codec_fun option) \<Rightarrow> (buf \<Rightarrow> bool) \<Rightarrow>
      postfilter option \<Rightarrow> bool list option \<Rightarrow> schunk \<Rightarrow> int \<Rightarrow> buf \<Rightarrow> int \<Rightarrow> (int \<times> schunk \<times> buf) option" where
  "blosc2_schunk_decompress_chunk le host alloc user dec ddict post maskout schunk nchunk dest nbytes =
    (let rc = validate_nchunk schunk nchunk False in
     if rc < 0 then Some (rc, schunk, dest)
     else do {
       let schunk = schunk\<lparr> sc_current_nchunk := nchunk \<rparr>;
       slot \<leftarrow> load (sc_data schunk) (nat nchunk);
       case slot of Unset \<Rightarrow> None | NullSlot \<Rightarrow> Some (0, schunk, dest)
       | Chunk src \<Rightarrow> do {
           (rc, chunk_nbytes, chunk_cbytes, _) \<leftarrow> blosc2_cbuffer_sizes le src;
           if rc < 0 then Some (rc, schunk, dest)
           else if nbytes < chunk_nbytes then Some (BLOSC2_ERROR_INVALID_PARAM, schunk, dest)
           else do {
             (chunksize, dest) \<leftarrow> blosc2_decompress_ctx le host alloc user dec ddict post maskout (sc_dctx schunk) src chunk_cbytes dest nbytes;
             Some (if chunksize < 0 then chunksize
                   else if chunksize \<noteq> chunk_nbytes then BLOSC2_ERROR_FAILURE
                   else chunksize, schunk, dest) } } })"

section \<open>Buffers come back\<close>

text \<open>
  The settings a super-chunk needs from its compression context, whatever the size of the next buffer: BloscLZ at any level with
  at most two shuffle filters, and a block size not yet fixed or a multiple of the type size.
\<close>

definition append_context :: "blosc2_context \<Rightarrow> bool" where
  "append_context c \<longleftrightarrow> ctx_do_compress c \<and> 1 \<le> ctx_typesize c \<and> ctx_typesize c \<le> 255 \<and> ctx_compcode c = BLOSC_BLOSCLZ \<and>
     0 \<le> ctx_clevel c \<and> ctx_clevel c \<le> 9 \<and> \<not> ctx_use_dict c \<and> length (ctx_filters c) = 6 \<and> length (ctx_filters_meta c) = 6 \<and>
     standard_filters c \<and> active_filters c [0..<6] \<le> 2 \<and> ctx_blosc2_flags c AND BLOSC2_INSTR_CODEC = 0 \<and>
     (ctx_blocksize c = 0 \<or> 0 < ctx_blocksize c \<and> ctx_blocksize c \<le> 2 ^ 22 \<and> ctx_typesize c dvd ctx_blocksize c)"

text \<open>Buffers of whole items, below 256 MB.\<close>

definition whole_items :: "int \<Rightarrow> buf \<Rightarrow> bool" where
  "whole_items typesize src \<longleftrightarrow> src \<noteq> [] \<and> typesize dvd int (length src) \<and> length src < 2 ^ 28"

lemma append_request:
  assumes "append_context c" "whole_items (ctx_typesize c) src"
  shows "compression_request c (int (length src)) (int (length src) + 32)" "ctx_typesize c \<le> int (length src)"
proof -
  note a = assms[unfolded append_context_def whole_items_def]
  have len: "0 < int (length src)" "int (length src) < 2 ^ 28" using a(2) by auto
  show ts: "ctx_typesize c \<le> int (length src)" using a(2) len(1) by (intro zdvd_imp_le) simp_all
  have "block_request c (int (length src))"
  proof (cases "ctx_blocksize c = 0")
    case False
    then have B: "0 < ctx_blocksize c" "ctx_typesize c dvd ctx_blocksize c" "ctx_blocksize c \<le> 2 ^ 22" using a(1) by auto
    have "int (length src) div ctx_blocksize c \<le> int (length src) div 1" using B(1) len(1) by (intro zdiv_mono2) simp_all
    with B ts a(2) len show ?thesis by (auto simp: block_request_def intro: zdvd_imp_le)
  qed (simp add: block_request_def)
  with a ts len show "compression_request c (int (length src)) (int (length src) + 32)"
    unfolding compression_request_def by simp
qed

lemma append_context_next:
  assumes "append_context c" "same_settings c d" "0 < ctx_blocksize d" "ctx_blocksize d \<le> 2 ^ 22" "ctx_typesize c dvd ctx_blocksize d"
  shows "append_context d"
  using assms by (simp add: append_context_def same_settings_def standard_filters_def active_filters_def)

lemma chunk_of_ok:
  assumes "chunk_of src cb d" "32 \<le> cb" "cb \<le> int (length d)"
  shows "chunk_ok le d" "chunk_nb le d = int (length src)" "chunk_cb le d = cb" "\<not> chunk_vl le d"
proof -
  obtain bs where s: "blosc2_cbuffer_sizes le d = Some (0, int (length src), cb, bs)" "load d 30 = Some 0"
    using assms unfolding chunk_of_def by (metis nat_le_iff)
  then show "chunk_ok le d" "chunk_nb le d = int (length src)" and cb: "chunk_cb le d = cb"
    using assms(3) by (simp_all add: chunk_ok_def chunk_nb_def chunk_cb_def)
  have "load d 2 = Some (d ! 2)" using assms(2,3) by (simp add: load_def)
  then have "get_chunk_flags2 d cb = Some 0" using s(2) by (simp add: get_chunk_flags2_def)
  then show "\<not> chunk_vl le d" by (simp add: chunk_vl_def cb)
qed

text \<open>The chunk \<open>c\<close> of a super-chunk is a chunk of \<open>src\<close>; the content of a chunk decides that.\<close>

lemma chunk_of_content:
  assumes "chunk_of src cb d" "chunk_ok le d" "chunk_ok le e" "chunk_cb le d = cb" "content le e = content le d" "32 \<le> cb"
  shows "chunk_of src cb e"
proof -
  have "chunk_cb le e = chunk_cb le d" using content_ok(3)[OF assms(2)] content_ok(3)[OF assms(3)] assms(5) by metis
  then have "take (nat cb) e = take (nat cb) d" using assms(4,5) by (simp add: content_def)
  with assms(1) show ?thesis by (simp add: chunk_of_def)
qed

text \<open>
  The super-chunk holds a chunk of each buffer, in order, and its contexts are ready for more; the environment meets its
  contracts. This is the invariant of appending buffers.
\<close>

definition holds_buffers ::
    "bool \<Rightarrow> shuffle_implementation \<Rightarrow> (nat \<Rightarrow> buf option) \<Rightarrow> int \<Rightarrow> schunk \<Rightarrow> buf list \<Rightarrow> bool" where
  "holds_buffers le host alloc typesize s bufs \<longleftrightarrow> shuffle_host host \<and> allocates alloc \<and> append_context (sc_cctx s) \<and>
     ctx_typesize (sc_cctx s) = typesize \<and> \<not> ctx_do_compress (sc_dctx s) \<and>
     (\<exists>cs. schunk_inv le s cs \<and> length cs = length bufs \<and> (cs = [] \<longrightarrow> sc_chunksize s \<le> 0) \<and>
       (\<forall>i<length bufs. chunk_of (bufs ! i) (chunk_cb le (cs ! i)) (cs ! i) \<and> \<not> chunk_vl le (cs ! i)))"

lemma inv_setup: "schunk_inv le (s\<lparr> sc_current_nchunk := n, sc_cctx := c \<rparr>) cs = schunk_inv le s cs"
  by (simp add: schunk_inv_def holds_def)

lemma append_chunk_holds:
  assumes "holds_buffers le host alloc typesize s bufs" "chunk_of src cb chunk" "32 \<le> cb" "cb \<le> int (length chunk)" "room s 1"
  shows "\<exists>s'. blosc2_schunk_append_chunk le s chunk copy = Some (int (length bufs) + 1, s') \<and>
    counts s s' (int (length src)) cb \<and> holds_buffers le host alloc typesize s' (bufs @ [src])"
proof -
  obtain cs where cs: "schunk_inv le s cs" "length cs = length bufs" "cs = [] \<longrightarrow> sc_chunksize s \<le> 0"
    and each: "\<forall>i<length bufs. chunk_of (bufs ! i) (chunk_cb le (cs ! i)) (cs ! i) \<and> \<not> chunk_vl le (cs ! i)"
    and h: "shuffle_host host" "allocates alloc" "append_context (sc_cctx s)" "ctx_typesize (sc_cctx s) = typesize" "\<not> ctx_do_compress (sc_dctx s)"
    using assms(1) unfolding holds_buffers_def by blast
  note ok = chunk_of_ok[OF assms(2-4)]
  have "chunk_vl le (cs ! 0) = chunk_vl le chunk" if "cs \<noteq> []"
  proof -
    have "0 < length bufs" using that cs(2) by (metis length_greater_0_conv)
    with each ok(4) show ?thesis by auto
  qed
  then have acc: "\<not> refused le s cs chunk" using cs(3) by (auto simp: refused_def)
  obtain s' owned where a: "blosc2_schunk_append_chunk le s chunk copy = Some (int (length cs) + 1, s')"
    "counts s s' (int (length src)) cb" "content le owned = content le chunk" "schunk_inv le s' (cs @ [owned])"
    using append_refines[OF cs(1) ok(1) assms(5), of copy] acc ok(2,3) by auto
  have set': "sc_cctx s' = sc_cctx s" "sc_dctx s' = sc_dctx s" using a(2) by (simp_all add: counts_def same_setup_def)
  have "chunk_ok le owned" using a(4) by (simp add: schunk_inv_def)
  then have "chunk_of src cb owned" "chunk_cb le owned = cb" "\<not> chunk_vl le owned"
    using chunk_of_content[OF assms(2) ok(1) _ ok(3) a(3) assms(3)] content_ok[OF ok(1)] content_ok[of le owned] a(3) ok(3,4) by metis+
  then have "\<forall>i<length (bufs @ [src]). chunk_of ((bufs @ [src]) ! i) (chunk_cb le ((cs @ [owned]) ! i)) ((cs @ [owned]) ! i) \<and>
      \<not> chunk_vl le ((cs @ [owned]) ! i)"
    using each cs(2) by (auto simp: nth_append less_Suc_eq)
  with a(4) cs(2) h set' have "holds_buffers le host alloc typesize s' (bufs @ [src])"
    unfolding holds_buffers_def by (intro conjI exI[of _ "cs @ [owned]"]) simp_all
  with a(1,2) cs(2) show ?thesis by auto
qed

lemma append_buffer_holds:
  assumes "holds_buffers le host alloc typesize s bufs" "whole_items typesize src" "room s 1"
  shows "\<exists>s'. blosc2_schunk_append_buffer le host alloc user enc cv train None s src (int (length src)) = Some (int (length bufs) + 1, s', src) \<and>
    counts (s\<lparr> sc_cctx := sc_cctx s' \<rparr>) s' (int (length src)) (sc_cbytes s' - sc_cbytes s) \<and> sc_cbytes s' \<le> sc_cbytes s + 2 ^ 31 \<and>
    holds_buffers le host alloc typesize s' (bufs @ [src])"
proof -
  have h: "shuffle_host host" "allocates alloc" "append_context (sc_cctx s)" "ctx_typesize (sc_cctx s) = typesize" "\<not> ctx_do_compress (sc_dctx s)"
    using assms(1) unfolding holds_buffers_def by blast+
  have items: "whole_items (ctx_typesize (sc_cctx s)) src" using assms(2) h(4) by simp
  have len: "int (length src) + 32 < 2 ^ 31" using assms(2) by (simp add: whole_items_def)
  let ?n = "int (length src) + 32"
  obtain dest where dest: "alloc (nat ?n) = Some dest" "length dest = nat ?n" using h(2) unfolding allocates_def by blast
  have dl: "?n \<le> int (length dest)" using dest(2) by simp
  obtain cb cctx chunk where w: "blosc2_compress_ctx le host alloc user enc cv train None (sc_cctx s) src (int (length src)) dest ?n =
      Some (cb, cctx, src, chunk)" "length chunk = length dest"
    "cb = 0 \<and> ?n < int (length src) + 32 \<or> 32 \<le> cb \<and> cb \<le> ?n \<and> chunk_of src cb chunk"
    "same_settings (sc_cctx s) cctx" "0 < ctx_blocksize cctx" "ctx_blocksize cctx \<le> 2 ^ 22"
    "ctx_typesize (sc_cctx s) \<le> int (length src) \<Longrightarrow> ctx_typesize (sc_cctx s) dvd ctx_blocksize cctx"
    using compress_ctx_chunk[OF append_request(1)[OF h(3) items] dl h(2,1), of le user enc cv train] by metis
  have cb: "32 \<le> cb" "cb \<le> int (length chunk)" "chunk_of src cb chunk" using w(2,3) dest(2) by auto
  have next_ctx: "append_context cctx" "ctx_typesize cctx = typesize"
    using append_context_next[OF h(3) w(4-6) w(7)[OF append_request(2)[OF h(3) items]]] w(4) h(4) by (simp_all add: same_settings_def)
  let ?s = "s\<lparr> sc_current_nchunk := sc_nchunks s, sc_cctx := cctx \<rparr>"
  have hs: "holds_buffers le host alloc typesize ?s bufs"
    using assms(1) next_ctx unfolding holds_buffers_def inv_setup by simp
  have rm: "room ?s 1" using assms(3) by (simp add: room_def)
  obtain s' where a: "blosc2_schunk_append_chunk le ?s chunk False = Some (int (length bufs) + 1, s')"
    "counts ?s s' (int (length src)) cb" "holds_buffers le host alloc typesize s' (bufs @ [src])"
    using append_chunk_holds[OF hs cb(3,1,2) rm, of False] by blast
  have "blosc2_schunk_append_buffer le host alloc user enc cv train None s src (int (length src)) = Some (int (length bufs) + 1, s', src)"
    using w(1) a(1) cb(1) dest(1) len by (simp add: blosc2_schunk_append_buffer_def)
  moreover have "sc_cctx s' = cctx" "sc_cbytes s' = sc_cbytes s + cb" using a(2) by (simp_all add: counts_def same_setup_def)
  moreover have "counts (s\<lparr> sc_cctx := sc_cctx s' \<rparr>) s' (int (length src)) (sc_cbytes s' - sc_cbytes s)"
    using a(2) by (simp add: counts_def same_setup_def)
  moreover have "cb \<le> 2 ^ 31" using cb(2) w(2) dest(2) len by simp
  ultimately show ?thesis using a(3) by auto
qed

lemma decompress_holds:
  assumes "holds_buffers le host alloc typesize s bufs" "i < length bufs" "shuffle_host host'" "allocates alloc'"
    "int (length (bufs ! i)) \<le> nbytes" "length (bufs ! i) \<le> length dest"
  shows "blosc2_schunk_decompress_chunk le host' alloc' user dec ddict None None s (int i) dest nbytes =
    Some (int (length (bufs ! i)), s\<lparr> sc_current_nchunk := int i \<rparr>, bufs ! i @ drop (length (bufs ! i)) dest)"
proof -
  obtain cs where cs: "schunk_inv le s cs" "length cs = length bufs" and d: "\<not> ctx_do_compress (sc_dctx s)"
    and c: "chunk_of (bufs ! i) (chunk_cb le (cs ! i)) (cs ! i)"
    using assms(1,2) unfolding holds_buffers_def by blast
  have i: "i < length cs" using assms(2) cs(2) by simp
  have hold: "holds s cs" and N: "sc_nchunks s = int (length cs)" and ok: "chunk_ok le (cs ! i)"
    using cs(1) i by (auto simp: schunk_inv_def holds_def)
  obtain bs flags2 where s: "blosc2_cbuffer_sizes le (cs ! i) = Some (0, chunk_nb le (cs ! i), chunk_cb le (cs ! i), bs)"
    "chunk_cb le (cs ! i) \<le> int (length (cs ! i))" by (rule chunk_okE[OF ok])
  have len: "nat (chunk_cb le (cs ! i)) \<le> length (cs ! i)" using s(2) by simp
  with c obtain bs' where "blosc2_cbuffer_sizes le (cs ! i) = Some (0, int (length (bufs ! i)), chunk_cb le (cs ! i), bs')"
    unfolding chunk_of_def by blast
  moreover have "blosc2_decompress_ctx le host' alloc' user dec ddict None None (sc_dctx s) (cs ! i) (chunk_cb le (cs ! i)) dest nbytes =
      Some (int (length (bufs ! i)), bufs ! i @ drop (length (bufs ! i)) dest)"
    using c len assms(3-6) d unfolding chunk_of_def by blast
  ultimately show ?thesis
    using holds_nth[OF hold i] i assms(5) by (simp add: blosc2_schunk_decompress_chunk_def validate_nchunk_def N load_def)
qed

text \<open>The loop of a caller that stores its buffers one after the other.\<close>

definition append_buffer ::
    "bool \<Rightarrow> shuffle_implementation \<Rightarrow> (nat \<Rightarrow> buf option) \<Rightarrow> (byte \<Rightarrow> user_filter option) \<Rightarrow> (int \<Rightarrow> codec_fun option) \<Rightarrow> (int \<Rightarrow> int option) \<Rightarrow>
      (blosc2_context \<Rightarrow> buf \<Rightarrow> buf \<Rightarrow> (int \<times> blosc2_context \<times> buf \<times> buf) option) \<Rightarrow> schunk \<Rightarrow> buf \<Rightarrow> (int \<times> schunk) option" where
  "append_buffer le host alloc user enc cv train s src = do {
     (rc, s, src) \<leftarrow> blosc2_schunk_append_buffer le host alloc user enc cv train None s src (int (length src));
     Some (rc, s) }"

interpretation sb: chunk_store "holds_buffers le host alloc typesize" "append_buffer le host alloc user enc cv train"
    "whole_items typesize" room "\<lambda>src. src"
  for le host alloc typesize user enc cv train
proof
  fix s bufs src and n :: int
  assume h: "holds_buffers le host alloc typesize s bufs" "whole_items typesize src" and r: "room s (n + 1)" and n: "0 \<le> n"
  obtain s' where a: "blosc2_schunk_append_buffer le host alloc user enc cv train None s src (int (length src)) = Some (int (length bufs) + 1, s', src)"
    "counts (s\<lparr> sc_cctx := sc_cctx s' \<rparr>) s' (int (length src)) (sc_cbytes s' - sc_cbytes s)" "sc_cbytes s' \<le> sc_cbytes s + 2 ^ 31"
    "holds_buffers le host alloc typesize s' (bufs @ [src])"
    using append_buffer_holds[OF h room_less[OF r], of user enc cv train] n by auto
  have "room (s\<lparr> sc_cctx := sc_cctx s' \<rparr>) (n + 1)" using r by (simp add: room_def)
  moreover have "int (length src) \<le> 2 ^ 31" using h(2) by (simp add: whole_items_def)
  ultimately have "room s' n" using room_counts[OF _ a(2)] a(3) by simp
  with a show "\<exists>rc s'. append_buffer le host alloc user enc cv train s src = Some (rc, s') \<and> room s' n \<and>
      (rc < 0 \<and> holds_buffers le host alloc typesize s' bufs \<or>
       rc = int (length bufs) + 1 \<and> (\<exists>src'. src' = src \<and> holds_buffers le host alloc typesize s' (bufs @ [src'])))"
    by (simp add: append_buffer_def)
qed

lemma new_holds_buffers:
  assumes "shuffle_host host" "allocates alloc" "append_context cctx" "\<not> ctx_do_compress dctx"
  shows "holds_buffers le host alloc (ctx_typesize cctx) (blosc2_schunk_new typesize cctx dctx) []"
  using assms new_inv(1)[of le typesize cctx dctx] by (simp add: holds_buffers_def) (simp add: blosc2_schunk_new_def)

lemma append_all_rc:
  assumes "holds_buffers le host alloc typesize s bufs" "\<forall>src\<in>set srcs. whole_items typesize src" "room s (int (length srcs))"
  shows "\<exists>s'. append_all (append_buffer le host alloc user enc cv train) s srcs = Some (0, s') \<and>
    holds_buffers le host alloc typesize s' (bufs @ srcs)"
proof -
  obtain rc s' es where r: "append_all (append_buffer le host alloc user enc cv train) s srcs = Some (rc, s')"
    "holds_buffers le host alloc typesize s' (bufs @ es)"
    "if rc < 0 then \<exists>k<length srcs. map (\<lambda>src. src) es = map (\<lambda>src. src) (take k srcs) else map (\<lambda>src. src) es = map (\<lambda>src. src) srcs"
    using sb.append_all[OF assms] by blast
  have "rc = 0" using r(1) assms
  proof (induction srcs arbitrary: s bufs)
    case (Cons src srcs)
    obtain s1 where a: "append_buffer le host alloc user enc cv train s src = Some (int (length bufs) + 1, s1)"
      "holds_buffers le host alloc typesize s1 (bufs @ [src])"
      using append_buffer_holds[OF Cons.prems(2), of src user enc cv train] Cons.prems(3,4) room_less[OF Cons.prems(4), of 1]
      by (auto simp: append_buffer_def)
    have "room s1 (int (length srcs))"
      using sb.append_chunk[OF Cons.prems(2), of src "int (length srcs)" user enc cv train] a(1) Cons.prems(3,4)
      by (auto simp: add.commute)
    with a Cons show ?case by auto
  qed simp
  with r show ?thesis by auto
qed

definition sample_buffers :: "buf list" where
  "sample_buffers = [replicate 64 7, replicate 8 1]"

text \<open>
  C3. Storing buffers in a super-chunk and reading them back. Into a new super-chunk whose compression context uses
  BloscLZ at any level with at most two shuffle filters, and a block size left to the tuner or given as a multiple of the type size of at most
  4 MB, a caller appends non-empty buffers of whole items, each below 256 MB, one after the other:
  every append succeeds, although the block size the tuner finds for the first one stays in the context for the others.
  Afterwards each chunk, in any order and as often as wanted, decompresses to its buffer, in any destination that is
  large enough and with nothing behind the restored bytes changed, also with other routines for the shuffles.
\<close>

theorem buffers_roundtrip:
  assumes "append_context cctx" "\<not> ctx_do_compress dctx" "\<forall>src\<in>set srcs. whole_items (ctx_typesize cctx) src"
    "length srcs < 2 ^ 31" "allocates alloc" "shuffle_host host"
  shows "\<exists>s. append_all (append_buffer le host alloc user enc cv train) (blosc2_schunk_new typesize cctx dctx) srcs = Some (0, s) \<and>
    sc_nchunks s = int (length srcs) \<and>
    (\<forall>i host' alloc' user' dec ddict dest nbytes.
      i < length srcs \<and> shuffle_host host' \<and> allocates alloc' \<and> int (length (srcs ! i)) \<le> nbytes \<and> length (srcs ! i) \<le> length dest \<longrightarrow>
      blosc2_schunk_decompress_chunk le host' alloc' user' dec ddict None None s (int i) dest nbytes =
        Some (int (length (srcs ! i)), s\<lparr> sc_current_nchunk := int i \<rparr>, srcs ! i @ drop (length (srcs ! i)) dest))"
proof -
  have "room (blosc2_schunk_new typesize cctx dctx) (int (length srcs))"
    using assms(4) by (simp add: room_def blosc2_schunk_new_def)
  then obtain s where s: "append_all (append_buffer le host alloc user enc cv train) (blosc2_schunk_new typesize cctx dctx) srcs = Some (0, s)"
    "holds_buffers le host alloc (ctx_typesize cctx) s srcs"
    using append_all_rc[OF new_holds_buffers[OF assms(6,5,1,2)] assms(3)] by force
  have "sc_nchunks s = int (length srcs)" using s(2) by (auto simp: holds_buffers_def schunk_inv_def holds_def)
  with s(1) decompress_holds[OF s(2)] show ?thesis by blast
qed

theorem buffers_roundtrip_witness:
  "\<exists>s. append_all (append_buffer True (get_shuffle_implementation True calloc_ok) calloc_ok (\<lambda>_. None) (\<lambda>_. None) (\<lambda>_. None) (\<lambda>_ _ _. None))
      (blosc2_schunk_new 4 sample_request (sample_request\<lparr> ctx_do_compress := False \<rparr>)) sample_buffers = Some (0, s) \<and>
    sc_nchunks s = int (length sample_buffers) \<and>
    (\<forall>i host' alloc' user' dec ddict dest nbytes.
      i < length sample_buffers \<and> shuffle_host host' \<and> allocates alloc' \<and>
        int (length (sample_buffers ! i)) \<le> nbytes \<and> length (sample_buffers ! i) \<le> length dest \<longrightarrow>
      blosc2_schunk_decompress_chunk True host' alloc' user' dec ddict None None s (int i) dest nbytes =
        Some (int (length (sample_buffers ! i)), s\<lparr> sc_current_nchunk := int i \<rparr>,
          sample_buffers ! i @ drop (length (sample_buffers ! i)) dest))"
proof (rule buffers_roundtrip)
  have six: "i < 6 \<Longrightarrow> i \<in> {0, 1, 2, 3, 4, 5 :: nat}" for i by auto
  have "standard_filters sample_request"
    unfolding standard_filters_def using six by (fastforce simp: sample_request_def sample_context_def)
  moreover have "active_filters sample_request [0..<6] \<le> 2"
    by (simp add: active_filters_def sample_request_def sample_context_def upt_rec)
  ultimately show "append_context sample_request"
    by (simp add: append_context_def) (simp add: sample_request_def sample_context_def)
  show "allocates calloc_ok" by (simp add: allocates_def calloc_ok_def)
  show "shuffle_host (get_shuffle_implementation True calloc_ok)" by (rule generic_host.shuffle_host_axioms)
  show "\<forall>src\<in>set sample_buffers. whole_items (ctx_typesize sample_request) src"
    by (simp add: whole_items_def sample_request_def sample_context_def sample_buffers_def)
qed (simp_all add: sample_buffers_def)

end
