(* ===== verification/Context_Creation.thy ===== *)
theory Context_Creation
  imports Schunk_Buffers
begin

text \<open>
  The contexts of \<open>blosc/blosc2.c\<close>: \<open>blosc2_create_cctx\<close> turns the compression parameters into a context and lets
  environment variables overrule them; \<open>blosc2_create_dctx\<close> makes a context for decompression. The environment is a function
  from names to values. What the library holds besides, the registered codecs and tuners, is a record of its own. The pointers of the parameters are
  only passed on, so they are numbers here; the parameters of a prefilter, which are copied, are their contents. The memory of a context is assumed
  to be there. The C standard leaves it open whether \<open>strtol\<close> sets \<open>EINVAL\<close> for an input without digits, so this is a parameter.
\<close>

section \<open>Parameters and environment\<close>

type_synonym pointer = nat

type_synonym prefilter_params = nat

record blosc2_cparams =
  cp_compcode :: byte
  cp_compcode_meta :: byte
  cp_clevel :: byte
  cp_use_dict :: bool
  cp_typesize :: int
  cp_blocksize :: int
  cp_splitmode :: int
  cp_filters :: "byte list"
  cp_filters_meta :: "byte list"
  cp_instr_codec :: bool
  cp_nthreads :: int
  cp_schunk :: pointer
  cp_prefilter :: "(pointer \<times> prefilter_params) option"
  cp_tuner_params :: pointer
  cp_tuner_id :: int
  cp_codec_params :: pointer
  cp_filter_params :: "pointer list"

definition BLOSC2_CPARAMS_DEFAULTS :: blosc2_cparams where
  "BLOSC2_CPARAMS_DEFAULTS =
    \<lparr> cp_compcode = 0, cp_compcode_meta = 0, cp_clevel = 5, cp_use_dict = False, cp_typesize = 8, cp_blocksize = 0,
      cp_splitmode = BLOSC_FORWARD_COMPAT_SPLIT, cp_filters = [0, 0, 0, 0, 0, BLOSC_SHUFFLE],
      cp_filters_meta = [0, 0, 0, 0, 0, 0], cp_instr_codec = False, cp_nthreads = 1, cp_schunk = 0, cp_prefilter = None,
      cp_tuner_params = 0, cp_tuner_id = 0, cp_codec_params = 0, cp_filter_params = replicate 6 0 \<rparr>"

text \<open>What a context holds besides the members that compressing works with.\<close>

record blosc2_cctx =
  cctx_context :: blosc2_context
  cctx_nthreads :: int
  cctx_schunk :: pointer
  cctx_prefilter :: "(pointer \<times> prefilter_params) option"
  cctx_tuner_id :: int
  cctx_codec_params :: pointer
  cctx_filter_params :: "pointer list"

text \<open>
  The state of the library: the registered codecs, the default tuner and the registered ones, each with its
  \<open>init\<close>, which gives a code and the context it was handed; \<open>None\<close> for a tuner that cannot be loaded.
\<close>

record library =
  lib_have_zfp :: bool
  lib_codecs :: "(string \<times> byte) list"
  lib_strtol_reports :: bool
  lib_g_tuner :: int
  lib_tuners :: "(int \<times> (pointer \<Rightarrow> blosc2_cctx \<Rightarrow> int \<times> blosc2_cctx) option) list"

type_synonym env = "string \<Rightarrow> string option"

text \<open>\<open>strtol(s, NULL, 10)\<close> for a 64-bit \<open>long\<close>: blanks, a sign, digits as far as they go, clipped to the range.\<close>

definition is_digit :: "char \<Rightarrow> bool" where
  "is_digit c \<longleftrightarrow> 48 \<le> (of_char c :: nat) \<and> (of_char c :: nat) \<le> 57"

definition is_space :: "char \<Rightarrow> bool" where
  "is_space c \<longleftrightarrow> c = CHR '' '' \<or> of_char c \<in> {9 :: nat, 10, 11, 12, 13}"

definition digits_val :: "string \<Rightarrow> int" where
  "digits_val s = foldl (\<lambda>v c. v * 10 + (of_char c - 48)) 0 (takeWhile is_digit s)"

definition strtol :: "string \<Rightarrow> int" where
  "strtol s =
    (let s = dropWhile is_space s;
         v = (case s of
           c # r \<Rightarrow> if c = CHR ''-'' then - digits_val r else if c = CHR ''+'' then digits_val r else digits_val s
         | [] \<Rightarrow> 0)
     in max (- (2 ^ 63)) (min (2 ^ 63 - 1) v))"

definition no_digits :: "string \<Rightarrow> bool" where
  "no_digits s \<longleftrightarrow> (case dropWhile is_space s of [] \<Rightarrow> True
     | c # r \<Rightarrow> takeWhile is_digit (if c = CHR ''-'' \<or> c = CHR ''+'' then r else c # r) = [])"

text \<open>An integer from the environment, cut to its width by \<open>wrap\<close> and taken when \<open>ok\<close> accepts it.\<close>

definition env_int :: "library \<Rightarrow> env \<Rightarrow> string \<Rightarrow> (int \<Rightarrow> int) \<Rightarrow> (int \<Rightarrow> bool) \<Rightarrow> int \<Rightarrow> int" where
  "env_int lib getenv name wrap ok dflt =
    (case getenv name of None \<Rightarrow> dflt
     | Some envvar \<Rightarrow> let value = wrap (strtol envvar) in
         if \<not> (lib_strtol_reports lib \<and> no_digits envvar) \<and> ok value then value else dflt)"

definition wrap16 :: "int \<Rightarrow> int" where
  "wrap16 x = (x + 2 ^ 15) mod 2 ^ 16 - 2 ^ 15"

definition env_shuffle :: "env \<Rightarrow> int" where
  "env_shuffle getenv =
    (case getenv ''BLOSC_SHUFFLE'' of None \<Rightarrow> - 1
     | Some envvar \<Rightarrow>
         if envvar = ''NOSHUFFLE'' then 0 else if envvar = ''SHUFFLE'' then 1 else if envvar = ''BITSHUFFLE'' then 2 else - 1)"

definition env_delta :: "env \<Rightarrow> bool" where
  "env_delta getenv = (getenv ''BLOSC_DELTA'' = Some ''1'')"

definition env_splitmode :: "env \<Rightarrow> int \<Rightarrow> int" where
  "env_splitmode getenv dflt =
    (case getenv ''BLOSC_SPLITMODE'' of None \<Rightarrow> dflt
     | Some envvar \<Rightarrow>
         if envvar = ''ALWAYS'' then BLOSC_ALWAYS_SPLIT else if envvar = ''NEVER'' then BLOSC_NEVER_SPLIT
         else if envvar = ''AUTO'' then BLOSC_AUTO_SPLIT else if envvar = ''FORWARD_COMPAT'' then BLOSC_FORWARD_COMPAT_SPLIT
         else dflt)"

text \<open>The code of a codec's name; \<open>codecs\<close> is the table of registered codecs, names and codes.\<close>

definition blosc2_compname_to_compcode :: "(string \<times> byte) list \<Rightarrow> string \<Rightarrow> int" where
  "blosc2_compname_to_compcode codecs compname =
    (if compname = ''blosclz'' then BLOSC_BLOSCLZ else if compname = ''lz4'' then BLOSC_LZ4
     else if compname = ''lz4hc'' then BLOSC_LZ4HC else if compname = ''zlib'' then BLOSC_ZLIB
     else if compname = ''zstd'' then BLOSC_ZSTD
     else case map_of codecs compname of Some code \<Rightarrow> uint code | None \<Rightarrow> - 1)"

section \<open>The contexts\<close>

text \<open>The last slots of the pipeline, from the old-style shuffle and delta settings.\<close>

definition build_filters :: "int \<Rightarrow> bool \<Rightarrow> int \<Rightarrow> byte list \<Rightarrow> byte list" where
  "build_filters doshuffle delta typesize filters =
    (let filters = (if doshuffle = 1 \<and> typesize > 1 then filters[5 := BLOSC_SHUFFLE] else filters);
         filters = (if doshuffle = 2 then filters[5 := BLOSC_BITSHUFFLE] else filters);
         filters = (if doshuffle = 0 then filters[5 := BLOSC_NOFILTER] else filters)
     in if delta then filters[4 := BLOSC_DELTA] else filters)"

definition zero_context :: blosc2_context where
  "zero_context =
    \<lparr> ctx_header_flags = 0, ctx_blosc2_flags = 0, ctx_blosc2_flags2 = 0, ctx_sourcesize = 0, ctx_header_overhead = 0,
      ctx_nblocks = 0, ctx_leftover = 0, ctx_blocksize = 0, ctx_header_blocksize = 0, ctx_splitmode = 0, ctx_output_bytes = 0,
      ctx_srcsize = 0, ctx_destsize = 0, ctx_typesize = 0, ctx_special_type = 0, ctx_compcode = 0, ctx_compcode_meta = 0,
      ctx_clevel = 0, ctx_use_dict = False, ctx_has_cdict = False, ctx_filter_flags = 0, ctx_filters = replicate 6 0,
      ctx_filters_meta = replicate 6 0, ctx_do_compress = False, ctx_bstarts = None \<rparr>"

text \<open>A filter between the defined and the registered ranges, or beyond the registered ones, does not exist.\<close>

definition filter_undefined :: "byte \<Rightarrow> bool" where
  "filter_undefined f \<longleftrightarrow> 5 \<le> uint f \<and> uint f \<le> 31 \<or> 36 < uint f \<and> uint f \<le> 159"

text \<open>
  The test of the ZFP codecs, which stands before the code of the codec is taken over from the parameters; \<open>have_zfp\<close> says
  whether they are compiled in.
\<close>

definition zfp_refuses :: "bool \<Rightarrow> blosc2_context \<Rightarrow> bool" where
  "zfp_refuses have_zfp context \<longleftrightarrow> have_zfp \<and> 33 \<le> ctx_compcode context \<and> ctx_compcode context \<le> 35 \<and>
     (\<exists>f \<in> set (ctx_filters context). f = BLOSC_SHUFFLE \<or> f = BLOSC_BITSHUFFLE)"

text \<open>
  The end of the function: the tuner is taken from the library or called for its own initialisation. The result \<open>None\<close> is
  the null pointer.
\<close>

definition init_tuner :: "library \<Rightarrow> blosc2_cparams \<Rightarrow> blosc2_cctx \<Rightarrow> (int \<times> blosc2_cctx) option" where
  "init_tuner lib cparams context =
    (if cp_tuner_id cparams \<le> 0 then Some (lib_g_tuner lib, context)
     else case map_of (lib_tuners lib) (cp_tuner_id cparams) of
       Some (Some init) \<Rightarrow>
         let (rc, context) = init (cp_tuner_params cparams) context in
         if rc < 0 then None else Some (cp_tuner_id cparams, context)
     | _ \<Rightarrow> None)"

definition blosc2_create_cctx :: "library \<Rightarrow> env \<Rightarrow> blosc2_cparams \<Rightarrow> blosc2_cctx option" where
  "blosc2_create_cctx lib getenv cparams =
    (let context = zero_context\<lparr> ctx_do_compress := True, ctx_use_dict := cp_use_dict cparams,
           ctx_blosc2_flags := (if cp_instr_codec cparams then BLOSC2_INSTR_CODEC else 0),
           ctx_filters := take 6 (cp_filters cparams), ctx_filters_meta := take 6 (cp_filters_meta cparams) \<rparr>
     in if \<exists>f \<in> set (ctx_filters context). filter_undefined f then None
        else if zfp_refuses (lib_have_zfp lib) context then None
        else
          let typesize = env_int lib getenv ''BLOSC_TYPESIZE'' wrap32 (\<lambda>v. v > 0) (cp_typesize cparams);
              filters = build_filters (env_shuffle getenv) (env_delta getenv) typesize (ctx_filters context);
              clevel = env_int lib getenv ''BLOSC_CLEVEL'' wrap32 (\<lambda>v. v \<ge> 0) (uint (cp_clevel cparams));
              codec = (case getenv ''BLOSC_COMPRESSOR'' of None \<Rightarrow> uint (cp_compcode cparams)
                | Some envvar \<Rightarrow> blosc2_compname_to_compcode (lib_codecs lib) envvar)
          in if getenv ''BLOSC_COMPRESSOR'' \<noteq> None \<and> codec \<ge> BLOSC_LAST_CODEC then None
             else
               let context = context\<lparr> ctx_typesize := typesize, ctx_filters := filters, ctx_clevel := clevel, ctx_compcode := codec,
                     ctx_compcode_meta := cp_compcode_meta cparams,
                     ctx_blocksize := env_int lib getenv ''BLOSC_BLOCKSIZE'' wrap32 (\<lambda>v. v > 0) (cp_blocksize cparams),
                     ctx_splitmode := env_splitmode getenv (cp_splitmode cparams) \<rparr>;
                   cctx = \<lparr> cctx_context = context,
                     cctx_nthreads = env_int lib getenv ''BLOSC_NTHREADS'' wrap16 (\<lambda>v. v > 0) (cp_nthreads cparams),
                     cctx_schunk = cp_schunk cparams, cctx_prefilter = cp_prefilter cparams, cctx_tuner_id = 0,
                     cctx_codec_params = 0, cctx_filter_params = replicate 6 0 \<rparr>
               in case init_tuner lib cparams cctx of None \<Rightarrow> None
                  | Some (tuner_id, cctx) \<Rightarrow> Some (cctx\<lparr> cctx_tuner_id := tuner_id, cctx_codec_params := cp_codec_params cparams,
                      cctx_filter_params := take 6 (cp_filter_params cparams) \<rparr>))"

definition blosc2_create_dctx :: blosc2_context where
  "blosc2_create_dctx = zero_context\<lparr> ctx_do_compress := False \<rparr>"

text \<open>
  The parameters a context was made of, as far as it keeps them, written to the members of the caller's structure; the parameters of the
  filters and of the tuner are not written.
\<close>

definition blosc2_ctx_get_cparams :: "blosc2_cctx \<Rightarrow> blosc2_cparams \<Rightarrow> blosc2_cparams" where
  "blosc2_ctx_get_cparams cctx cparams =
    (let ctx = cctx_context cctx in
     cparams\<lparr> cp_compcode := word_of_int (ctx_compcode ctx), cp_compcode_meta := ctx_compcode_meta ctx,
      cp_clevel := word_of_int (ctx_clevel ctx), cp_use_dict := ctx_use_dict ctx,
      cp_instr_codec := (ctx_blosc2_flags ctx AND BLOSC2_INSTR_CODEC \<noteq> 0), cp_typesize := ctx_typesize ctx,
      cp_nthreads := cctx_nthreads cctx, cp_blocksize := ctx_blocksize ctx, cp_splitmode := ctx_splitmode ctx,
      cp_schunk := cctx_schunk cctx, cp_filters := take 6 (ctx_filters ctx), cp_filters_meta := take 6 (ctx_filters_meta ctx),
      cp_prefilter := cctx_prefilter cctx, cp_tuner_id := cctx_tuner_id cctx, cp_codec_params := cctx_codec_params cctx \<rparr>)"

section \<open>What the contexts keep\<close>

text \<open>
  Parameters of BloscLZ with the standard filters and the default tuner, in the range the library takes: a context made of them fits every buffer of
  whole items. The environment leaves them alone when it sets none of the variables.
\<close>

definition standard_cparams :: "blosc2_cparams \<Rightarrow> bool" where
  "standard_cparams p \<longleftrightarrow> cp_compcode p = 0 \<and> cp_clevel p \<le> 9 \<and> \<not> cp_use_dict p \<and> 1 \<le> cp_typesize p \<and> cp_typesize p \<le> 255 \<and>
     length (cp_filters p) = 6 \<and> length (cp_filters_meta p) = 6 \<and> \<not> cp_instr_codec p \<and> cp_tuner_id p \<le> 0 \<and>
     (\<forall>f \<in> set (cp_filters p). f \<in> {BLOSC_NOFILTER, BLOSC_SHUFFLE, BLOSC_BITSHUFFLE}) \<and>
     length (filter (\<lambda>f. f \<noteq> BLOSC_NOFILTER) (cp_filters p)) \<le> 2 \<and>
     (cp_blocksize p = 0 \<or> 0 < cp_blocksize p \<and> cp_blocksize p \<le> 2 ^ 22 \<and> cp_typesize p dvd cp_blocksize p)"

definition unset_env :: "env \<Rightarrow> bool" where
  "unset_env getenv \<longleftrightarrow> (\<forall>name \<in> {''BLOSC_SHUFFLE'', ''BLOSC_DELTA'', ''BLOSC_TYPESIZE'', ''BLOSC_CLEVEL'', ''BLOSC_COMPRESSOR'',
     ''BLOSC_BLOCKSIZE'', ''BLOSC_NTHREADS'', ''BLOSC_SPLITMODE''}. getenv name = None)"

text \<open>Without variables the context holds the parameters.\<close>

definition parameters_context :: "blosc2_cparams \<Rightarrow> blosc2_context" where
  "parameters_context p = zero_context\<lparr> ctx_do_compress := True, ctx_use_dict := cp_use_dict p,
     ctx_blosc2_flags := (if cp_instr_codec p then BLOSC2_INSTR_CODEC else 0), ctx_filters := take 6 (cp_filters p),
     ctx_filters_meta := take 6 (cp_filters_meta p), ctx_typesize := cp_typesize p, ctx_clevel := uint (cp_clevel p),
     ctx_compcode := uint (cp_compcode p), ctx_compcode_meta := cp_compcode_meta p, ctx_blocksize := cp_blocksize p,
     ctx_splitmode := cp_splitmode p \<rparr>"

text \<open>The context before its tuner is initialised.\<close>

definition untuned :: "blosc2_cparams \<Rightarrow> blosc2_cctx" where
  "untuned p = \<lparr> cctx_context = parameters_context p, cctx_nthreads = cp_nthreads p, cctx_schunk = cp_schunk p,
     cctx_prefilter = cp_prefilter p, cctx_tuner_id = 0, cctx_codec_params = 0, cctx_filter_params = replicate 6 0 \<rparr>"

lemma create_cctx_unset:
  assumes "unset_env getenv"
  shows "blosc2_create_cctx lib getenv p =
    (if \<exists>f \<in> set (take 6 (cp_filters p)). filter_undefined f then None
     else case init_tuner lib p (untuned p) of None \<Rightarrow> None
       | Some (tuner_id, cctx) \<Rightarrow> Some (cctx\<lparr> cctx_tuner_id := tuner_id, cctx_codec_params := cp_codec_params p,
           cctx_filter_params := take 6 (cp_filter_params p) \<rparr>))"
  using assms
  by (simp add: blosc2_create_cctx_def unset_env_def env_shuffle_def env_delta_def env_splitmode_def env_int_def build_filters_def
      zfp_refuses_def zero_context_def parameters_context_def untuned_def Let_def)

lemma active_filters_list:
  assumes "length (ctx_filters c) = 6"
  shows "active_filters c [0..<6] = length (filter (\<lambda>f. f \<noteq> BLOSC_NOFILTER) (ctx_filters c))"
proof -
  have "filter (\<lambda>f. f \<noteq> BLOSC_NOFILTER) (ctx_filters c) = filter (\<lambda>f. f \<noteq> BLOSC_NOFILTER) (map ((!) (ctx_filters c)) [0..<6])"
    using map_nth[of "ctx_filters c"] assms by simp
  then show ?thesis by (simp add: active_filters_def filter_map o_def)
qed

lemma parameters_append_context:
  assumes "standard_cparams p"
  shows "append_context (parameters_context p)" "ctx_typesize (parameters_context p) = cp_typesize p"
proof -
  note p = assms[unfolded standard_cparams_def]
  let ?c = "parameters_context p"
  have f: "ctx_filters ?c = cp_filters p" using p by (simp add: parameters_context_def)
  have "active_filters ?c [0..<6] \<le> 2" using active_filters_list[of ?c] p f by simp
  moreover have "standard_filters ?c" using p f by (simp add: standard_filters_def)
  moreover have "uint (cp_clevel p) \<le> 9" using p by (simp add: word_le_def)
  ultimately show "append_context ?c" using p f by (simp add: append_context_def) (simp add: parameters_context_def)
  show "ctx_typesize ?c = cp_typesize p" by (simp add: parameters_context_def)
qed

lemma standard_defined:
  assumes "standard_cparams p"
  shows "\<not> (\<exists>f \<in> set (take 6 (cp_filters p)). filter_undefined f)"
  using assms by (auto simp: standard_cparams_def filter_undefined_def)

lemma create_standard:
  assumes "standard_cparams p" "unset_env getenv"
  shows "map_option cctx_context (blosc2_create_cctx lib getenv p) = Some (parameters_context p)"
proof -
  have "cp_tuner_id p \<le> 0" using assms(1) by (simp add: standard_cparams_def)
  with create_cctx_unset[OF assms(2), of lib p] standard_defined[OF assms(1)] show ?thesis by (simp add: init_tuner_def untuned_def)
qed

lemma default_standard: "standard_cparams BLOSC2_CPARAMS_DEFAULTS"
  by (simp add: standard_cparams_def BLOSC2_CPARAMS_DEFAULTS_def)

text \<open>
  Tuners that only answer a code and leave the context as it is, and the tuners that are not to be had: not registered, not loadable, or
  with an \<open>init\<close> that fails.
\<close>

definition passive_tuners :: "library \<Rightarrow> bool" where
  "passive_tuners lib \<longleftrightarrow> (\<forall>i init ptr. map_of (lib_tuners lib) i = Some (Some init) \<longrightarrow> (\<exists>rc. \<forall>c. init ptr c = (rc, c)))"

definition tuner_missing :: "library \<Rightarrow> blosc2_cparams \<Rightarrow> bool" where
  "tuner_missing lib p \<longleftrightarrow> 0 < cp_tuner_id p \<and> (case map_of (lib_tuners lib) (cp_tuner_id p) of
     Some (Some init) \<Rightarrow> fst (init (cp_tuner_params p) (untuned p)) < 0 | _ \<Rightarrow> True)"

lemma init_tuner_passive:
  assumes "passive_tuners lib"
  shows "init_tuner lib p (untuned p) =
    (if tuner_missing lib p then None else Some (if cp_tuner_id p \<le> 0 then lib_g_tuner lib else cp_tuner_id p, untuned p))"
proof (cases "0 < cp_tuner_id p")
  case False
  then show ?thesis by (simp add: init_tuner_def tuner_missing_def)
next
  case pos: True
  show ?thesis
  proof (cases "\<exists>init. map_of (lib_tuners lib) (cp_tuner_id p) = Some (Some init)")
    case True
    then obtain init where i: "map_of (lib_tuners lib) (cp_tuner_id p) = Some (Some init)" by blast
    with assms obtain rc where "\<forall>c. init (cp_tuner_params p) c = (rc, c)" unfolding passive_tuners_def by blast
    with pos i show ?thesis by (simp add: init_tuner_def tuner_missing_def)
  next
    case False
    with pos show ?thesis by (auto simp: init_tuner_def tuner_missing_def split: option.splits)
  qed
qed

text \<open>
  C28. With no environment variable set and tuners that leave the context alone, a context is created for all parameters but those with a
  filter that does not exist and those that ask for a tuner that is not registered, cannot be loaded or fails in its \<open>init\<close>. From the
  context, \<open>blosc2_ctx_get_cparams\<close> returns in any structure the parameters the context was created of, with three exceptions: a tuner that was left to
  the library is the library's default tuner, and the parameters of the filters and of the tuner stay what they were in the structure.
  The parameters of a prefilter, which the context holds as a copy, come back by their contents.
\<close>

theorem cparams_roundtrip:
  assumes "unset_env getenv" "length (cp_filters p) = 6" "length (cp_filters_meta p) = 6" "passive_tuners lib"
  shows "case blosc2_create_cctx lib getenv p of
      None \<Rightarrow> (\<exists>f \<in> set (cp_filters p). filter_undefined f) \<or> tuner_missing lib p
    | Some c \<Rightarrow> \<not> (\<exists>f \<in> set (cp_filters p). filter_undefined f) \<and> \<not> tuner_missing lib p \<and>
        blosc2_ctx_get_cparams c q = p\<lparr> cp_tuner_id := (if cp_tuner_id p \<le> 0 then lib_g_tuner lib else cp_tuner_id p),
          cp_tuner_params := cp_tuner_params q, cp_filter_params := cp_filter_params q \<rparr>"
  using assms create_cctx_unset[OF assms(1), of lib p] init_tuner_passive[OF assms(4), of p]
  by (cases p; cases q) (simp add: parameters_context_def untuned_def blosc2_ctx_get_cparams_def Let_def)

text \<open>A library with one tuner, and parameters for that tuner and with parameters of filters.\<close>

definition sample_library :: library where
  "sample_library = \<lparr> lib_have_zfp = True, lib_codecs = [], lib_strtol_reports = False, lib_g_tuner = 0,
     lib_tuners = [(33, None), (32, Some (\<lambda>ptr c. (0, c)))] \<rparr>"

theorem cparams_roundtrip_witness:
  "(\<exists>c. blosc2_create_cctx sample_library (\<lambda>_. None) (BLOSC2_CPARAMS_DEFAULTS\<lparr> cp_tuner_id := 32, cp_tuner_params := 7, cp_filter_params := [1, 2, 3, 4, 5, 6] \<rparr>) = Some c \<and>
     blosc2_ctx_get_cparams c BLOSC2_CPARAMS_DEFAULTS = BLOSC2_CPARAMS_DEFAULTS\<lparr> cp_tuner_id := 32 \<rparr>) \<and>
   blosc2_create_cctx sample_library (\<lambda>_. None) (BLOSC2_CPARAMS_DEFAULTS\<lparr> cp_tuner_id := 33 \<rparr>) = None"
proof -
  let ?p = "BLOSC2_CPARAMS_DEFAULTS\<lparr> cp_tuner_id := 32, cp_tuner_params := 7, cp_filter_params := [1, 2, 3, 4, 5, 6] \<rparr>"
  let ?p' = "BLOSC2_CPARAMS_DEFAULTS\<lparr> cp_tuner_id := 33 \<rparr>"
  have e: "unset_env (\<lambda>_. None)" by (simp add: unset_env_def)
  have t: "passive_tuners sample_library" by (auto simp: passive_tuners_def sample_library_def split: if_splits)
  have l: "length (cp_filters ?p) = 6" "length (cp_filters_meta ?p) = 6" "length (cp_filters ?p') = 6" "length (cp_filters_meta ?p') = 6"
    by (simp_all add: BLOSC2_CPARAMS_DEFAULTS_def)
  have f: "\<not> (\<exists>f \<in> set (cp_filters ?p). filter_undefined f)" by (simp add: BLOSC2_CPARAMS_DEFAULTS_def filter_undefined_def)
  have m: "\<not> tuner_missing sample_library ?p" "tuner_missing sample_library ?p'"
    by (simp_all add: tuner_missing_def sample_library_def)
  have "blosc2_create_cctx sample_library (\<lambda>_. None) ?p' = None"
    using cparams_roundtrip[OF e l(3,4) t, of BLOSC2_CPARAMS_DEFAULTS] m(2)
    by (cases "blosc2_create_cctx sample_library (\<lambda>_. None) ?p'") simp_all
  moreover have "\<exists>c. blosc2_create_cctx sample_library (\<lambda>_. None) ?p = Some c \<and>
      blosc2_ctx_get_cparams c BLOSC2_CPARAMS_DEFAULTS = ?p\<lparr> cp_tuner_id := 32, cp_tuner_params := 0, cp_filter_params := replicate 6 0 \<rparr>"
    using cparams_roundtrip[OF e l(1,2) t, of BLOSC2_CPARAMS_DEFAULTS] f m(1)
    by (cases "blosc2_create_cctx sample_library (\<lambda>_. None) ?p") (simp_all add: BLOSC2_CPARAMS_DEFAULTS_def)
  ultimately show ?thesis by (simp add: BLOSC2_CPARAMS_DEFAULTS_def)
qed

text \<open>A name of no codec.\<close>

definition unknown_codec :: "library \<Rightarrow> string \<Rightarrow> bool" where
  "unknown_codec lib name \<longleftrightarrow> name \<notin> {''blosclz'', ''lz4'', ''lz4hc'', ''zlib'', ''zstd''} \<and> map_of (lib_codecs lib) name = None"

lemma unknown_compcode: "unknown_codec lib name \<Longrightarrow> blosc2_compname_to_compcode (lib_codecs lib) name = - 1"
  by (simp add: unknown_codec_def blosc2_compname_to_compcode_def)

lemma strtol_no_digits: "no_digits s \<Longrightarrow> strtol s = 0"
proof (cases "dropWhile is_space s")
  case (Cons c r)
  assume "no_digits s"
  then have "takeWhile is_digit (if c = CHR ''-'' \<or> c = CHR ''+'' then r else c # r) = []" unfolding no_digits_def Cons list.case .
  then show ?thesis unfolding strtol_def digits_val_def Let_def Cons list.case by (auto split: if_splits)
next
  case Nil
  then show ?thesis unfolding strtol_def Let_def Nil list.case by simp
qed

text \<open>
  C29. Three checks that do not check, for parameters with existing filters and no tuner of their own. The test for a codec of ZFP with a shuffle
  in the pipeline makes no difference to any context, for it comes before the code of the codec is stored. Any value of \<open>BLOSC_CLEVEL\<close> without digits is level 0 when
  \<open>strtol\<close> does not report it, and leaves the level alone when it does. Any name in \<open>BLOSC_COMPRESSOR\<close> that no codec
  has creates a context with the codec -1.
\<close>

theorem environment_unchecked:
  assumes "cp_tuner_id p \<le> 0" "\<forall>f \<in> set (take 6 (cp_filters p)). \<not> filter_undefined f"
  shows "blosc2_create_cctx (lib\<lparr> lib_have_zfp := True \<rparr>) getenv p = blosc2_create_cctx (lib\<lparr> lib_have_zfp := False \<rparr>) getenv p \<and>
    (\<forall>s c. getenv ''BLOSC_CLEVEL'' = Some s \<and> no_digits s \<and> blosc2_create_cctx lib getenv p = Some c \<longrightarrow>
      ctx_clevel (cctx_context c) = (if lib_strtol_reports lib then uint (cp_clevel p) else 0)) \<and>
    (\<forall>s. getenv ''BLOSC_COMPRESSOR'' = Some s \<and> unknown_codec lib s \<longrightarrow>
      (\<exists>c. blosc2_create_cctx lib getenv p = Some c \<and> ctx_compcode (cctx_context c) = - 1))"
proof (intro conjI allI impI)
  note create = blosc2_create_cctx_def zfp_refuses_def zero_context_def Let_def init_tuner_def
  have env: "env_int (lib\<lparr> lib_have_zfp := b \<rparr>) = env_int lib" for b
    by (intro ext) (simp add: env_int_def split: option.split)
  show "blosc2_create_cctx (lib\<lparr> lib_have_zfp := True \<rparr>) getenv p = blosc2_create_cctx (lib\<lparr> lib_have_zfp := False \<rparr>) getenv p"
    using env[of True] env[of False] by (cases "getenv ''BLOSC_COMPRESSOR''") (simp_all add: create)
  have z: "wrap32 0 = 0" by (simp add: wrap32_def)
  show "ctx_clevel (cctx_context c) = (if lib_strtol_reports lib then uint (cp_clevel p) else 0)"
    if "getenv ''BLOSC_CLEVEL'' = Some s \<and> no_digits s \<and> blosc2_create_cctx lib getenv p = Some c" for s c
  proof -
    have "env_int lib getenv ''BLOSC_CLEVEL'' wrap32 (\<lambda>v. v \<ge> 0) (uint (cp_clevel p)) = (if lib_strtol_reports lib then uint (cp_clevel p) else 0)"
      using that by (simp add: env_int_def strtol_no_digits z)
    with that assms show ?thesis by (auto simp: create split: if_splits)
  qed
  show "\<exists>c. blosc2_create_cctx lib getenv p = Some c \<and> ctx_compcode (cctx_context c) = - 1"
    if "getenv ''BLOSC_COMPRESSOR'' = Some s \<and> unknown_codec lib s" for s
    using that assms by (simp add: create unknown_compcode)
qed

theorem environment_unchecked_witness:
  "(\<exists>c. blosc2_create_cctx sample_library [''BLOSC_CLEVEL'' \<mapsto> ''max'', ''BLOSC_COMPRESSOR'' \<mapsto> ''gzip''] BLOSC2_CPARAMS_DEFAULTS = Some c \<and>
     ctx_clevel (cctx_context c) = 0 \<and> ctx_compcode (cctx_context c) = - 1)"
proof -
  let ?env = "[''BLOSC_CLEVEL'' \<mapsto> ''max'', ''BLOSC_COMPRESSOR'' \<mapsto> ''gzip'']"
  have p: "cp_tuner_id BLOSC2_CPARAMS_DEFAULTS \<le> 0" "\<forall>f \<in> set (take 6 (cp_filters BLOSC2_CPARAMS_DEFAULTS)). \<not> filter_undefined f"
    by (simp_all add: BLOSC2_CPARAMS_DEFAULTS_def filter_undefined_def)
  have "no_digits ''max''" by (simp add: no_digits_def is_space_def is_digit_def)
  moreover have "unknown_codec sample_library ''gzip''" by (simp add: unknown_codec_def sample_library_def)
  moreover have "\<not> lib_strtol_reports sample_library" by (simp add: sample_library_def)
  ultimately show ?thesis using environment_unchecked[OF p, of sample_library ?env] by auto
qed

end
