(* ===== verification/Metalayers.thy ===== *)
theory Metalayers
  imports Context_Creation Schunk_Buffers
begin

text \<open>
  The metalayers of a super-chunk in \<open>include/blosc2.h\<close> and \<open>blosc/schunk.c\<close>: named pieces of user data, at most 16 of a
  fixed length, and those of variable length, kept as chunks. As in \<open>Schunk\<close> there is no frame to pass the changes on to.
  Names are strings without the character 0, so \<open>strlen\<close> and \<open>strcmp\<close> are the length and the equality of lists; a metalayer
  is its name and its content, whose length is the field \<open>content_len\<close>. Writing a pointer behind the last place of the
  arrays of metalayers is undefined.
\<close>

section \<open>Lookup\<close>

abbreviation (input) BLOSC2_MAX_METALAYERS :: nat where "BLOSC2_MAX_METALAYERS \<equiv> 16"
abbreviation (input) BLOSC2_MAX_VLMETALAYERS :: nat where "BLOSC2_MAX_VLMETALAYERS \<equiv> 8192"
abbreviation (input) BLOSC2_METALAYER_NAME_MAXLEN :: nat where "BLOSC2_METALAYER_NAME_MAXLEN \<equiv> 31"

fun find_metalayer :: "string \<Rightarrow> int \<Rightarrow> metalayer list \<Rightarrow> int" where
  "find_metalayer name n [] = BLOSC2_ERROR_NOT_FOUND"
| "find_metalayer name n (m # ms) = (if name = fst m then n else find_metalayer name (n + 1) ms)"

definition blosc2_meta_exists :: "schunk \<Rightarrow> string \<Rightarrow> int" where
  "blosc2_meta_exists schunk name =
    (if length name > BLOSC2_METALAYER_NAME_MAXLEN then BLOSC2_ERROR_INVALID_PARAM
     else find_metalayer name 0 (sc_metalayers schunk))"

definition blosc2_vlmeta_exists :: "schunk \<Rightarrow> string \<Rightarrow> int" where
  "blosc2_vlmeta_exists schunk name =
    (if length name > BLOSC2_METALAYER_NAME_MAXLEN then BLOSC2_ERROR_INVALID_PARAM
     else find_metalayer name 0 (sc_vlmetalayers schunk))"

section \<open>Metalayers of fixed length\<close>

text \<open>
  \<open>data\<close> is the caller's buffer, \<open>None\<close> the null pointer; \<open>alloc\<close> is the allocator, for the structure of 24 bytes, the
  name and the content.
\<close>

definition blosc2_meta_add :: "(nat \<Rightarrow> buf option) \<Rightarrow> schunk \<Rightarrow> string \<Rightarrow> buf option \<Rightarrow> int \<Rightarrow> (int \<times> schunk) option" where
  "blosc2_meta_add alloc schunk name data content_len =
    (if blosc2_meta_exists schunk name \<ge> 0 then Some (BLOSC2_ERROR_INVALID_PARAM, schunk)
     else if content_len < 0 then Some (BLOSC2_ERROR_INVALID_PARAM, schunk)
     else if content_len > 0 \<and> data = None then Some (BLOSC2_ERROR_INVALID_PARAM, schunk)
     else if alloc 24 = None then Some (BLOSC2_ERROR_MEMORY_ALLOC, schunk)
     else if alloc (length name + 1) = None then Some (BLOSC2_ERROR_MEMORY_ALLOC, schunk)
     else if alloc (nat content_len) = None \<and> content_len > 0 then Some (BLOSC2_ERROR_MEMORY_ALLOC, schunk)
     else do {
       content_buf \<leftarrow> (if content_len > 0 then do {
           b \<leftarrow> alloc (nat content_len);
           c \<leftarrow> data;
           memcpy b 0 c 0 (nat content_len) }
         else Some []);
       if length (sc_metalayers schunk) < BLOSC2_MAX_METALAYERS
       then Some (int (length (sc_metalayers schunk)), schunk\<lparr> sc_metalayers := sc_metalayers schunk @ [(name, content_buf)] \<rparr>)
       else None })"

text \<open>The returned index stands for success also where the new content does not fit.\<close>

definition blosc2_meta_update :: "schunk \<Rightarrow> string \<Rightarrow> buf option \<Rightarrow> int \<Rightarrow> (int \<times> schunk) option" where
  "blosc2_meta_update schunk name data content_len =
    (let nmetalayer = blosc2_meta_exists schunk name in
     if nmetalayer < 0 then Some (nmetalayer, schunk)
     else if content_len < 0 then Some (BLOSC2_ERROR_INVALID_PARAM, schunk)
     else if content_len > 0 \<and> data = None then Some (BLOSC2_ERROR_INVALID_PARAM, schunk)
     else do {
       (name', old) \<leftarrow> load (sc_metalayers schunk) (nat nmetalayer);
       if content_len > int (length old) then Some (nmetalayer, schunk)
       else do {
         new \<leftarrow> (if content_len > 0 then do { c \<leftarrow> data; memcpy old 0 c 0 (nat content_len) } else Some old);
         metalayers \<leftarrow> store (sc_metalayers schunk) (nat nmetalayer) (name', new);
         Some (nmetalayer, schunk\<lparr> sc_metalayers := metalayers \<rparr>) } })"

text \<open>The result: the index or an error, and what the two output pointers receive; \<open>None\<close> where they are not written.\<close>

definition blosc2_meta_get :: "(nat \<Rightarrow> buf option) \<Rightarrow> schunk \<Rightarrow> string \<Rightarrow> (int \<times> (buf option \<times> int) option) option" where
  "blosc2_meta_get alloc schunk name =
    (let nmetalayer = blosc2_meta_exists schunk name in
     if nmetalayer < 0 then Some (nmetalayer, None)
     else do {
       (_, old) \<leftarrow> load (sc_metalayers schunk) (nat nmetalayer);
       if old = [] then Some (nmetalayer, Some (None, 0))
       else case alloc (length old) of None \<Rightarrow> Some (BLOSC2_ERROR_MEMORY_ALLOC, Some (None, 0))
         | Some b \<Rightarrow> do {
             data \<leftarrow> memcpy b 0 old 0 (length old);
             Some (nmetalayer, Some (Some data, int (length old))) } })"

section \<open>Metalayers of variable length\<close>

text \<open>
  What surrounds the library: the byte order and the routines of the host, the allocator, the codecs and filters it does not hold,
  the registered codecs and tuners, and the environment variables.
\<close>

record machine =
  m_le :: bool
  m_host :: shuffle_implementation
  m_alloc :: "nat \<Rightarrow> buf option"
  m_user :: "byte \<Rightarrow> user_filter option"
  m_enc :: "int \<Rightarrow> codec_fun option"
  m_dec :: "int \<Rightarrow> int \<Rightarrow> codec_fun option"
  m_udcodec_version :: "int \<Rightarrow> int option"
  m_train :: "blosc2_context \<Rightarrow> buf \<Rightarrow> buf \<Rightarrow> (int \<times> blosc2_context \<times> buf \<times> buf) option"
  m_ddict :: "buf \<Rightarrow> bool"
  m_lib :: library
  m_getenv :: env

text \<open>
  The content as a chunk, compressed with a context of its own: what adding and updating share. The result is an error or the
  chunk. For an empty content a failing allocation is an error only where \<open>check\<close> asks for it. A null pointer as the
  content of length 0 is an empty buffer.
\<close>

definition compress_content :: "machine \<Rightarrow> blosc2_cparams option \<Rightarrow> bool \<Rightarrow> buf option \<Rightarrow> int \<Rightarrow> (int + buf) option" where
  "compress_content m cparams check data content_len =
    (let destsize = content_len + BLOSC2_MAX_OVERHEAD in
     if destsize > INT_MAX then Some (Inl BLOSC2_ERROR_INVALID_PARAM)
     else if m_alloc m (nat destsize) = None \<and> (check \<or> content_len > 0) then Some (Inl BLOSC2_ERROR_MEMORY_ALLOC)
     else case map_option cctx_context (blosc2_create_cctx (m_lib m) (m_getenv m)
         (case cparams of Some p \<Rightarrow> p | None \<Rightarrow> BLOSC2_CPARAMS_DEFAULTS)) of
       None \<Rightarrow> Some (Inl BLOSC2_ERROR_NULL_POINTER)
     | Some cctx \<Rightarrow> do {
         content_buf \<leftarrow> m_alloc m (nat destsize);
         (csize, _, _, content_buf) \<leftarrow> blosc2_compress_ctx (m_le m) (m_host m) (m_alloc m) (m_user m) (m_enc m)
           (m_udcodec_version m) (m_train m) None cctx (case data of Some c \<Rightarrow> c | None \<Rightarrow> []) content_len content_buf destsize;
         Some (if csize < 0 then Inl csize else Inr (take (nat csize) content_buf)) })"

definition blosc2_vlmeta_add ::
    "machine \<Rightarrow> schunk \<Rightarrow> string \<Rightarrow> buf option \<Rightarrow> int \<Rightarrow> blosc2_cparams option \<Rightarrow> (int \<times> schunk) option" where
  "blosc2_vlmeta_add m schunk name data content_len cparams =
    (if blosc2_vlmeta_exists schunk name \<ge> 0 then Some (BLOSC2_ERROR_INVALID_PARAM, schunk)
     else if content_len < 0 then Some (BLOSC2_ERROR_INVALID_PARAM, schunk)
     else if content_len > 0 \<and> data = None then Some (BLOSC2_ERROR_INVALID_PARAM, schunk)
     else if m_alloc m 24 = None then Some (BLOSC2_ERROR_MEMORY_ALLOC, schunk)
     else if m_alloc m (length name + 1) = None then Some (BLOSC2_ERROR_MEMORY_ALLOC, schunk)
     else do {
       r \<leftarrow> compress_content m cparams True data content_len;
       case r of Inl rc \<Rightarrow> Some (rc, schunk)
       | Inr chunk \<Rightarrow>
           if length (sc_vlmetalayers schunk) < BLOSC2_MAX_VLMETALAYERS
           then Some (int (length (sc_vlmetalayers schunk)), schunk\<lparr> sc_vlmetalayers := sc_vlmetalayers schunk @ [(name, chunk)] \<rparr>)
           else None })"

definition blosc2_vlmeta_update ::
    "machine \<Rightarrow> schunk \<Rightarrow> string \<Rightarrow> buf option \<Rightarrow> int \<Rightarrow> blosc2_cparams option \<Rightarrow> (int \<times> schunk) option" where
  "blosc2_vlmeta_update m schunk name data content_len cparams =
    (let nvlmetalayer = blosc2_vlmeta_exists schunk name in
     if nvlmetalayer < 0 then Some (nvlmetalayer, schunk)
     else if content_len < 0 then Some (BLOSC2_ERROR_INVALID_PARAM, schunk)
     else if content_len > 0 \<and> data = None then Some (BLOSC2_ERROR_INVALID_PARAM, schunk)
     else do {
       r \<leftarrow> compress_content m cparams False data content_len;
       case r of Inl rc \<Rightarrow> Some (rc, schunk)
       | Inr chunk \<Rightarrow> do {
           (name', _) \<leftarrow> load (sc_vlmetalayers schunk) (nat nvlmetalayer);
           vlmetalayers \<leftarrow> store (sc_vlmetalayers schunk) (nat nvlmetalayer) (name', chunk);
           Some (nvlmetalayer, schunk\<lparr> sc_vlmetalayers := vlmetalayers \<rparr>) } })"

definition blosc2_vlmeta_get :: "machine \<Rightarrow> schunk \<Rightarrow> string \<Rightarrow> (int \<times> (buf option \<times> int) option) option" where
  "blosc2_vlmeta_get m schunk name =
    (let nvlmetalayer = blosc2_vlmeta_exists schunk name in
     if nvlmetalayer < 0 then Some (nvlmetalayer, None)
     else do {
       (_, chunk) \<leftarrow> load (sc_vlmetalayers schunk) (nat nvlmetalayer);
       (_, nbytes, cbytes, _) \<leftarrow> blosc2_cbuffer_sizes (m_le m) chunk;
       if cbytes \<noteq> int (length chunk) then Some (BLOSC2_ERROR_DATA, None)
       else if nbytes < 0 then Some (BLOSC2_ERROR_DATA, None)
       else case (if nbytes = 0 then Some [] else m_alloc m (nat nbytes)) of
         None \<Rightarrow> Some (BLOSC2_ERROR_MEMORY_ALLOC, Some (None, 0))
       | Some data \<Rightarrow> do {
           (nbytes', data) \<leftarrow> blosc2_decompress_ctx (m_le m) (m_host m) (m_alloc m) (m_user m) (m_dec m) (m_ddict m) None None
             blosc2_create_dctx chunk (int (length chunk)) data nbytes;
           Some (if nbytes' \<noteq> nbytes then (BLOSC2_ERROR_READ_BUFFER, Some (None, 0))
                 else (nvlmetalayer, Some (if nbytes = 0 then None else Some data, nbytes))) } })"

definition blosc2_vlmeta_delete :: "schunk \<Rightarrow> string \<Rightarrow> (int \<times> schunk) option" where
  "blosc2_vlmeta_delete schunk name =
    (let nvlmetalayer = blosc2_vlmeta_exists schunk name; n = length (sc_vlmetalayers schunk) in
     if nvlmetalayer < 0 then Some (nvlmetalayer, schunk)
     else do {
       vlmetalayers \<leftarrow> shift_down (nat nvlmetalayer) (n - 1) (sc_vlmetalayers schunk);
       Some (int (n - 1), schunk\<lparr> sc_vlmetalayers := take (n - 1) vlmetalayers \<rparr>) })"

definition blosc2_vlmeta_get_names :: "schunk \<Rightarrow> int \<times> string list" where
  "blosc2_vlmeta_get_names schunk =
    (int (length (sc_vlmetalayers schunk)), map (\<lambda>i. fst (sc_vlmetalayers schunk ! i)) [0..<length (sc_vlmetalayers schunk)])"


section \<open>Named contents\<close>

text \<open>
  The list of metalayers stands for a finite map from names to contents: the names are distinct and short enough to be found, and
  \<open>enc c d\<close> says that \<open>c\<close> is stored for the content \<open>d\<close>.
\<close>

definition represents :: "(buf \<Rightarrow> 'd \<Rightarrow> bool) \<Rightarrow> metalayer list \<Rightarrow> (string \<rightharpoonup> 'd) \<Rightarrow> bool" where
  "represents enc ms f \<longleftrightarrow> distinct (map fst ms) \<and> dom f = fst ` set ms \<and>
     (\<forall>(name, c) \<in> set ms. length name \<le> BLOSC2_METALAYER_NAME_MAXLEN \<and> (\<exists>d. f name = Some d \<and> enc c d))"

lemma represents_empty: "represents enc [] Map.empty"
  by (simp add: represents_def)

lemma representsD:
  assumes "represents enc ms f" "(name, c) \<in> set ms"
  shows "length name \<le> BLOSC2_METALAYER_NAME_MAXLEN" "\<exists>d. f name = Some d \<and> enc c d"
  using assms unfolding represents_def by blast+

lemma find_absent: "name \<notin> fst ` set ms \<Longrightarrow> find_metalayer name n ms = BLOSC2_ERROR_NOT_FOUND"
  by (induction ms arbitrary: n) auto

lemma find_at: "distinct (map fst ms) \<Longrightarrow> i < length ms \<Longrightarrow> find_metalayer (fst (ms ! i)) n ms = n + int i"
proof (induction ms arbitrary: n i)
  case (Cons m ms)
  have "fst (ms ! j) \<noteq> fst m" if "j < length ms" for j
    using Cons.prems(1) that by (metis distinct.simps(2) image_eqI list.simps(9) nth_mem set_map)
  with Cons show ?case by (cases i) auto
qed simp

lemma find_represents:
  assumes "represents enc ms f"
  shows "f name = None \<Longrightarrow> find_metalayer name 0 ms = BLOSC2_ERROR_NOT_FOUND"
    and "f name = Some d \<Longrightarrow> \<exists>i c. i < length ms \<and> ms ! i = (name, c) \<and> find_metalayer name 0 ms = int i \<and> enc c d \<and>
      length name \<le> BLOSC2_METALAYER_NAME_MAXLEN"
proof -
  note r = assms[unfolded represents_def]
  show "f name = None \<Longrightarrow> find_metalayer name 0 ms = BLOSC2_ERROR_NOT_FOUND"
    using r by (intro find_absent) auto
  assume d: "f name = Some d"
  then have "name \<in> fst ` set ms" using r by auto
  then obtain i where i: "i < length ms" "fst (ms ! i) = name" by (auto simp: in_set_conv_nth)
  then have "ms ! i \<in> set ms" "ms ! i = (name, snd (ms ! i))" by (auto simp: prod_eq_iff)
  moreover from this have "enc (snd (ms ! i)) d \<and> length name \<le> BLOSC2_METALAYER_NAME_MAXLEN" using r d by fastforce
  moreover have "find_metalayer name 0 ms = int i" using find_at[of ms i 0] r i by simp
  ultimately show "\<exists>i c. i < length ms \<and> ms ! i = (name, c) \<and> find_metalayer name 0 ms = int i \<and> enc c d \<and>
      length name \<le> BLOSC2_METALAYER_NAME_MAXLEN"
    using i by metis
qed

lemma represents_add:
  assumes "represents enc ms f" "f name = None" "length name \<le> BLOSC2_METALAYER_NAME_MAXLEN" "enc c d"
  shows "represents enc (ms @ [(name, c)]) (f(name \<mapsto> d))"
proof -
  note r = assms(1)[unfolded represents_def]
  have "name \<notin> fst ` set ms" using r assms(2) by (metis domIff)
  moreover have "fst x \<noteq> name" if "x \<in> set ms" for x using that calculation by auto
  ultimately show ?thesis using r assms(3,4) by (fastforce simp: represents_def)
qed

lemma represents_update:
  assumes "represents enc ms f" "i < length ms" "ms ! i = (name, c)" "enc c' d"
  shows "represents enc (ms[i := (name, c')]) (f(name \<mapsto> d))"
proof -
  note r = assms(1)[unfolded represents_def]
  have names: "map fst (ms[i := (name, c')]) = map fst ms"
    using assms(2,3) by (metis fst_conv list_update_id map_update nth_map)
  then have dom: "fst ` set (ms[i := (name, c')]) = fst ` set ms" by (metis set_map)
  have here: "(name, c) \<in> set ms" using assms(2,3) by (metis nth_mem)
  have "length n \<le> BLOSC2_METALAYER_NAME_MAXLEN \<and> (\<exists>d'. (f(name \<mapsto> d)) n = Some d' \<and> enc x d')"
    if "(n, x) \<in> set (ms[i := (name, c')])" for n x
  proof -
    obtain j where j: "j < length ms" "ms[i := (name, c')] ! j = (n, x)" using \<open>(n, x) \<in> _\<close> by (auto simp: in_set_conv_nth)
    show ?thesis
    proof (cases "j = i")
      case True
      with j assms(2,4) have "n = name" "x = c'" by auto
      then show ?thesis using representsD(1)[OF assms(1) here] assms(4) by simp
    next
      case False
      with j have e: "ms ! j = (n, x)" by simp
      have "map fst ms ! j \<noteq> map fst ms ! i" using r j(1) assms(2) False nth_eq_iff_index_eq[of "map fst ms" j i] by simp
      then have "n \<noteq> name" using e j(1) assms(2,3) by simp
      moreover have "(n, x) \<in> set ms" using nth_mem[of j ms] e j(1) by simp
      ultimately show ?thesis using representsD[OF assms(1)] by simp
    qed
  qed
  moreover have "dom (f(name \<mapsto> d)) = fst ` set ms" using r imageI[OF here, of fst] by (simp add: insert_absorb)
  ultimately show ?thesis using r unfolding represents_def names dom by blast
qed

lemma represents_delete:
  assumes "represents enc ms f" "i < length ms" "ms ! i = (name, c)"
  shows "represents enc (del i ms) (f(name := None))"
proof -
  note r = assms(1)[unfolded represents_def]
  have split: "ms = take i ms @ (name, c) # drop (Suc i) ms" using assms(2,3) by (metis id_take_nth_drop)
  have d: "distinct (map fst (take i ms) @ name # map fst (drop (Suc i) ms))"
    using r by (subst (asm) split) simp
  have s: "set ms = insert (name, c) (set (del i ms))" by (subst split) (auto simp: del_def)
  have n: "name \<notin> fst ` set (del i ms)" using d by (auto simp: del_def image_iff)
  have "distinct (map fst (del i ms))" using d by (simp add: del_def)
  moreover have "dom (f(name := None)) = fst ` set (del i ms)" using r n unfolding s by auto
  moreover have "length x \<le> BLOSC2_METALAYER_NAME_MAXLEN \<and> (\<exists>d. (f(name := None)) x = Some d \<and> enc y d)"
    if "(x, y) \<in> set (del i ms)" for x y
  proof -
    have "x \<noteq> name" using n that by force
    moreover have "(x, y) \<in> set ms" using that s by blast
    ultimately show ?thesis using representsD[OF assms(1)] by simp
  qed
  ultimately show ?thesis by (auto simp: represents_def)
qed


lemma exists_represents:
  assumes "represents enc (sc_vlmetalayers s) f"
  shows "f name = None \<Longrightarrow> blosc2_vlmeta_exists s name < 0"
    and "f name = Some d \<Longrightarrow> \<exists>i c. i < length (sc_vlmetalayers s) \<and> sc_vlmetalayers s ! i = (name, c) \<and>
      blosc2_vlmeta_exists s name = int i \<and> enc c d"
  using find_represents[OF assms, of name] by (fastforce simp: blosc2_vlmeta_exists_def)+

section \<open>Contents of variable length\<close>

text \<open>A machine whose routines and allocator do what they should, with none of the variables set.\<close>

definition sound_machine :: "machine \<Rightarrow> bool" where
  "sound_machine m \<longleftrightarrow> shuffle_host (m_host m) \<and> allocates (m_alloc m) \<and> unset_env (m_getenv m)"

lemma machine_alloc:
  assumes "sound_machine m"
  obtains b where "m_alloc m n = Some b" "length b = n"
  using assms unfolding sound_machine_def allocates_def by blast

text \<open>Parameters that fit a content: those of a request with room for the header.\<close>

definition content_params :: "blosc2_cparams option \<Rightarrow> buf \<Rightarrow> bool" where
  "content_params cparams data \<longleftrightarrow> (let p = (case cparams of Some p \<Rightarrow> p | None \<Rightarrow> BLOSC2_CPARAMS_DEFAULTS) in
     standard_cparams p \<and> compression_request (parameters_context p) (int (length data)) (int (length data) + 32))"

text \<open>The chunk of a content: all of the chunk's bytes belong to it, and it can be decompressed.\<close>

definition content_chunk :: "buf \<Rightarrow> buf \<Rightarrow> bool" where
  "content_chunk chunk data \<longleftrightarrow> chunk_of data (int (length chunk)) chunk \<and> length data < 2 ^ 31"

lemma default_params:
  assumes "length data < 2 ^ 31 - 2 ^ 22 - 48"
  shows "content_params None data"
proof -
  have a: "append_context (parameters_context BLOSC2_CPARAMS_DEFAULTS)" by (rule parameters_append_context(1)[OF default_standard])
  have "ctx_blocksize (parameters_context BLOSC2_CPARAMS_DEFAULTS) = 0"
    "ctx_splitmode (parameters_context BLOSC2_CPARAMS_DEFAULTS) \<noteq> BLOSC_ALWAYS_SPLIT"
    by (simp_all add: parameters_context_def BLOSC2_CPARAMS_DEFAULTS_def)
  then show ?thesis using a assms default_standard
    by (auto simp: content_params_def compression_request_def append_context_def block_request_def)
qed

lemma compress_content_ok:
  assumes "sound_machine m" "content_params cparams data"
  shows "\<exists>chunk. compress_content m cparams check (Some data) (int (length data)) = Some (Inr chunk) \<and> content_chunk chunk data"
proof -
  let ?p = "case cparams of Some p \<Rightarrow> p | None \<Rightarrow> BLOSC2_CPARAMS_DEFAULTS" and ?n = "int (length data)"
  have p: "standard_cparams ?p" "compression_request (parameters_context ?p) ?n (?n + 32)"
    using assms(2) by (simp_all add: content_params_def Let_def)
  have n: "?n + 32 \<le> INT_MAX" using p(2) by (simp add: compression_request_def)
  obtain b where b: "m_alloc m (nat (?n + 32)) = Some b" "length b = nat (?n + 32)" by (rule machine_alloc[OF assms(1)])
  have c: "map_option cctx_context (blosc2_create_cctx (m_lib m) (m_getenv m) ?p) = Some (parameters_context ?p)"
    using create_standard[OF p(1)] assms(1) unfolding sound_machine_def by blast
  have m: "allocates (m_alloc m)" "shuffle_host (m_host m)" using assms(1) by (simp_all add: sound_machine_def)
  have "?n + 32 \<le> int (length b)" using b(2) by simp
  from compress_ctx_chunk[OF p(2) this m, of "m_le m" "m_user m" "m_enc m" "m_udcodec_version m" "m_train m"]
  obtain cb c' d where w: "blosc2_compress_ctx (m_le m) (m_host m) (m_alloc m) (m_user m) (m_enc m) (m_udcodec_version m) (m_train m)
      None (parameters_context ?p) data ?n b (?n + 32) = Some (cb, c', data, d)" "length d = length b" "32 \<le> cb" "cb \<le> ?n + 32" "chunk_of data cb d"
    by (metis less_irrefl)
  have "nat cb \<le> length d" using w b(2) by simp
  then have l: "length (take (nat cb) d) = nat cb" by simp
  have "chunk_of data cb (take (nat cb) d)" using w(5) by (simp add: chunk_of_def)
  then have "content_chunk (take (nat cb) d) data" unfolding content_chunk_def l using w(3) n by simp
  moreover have "compress_content m cparams check (Some data) ?n = Some (Inr (take (nat cb) d))"
    unfolding compress_content_def Let_def c using b(1) w(1,3) n by simp
  ultimately show ?thesis by blast
qed

lemma vlmeta_get_content:
  assumes "sound_machine m" "represents content_chunk (sc_vlmetalayers s) f" "f name = Some data"
  shows "\<exists>n. blosc2_vlmeta_get m s name = Some (n, Some (if data = [] then None else Some data, int (length data))) \<and> 0 \<le> n"
proof -
  obtain i c where i: "i < length (sc_vlmetalayers s)" "sc_vlmetalayers s ! i = (name, c)" "blosc2_vlmeta_exists s name = int i"
    "content_chunk c data"
    using exists_represents(2)[OF assms(2,3)] by blast
  note c = i(4)[unfolded content_chunk_def chunk_of_def]
  obtain bs where sz: "blosc2_cbuffer_sizes (m_le m) c = Some (0, int (length data), int (length c), bs)" using c by fastforce
  obtain b where b: "(if length data = 0 then Some [] else m_alloc m (length data)) = Some b" "length b = length data"
  proof (cases "data = []")
    case False
    then show ?thesis using machine_alloc[OF assms(1), of "length data"] that by auto
  qed (use that[of "[]"] in simp)
  have "\<not> ctx_do_compress blosc2_create_dctx" by (simp add: blosc2_create_dctx_def)
  then have d: "blosc2_decompress_ctx (m_le m) (m_host m) (m_alloc m) (m_user m) (m_dec m) (m_ddict m) None None
      blosc2_create_dctx c (int (length c)) b (int (length data)) = Some (int (length data), data)"
    using c assms(1) b(2) by (simp add: sound_machine_def)
  show ?thesis
  proof (cases "data = []")
    case True
    then show ?thesis using i(1-3) sz b d by (simp add: blosc2_vlmeta_get_def load_Some)
  next
    case False
    then show ?thesis using i(1-3) sz b d by (simp add: blosc2_vlmeta_get_def load_Some)
  qed
qed

lemma vlmeta_delete_del:
  assumes "represents enc (sc_vlmetalayers s) f" "f name = Some d"
  shows "\<exists>i c. i < length (sc_vlmetalayers s) \<and> sc_vlmetalayers s ! i = (name, c) \<and>
    blosc2_vlmeta_delete s name = Some (int (length (sc_vlmetalayers s)) - 1, s\<lparr> sc_vlmetalayers := del i (sc_vlmetalayers s) \<rparr>)"
proof -
  let ?ms = "sc_vlmetalayers s"
  obtain i c where i: "i < length ?ms" "?ms ! i = (name, c)" "blosc2_vlmeta_exists s name = int i"
    using exists_represents(2)[OF assms] by blast
  obtain d' where d': "shift_down i (length ?ms - 1) ?ms = Some d'" "length d' = length ?ms"
    "\<forall>k<length ?ms. d' ! k = (if i \<le> k \<and> k < length ?ms - 1 then ?ms ! (k + 1) else ?ms ! k)"
    using shift_down_eq[of "length ?ms - 1" ?ms i] i(1) by fastforce
  have "take (length ?ms - 1) d' = del i ?ms"
    by (rule nth_equalityI) (use d'(2,3) i(1) in \<open>auto simp: nth_del length_del\<close>)
  with i d'(1) show ?thesis by (auto simp: blosc2_vlmeta_delete_def)
qed

text \<open>
  C7. The metalayers of variable length are a finite map from names to contents. On a super-chunk that holds the map
  \<open>f\<close>: adding a new name stores its content, adding an old one is refused, updating an old name replaces its content whatever
  the lengths, updating or deleting an unknown one is refused, deleting removes the name, and getting returns just what \<open>f\<close> says.
  Adding asks for a name of at most 31 characters and a free place among the 8192.
  The contents are compressed and restored on the way, for any compression parameters that fit them.
\<close>

theorem vlmeta_refines_map:
  assumes "sound_machine m" "represents content_chunk (sc_vlmetalayers s) f"
  shows "(case f name of
      None \<Rightarrow>
        (length (sc_vlmetalayers s) < BLOSC2_MAX_VLMETALAYERS \<and> length name \<le> BLOSC2_METALAYER_NAME_MAXLEN \<and> content_params cparams data \<longrightarrow>
          (\<exists>s'. blosc2_vlmeta_add m s name (Some data) (int (length data)) cparams = Some (int (length (sc_vlmetalayers s)), s') \<and>
            represents content_chunk (sc_vlmetalayers s') (f(name \<mapsto> data)))) \<and>
        (\<exists>rc < 0. blosc2_vlmeta_update m s name (Some data) (int (length data)) cparams = Some (rc, s)) \<and>
        (\<exists>rc < 0. blosc2_vlmeta_delete s name = Some (rc, s)) \<and>
        (\<exists>rc < 0. blosc2_vlmeta_get m s name = Some (rc, None))
    | Some old \<Rightarrow>
        blosc2_vlmeta_add m s name (Some data) (int (length data)) cparams = Some (BLOSC2_ERROR_INVALID_PARAM, s) \<and>
        (content_params cparams data \<longrightarrow>
          (\<exists>n \<ge> 0. \<exists>s'. blosc2_vlmeta_update m s name (Some data) (int (length data)) cparams = Some (n, s') \<and>
            represents content_chunk (sc_vlmetalayers s') (f(name \<mapsto> data)))) \<and>
        (\<exists>s'. blosc2_vlmeta_delete s name = Some (int (length (sc_vlmetalayers s)) - 1, s') \<and>
          represents content_chunk (sc_vlmetalayers s') (f(name := None))) \<and>
        (\<exists>n \<ge> 0. blosc2_vlmeta_get m s name = Some (n, Some (if old = [] then None else Some old, int (length old)))))"
proof (cases "f name")
  case None
  note none = exists_represents(1)[OF assms(2) None]
  have "\<exists>s'. blosc2_vlmeta_add m s name (Some data) (int (length data)) cparams = Some (int (length (sc_vlmetalayers s)), s') \<and>
      represents content_chunk (sc_vlmetalayers s') (f(name \<mapsto> data))"
    if room: "length (sc_vlmetalayers s) < BLOSC2_MAX_VLMETALAYERS" "length name \<le> BLOSC2_METALAYER_NAME_MAXLEN" "content_params cparams data"
  proof -
    obtain chunk where c: "compress_content m cparams True (Some data) (int (length data)) = Some (Inr chunk)" "content_chunk chunk data"
      using compress_content_ok[OF assms(1) room(3)] by blast
    have "m_alloc m k \<noteq> None" for k using machine_alloc[OF assms(1), of k] by fastforce
    with none c(1) room(1) show ?thesis
      using represents_add[OF assms(2) None room(2) c(2)] by (simp add: blosc2_vlmeta_add_def)
  qed
  with none show ?thesis
    by (simp add: None blosc2_vlmeta_update_def blosc2_vlmeta_delete_def blosc2_vlmeta_get_def)
next
  case (Some old)
  obtain i c where i: "i < length (sc_vlmetalayers s)" "sc_vlmetalayers s ! i = (name, c)" "blosc2_vlmeta_exists s name = int i"
    using exists_represents(2)[OF assms(2) Some] by blast
  have "\<exists>n \<ge> 0. \<exists>s'. blosc2_vlmeta_update m s name (Some data) (int (length data)) cparams = Some (n, s') \<and>
      represents content_chunk (sc_vlmetalayers s') (f(name \<mapsto> data))" if p: "content_params cparams data"
  proof -
    obtain chunk where c: "compress_content m cparams False (Some data) (int (length data)) = Some (Inr chunk)" "content_chunk chunk data"
      using compress_content_ok[OF assms(1) p] by blast
    then show ?thesis using i represents_update[OF assms(2) i(1,2) c(2)]
      by (simp add: blosc2_vlmeta_update_def load_Some store_Some)
  qed
  moreover have "\<exists>s'. blosc2_vlmeta_delete s name = Some (int (length (sc_vlmetalayers s)) - 1, s') \<and>
      represents content_chunk (sc_vlmetalayers s') (f(name := None))"
    using vlmeta_delete_del[OF assms(2) Some] represents_delete[OF assms(2)] by fastforce
  ultimately show ?thesis using vlmeta_get_content[OF assms Some] i(3) by (auto simp: Some blosc2_vlmeta_add_def)
qed

text \<open>One stored metalayer; the map knows its content.\<close>

definition sample_content :: buf where
  "sample_content = [1, 2, 3]"

definition sample_machine :: machine where
  "sample_machine = \<lparr> m_le = True, m_host = get_shuffle_implementation True calloc_ok, m_alloc = calloc_ok, m_user = (\<lambda>_. None),
     m_enc = (\<lambda>_. None), m_dec = (\<lambda>_ _. None), m_udcodec_version = (\<lambda>_. None), m_train = (\<lambda>_ _ _. None), m_ddict = (\<lambda>_. False),
     m_lib = sample_library, m_getenv = (\<lambda>_. None) \<rparr>"

lemma sample_machine_sound: "sound_machine sample_machine"
  by (simp add: sample_machine_def sound_machine_def allocates_def calloc_ok_def unset_env_def generic_host.shuffle_host_axioms)

theorem vlmeta_refines_map_witness:
  "\<exists>s'. blosc2_vlmeta_add sample_machine (blosc2_schunk_new 4 zero_context zero_context) ''attrs'' (Some sample_content)
      (int (length sample_content)) None = Some (0, s') \<and>
    represents content_chunk (sc_vlmetalayers s') (Map.empty(''attrs'' \<mapsto> sample_content))"
proof -
  have "content_params None sample_content" by (rule default_params) (simp add: sample_content_def)
  moreover have "represents content_chunk (sc_vlmetalayers (blosc2_schunk_new 4 zero_context zero_context)) Map.empty"
    by (simp add: blosc2_schunk_new_def represents_empty)
  ultimately show ?thesis
    using vlmeta_refines_map[OF sample_machine_sound, where s = "blosc2_schunk_new 4 zero_context zero_context"
        and f = Map.empty and name = "''attrs''" and data = sample_content and cparams = None]
    by (simp add: blosc2_schunk_new_def)
qed

section \<open>Contents of fixed length\<close>

lemma meta_exists_represents:
  assumes "represents (=) (sc_metalayers s) f"
  shows "f name = None \<Longrightarrow> blosc2_meta_exists s name < 0"
    and "f name = Some d \<Longrightarrow> \<exists>i. i < length (sc_metalayers s) \<and> sc_metalayers s ! i = (name, d) \<and> blosc2_meta_exists s name = int i"
  using find_represents[OF assms, of name] by (fastforce simp: blosc2_meta_exists_def)+

lemma meta_add_new:
  assumes "allocates alloc" "blosc2_meta_exists s name < 0" "length (sc_metalayers s) < BLOSC2_MAX_METALAYERS"
  shows "blosc2_meta_add alloc s name (Some data) (int (length data)) =
    Some (int (length (sc_metalayers s)), s\<lparr> sc_metalayers := sc_metalayers s @ [(name, data)] \<rparr>)"
proof -
  obtain b where b: "alloc (length data) = Some b" "length b = length data" using assms(1) unfolding allocates_def by blast
  have "alloc k \<noteq> None" for k using assms(1) unfolding allocates_def by (metis option.distinct(1))
  then show ?thesis using b assms(2,3) by (auto simp: blosc2_meta_add_def memcpy_Some)
qed

text \<open>
  C26. The metalayers of fixed length are a finite map as well, but an update overlays the new content on the
  old one: bytes behind a shorter content stay, and a longer content changes nothing, although the call answers the index of
  the metalayer as for a success.
\<close>

theorem meta_refines_map:
  assumes "allocates alloc" "represents (=) (sc_metalayers s) f"
  shows "(case f name of
      None \<Rightarrow>
        (length (sc_metalayers s) < BLOSC2_MAX_METALAYERS \<and> length name \<le> BLOSC2_METALAYER_NAME_MAXLEN \<longrightarrow>
          (\<exists>s'. blosc2_meta_add alloc s name (Some data) (int (length data)) = Some (int (length (sc_metalayers s)), s') \<and>
            represents (=) (sc_metalayers s') (f(name \<mapsto> data)))) \<and>
        (\<exists>rc < 0. blosc2_meta_update s name (Some data) (int (length data)) = Some (rc, s)) \<and>
        (\<exists>rc < 0. blosc2_meta_get alloc s name = Some (rc, None))
    | Some old \<Rightarrow>
        blosc2_meta_add alloc s name (Some data) (int (length data)) = Some (BLOSC2_ERROR_INVALID_PARAM, s) \<and>
        (\<exists>n \<ge> 0. \<exists>s'. blosc2_meta_update s name (Some data) (int (length data)) = Some (n, s') \<and>
          represents (=) (sc_metalayers s')
            (f(name \<mapsto> if length data > length old then old else data @ drop (length data) old))) \<and>
        (\<exists>n \<ge> 0. blosc2_meta_get alloc s name = Some (n, Some (if old = [] then None else Some old, int (length old)))))"
proof (cases "f name")
  case None
  note none = meta_exists_represents(1)[OF assms(2) None]
  show ?thesis using none meta_add_new[OF assms(1) none, of data] represents_add[OF assms(2) None _ refl, of data]
    by (simp add: None blosc2_meta_update_def blosc2_meta_get_def)
next
  case (Some old)
  obtain i where i: "i < length (sc_metalayers s)" "sc_metalayers s ! i = (name, old)" "blosc2_meta_exists s name = int i"
    using meta_exists_represents(2)[OF assms(2) Some] by blast
  obtain b where b: "alloc (length old) = Some b" "length b = length old" using assms(1) unfolding allocates_def by blast
  have upd: "\<exists>s'. blosc2_meta_update s name (Some data) (int (length data)) = Some (int i, s') \<and>
      represents (=) (sc_metalayers s') (f(name \<mapsto> if length data > length old then old else data @ drop (length data) old))"
  proof (cases "length data > length old")
    case True
    have "f(name \<mapsto> old) = f" using Some by auto
    then show ?thesis using True i assms(2) by (simp add: blosc2_meta_update_def load_Some)
  next
    case False
    then have "blosc2_meta_update s name (Some data) (int (length data)) =
        Some (int i, s\<lparr> sc_metalayers := (sc_metalayers s)[i := (name, data @ drop (length data) old)] \<rparr>)"
      using i by (auto simp: blosc2_meta_update_def load_Some store_Some memcpy_Some)
    then show ?thesis using represents_update[OF assms(2) i(1,2) refl, of "data @ drop (length data) old"] False by simp
  qed
  have "\<exists>n \<ge> 0. blosc2_meta_get alloc s name = Some (n, Some (if old = [] then None else Some old, int (length old)))"
    using i b by (auto simp: blosc2_meta_get_def load_Some memcpy_Some)
  then show ?thesis using upd i(3) by (auto simp: Some blosc2_meta_add_def)
qed

theorem meta_refines_map_witness:
  "\<exists>n \<ge> 0. \<exists>s'. blosc2_meta_update ((blosc2_schunk_new 4 zero_context zero_context)\<lparr> sc_metalayers := [(''b2nd'', [1, 2])] \<rparr>)
      ''b2nd'' (Some sample_content) (int (length sample_content)) = Some (n, s') \<and>
    represents (=) (sc_metalayers s') ((Map.empty(''b2nd'' \<mapsto> [1, 2]))(''b2nd'' \<mapsto> [1, 2]))"
proof -
  have "allocates calloc_ok" by (simp add: allocates_def calloc_ok_def)
  moreover have "represents (=) (sc_metalayers ((blosc2_schunk_new 4 zero_context zero_context)\<lparr> sc_metalayers := [(''b2nd'', [1, 2])] \<rparr>))
      (Map.empty(''b2nd'' \<mapsto> [1, 2 :: byte]))"
    by (simp add: represents_def)
  ultimately show ?thesis
    using meta_refines_map[where alloc = calloc_ok and f = "Map.empty(''b2nd'' \<mapsto> [1, 2])" and name = "''b2nd''" and data = sample_content
        and s = "(blosc2_schunk_new 4 zero_context zero_context)\<lparr> sc_metalayers := [(''b2nd'', [1, 2])] \<rparr>"]
    by (simp add: sample_content_def)
qed

text \<open>
  C27. Two checks that adding a metalayer of fixed length does not make. It tests only that the lookup of the name fails,
  and the lookup fails for a name of more than 31 characters: while there is room the metalayer is stored under that name, and neither
  \<open>blosc2_meta_get\<close> nor \<open>blosc2_meta_update\<close> ever reaches it, both answering that the parameter is invalid. And it does not test that
  there is room: when all 16 places are taken, adding any name that the lookup does not find writes behind the array.
\<close>

theorem long_name_lost:
  assumes "allocates alloc"
  shows "(length name > BLOSC2_METALAYER_NAME_MAXLEN \<and> length (sc_metalayers s) < BLOSC2_MAX_METALAYERS \<longrightarrow>
      (\<exists>s'. blosc2_meta_add alloc s name (Some data) (int (length data)) = Some (int (length (sc_metalayers s)), s') \<and>
        sc_metalayers s' = sc_metalayers s @ [(name, data)] \<and> blosc2_meta_get alloc s' name = Some (BLOSC2_ERROR_INVALID_PARAM, None) \<and>
        (\<forall>data' len. blosc2_meta_update s' name data' len = Some (BLOSC2_ERROR_INVALID_PARAM, s')))) \<and>
    (blosc2_meta_exists s name < 0 \<and> length (sc_metalayers s) = BLOSC2_MAX_METALAYERS \<longrightarrow>
      blosc2_meta_add alloc s name (Some data) (int (length data)) = None)"
proof (intro conjI impI; elim conjE)
  assume a: "length name > BLOSC2_METALAYER_NAME_MAXLEN" "length (sc_metalayers s) < BLOSC2_MAX_METALAYERS"
  have e: "blosc2_meta_exists s' name = BLOSC2_ERROR_INVALID_PARAM" for s' using a(1) by (simp add: blosc2_meta_exists_def)
  then have "blosc2_meta_exists s name < 0" by simp
  from meta_add_new[OF assms this a(2), of data]
  show "\<exists>s'. blosc2_meta_add alloc s name (Some data) (int (length data)) = Some (int (length (sc_metalayers s)), s') \<and>
        sc_metalayers s' = sc_metalayers s @ [(name, data)] \<and> blosc2_meta_get alloc s' name = Some (BLOSC2_ERROR_INVALID_PARAM, None) \<and>
        (\<forall>data' len. blosc2_meta_update s' name data' len = Some (BLOSC2_ERROR_INVALID_PARAM, s'))"
    by (simp add: e blosc2_meta_get_def blosc2_meta_update_def)
next
  assume a: "blosc2_meta_exists s name < 0" "length (sc_metalayers s) = BLOSC2_MAX_METALAYERS"
  obtain b where b: "alloc (length data) = Some b" "length b = length data" using assms unfolding allocates_def by blast
  have "alloc k \<noteq> None" for k using assms unfolding allocates_def by (metis option.distinct(1))
  with a b show "blosc2_meta_add alloc s name (Some data) (int (length data)) = None"
    by (auto simp: blosc2_meta_add_def memcpy_Some)
qed

theorem long_name_lost_witness:
  "(\<exists>s'. blosc2_meta_add calloc_ok (blosc2_schunk_new 4 zero_context zero_context) (replicate 32 CHR ''n'') (Some sample_content)
      (int (length sample_content)) = Some (0, s') \<and>
    blosc2_meta_get calloc_ok s' (replicate 32 CHR ''n'') = Some (BLOSC2_ERROR_INVALID_PARAM, None)) \<and>
   blosc2_meta_add calloc_ok ((blosc2_schunk_new 4 zero_context zero_context)\<lparr> sc_metalayers := replicate 16 (''a'', []) \<rparr>) ''b'' (Some [1]) (int (length [1 :: byte])) = None"
proof -
  have a: "allocates calloc_ok" by (simp add: allocates_def calloc_ok_def)
  have r: "replicate 16 (''a'', [] :: buf) = [(''a'', []), (''a'', []), (''a'', []), (''a'', []), (''a'', []), (''a'', []), (''a'', []), (''a'', []),
      (''a'', []), (''a'', []), (''a'', []), (''a'', []), (''a'', []), (''a'', []), (''a'', []), (''a'', [])]"
    by (simp add: numeral_eq_Suc)
  have "blosc2_meta_exists ((blosc2_schunk_new 4 zero_context zero_context)\<lparr> sc_metalayers := replicate 16 (''a'', []) \<rparr>) ''b'' < 0"
    by (simp add: blosc2_meta_exists_def r)
  then show ?thesis
    using long_name_lost[OF a, where name = "replicate 32 CHR ''n''" and s = "blosc2_schunk_new 4 zero_context zero_context" and data = sample_content]
      long_name_lost[OF a, where name = "''b''" and data = "[1]"
        and s = "(blosc2_schunk_new 4 zero_context zero_context)\<lparr> sc_metalayers := replicate 16 (''a'', []) \<rparr>"]
    by (auto simp: blosc2_schunk_new_def)
qed

end
