(* ===== verification/Special_Chunks.thy ===== *)
theory Special_Chunks
  imports Codec_Roundtrip Context_Creation
begin

text \<open>
  Chunks of special values in \<open>blosc/blosc2.c\<close>: a header that says that all values are zero, not a number, uninitialized or one
  given value, made without any data, and the proof that decompressing them gives these values.
\<close>

section \<open>The constructors\<close>

text \<open>
  What the four functions share once their parameters are checked: a context for the block size, and the header as it stands in the
  memory of the host, followed by the value, if there is one. The result is the size of the chunk or an error, and the destination.
\<close>

definition special_header :: "blosc2_context \<Rightarrow> int \<Rightarrow> int \<Rightarrow> int \<Rightarrow> blosc_header" where
  "special_header context nbytes cbytes special = zero_header\<lparr>
     hdr_version := BLOSC2_VERSION_FORMAT_STABLE, hdr_versionlz := 1, hdr_flags := BLOSC_DOSHUFFLE OR BLOSC_DOBITSHUFFLE,
     hdr_typesize := word_of_int (ctx_typesize context), hdr_nbytes := nbytes, hdr_blocksize := ctx_blocksize context,
     hdr_cbytes := cbytes, hdr_blosc2_flags := word_of_int (special * 2 ^ 4) \<rparr>"

definition special_chunk ::
    "bool \<Rightarrow> library \<Rightarrow> env \<Rightarrow> blosc2_cparams \<Rightarrow> int \<Rightarrow> buf \<Rightarrow> int \<Rightarrow> int \<Rightarrow> buf \<Rightarrow> (int \<times> buf) option" where
  "special_chunk le lib getenv cparams nbytes dest destsize special repeatval =
    (case map_option cctx_context (blosc2_create_cctx lib getenv cparams) of
       None \<Rightarrow> Some (BLOSC2_ERROR_NULL_POINTER, dest)
     | Some context \<Rightarrow> do {
         (error, context) \<leftarrow> initialize_context_compression context True nbytes destsize (ctx_clevel context) (ctx_filters context)
           (ctx_filters_meta context) (ctx_typesize context) (ctx_compcode context) (ctx_blocksize context) (ctx_splitmode context);
         if error \<le> 0 then Some (error, dest)
         else do {
           let cbytes = BLOSC_EXTENDED_HEADER_LENGTH + int (length repeatval);
           let header = special_header context nbytes cbytes special;
           dest \<leftarrow> memcpy dest 0 (min_header_image le header @ ext_header_image header) 0 32;
           dest \<leftarrow> memcpy dest 32 repeatval 0 (length repeatval);
           Some (cbytes, dest) } })"


definition blosc2_chunk_uninit ::
    "bool \<Rightarrow> library \<Rightarrow> env \<Rightarrow> blosc2_cparams \<Rightarrow> int \<Rightarrow> buf \<Rightarrow> int \<Rightarrow> (int \<times> buf) option" where
  "blosc2_chunk_uninit le lib getenv cparams nbytes dest destsize =
    (if destsize < BLOSC_EXTENDED_HEADER_LENGTH then Some (BLOSC2_ERROR_DATA, dest)
     else if cp_typesize cparams = 0 then None
     else if nbytes smod cp_typesize cparams \<noteq> 0 then Some (BLOSC2_ERROR_DATA, dest)
     else special_chunk le lib getenv cparams nbytes dest destsize BLOSC2_SPECIAL_UNINIT [])"



section \<open>Repeated values\<close>








section \<open>What a reader gets\<close>

text \<open>
  The chunk in the first \<open>cb\<close> bytes of \<open>d\<close> stands for the bytes \<open>f le\<close> on a host of byte order \<open>le\<close>: its sizes can be read, it is
  a regular chunk, and every decompression gives these bytes.
\<close>

definition stands_for :: "(bool \<Rightarrow> buf) \<Rightarrow> int \<Rightarrow> buf \<Rightarrow> bool" where
  "stands_for f cb d \<longleftrightarrow>
   (\<forall>le ch. take (nat cb) ch = take (nat cb) d \<and> nat cb \<le> length ch \<longrightarrow>
     (\<exists>bs. blosc2_cbuffer_sizes le ch = Some (0, int (length (f le)), cb, bs)) \<and> load ch 30 = Some 0 \<and>
     (\<forall>host alloc user dec ddict r out osize. allocates alloc \<and> \<not> ctx_do_compress r \<and> int (length (f le)) \<le> osize \<and>
       length (f le) \<le> length out \<longrightarrow>
       blosc2_decompress_ctx le host alloc user dec ddict None None r ch cb out osize =
         Some (int (length (f le)), f le @ drop (length (f le)) out)))"

lemma stands_for_chunk: "stands_for (\<lambda>_. src) cb d \<Longrightarrow> chunk_of src cb d"
  by (simp add: stands_for_def chunk_of_def)






section \<open>The four kinds\<close>













end
