(* ===== verification/B2nd_Meta.thy ===== *)
theory B2nd_Meta
  imports Endian
begin

text \<open>
  The metalayer of an n-dimensional array in \<open>blosc/b2nd.c\<close> and \<open>include/b2nd.h\<close>: a MsgPack array with
  version, number of dimensions, shape, chunk shape, block shape and data type, whose integers are stored big-endian.
  A string is the list of its bytes without the final zero.
\<close>

section \<open>Integers in the byte order of the host\<close>

text \<open>The bytes of a signed integer of \<open>w\<close> bytes in memory, and its value.\<close>

definition host_bytes :: "nat \<Rightarrow> bool \<Rightarrow> int \<Rightarrow> buf" where
  "host_bytes w le x = host_order le (le_bytes w (nat (x mod 256 ^ w)))"

definition host_int :: "nat \<Rightarrow> bool \<Rightarrow> buf \<Rightarrow> int" where
  "host_int w le bs = (int (le_val (host_order le bs)) + 256 ^ w div 2) mod 256 ^ w - 256 ^ w div 2"

definition fits :: "nat \<Rightarrow> int \<Rightarrow> bool" where
  "fits w x = (- (256 ^ w div 2) \<le> x \<and> x < 256 ^ w div 2)"

lemma length_host_bytes [simp]: "length (host_bytes w le x) = w"
  by (simp add: host_bytes_def)

lemma host_int_host_bytes:
  assumes "fits w x" "0 < w"
  shows "host_int w le (host_bytes w le x) = x"
proof -
  let ?m = "256 ^ w :: int"
  have even: "?m div 2 + ?m div 2 = ?m" using assms(2) by (cases w) auto
  have "int (nat (x mod ?m) mod 256 ^ w) = x mod ?m" by (simp add: zmod_int)
  then have "host_int w le (host_bytes w le x) = (x mod ?m + ?m div 2) mod ?m - ?m div 2"
    by (simp add: host_int_def host_bytes_def le_val_le_bytes)
  also have "\<dots> = (x + ?m div 2) mod ?m - ?m div 2" by (simp add: mod_add_left_eq)
  also have "\<dots> = x" using assms(1) even by (simp add: fits_def)
  finally show ?thesis .
qed

lemma host_int_False: "host_int w False (host_bytes w False x) = host_int w True (host_bytes w True x)"
  by (simp add: host_int_def host_bytes_def)

text \<open>
  \<open>swap_store\<close>: to or from the big-endian order of a metalayer. For a size it does not know the swapping branch stores
  an array that is not initialised. The allocation of that array is not modelled.
\<close>

definition swap_store :: "bool \<Rightarrow> buf \<Rightarrow> nat \<Rightarrow> buf \<Rightarrow> nat \<Rightarrow> nat \<Rightarrow> buf option" where
  "swap_store le dest di pa si sz = do {
     pa2 \<leftarrow> (if le
       then if sz = 8 \<or> sz = 4 \<or> sz = 2 \<or> sz = 1 then do { bs \<leftarrow> load_el sz pa si; Some (rev bs) } else None
       else load_el sz pa si);
     memcpy dest di pa2 0 sz }"

definition known_size :: "nat \<Rightarrow> bool" where
  "known_size w = (w = 8 \<or> w = 4)"

lemma known_size_pos: "known_size w \<Longrightarrow> 0 < w"
  by (auto simp: known_size_def)

lemma swap_store_load:
  assumes "known_size w" "p + w \<le> length pa" "length tmp = w"
  shows "swap_store le tmp 0 pa p w = Some (host_order (\<not> le) (take w (drop p pa)))"
  using assms by (auto simp: swap_store_def known_size_def load_el_Some memcpy_Some host_order_def)

lemma swap_store_write:
  assumes "known_size w" "p + w \<le> length b"
  shows "swap_store le b p (host_bytes w le x) 0 w = Some (take p b @ host_bytes w False x @ drop (p + w) b)"
  using assms by (auto simp: swap_store_def known_size_def load_el_Some memcpy_Some host_order_def host_bytes_def)

section \<open>Writing the metalayer\<close>

abbreviation (input) B2ND_MAX_DIM :: nat where "B2ND_MAX_DIM \<equiv> 16"
abbreviation (input) B2ND_METALAYER_VERSION :: byte where "B2ND_METALAYER_VERSION \<equiv> 0"

definition B2ND_DEFAULT_DTYPE :: buf where
  "B2ND_DEFAULT_DTYPE = [0x7C, 0x75, 0x31]"

text \<open>\<open>*pmeta++ = v\<close>, and one entry of a shape: its marker, then the integer. The state is the buffer and the position of \<open>pmeta\<close>.\<close>

definition put_byte :: "byte \<Rightarrow> buf \<times> nat \<Rightarrow> (buf \<times> nat) option" where
  "put_byte v s = do { b \<leftarrow> store (fst s) (snd s) v; Some (b, snd s + 1) }"

definition put_int :: "bool \<Rightarrow> nat \<Rightarrow> int \<Rightarrow> buf \<times> nat \<Rightarrow> (buf \<times> nat) option" where
  "put_int le w x s = do { b \<leftarrow> swap_store le (fst s) (snd s) (host_bytes w le x) 0 w; Some (b, snd s + w) }"

definition put_shape :: "bool \<Rightarrow> byte \<Rightarrow> nat \<Rightarrow> int \<Rightarrow> int list \<Rightarrow> buf \<times> nat \<Rightarrow> (buf \<times> nat) option" where
  "put_shape le marker w ndim shape s = do {
     s \<leftarrow> put_byte (0x90 + word_of_int ndim) s;
     for_range 0 (nat ndim) (\<lambda>i s. do {
       s \<leftarrow> put_byte marker s;
       x \<leftarrow> load shape i;
       put_int le w x s }) s }"

text \<open>Everything in front of the data type.\<close>

definition put_meta ::
  "bool \<Rightarrow> int \<Rightarrow> int list \<Rightarrow> int list \<Rightarrow> int list \<Rightarrow> nat \<Rightarrow> int \<Rightarrow> buf \<times> nat \<Rightarrow> (buf \<times> nat) option" where
  "put_meta le ndim shape chunkshape blockshape dtype_len dtype_format s = do {
     s \<leftarrow> put_byte (0x90 + 7) s;
     s \<leftarrow> put_byte B2ND_METALAYER_VERSION s;
     s \<leftarrow> put_byte (word_of_int ndim) s;
     s \<leftarrow> put_shape le 0xd3 8 ndim shape s;
     s \<leftarrow> put_shape le 0xd2 4 ndim chunkshape s;
     s \<leftarrow> put_shape le 0xd2 4 ndim blockshape s;
     s \<leftarrow> put_byte (word_of_int dtype_format) s;
     s \<leftarrow> put_byte 0xdb s;
     put_int le 4 (int dtype_len) s }"

text \<open>
  \<open>b2nd_serialize_meta\<close>: the return value and the allocated buffer. \<open>ndim\<close> and \<open>dtype_format\<close> are of type \<open>int8_t\<close>;
  the length is computed as a \<open>size_t\<close> and converted to \<open>int32_t\<close>.
\<close>

definition b2nd_serialize_meta ::
  "bool \<Rightarrow> (nat \<Rightarrow> buf option) \<Rightarrow> int \<Rightarrow> int list \<Rightarrow> int list \<Rightarrow> int list \<Rightarrow> buf option \<Rightarrow> int \<Rightarrow>
   (int \<times> buf option) option" where
  "b2nd_serialize_meta le malloc ndim shape chunkshape blockshape dtype dtype_format =
    (let dtype = (case dtype of None \<Rightarrow> B2ND_DEFAULT_DTYPE | Some d \<Rightarrow> d) in
     if dtype_format < 0 then Some (BLOSC2_ERROR_FAILURE, None)
     else if int (length dtype) > INT_MAX then Some (BLOSC2_ERROR_FAILURE, None)
     else
       let max_smeta_len = wrap32 (1 + 1 + 1 + (1 + ndim * 9) + (1 + ndim * 5) + (1 + ndim * 5) +
                                   1 + 1 + 4 + int (length dtype)) in
       case malloc (nat (max_smeta_len mod 2 ^ 64)) of
         None \<Rightarrow> Some (BLOSC2_ERROR_MEMORY_ALLOC, None)
       | Some smeta \<Rightarrow> do {
           s \<leftarrow> put_meta le ndim shape chunkshape blockshape (length dtype) dtype_format (smeta, 0);
           smeta \<leftarrow> memcpy (fst s) (snd s) dtype 0 (length dtype);
           let slen = int (snd s + length dtype);
           Some (if max_smeta_len \<noteq> slen then BLOSC2_ERROR_FAILURE else slen, Some smeta) })"

section \<open>Reading it\<close>

text \<open>What the function writes through its pointers: \<open>dtype\<close> is \<open>None\<close> for the null pointer.\<close>

record meta_out =
  mo_ndim :: int
  mo_shape :: "int list"
  mo_chunkshape :: "int list"
  mo_blockshape :: "int list"
  mo_dtype :: "buf option"
  mo_dtype_format :: int

text \<open>\<open>B2ND_REQUIRE_META_NBYTES\<close> for \<open>pmeta\<close> at position \<open>p\<close>.\<close>

definition require_meta_nbytes :: "int \<Rightarrow> nat \<Rightarrow> nat \<Rightarrow> bool" where
  "require_meta_nbytes smeta_len p nbytes = (\<not> (int p > smeta_len \<or> smeta_len - int p < int nbytes))"

text \<open>
  One shape: all its places become 1, the marker of the array is skipped, then each integer is read behind its own marker. The
  flag says whether all of it was there.
\<close>

fun read_ints :: "bool \<Rightarrow> nat \<Rightarrow> buf \<Rightarrow> int \<Rightarrow> nat \<Rightarrow> nat \<Rightarrow> nat \<Rightarrow> int list \<Rightarrow> (bool \<times> nat \<times> int list) option" where
  "read_ints le w smeta smeta_len p i 0 xs = Some (True, p, xs)"
| "read_ints le w smeta smeta_len p i (Suc n) xs =
    (if \<not> require_meta_nbytes smeta_len p (1 + w) then Some (False, p, xs)
     else do {
       v \<leftarrow> swap_store le (replicate w 0) 0 smeta (p + 1) w;
       xs \<leftarrow> store xs i (host_int w le v);
       read_ints le w smeta smeta_len (p + 1 + w) (Suc i) n xs })"

definition read_shape :: "bool \<Rightarrow> nat \<Rightarrow> buf \<Rightarrow> int \<Rightarrow> nat \<Rightarrow> int \<Rightarrow> int list \<Rightarrow> (bool \<times> nat \<times> int list) option" where
  "read_shape le w smeta smeta_len p ndim xs = do {
     xs \<leftarrow> for_range 0 (nat ndim) (\<lambda>i xs. store xs i 1) xs;
     if \<not> require_meta_nbytes smeta_len p 1 then Some (False, p, xs)
     else read_ints le w smeta smeta_len (p + 1) 0 (nat ndim) xs }"

definition read_dtype ::
  "bool \<Rightarrow> (nat \<Rightarrow> buf option) \<Rightarrow> buf \<Rightarrow> int \<Rightarrow> nat \<Rightarrow> meta_out \<Rightarrow> (int \<times> meta_out) option" where
  "read_dtype le malloc smeta smeta_len p out =
    (if int p < smeta_len then
       if \<not> require_meta_nbytes smeta_len p 6 then Some (BLOSC2_ERROR_FAILURE, out)
       else do {
         fmt \<leftarrow> load smeta p;
         let out = out\<lparr>mo_dtype_format := sint fmt\<rparr>;
         marker \<leftarrow> load smeta (p + 1);
         if marker \<noteq> 0xdb then Some (BLOSC2_ERROR_FAILURE, out)
         else do {
           v \<leftarrow> swap_store le (replicate 4 0) 0 smeta (p + 2) 4;
           let dtype_len = host_int 4 le v;
           if dtype_len < 0 then Some (BLOSC2_ERROR_FAILURE, out)
           else if \<not> require_meta_nbytes smeta_len (p + 6) (nat dtype_len) then Some (BLOSC2_ERROR_FAILURE, out)
           else case malloc (nat dtype_len + 1) of
             None \<Rightarrow> Some (BLOSC2_ERROR_MEMORY_ALLOC, out\<lparr>mo_dtype := None\<rparr>)
           | Some d \<Rightarrow> do {
               d \<leftarrow> memcpy d 0 smeta (p + 6) (nat dtype_len);
               d \<leftarrow> store d (nat dtype_len) 0;
               Some (int (p + 6 + nat dtype_len), out\<lparr>mo_dtype := Some (take (nat dtype_len) d)\<rparr>) } } }
     else Some (int p, out\<lparr>mo_dtype := None, mo_dtype_format := 0\<rparr>))"

text \<open>
  \<open>b2nd_deserialize_meta_inline\<close>. \<open>null_place\<close> says that one of the pointers \<open>ndim\<close>, \<open>shape\<close>, \<open>chunkshape\<close>,
  \<open>blockshape\<close> is null; \<open>want_dtype\<close> and \<open>want_format\<close> that \<open>dtype\<close> and \<open>dtype_format\<close> are not; the fields
  of \<open>out\<close> are what is behind them.
\<close>

definition b2nd_deserialize_meta ::
  "bool \<Rightarrow> (nat \<Rightarrow> buf option) \<Rightarrow> buf option \<Rightarrow> int \<Rightarrow> bool \<Rightarrow> bool \<Rightarrow> bool \<Rightarrow> meta_out \<Rightarrow>
   (int \<times> meta_out) option" where
  "b2nd_deserialize_meta le malloc smeta smeta_len null_place want_dtype want_format out =
    (case smeta of None \<Rightarrow> Some (BLOSC2_ERROR_NULL_POINTER, out) | Some smeta \<Rightarrow>
     if null_place then Some (BLOSC2_ERROR_NULL_POINTER, out)
     else
       let out = (if want_dtype then out\<lparr>mo_dtype := None\<rparr> else out);
           out = (if want_format then out\<lparr>mo_dtype_format := 0\<rparr> else out) in
       if smeta_len \<le> 0 then Some (BLOSC2_ERROR_FAILURE, out)
       else if \<not> require_meta_nbytes smeta_len 0 1 then Some (BLOSC2_ERROR_FAILURE, out)
       else if \<not> require_meta_nbytes smeta_len 1 1 then Some (BLOSC2_ERROR_FAILURE, out)
       else if \<not> require_meta_nbytes smeta_len 2 1 then Some (BLOSC2_ERROR_FAILURE, out)
       else do {
         n \<leftarrow> load smeta 2;
         let ndim = sint n;
         let out = out\<lparr>mo_ndim := ndim\<rparr>;
         if ndim < 0 \<or> ndim > int B2ND_MAX_DIM then Some (BLOSC2_ERROR_FAILURE, out)
         else do {
           (ok, p, xs) \<leftarrow> read_shape le 8 smeta smeta_len 3 ndim (mo_shape out);
           let out = out\<lparr>mo_shape := xs\<rparr>;
           if \<not> ok then Some (BLOSC2_ERROR_FAILURE, out)
           else do {
             (ok, p, xs) \<leftarrow> read_shape le 4 smeta smeta_len p ndim (mo_chunkshape out);
             let out = out\<lparr>mo_chunkshape := xs\<rparr>;
             if \<not> ok then Some (BLOSC2_ERROR_FAILURE, out)
             else do {
               (ok, p, xs) \<leftarrow> read_shape le 4 smeta smeta_len p ndim (mo_blockshape out);
               let out = out\<lparr>mo_blockshape := xs\<rparr>;
               if \<not> ok then Some (BLOSC2_ERROR_FAILURE, out)
               else if \<not> want_format \<or> \<not> want_dtype then Some (int p, out)
               else read_dtype le malloc smeta smeta_len p out } } } })"

section \<open>What the writer leaves in the buffer\<close>

text \<open>
  \<open>writes f v\<close>: behind any prefix, with room enough, \<open>f\<close> writes the bytes \<open>v\<close> and moves on behind them.
\<close>

definition writes :: "(buf \<times> nat \<Rightarrow> (buf \<times> nat) option) \<Rightarrow> buf \<Rightarrow> bool" where
  "writes f v = (\<forall>pre junk. length v \<le> length junk \<longrightarrow>
     f (pre @ junk, length pre) = Some ((pre @ v) @ drop (length v) junk, length (pre @ v)))"

lemma writesD:
  "writes f v \<Longrightarrow> length v \<le> length junk \<Longrightarrow>
   f (pre @ junk, length pre) = Some ((pre @ v) @ drop (length v) junk, length (pre @ v))"
  by (simp add: writes_def)

lemma writes_put_byte: "writes (put_byte v) [v]"
  unfolding writes_def
proof (intro allI impI)
  fix pre junk :: buf
  assume "length [v] \<le> length junk"
  then obtain c junk' where "junk = c # junk'" by (cases junk) auto
  then show "put_byte v (pre @ junk, length pre) =
      Some ((pre @ [v]) @ drop (length [v]) junk, length (pre @ [v]))"
    by (simp add: put_byte_def store_Some)
qed

lemma writes_put_int: "known_size w \<Longrightarrow> writes (put_int le w x) (host_bytes w False x)"
  by (simp add: writes_def put_int_def swap_store_write)

lemma writes_bind:
  assumes "writes f v" "writes g u"
  shows "writes (\<lambda>s. Option.bind (f s) g) (v @ u)"
  unfolding writes_def
proof (intro allI impI)
  fix pre junk :: buf
  assume "length (v @ u) \<le> length junk"
  then have "length v \<le> length junk" "length u \<le> length (drop (length v) junk)" by auto
  from writesD[OF assms(1) this(1), of pre] writesD[OF assms(2) this(2), of "pre @ v"]
  show "Option.bind (f (pre @ junk, length pre)) g =
      Some ((pre @ v @ u) @ drop (length (v @ u)) junk, length (pre @ v @ u))"
    by (simp add: add.commute add.left_commute)
qed

lemma writes_for_count:
  assumes "\<And>i. lo \<le> i \<Longrightarrow> i < lo + n \<Longrightarrow> writes (f i) (v i)"
  shows "writes (for_count lo n f) (concat (map v [lo..<lo + n]))"
  using assms
proof (induction n arbitrary: lo)
  case (Suc n)
  have "writes (\<lambda>s. Option.bind (f lo s) (for_count (Suc lo) n f)) (v lo @ concat (map v [Suc lo..<Suc lo + n]))"
    by (intro writes_bind Suc.IH) (use Suc.prems in auto)
  moreover have "[lo..<lo + Suc n] = lo # [Suc lo..<Suc lo + n]" by (simp add: upt_conv_Cons)
  ultimately show ?case by (simp add: writes_def)
qed (simp add: writes_def)

text \<open>The entry of a shape.\<close>

definition shape_entry :: "byte \<Rightarrow> nat \<Rightarrow> int list \<Rightarrow> buf" where
  "shape_entry marker w xs = concat (map (\<lambda>x. marker # host_bytes w False x) xs)"

lemma length_shape_entry [simp]: "length (shape_entry marker w xs) = length xs * Suc w"
  by (induction xs) (auto simp: shape_entry_def)

lemma shape_entry_simps [simp]:
  "shape_entry marker w [] = []"
  "shape_entry marker w (x # xs) = marker # host_bytes w False x @ shape_entry marker w xs"
  by (simp_all add: shape_entry_def)

lemma writes_put_shape:
  assumes "known_size w" "nat ndim \<le> length xs"
  shows "writes (put_shape le marker w ndim xs) ((0x90 + word_of_int ndim) # shape_entry marker w (take (nat ndim) xs))"
proof -
  have "writes (\<lambda>s. do { s \<leftarrow> put_byte marker s; x \<leftarrow> load xs i; put_int le w x s })
      ([marker] @ host_bytes w False (xs ! i))" if "0 \<le> i" "i < 0 + nat ndim" for i
    using writes_bind[OF writes_put_byte writes_put_int[OF assms(1)], of marker le "xs ! i"] that assms(2)
    by (simp add: load_Some)
  then have "writes (for_count 0 (nat ndim) (\<lambda>i s. do { s \<leftarrow> put_byte marker s; x \<leftarrow> load xs i; put_int le w x s }))
      (concat (map (\<lambda>i. [marker] @ host_bytes w False (xs ! i)) [0..<0 + nat ndim]))"
    by (rule writes_for_count)
  moreover have "map (\<lambda>i. [marker] @ host_bytes w False (xs ! i)) [0..<0 + nat ndim] =
      map (\<lambda>x. marker # host_bytes w False x) (take (nat ndim) xs)"
    using assms(2) by (intro nth_equalityI) auto
  ultimately have "writes (for_range 0 (nat ndim)
        (\<lambda>i s. do { s \<leftarrow> put_byte marker s; x \<leftarrow> load xs i; put_int le w x s }))
      (shape_entry marker w (take (nat ndim) xs))"
    by (simp add: for_range_def[abs_def] shape_entry_def)
  from writes_bind[OF writes_put_byte this, of "0x90 + word_of_int ndim"] show ?thesis
    by (simp add: put_shape_def[abs_def])
qed

text \<open>The metalayer in front of the data type.\<close>

definition meta_bytes :: "int \<Rightarrow> int list \<Rightarrow> int list \<Rightarrow> int list \<Rightarrow> buf \<Rightarrow> int \<Rightarrow> buf" where
  "meta_bytes ndim shape chunkshape blockshape dtype dtype_format =
     [0x97, 0, word_of_int ndim] @
     (0x90 + word_of_int ndim) # shape_entry 0xd3 8 (take (nat ndim) shape) @
     (0x90 + word_of_int ndim) # shape_entry 0xd2 4 (take (nat ndim) chunkshape) @
     (0x90 + word_of_int ndim) # shape_entry 0xd2 4 (take (nat ndim) blockshape) @
     [word_of_int dtype_format, 0xdb] @ host_bytes 4 False (int (length dtype))"

lemma length_meta_bytes:
  assumes "0 \<le> ndim" "nat ndim \<le> length shape" "nat ndim \<le> length chunkshape" "nat ndim \<le> length blockshape"
  shows "int (length (meta_bytes ndim shape chunkshape blockshape dtype dtype_format)) = 12 + 19 * ndim"
  using assms by (simp add: meta_bytes_def)

lemma writes_put_meta:
  assumes "nat ndim \<le> length shape" "nat ndim \<le> length chunkshape" "nat ndim \<le> length blockshape"
  shows "writes (put_meta le ndim shape chunkshape blockshape (length dtype) dtype_format)
    (meta_bytes ndim shape chunkshape blockshape dtype dtype_format)"
proof -
  have sizes: "known_size 8" "known_size 4" by (simp_all add: known_size_def)
  note w = writes_put_shape[OF sizes(1) assms(1)] writes_put_shape[OF sizes(2) assms(2)]
    writes_put_shape[OF sizes(2) assms(3)]
  have "writes (put_meta le ndim shape chunkshape blockshape (length dtype) dtype_format)
    ([0x90 + 7] @ [B2ND_METALAYER_VERSION] @ [word_of_int ndim] @
     ((0x90 + word_of_int ndim) # shape_entry 0xd3 8 (take (nat ndim) shape)) @
     ((0x90 + word_of_int ndim) # shape_entry 0xd2 4 (take (nat ndim) chunkshape)) @
     ((0x90 + word_of_int ndim) # shape_entry 0xd2 4 (take (nat ndim) blockshape)) @
     [word_of_int dtype_format] @ [0xdb] @ host_bytes 4 False (int (length dtype)))"
    unfolding put_meta_def[abs_def] by (intro writes_bind writes_put_byte w writes_put_int sizes)
  then show ?thesis by (simp add: meta_bytes_def)
qed

lemma serialize_bytes:
  assumes "0 \<le> ndim" "nat ndim \<le> length shape" "nat ndim \<le> length chunkshape" "nat ndim \<le> length blockshape"
    and "0 \<le> dtype_format" "12 + 19 * ndim + int (length dtype) \<le> INT_MAX"
    and "malloc (nat (12 + 19 * ndim + int (length dtype))) = Some b"
    and "int (length b) = 12 + 19 * ndim + int (length dtype)"
  shows "b2nd_serialize_meta le malloc ndim shape chunkshape blockshape (Some dtype) dtype_format =
    Some (12 + 19 * ndim + int (length dtype), Some (meta_bytes ndim shape chunkshape blockshape dtype dtype_format @ dtype))"
proof -
  let ?n = "12 + 19 * ndim + int (length dtype)"
  let ?v = "meta_bytes ndim shape chunkshape blockshape dtype dtype_format"
  have len: "int (length ?v) = 12 + 19 * ndim" by (rule length_meta_bytes[OF assms(1-4)])
  then have lb: "length b = length ?v + length dtype" using assms(8) by linarith
  have put: "put_meta le ndim shape chunkshape blockshape (length dtype) dtype_format (b, 0) =
      Some (?v @ drop (length ?v) b, length ?v)"
    using writesD[OF writes_put_meta[OF assms(2-4), of le dtype dtype_format], of b "[]"] lb by simp
  have cp: "memcpy (?v @ drop (length ?v) b) (length ?v) dtype 0 (length dtype) = Some (?v @ dtype)"
    using lb by (simp add: memcpy_Some)
  have n: "wrap32 (1 + 1 + 1 + (1 + ndim * 9) + (1 + ndim * 5) + (1 + ndim * 5) + 1 + 1 + 4 + int (length dtype)) = ?n"
    using assms(1,6) by (subst wrap32_id) (simp_all add: i32_range_def)
  have m: "malloc (nat (?n mod 2 ^ 64)) = Some b"
    using assms(1,6,7) by simp
  have fmt: "\<not> dtype_format < 0" "\<not> INT_MAX < int (length dtype)" using assms(1,5,6) by auto
  have slen: "int (length ?v + length dtype) = ?n" using len by simp
  show ?thesis
    unfolding b2nd_serialize_meta_def Let_def option.case n m put bind.bind_lunit fst_conv snd_conv cp slen
    using fmt by simp
qed

section \<open>What the reader makes of it\<close>

lemma require_iff: "require_meta_nbytes smeta_len p n \<longleftrightarrow> int (p + n) \<le> smeta_len"
  by (auto simp: require_meta_nbytes_def)

lemma read_swapped:
  assumes "known_size w" "p + w \<le> length smeta"
  obtains v where "swap_store le (replicate w 0) 0 smeta p w = Some v"
    "host_int w le v = host_int w False (take w (drop p smeta))"
  using that[OF swap_store_load[OF assms, of "replicate w 0" le]] by (simp add: host_int_def host_order_def)

lemma read_ints_total:
  assumes "known_size w" "smeta_len \<le> int (length smeta)" "int p \<le> smeta_len" "i + n \<le> length xs"
  shows "\<exists>ok p' xs'. read_ints le w smeta smeta_len p i n xs = Some (ok, p', xs') \<and> length xs' = length xs \<and>
    int p' \<le> smeta_len"
  using assms(3,4)
proof (induction n arbitrary: p i xs)
  case (Suc n)
  show ?case
  proof (cases "require_meta_nbytes smeta_len p (1 + w)")
    case True
    then have r: "int (p + (1 + w)) \<le> smeta_len" by (simp only: require_iff)
    with assms(2) have "p + 1 + w \<le> length smeta" by linarith
    from read_swapped[OF assms(1) this] obtain v where
      v: "swap_store le (replicate w 0) 0 smeta (p + 1) w = Some v" by blast
    have "\<exists>ok p' xs'. read_ints le w smeta smeta_len (p + 1 + w) (Suc i) n (xs[i := host_int w le v]) =
        Some (ok, p', xs') \<and> length xs' = length (xs[i := host_int w le v]) \<and> int p' \<le> smeta_len"
      by (rule Suc.IH) (use r Suc.prems in auto)
    with True v Suc.prems show ?thesis by (simp add: store_Some)
  qed (use Suc.prems in auto)
qed auto

lemma ones_total:
  assumes "n \<le> length xs"
  shows "for_range 0 n (\<lambda>i xs. store xs i 1) xs = Some (replicate n 1 @ drop n xs)"
proof -
  have "gathers (for_range 0 n (\<lambda>i xs. store xs i 1)) (length xs) (\<Union>i\<in>{0..<n}. {i}) (\<lambda>_. 1)"
    by (rule gathers_for_range) (use assms in \<open>auto intro: gathers_store\<close>)
  then have "gathers (for_range 0 n (\<lambda>i xs. store xs i 1)) (length xs) {..<n} (\<lambda>_. 1)"
    by (simp add: atLeast0LessThan)
  moreover have "{..<n} \<inter> {n..<length xs} = {}" by auto
  ultimately show ?thesis using gathers_all[of _ "length xs" "{..<n}" "\<lambda>_. 1" n xs] assms
    by (simp add: map_replicate_const)
qed

lemma read_shape_total:
  assumes "known_size w" "smeta_len \<le> int (length smeta)" "int p \<le> smeta_len" "nat ndim \<le> length xs"
  shows "\<exists>ok p' xs'. read_shape le w smeta smeta_len p ndim xs = Some (ok, p', xs') \<and> length xs' = length xs \<and>
    int p' \<le> smeta_len"
proof (cases "require_meta_nbytes smeta_len p 1")
  case True
  then have "int (p + 1) \<le> smeta_len" by (simp only: require_iff)
  from read_ints_total[OF assms(1,2) this, of 0 "nat ndim" "replicate (nat ndim) 1 @ drop (nat ndim) xs" le]
  show ?thesis using True assms(4) by (simp add: read_shape_def ones_total)
qed (use assms in \<open>auto simp: read_shape_def ones_total\<close>)

lemma read_ints_entry:
  assumes "known_size w" "smeta_len \<le> int (length smeta)"
    and "drop p smeta = shape_entry marker w ys @ rest" "int (p + length ys * Suc w) \<le> smeta_len"
    and "\<forall>y\<in>set ys. fits w y" "i + length ys \<le> length xs"
  shows "read_ints le w smeta smeta_len p i (length ys) xs =
    Some (True, p + length ys * Suc w, take i xs @ ys @ drop (i + length ys) xs)"
  using assms(3-6)
proof (induction ys arbitrary: p i xs)
  case (Cons y ys)
  have "p + (1 + w) \<le> p + length (y # ys) * Suc w" by simp
  with Cons.prems(2) have r: "int (p + (1 + w)) \<le> smeta_len" by linarith
  with assms(2) have "p + 1 + w \<le> length smeta" by linarith
  from read_swapped[OF assms(1) this] obtain v where
    v: "swap_store le (replicate w 0) 0 smeta (p + 1) w = Some v"
      "host_int w le v = host_int w False (take w (drop (p + 1) smeta))" by blast
  have "drop (p + 1) smeta = drop 1 (drop p smeta)" by simp
  also have "\<dots> = host_bytes w False y @ shape_entry marker w ys @ rest" unfolding Cons.prems(1) by simp
  finally have d: "drop (p + 1) smeta = host_bytes w False y @ shape_entry marker w ys @ rest" .
  have y: "host_int w le v = y"
    using v(2) d Cons.prems(3) known_size_pos[OF assms(1)] by (simp add: host_int_host_bytes)
  have "drop (p + 1 + w) smeta = drop w (drop (p + 1) smeta)" by (simp only: drop_drop add.commute)
  also have "\<dots> = shape_entry marker w ys @ rest" unfolding d by simp
  finally have d': "drop (p + 1 + w) smeta = shape_entry marker w ys @ rest" .
  have "read_ints le w smeta smeta_len (p + 1 + w) (Suc i) (length ys) (xs[i := y]) =
    Some (True, p + 1 + w + length ys * Suc w,
      take (Suc i) (xs[i := y]) @ ys @ drop (Suc i + length ys) (xs[i := y]))"
    by (rule Cons.IH[OF d']) (use Cons.prems in auto)
  moreover have "take (Suc i) (xs[i := y]) = take i xs @ [y]"
    using Cons.prems(4) by (simp add: take_Suc_conv_app_nth)
  ultimately show ?case
    using r v(1) y Cons.prems(4) by (simp add: require_iff store_Some drop_update_cancel)
qed simp

lemma read_shape_entry:
  assumes "known_size w" "smeta_len \<le> int (length smeta)"
    and "drop p smeta = m # shape_entry marker w ys @ rest" "int (p + 1 + length ys * Suc w) \<le> smeta_len"
    and "\<forall>y\<in>set ys. fits w y" "length ys \<le> length xs" "nat ndim = length ys"
  shows "read_shape le w smeta smeta_len p ndim xs =
    Some (True, p + 1 + length ys * Suc w, ys @ drop (length ys) xs)"
proof -
  have "drop (p + 1) smeta = drop 1 (drop p smeta)" by simp
  also have "\<dots> = shape_entry marker w ys @ rest" unfolding assms(3) by simp
  finally have d: "drop (p + 1) smeta = shape_entry marker w ys @ rest" .
  have r: "require_meta_nbytes smeta_len p 1" using assms(4) unfolding require_iff by linarith
  from r read_ints_entry[OF assms(1,2) d assms(4,5), of 0 "replicate (length ys) 1 @ drop (length ys) xs" le] assms(6,7)
  show ?thesis by (simp add: read_shape_def ones_total)
qed

lemma read_dtype_total:
  assumes "smeta_len \<le> int (length smeta)" "int p \<le> smeta_len"
    and "\<And>n d. malloc n = Some d \<Longrightarrow> length d = n"
  shows "\<exists>rc out'. read_dtype le malloc smeta smeta_len p out = Some (rc, out') \<and> rc \<le> smeta_len \<and>
    mo_ndim out' = mo_ndim out"
proof (cases "int p < smeta_len \<and> require_meta_nbytes smeta_len p 6")
  case False
  then show ?thesis using assms(2) by (auto simp: read_dtype_def)
next
  case True
  then have p: "p + 6 \<le> length smeta" using assms(1) by (simp add: require_iff)
  have "p + 2 + 4 \<le> length smeta" using p by simp
  from read_swapped[OF _ this] obtain v where v: "swap_store le (replicate 4 0) 0 smeta (p + 2) 4 = Some v"
    by (auto simp: known_size_def)
  have pos: "0 < smeta_len" using True by linarith
  show ?thesis
  proof (cases "0 \<le> host_int 4 le v \<and> require_meta_nbytes smeta_len (p + 6) (nat (host_int 4 le v))")
    case False
    then show ?thesis using True p v pos by (auto simp: read_dtype_def load_Some Let_def)
  next
    case room: True
    let ?n = "nat (host_int 4 le v)"
    have r: "int (p + 6 + ?n) \<le> smeta_len" using room by (simp only: require_iff)
    with assms(1) have "p + 6 + ?n \<le> length smeta" by linarith
    with r show ?thesis using True p v pos room assms(3)[of "?n + 1"]
      by (auto simp: read_dtype_def load_Some Let_def memcpy_Some store_Some split: option.splits)
  qed
qed

lemma sint_small: "0 \<le> x \<Longrightarrow> x < 128 \<Longrightarrow> sint (word_of_int x :: byte) = x"
  by transfer (simp add: signed_take_bit_int_eq_self)

lemma drop_behind: "drop p v = m # xs @ rest \<Longrightarrow> drop (p + 1 + length xs) v = rest"
proof -
  assume d: "drop p v = m # xs @ rest"
  have "drop (p + 1 + length xs) v = drop (1 + length xs) (drop p v)" by (simp only: drop_drop ac_simps)
  also have "\<dots> = rest" unfolding d by simp
  finally show ?thesis .
qed

lemma read_dtype_entry:
  assumes "drop p smeta = [word_of_int dtype_format, 0xdb] @ host_bytes 4 False (int (length dtype)) @ dtype"
    and "smeta_len = int (length smeta)" "smeta_len \<le> INT_MAX" "0 \<le> dtype_format" "dtype_format < 128"
    and "\<exists>d. malloc (length dtype + 1) = Some d \<and> length d = length dtype + 1"
  shows "read_dtype le malloc smeta smeta_len p out =
    Some (smeta_len, out\<lparr>mo_dtype := Some dtype, mo_dtype_format := dtype_format\<rparr>)"
proof -
  let ?n = "length dtype"
  have len: "length smeta = p + 6 + ?n"
  proof -
    have "length (drop p smeta) = 6 + ?n" unfolding assms(1) by simp
    then show ?thesis by simp
  qed
  have l: "load smeta (p + k) = Some (drop p smeta ! k)" if "k < 2" for k
    using that len by (simp add: load_Some)
  have l0: "load smeta p = Some (word_of_int dtype_format)" "load smeta (p + 1) = Some 0xdb"
    using l[of 0] l[of 1] by (simp_all add: assms(1))
  have d2: "drop (p + 2) smeta = host_bytes 4 False (int ?n) @ dtype"
  proof -
    have "drop (p + 2) smeta = drop 2 (drop p smeta)" by (simp only: drop_drop ac_simps)
    also have "\<dots> = host_bytes 4 False (int ?n) @ dtype" unfolding assms(1) by simp
    finally show ?thesis .
  qed
  have d6: "drop (p + 6) smeta = dtype"
  proof -
    have "drop (p + 6) smeta = drop 6 (drop p smeta)" by (simp only: drop_drop ac_simps)
    also have "\<dots> = dtype" unfolding assms(1) by simp
    finally show ?thesis .
  qed
  have "p + 2 + 4 \<le> length smeta" using len by simp
  from read_swapped[OF _ this] obtain v where v: "swap_store le (replicate 4 0) 0 smeta (p + 2) 4 = Some v"
      "host_int 4 le v = host_int 4 False (take 4 (drop (p + 2) smeta))"
    by (auto simp: known_size_def)
  have "fits 4 (int ?n)" using assms(2,3) len by (simp add: fits_def)
  with v(2) have n: "host_int 4 le v = int ?n" unfolding d2 by (simp add: host_int_host_bytes)
  have fmt: "sint (word_of_int dtype_format :: byte) = dtype_format"
    using assms(4,5) by (simp add: sint_small)
  obtain d where d: "malloc (?n + 1) = Some d" "length d = ?n + 1" using assms(6) by blast
  have cp: "memcpy d 0 smeta (p + 6) ?n = Some (dtype @ drop ?n d)"
    using len d(2) by (simp add: memcpy_Some d6)
  have st: "store (dtype @ drop ?n d) ?n 0 = Some ((dtype @ drop ?n d)[?n := 0])"
    using d(2) by (simp add: store_Some)
  have r: "int p < smeta_len" "require_meta_nbytes smeta_len p 6" "require_meta_nbytes smeta_len (p + 6) ?n"
    using len assms(2) by (simp_all add: require_iff)
  have len': "int (p + 6 + ?n) = smeta_len" using len assms(2) by simp
  show ?thesis
    unfolding read_dtype_def Let_def l0 bind.bind_lunit v(1) n nat_int d(1) option.case cp st len' fmt
    using r by simp
qed

lemma deserialize_meta_bytes:
  assumes "0 \<le> ndim" "ndim \<le> 16" "length shape = nat ndim" "length chunkshape = nat ndim" "length blockshape = nat ndim"
    and "\<forall>x\<in>set shape. fits 8 x" "\<forall>x\<in>set chunkshape. fits 4 x" "\<forall>x\<in>set blockshape. fits 4 x"
    and "0 \<le> dtype_format" "dtype_format < 128" "12 + 19 * ndim + int (length dtype) \<le> INT_MAX"
    and "\<And>n. \<exists>d. malloc n = Some d \<and> length d = n"
    and "16 \<le> length (mo_shape out)" "16 \<le> length (mo_chunkshape out)" "16 \<le> length (mo_blockshape out)"
  shows "b2nd_deserialize_meta le' malloc (Some (meta_bytes ndim shape chunkshape blockshape dtype dtype_format @ dtype))
      (12 + 19 * ndim + int (length dtype)) False True True out =
    Some (12 + 19 * ndim + int (length dtype), \<lparr>mo_ndim = ndim, mo_shape = shape @ drop (nat ndim) (mo_shape out),
        mo_chunkshape = chunkshape @ drop (nat ndim) (mo_chunkshape out),
        mo_blockshape = blockshape @ drop (nat ndim) (mo_blockshape out),
        mo_dtype = Some dtype, mo_dtype_format = dtype_format\<rparr>)"
proof -
  let ?len = "12 + 19 * ndim + int (length dtype)"
  let ?v = "meta_bytes ndim shape chunkshape blockshape dtype dtype_format @ dtype"
  let ?m = "0x90 + word_of_int ndim :: byte"
  let ?n = "nat ndim"
  let ?b = "[word_of_int dtype_format, 0xdb] @ host_bytes 4 False (int (length dtype)) @ dtype"
  have v: "?v = [0x97, 0, word_of_int ndim] @ (?m # shape_entry 0xd3 8 shape) @ (?m # shape_entry 0xd2 4 chunkshape) @
      (?m # shape_entry 0xd2 4 blockshape) @ ?b"
    using assms(3-5) by (simp add: meta_bytes_def)
  have len: "int (length ?v) = ?len" unfolding v using assms(1,3-5) by simp
  have sizes: "known_size 8" "known_size 4" by (simp_all add: known_size_def)
  let ?p1 = "3 + 1 + length shape * Suc 8"
  let ?p2 = "?p1 + 1 + length chunkshape * Suc 4"
  let ?p3 = "?p2 + 1 + length blockshape * Suc 4"
  have d1: "drop 3 ?v = ?m # shape_entry 0xd3 8 shape @ (?m # shape_entry 0xd2 4 chunkshape) @
      (?m # shape_entry 0xd2 4 blockshape) @ ?b" unfolding v by simp
  have d2: "drop ?p1 ?v = ?m # shape_entry 0xd2 4 chunkshape @ (?m # shape_entry 0xd2 4 blockshape) @ ?b"
    using drop_behind[OF d1] by (simp only: length_shape_entry append_Cons)
  have d3: "drop ?p2 ?v = ?m # shape_entry 0xd2 4 blockshape @ ?b"
    using drop_behind[OF d2] by (simp only: length_shape_entry append_Cons)
  have d4: "drop ?p3 ?v = ?b" using drop_behind[OF d3] by (simp only: length_shape_entry append_Cons)
  have le: "?len \<le> int (length ?v)" using len by simp
  have lens: "length shape \<le> length (mo_shape out)" "length chunkshape \<le> length (mo_chunkshape out)"
    "length blockshape \<le> length (mo_blockshape out)" using assms by auto
  note r1 = read_shape_entry[OF sizes(1) le d1 _ assms(6) lens(1) assms(3)[symmetric], of le']
  note r2 = read_shape_entry[OF sizes(2) le d2 _ assms(7) lens(2) assms(4)[symmetric], of le']
  note r3 = read_shape_entry[OF sizes(2) le d3 _ assms(8) lens(3) assms(5)[symmetric], of le']
  have b1: "int ?p1 \<le> ?len" "int ?p2 \<le> ?len" "int ?p3 \<le> ?len" "?len = int (?p3 + 6 + length dtype)"
    using assms(1,3-5) by auto
  have dt: "read_dtype le' malloc ?v ?len ?p3 o' =
      Some (?len, o'\<lparr>mo_dtype := Some dtype, mo_dtype_format := dtype_format\<rparr>)" for o'
    using assms(9-11) by (intro read_dtype_entry[OF d4 len[symmetric]] assms(12)) auto
  have nd: "sint (word_of_int ndim :: byte) = ndim" using assms(1,2) by (simp add: sint_small)
  have l: "load ?v 2 = Some (word_of_int ndim)" unfolding v by (simp add: load_def)
  have r: "\<not> ?len \<le> 0" "require_meta_nbytes ?len 0 1" "require_meta_nbytes ?len 1 1" "require_meta_nbytes ?len 2 1"
    "\<not> (ndim < 0 \<or> ndim > int B2ND_MAX_DIM)" using assms(1,2) by (simp_all add: require_iff)
  let ?o = "out\<lparr>mo_dtype := None, mo_dtype_format := 0, mo_ndim := ndim\<rparr>"
  have s: "read_shape le' 8 ?v ?len 3 ndim (mo_shape ?o) = Some (True, ?p1, shape @ drop ?n (mo_shape out))"
    "read_shape le' 4 ?v ?len ?p1 ndim (mo_chunkshape out) = Some (True, ?p2, chunkshape @ drop ?n (mo_chunkshape out))"
    "read_shape le' 4 ?v ?len ?p2 ndim (mo_blockshape out) = Some (True, ?p3, blockshape @ drop ?n (mo_blockshape out))"
    using r1[OF b1(1)] r2[OF b1(2)] r3[OF b1(3)] assms(3-5) by simp_all
  have e: "mo_chunkshape (?o\<lparr>mo_shape := x\<rparr>) = mo_chunkshape out"
    "mo_blockshape (?o\<lparr>mo_shape := x, mo_chunkshape := y\<rparr>) = mo_blockshape out" for x y by simp_all
  let ?o' = "\<lparr>mo_ndim = ndim, mo_shape = shape @ drop ?n (mo_shape out),
        mo_chunkshape = chunkshape @ drop ?n (mo_chunkshape out),
        mo_blockshape = blockshape @ drop ?n (mo_blockshape out),
        mo_dtype = Some dtype, mo_dtype_format = dtype_format\<rparr>"
  have o': "?o\<lparr>mo_shape := shape @ drop ?n (mo_shape out), mo_chunkshape := chunkshape @ drop ?n (mo_chunkshape out),
      mo_blockshape := blockshape @ drop ?n (mo_blockshape out), mo_dtype := Some dtype, mo_dtype_format := dtype_format\<rparr> = ?o'"
    by (rule meta_out.equality) simp_all
  show ?thesis
    unfolding b2nd_deserialize_meta_def option.case Let_def if_True l bind.bind_lunit nd s(1) prod.case e
    by (simp only: r s e dt o' if_False if_True not_True_eq_False not_False_eq_True simp_thms bind.bind_lunit prod.case)
qed

section \<open>Properties\<close>

text \<open>
  C12. Whatever the bytes of a metalayer are, reading it stays within them and within the arrays of the
  caller, and ends; when it succeeds, the number of dimensions is in range and no more was consumed than there is.
\<close>

theorem deserialize_safe:
  assumes "smeta_len \<le> int (length smeta)"
    and "16 \<le> length (mo_shape out)" "16 \<le> length (mo_chunkshape out)" "16 \<le> length (mo_blockshape out)"
    and "\<And>n d. malloc n = Some d \<Longrightarrow> length d = n"
  shows "\<exists>rc out'. b2nd_deserialize_meta le malloc (Some smeta) smeta_len False want_dtype want_format out = Some (rc, out') \<and>
    (0 \<le> rc \<longrightarrow> rc \<le> smeta_len \<and> 0 \<le> mo_ndim out' \<and> mo_ndim out' \<le> 16)"
proof -
  let ?o1 = "if want_dtype then out\<lparr>mo_dtype := None\<rparr> else out"
  let ?o2 = "if want_format then ?o1\<lparr>mo_dtype_format := 0\<rparr> else ?o1"
  let ?o = "?o2\<lparr>mo_ndim := sint (smeta ! 2)\<rparr>"
  let ?ndim = "sint (smeta ! 2)"
  show ?thesis
  proof (cases "3 \<le> smeta_len \<and> 0 \<le> ?ndim \<and> ?ndim \<le> 16")
    case False
    then show ?thesis using assms(1)
      by (auto simp: b2nd_deserialize_meta_def require_iff Let_def load_Some)
  next
    case True
    have sizes: "known_size 8" "known_size 4" by (simp_all add: known_size_def)
    have nd: "nat ?ndim \<le> length (mo_shape ?o)" "nat ?ndim \<le> length (mo_chunkshape ?o)"
      "nat ?ndim \<le> length (mo_blockshape ?o)" using True assms(2-4) by auto
    obtain ok p xs where a: "read_shape le 8 smeta smeta_len 3 ?ndim (mo_shape ?o) = Some (ok, p, xs)" "int p \<le> smeta_len"
      using read_shape_total[OF sizes(1) assms(1) _ nd(1), of 3 le] True by auto
    obtain ok' p' xs' where b: "read_shape le 4 smeta smeta_len p ?ndim (mo_chunkshape ?o) = Some (ok', p', xs')"
      "int p' \<le> smeta_len"
      using read_shape_total[OF sizes(2) assms(1) a(2) nd(2), of le] by auto
    obtain ok'' p'' xs'' where c: "read_shape le 4 smeta smeta_len p' ?ndim (mo_blockshape ?o) = Some (ok'', p'', xs'')"
      "int p'' \<le> smeta_len"
      using read_shape_total[OF sizes(2) assms(1) b(2) nd(3), of le] by auto
    have d: "\<exists>rc out'. read_dtype le malloc smeta smeta_len p'' o' = Some (rc, out') \<and> rc \<le> smeta_len \<and>
        mo_ndim out' = mo_ndim o'" for o'
      by (rule read_dtype_total[OF assms(1) c(2)]) (rule assms(5))
    have l: "load smeta 2 = Some (smeta ! 2)" using True assms(1) by (simp add: load_Some)
    have r: "\<not> smeta_len \<le> 0" "require_meta_nbytes smeta_len 0 1" "require_meta_nbytes smeta_len 1 1"
      "require_meta_nbytes smeta_len 2 1" using True by (simp_all add: require_iff)
    have n: "\<not> (?ndim < 0 \<or> ?ndim > int B2ND_MAX_DIM)" using True by simp
    have e: "mo_chunkshape (?o\<lparr>mo_shape := xs\<rparr>) = mo_chunkshape ?o"
      "mo_blockshape (?o\<lparr>mo_shape := xs, mo_chunkshape := xs'\<rparr>) = mo_blockshape ?o" by simp_all
    show ?thesis
      unfolding b2nd_deserialize_meta_def option.case Let_def if_False l bind.bind_lunit a(1) prod.case e b(1) c(1)
      using r n c(2) True
        d[of "out\<lparr>mo_dtype := None, mo_dtype_format := 0, mo_ndim := ?ndim, mo_shape := xs, mo_chunkshape := xs',
          mo_blockshape := xs''\<rparr>"] by auto
  qed
qed

theorem deserialize_safe_witness:
  "\<exists>rc out'. b2nd_deserialize_meta True (\<lambda>n. Some (replicate n 0)) (Some [0x97, 0, 5, 0x95, 0xd3]) 5 False True True
       \<lparr>mo_ndim = 0, mo_shape = replicate 16 0, mo_chunkshape = replicate 16 0, mo_blockshape = replicate 16 0,
        mo_dtype = None, mo_dtype_format = 0\<rparr> = Some (rc, out') \<and>
     (0 \<le> rc \<longrightarrow> rc \<le> 5 \<and> 0 \<le> mo_ndim out' \<and> mo_ndim out' \<le> 16)"
  by (rule deserialize_safe) auto

text \<open>
  C11. Every metalayer that is written reads back on a host of either byte order: the same number of dimensions,
  shapes, data type and format, and all of it is consumed.
\<close>

theorem b2nd_meta_roundtrip:
  assumes "0 \<le> ndim" "ndim \<le> 16" "length shape = nat ndim" "length chunkshape = nat ndim" "length blockshape = nat ndim"
    and "\<forall>x\<in>set shape. fits 8 x" "\<forall>x\<in>set chunkshape. fits 4 x" "\<forall>x\<in>set blockshape. fits 4 x"
    and "0 \<le> dtype_format" "dtype_format < 128" "12 + 19 * ndim + int (length dtype) \<le> INT_MAX"
    and "\<And>n. \<exists>d. malloc n = Some d \<and> length d = n"
    and "16 \<le> length (mo_shape out)" "16 \<le> length (mo_chunkshape out)" "16 \<le> length (mo_blockshape out)"
  shows "\<exists>len smeta. b2nd_serialize_meta le malloc ndim shape chunkshape blockshape (Some dtype) dtype_format =
      Some (len, Some smeta) \<and> int (length smeta) = len \<and>
    b2nd_deserialize_meta le' malloc (Some smeta) len False True True out =
      Some (len, \<lparr>mo_ndim = ndim, mo_shape = shape @ drop (nat ndim) (mo_shape out),
        mo_chunkshape = chunkshape @ drop (nat ndim) (mo_chunkshape out),
        mo_blockshape = blockshape @ drop (nat ndim) (mo_blockshape out),
        mo_dtype = Some dtype, mo_dtype_format = dtype_format\<rparr>)"
proof -
  let ?len = "12 + 19 * ndim + int (length dtype)"
  let ?v = "meta_bytes ndim shape chunkshape blockshape dtype dtype_format @ dtype"
  obtain b where b: "malloc (nat ?len) = Some b" "length b = nat ?len" using assms(12) by blast
  have "b2nd_serialize_meta le malloc ndim shape chunkshape blockshape (Some dtype) dtype_format = Some (?len, Some ?v)"
    by (rule serialize_bytes[where b = b]) (use assms b in auto)
  moreover have "int (length ?v) = ?len" using length_meta_bytes[of ndim shape chunkshape blockshape] assms by simp
  moreover note deserialize_meta_bytes[OF assms]
  ultimately show ?thesis by blast
qed

theorem b2nd_meta_roundtrip_witness:
  "\<exists>len smeta. b2nd_serialize_meta True (\<lambda>n. Some (replicate n 0)) 2 [300, 4] [70, 2] [8, 2] (Some [0x3C, 0x66, 0x38]) 0 =
      Some (len, Some smeta) \<and> int (length smeta) = len \<and>
    b2nd_deserialize_meta False (\<lambda>n. Some (replicate n 0)) (Some smeta) len False True True
      \<lparr>mo_ndim = 0, mo_shape = replicate 16 0, mo_chunkshape = replicate 16 0, mo_blockshape = replicate 16 0,
       mo_dtype = None, mo_dtype_format = 0\<rparr> =
      Some (len, \<lparr>mo_ndim = 2, mo_shape = [300, 4] @ drop (nat 2) (replicate 16 0),
        mo_chunkshape = [70, 2] @ drop (nat 2) (replicate 16 0),
        mo_blockshape = [8, 2] @ drop (nat 2) (replicate 16 0),
        mo_dtype = Some [0x3C, 0x66, 0x38], mo_dtype_format = 0\<rparr>)"
  using b2nd_meta_roundtrip[of 2 "[300, 4]" "[70, 2]" "[8, 2]" 0 "[0x3C, 0x66, 0x38]" "\<lambda>n. Some (replicate n 0)"
    "\<lparr>mo_ndim = 0, mo_shape = replicate 16 0, mo_chunkshape = replicate 16 0, mo_blockshape = replicate 16 0,
       mo_dtype = None, mo_dtype_format = 0\<rparr>" True False]
  by (simp add: fits_def)

end
