(* ===== verification/B2nd_Shape.thy ===== *)
theory B2nd_Shape
  imports Context
begin

text \<open>
  The geometry of an n-dimensional array in \<open>blosc/b2nd.c\<close>: the checks of the shapes, the padded shapes, the numbers of
  items and the strides, computed from shapes that may come from a crafted metalayer. Signed overflow, division by zero and places outside of
  the arrays are undefined.
\<close>

section \<open>Products that may not wrap\<close>

abbreviation (input) INT64_MAX :: int where "INT64_MAX \<equiv> 9223372036854775807"
abbreviation (input) SIZE_MAX :: nat where "SIZE_MAX \<equiv> 18446744073709551615"

definition i64_range :: "int \<Rightarrow> bool" where
  "i64_range x \<longleftrightarrow> - (2 ^ 63) \<le> x \<and> x < 2 ^ 63"

definition i64 :: "int \<Rightarrow> int option" where
  "i64 x = (if i64_range x then Some x else None)"

text \<open>The three helpers: \<open>None\<close> when they report an overflow, otherwise the value of \<open>*out\<close>.\<close>

definition b2nd_mul_overflow_size_t :: "nat \<Rightarrow> nat \<Rightarrow> nat option" where
  "b2nd_mul_overflow_size_t a b = (if a \<noteq> 0 \<and> b > SIZE_MAX div a then None else Some (a * b))"

definition b2nd_mul_overflow_int32 :: "int \<Rightarrow> int \<Rightarrow> int option" where
  "b2nd_mul_overflow_int32 a b = (if a < 0 \<or> b < 0 \<or> a \<noteq> 0 \<and> b > INT_MAX sdiv a then None else Some (a * b))"

definition b2nd_mul_overflow_int64 :: "int \<Rightarrow> int \<Rightarrow> int option" where
  "b2nd_mul_overflow_int64 a b = (if a < 0 \<or> b < 0 \<or> a \<noteq> 0 \<and> b > INT64_MAX sdiv a then None else Some (a * b))"

section \<open>The array\<close>

text \<open>The fields of \<open>b2nd_array_t\<close> that hold the geometry; the arrays have 16 places.\<close>

record b2nd_array =
  arr_shape :: "int list"
  arr_chunkshape :: "int list"
  arr_extshape :: "int list"
  arr_blockshape :: "int list"
  arr_extchunkshape :: "int list"
  arr_nitems :: int
  arr_chunknitems :: int
  arr_extnitems :: int
  arr_blocknitems :: int
  arr_extchunknitems :: int
  arr_ndim :: int
  item_array_strides :: "int list"
  item_chunk_strides :: "int list"
  item_extchunk_strides :: "int list"
  item_block_strides :: "int list"
  block_chunk_strides :: "int list"
  chunk_array_strides :: "int list"

text \<open>\<open>validate_shape_chunkshape_blockshape\<close>, dimension by dimension.\<close>

definition validate_dim :: "int \<Rightarrow> int \<Rightarrow> int \<Rightarrow> int" where
  "validate_dim s c b =
    (if s < 0 then BLOSC2_ERROR_INVALID_PARAM
     else if c < 0 \<or> b < 0 then BLOSC2_ERROR_INVALID_PARAM
     else if b = 0 \<and> c \<noteq> 0 then BLOSC2_ERROR_INVALID_PARAM
     else BLOSC2_ERROR_SUCCESS)"

fun validate_dims :: "int list \<Rightarrow> int list \<Rightarrow> int list \<Rightarrow> nat \<Rightarrow> nat \<Rightarrow> int option" where
  "validate_dims shape chunkshape blockshape i 0 = Some BLOSC2_ERROR_SUCCESS"
| "validate_dims shape chunkshape blockshape i (Suc n) = do {
     s \<leftarrow> load shape i;
     c \<leftarrow> load chunkshape i;
     b \<leftarrow> load blockshape i;
     if validate_dim s c b \<noteq> BLOSC2_ERROR_SUCCESS then Some (validate_dim s c b)
     else validate_dims shape chunkshape blockshape (Suc i) n }"

definition validate_shape_chunkshape_blockshape :: "int \<Rightarrow> int list \<Rightarrow> int list \<Rightarrow> int list \<Rightarrow> int option" where
  "validate_shape_chunkshape_blockshape ndim shape chunkshape blockshape =
     validate_dims shape chunkshape blockshape 0 (nat ndim)"

section \<open>Padding and products\<close>

text \<open>
  The padded sizes of a dimension with shape \<open>s\<close>, chunk shape \<open>c\<close> and block shape \<open>b\<close>: \<open>extshape\<close> and \<open>extchunkshape\<close>, or
  the error code when rounding up would wrap.
\<close>

definition pad_dim :: "int \<Rightarrow> int \<Rightarrow> int \<Rightarrow> (int + int \<times> int) option" where
  "pad_dim s c b =
    (if c \<noteq> 0 then
       if s smod c \<noteq> 0 \<and> s > INT64_MAX - c then Some (Inl BLOSC2_ERROR_INVALID_PARAM)
       else do {
         ext \<leftarrow> (if s smod c = 0 then Some s else do { t \<leftarrow> i64 (s + c); i64 (t - s smod c) });
         _ \<leftarrow> (if b = 0 then None else Some ());
         extchunk \<leftarrow> (if c smod b = 0 then Some c else do { t \<leftarrow> i64 (c + b); i64 (t - c smod b) });
         Some (Inr (ext, extchunk)) }
     else Some (Inr (0, c)))"

definition store_dim :: "nat \<Rightarrow> int \<Rightarrow> int \<Rightarrow> int \<Rightarrow> int \<Rightarrow> int \<Rightarrow> b2nd_array \<Rightarrow> b2nd_array option" where
  "store_dim i s c b e ec array = do {
     xs \<leftarrow> store (arr_shape array) i s;
     cs \<leftarrow> store (arr_chunkshape array) i c;
     bs \<leftarrow> store (arr_blockshape array) i b;
     es \<leftarrow> store (arr_extshape array) i e;
     ecs \<leftarrow> store (arr_extchunkshape array) i ec;
     Some (array\<lparr>arr_shape := xs, arr_chunkshape := cs, arr_blockshape := bs, arr_extshape := es, arr_extchunkshape := ecs\<rparr>) }"

text \<open>The five products of a turn, each stored before the next is tried; the flag says whether one would wrap.\<close>

definition multiply_dim :: "int \<Rightarrow> int \<Rightarrow> int \<Rightarrow> int \<Rightarrow> int \<Rightarrow> b2nd_array \<Rightarrow> bool \<times> b2nd_array" where
  "multiply_dim s c b e ec array =
    (case b2nd_mul_overflow_int64 (arr_nitems array) s of None \<Rightarrow> (True, array) | Some n \<Rightarrow>
     let array = array\<lparr>arr_nitems := n\<rparr> in
     case b2nd_mul_overflow_int64 (arr_extnitems array) e of None \<Rightarrow> (True, array) | Some n \<Rightarrow>
     let array = array\<lparr>arr_extnitems := n\<rparr> in
     case b2nd_mul_overflow_int64 (arr_extchunknitems array) ec of None \<Rightarrow> (True, array) | Some n \<Rightarrow>
     let array = array\<lparr>arr_extchunknitems := n\<rparr> in
     case b2nd_mul_overflow_int32 (arr_chunknitems array) c of None \<Rightarrow> (True, array) | Some n \<Rightarrow>
     let array = array\<lparr>arr_chunknitems := n\<rparr> in
     case b2nd_mul_overflow_int32 (arr_blocknitems array) b of None \<Rightarrow> (True, array) | Some n \<Rightarrow>
     (False, array\<lparr>arr_blocknitems := n\<rparr>))"

text \<open>
  One turn of the loop over the 16 dimensions. When \<open>extshape\<close> would wrap, the shapes of the dimension are stored already and the
  padded ones are not.
\<close>

definition shape_step :: "int \<Rightarrow> int list \<Rightarrow> int list \<Rightarrow> int list \<Rightarrow> nat \<Rightarrow> b2nd_array \<Rightarrow> (int \<times> b2nd_array) option" where
  "shape_step ndim shape chunkshape blockshape i array = do {
     (s, c, b) \<leftarrow> (if int i < ndim then do {
         s \<leftarrow> load shape i;
         c \<leftarrow> load chunkshape i;
         b \<leftarrow> load blockshape i;
         Some (s, c, b) }
       else Some (1, 1, 1));
     pad \<leftarrow> (if int i < ndim then pad_dim s c b else Some (Inr (1, 1)));
     case pad of
       Inl rc \<Rightarrow> do {
         xs \<leftarrow> store (arr_shape array) i s;
         cs \<leftarrow> store (arr_chunkshape array) i c;
         bs \<leftarrow> store (arr_blockshape array) i b;
         Some (rc, array\<lparr>arr_shape := xs, arr_chunkshape := cs, arr_blockshape := bs\<rparr>) }
     | Inr (e, ec) \<Rightarrow> do {
         array \<leftarrow> store_dim i s c b e ec array;
         let (overflow, array) = multiply_dim s c b e ec array;
         Some (if overflow then BLOSC2_ERROR_INVALID_PARAM else BLOSC2_ERROR_SUCCESS, array) } }"

fun shape_loop :: "int \<Rightarrow> int list \<Rightarrow> int list \<Rightarrow> int list \<Rightarrow> nat \<Rightarrow> nat \<Rightarrow> b2nd_array \<Rightarrow> (int \<times> b2nd_array) option" where
  "shape_loop ndim shape chunkshape blockshape i 0 array = Some (BLOSC2_ERROR_SUCCESS, array)"
| "shape_loop ndim shape chunkshape blockshape i (Suc n) array = do {
     (rc, array) \<leftarrow> shape_step ndim shape chunkshape blockshape i array;
     if rc < 0 then Some (rc, array) else shape_loop ndim shape chunkshape blockshape (Suc i) n array }"

definition update_counts :: "int \<Rightarrow> int list \<Rightarrow> int list \<Rightarrow> int list \<Rightarrow> b2nd_array \<Rightarrow> (int \<times> b2nd_array) option" where
  "update_counts ndim shape chunkshape blockshape array = do {
     rc \<leftarrow> validate_shape_chunkshape_blockshape ndim shape chunkshape blockshape;
     if rc < 0 then Some (rc, array)
     else shape_loop ndim shape chunkshape blockshape 0 16
       (array\<lparr>arr_ndim := ndim, arr_nitems := 1, arr_extnitems := 1, arr_extchunknitems := 1, arr_chunknitems := 1,
         arr_blocknitems := 1\<rparr>) }"

section \<open>Strides\<close>

text \<open>A stride of dimension \<open>i\<close> is that of dimension \<open>i + 1\<close> times \<open>f\<close>.\<close>

definition next_stride :: "int list \<Rightarrow> nat \<Rightarrow> int \<Rightarrow> int list option" where
  "next_stride strides i f = do {
     t \<leftarrow> load strides (i + 1);
     t \<leftarrow> i64 (t * f);
     store strides i t }"

definition stride_step :: "nat \<Rightarrow> int list \<Rightarrow> b2nd_array \<Rightarrow> b2nd_array option" where
  "stride_step i shape array = do {
     s \<leftarrow> load shape (i + 1);
     as \<leftarrow> load (arr_shape array) (i + 1);
     c \<leftarrow> load (arr_chunkshape array) (i + 1);
     b \<leftarrow> load (arr_blockshape array) (i + 1);
     e \<leftarrow> load (arr_extshape array) (i + 1);
     ec \<leftarrow> load (arr_extchunkshape array) (i + 1);
     if s \<noteq> 0 \<and> c \<noteq> 0 \<and> b \<noteq> 0 then do {
       ias \<leftarrow> next_stride (item_array_strides array) i as;
       ies \<leftarrow> next_stride (item_extchunk_strides array) i ec;
       ics \<leftarrow> next_stride (item_chunk_strides array) i c;
       ibs \<leftarrow> next_stride (item_block_strides array) i b;
       bcs \<leftarrow> next_stride (block_chunk_strides array) i (ec sdiv b);
       f \<leftarrow> i64 (e * c);
       cas \<leftarrow> next_stride (chunk_array_strides array) i f;
       Some (array\<lparr>item_array_strides := ias, item_extchunk_strides := ies, item_chunk_strides := ics,
         item_block_strides := ibs, block_chunk_strides := bcs, chunk_array_strides := cas\<rparr>) }
     else do {
       ias \<leftarrow> store (item_array_strides array) i 0;
       ies \<leftarrow> store (item_extchunk_strides array) i 0;
       ics \<leftarrow> store (item_chunk_strides array) i 0;
       ibs \<leftarrow> store (item_block_strides array) i 0;
       bcs \<leftarrow> store (block_chunk_strides array) i 0;
       cas \<leftarrow> store (chunk_array_strides array) i 0;
       Some (array\<lparr>item_array_strides := ias, item_extchunk_strides := ies, item_chunk_strides := ics,
         item_block_strides := ibs, block_chunk_strides := bcs, chunk_array_strides := cas\<rparr>) } }"

text \<open>From \<open>i = ndim - 2\<close> down to 0.\<close>

fun stride_loop :: "nat \<Rightarrow> int list \<Rightarrow> b2nd_array \<Rightarrow> b2nd_array option" where
  "stride_loop 0 shape array = Some array"
| "stride_loop (Suc i) shape array = do {
     array \<leftarrow> stride_step i shape array;
     stride_loop i shape array }"

definition first_strides :: "nat \<Rightarrow> b2nd_array \<Rightarrow> b2nd_array option" where
  "first_strides d array = do {
     ias \<leftarrow> store (item_array_strides array) d 1;
     ies \<leftarrow> store (item_extchunk_strides array) d 1;
     ics \<leftarrow> store (item_chunk_strides array) d 1;
     ibs \<leftarrow> store (item_block_strides array) d 1;
     bcs \<leftarrow> store (block_chunk_strides array) d 1;
     cas \<leftarrow> store (chunk_array_strides array) d 1;
     Some (array\<lparr>item_array_strides := ias, item_extchunk_strides := ies, item_chunk_strides := ics,
       item_block_strides := ibs, block_chunk_strides := bcs, chunk_array_strides := cas\<rparr>) }"

definition update_shape_struct :: "int \<Rightarrow> int list \<Rightarrow> int list \<Rightarrow> int list \<Rightarrow> b2nd_array \<Rightarrow> (int \<times> b2nd_array) option" where
  "update_shape_struct ndim shape chunkshape blockshape array = do {
     (rc, array) \<leftarrow> update_counts ndim shape chunkshape blockshape array;
     if rc < 0 then Some (rc, array)
     else do {
       array \<leftarrow> (if ndim > 0 then first_strides (nat (ndim - 1)) array else Some array);
       array \<leftarrow> stride_loop (nat (ndim - 1)) shape array;
       Some (BLOSC2_ERROR_SUCCESS, array) } }"

section \<open>The products are exact\<close>

lemma quotient_bound: "0 < a \<Longrightarrow> 0 \<le> b \<Longrightarrow> 0 \<le> m \<Longrightarrow> b \<le> m div a \<longleftrightarrow> a * b \<le> (m :: int)"
proof -
  assume a: "0 < a" "0 \<le> b" "0 \<le> m"
  show ?thesis
  proof
    assume "b \<le> m div a"
    then have "a * b \<le> a * (m div a)" using a by simp
    also have "\<dots> \<le> m" using mult_div_mod_eq[of a m] pos_mod_sign[of a m] a by linarith
    finally show "a * b \<le> m" .
  next
    assume "a * b \<le> m"
    then have "(a * b) div a \<le> m div a" using a by (intro zdiv_mono1) auto
    then show "b \<le> m div a" using a by simp
  qed
qed

lemma mul64_Some:
  "b2nd_mul_overflow_int64 a b = Some x \<longleftrightarrow> 0 \<le> a \<and> 0 \<le> b \<and> a * b \<le> INT64_MAX \<and> x = a * b"
proof (cases "0 < a \<and> 0 \<le> b")
  case True
  with quotient_bound[of a b INT64_MAX] show ?thesis by (auto simp: b2nd_mul_overflow_int64_def)
qed (auto simp: b2nd_mul_overflow_int64_def)

lemma mul32_Some:
  "b2nd_mul_overflow_int32 a b = Some x \<longleftrightarrow> 0 \<le> a \<and> 0 \<le> b \<and> a * b \<le> INT_MAX \<and> x = a * b"
proof (cases "0 < a \<and> 0 \<le> b")
  case True
  with quotient_bound[of a b INT_MAX] show ?thesis by (auto simp: b2nd_mul_overflow_int32_def)
qed (auto simp: b2nd_mul_overflow_int32_def)

text \<open>The next multiple.\<close>

definition rounded_up_to :: "int \<Rightarrow> int \<Rightarrow> int" where
  "rounded_up_to s c = (if c = 0 then 0 else (s + c - 1) div c * c)"

lemma rounded_up_to_eq:
  assumes "0 < c"
  shows "rounded_up_to s c = (if s mod c = 0 then s else s + c - s mod c)"
proof -
  have split: "s = s div c * c + s mod c" by simp
  have m: "0 \<le> s mod c" "s mod c < c" using assms by simp_all
  show ?thesis
  proof (cases "s mod c = 0")
    case True
    have "(s + c - 1) div c = s div c"
      by (rule int_div_pos_eq[where r = "c - 1"]) (use assms True split in \<open>auto simp: algebra_simps\<close>)
    with True split assms show ?thesis by (simp add: rounded_up_to_def)
  next
    case False
    have "(s + c - 1) div c = s div c + 1"
      by (rule int_div_pos_eq[where r = "s mod c - 1"]) (use assms False m split in \<open>auto simp: algebra_simps\<close>)
    moreover have "(s div c + 1) * c = s + c - s mod c" using split by (simp add: algebra_simps)
    ultimately show ?thesis using False assms by (simp add: rounded_up_to_def)
  qed
qed

lemma pad_dim_eq:
  assumes "validate_dim s c b = 0" "s \<le> INT64_MAX" "c \<le> INT_MAX" "b \<le> INT_MAX"
  shows "pad_dim s c b = Some (Inl BLOSC2_ERROR_INVALID_PARAM) \<or>
    pad_dim s c b = Some (Inr (rounded_up_to s c, rounded_up_to c b))"
proof (cases "c = 0")
  case True
  with assms(1) show ?thesis by (auto simp: pad_dim_def validate_dim_def rounded_up_to_def split: if_splits)
next
  case False
  with assms(1) have p: "0 \<le> s" "0 < c" "0 < b" by (auto simp: validate_dim_def split: if_splits)
  have m: "0 \<le> s mod c" "s mod c < c" "0 \<le> c mod b" "c mod b < b" using p by simp_all
  show ?thesis
    using p m assms(2-4) rounded_up_to_eq[OF p(2), of s] rounded_up_to_eq[OF p(3), of c]
    by (auto simp: pad_dim_def i64_def i64_range_def)
qed

text \<open>The sizes of dimension \<open>k\<close>, 1 behind the last.\<close>

definition dim_size :: "int \<Rightarrow> int list \<Rightarrow> nat \<Rightarrow> int" where
  "dim_size ndim xs k = (if int k < ndim then xs ! k else 1)"

definition arrays_full :: "b2nd_array \<Rightarrow> bool" where
  "arrays_full a = (length (arr_shape a) = 16 \<and> length (arr_chunkshape a) = 16 \<and> length (arr_blockshape a) = 16 \<and>
     length (arr_extshape a) = 16 \<and> length (arr_extchunkshape a) = 16)"

definition counts_upto :: "int \<Rightarrow> int list \<Rightarrow> int list \<Rightarrow> int list \<Rightarrow> nat \<Rightarrow> b2nd_array \<Rightarrow> bool" where
  "counts_upto ndim shape chunkshape blockshape i a =
    (let s = dim_size ndim shape; c = dim_size ndim chunkshape; b = dim_size ndim blockshape in
     arr_nitems a = (\<Prod>k<i. s k) \<and> arr_nitems a \<le> INT64_MAX \<and>
     arr_extnitems a = (\<Prod>k<i. rounded_up_to (s k) (c k)) \<and> arr_extnitems a \<le> INT64_MAX \<and>
     arr_extchunknitems a = (\<Prod>k<i. rounded_up_to (c k) (b k)) \<and> arr_extchunknitems a \<le> INT64_MAX \<and>
     arr_chunknitems a = (\<Prod>k<i. c k) \<and> arr_chunknitems a \<le> INT_MAX \<and>
     arr_blocknitems a = (\<Prod>k<i. b k) \<and> arr_blocknitems a \<le> INT_MAX)"

definition dims_ok :: "int \<Rightarrow> int list \<Rightarrow> int list \<Rightarrow> int list \<Rightarrow> bool" where
  "dims_ok ndim shape chunkshape blockshape = (\<forall>k<nat ndim. validate_dim (shape ! k) (chunkshape ! k) (blockshape ! k) = 0)"

lemma multiply_dim_counts:
  assumes "counts_upto ndim shape chunkshape blockshape i a" "multiply_dim s c b e ec a = (False, a')"
    and "s = dim_size ndim shape i" "c = dim_size ndim chunkshape i" "b = dim_size ndim blockshape i"
    and "e = rounded_up_to s c" "ec = rounded_up_to c b"
  shows "counts_upto ndim shape chunkshape blockshape (Suc i) a'"
  using assms by (auto simp: multiply_dim_def counts_upto_def Let_def mul64_Some mul32_Some split: option.splits)

lemma multiply_dim_full: "multiply_dim s c b e ec a = (x, a') \<Longrightarrow> arrays_full a' = arrays_full a"
  by (auto simp: multiply_dim_def arrays_full_def Let_def split: option.splits)

lemma validate_dims_eq:
  assumes "i + n \<le> length shape" "i + n \<le> length chunkshape" "i + n \<le> length blockshape"
  shows "\<exists>rc. validate_dims shape chunkshape blockshape i n = Some rc \<and> (rc = 0 \<or> rc = BLOSC2_ERROR_INVALID_PARAM) \<and>
    (rc = 0 \<longleftrightarrow> (\<forall>k. i \<le> k \<and> k < i + n \<longrightarrow> validate_dim (shape ! k) (chunkshape ! k) (blockshape ! k) = 0))"
  using assms
proof (induction n arbitrary: i)
  case (Suc n)
  let ?v = "\<lambda>k. validate_dim (shape ! k) (chunkshape ! k) (blockshape ! k)"
  have range: "(\<forall>k. i \<le> k \<and> k < i + Suc n \<longrightarrow> ?v k = 0) \<longleftrightarrow> ?v i = 0 \<and> (\<forall>k. Suc i \<le> k \<and> k < Suc i + n \<longrightarrow> ?v k = 0)"
    using Suc_leI by (auto simp: le_eq_less_or_eq)
  have "?v i = 0 \<or> ?v i = BLOSC2_ERROR_INVALID_PARAM" by (auto simp: validate_dim_def)
  with Suc.IH[of "Suc i"] Suc.prems show ?case unfolding range by (auto simp: load_Some)
qed auto

lemma shape_step_counts:
  assumes "counts_upto ndim shape chunkshape blockshape i a" "arrays_full a" "i < 16"
    and "nat ndim \<le> length shape" "nat ndim \<le> length chunkshape" "nat ndim \<le> length blockshape"
    and "dims_ok ndim shape chunkshape blockshape"
    and "\<forall>x\<in>set shape. x \<le> INT64_MAX" "\<forall>x\<in>set chunkshape. x \<le> INT_MAX" "\<forall>x\<in>set blockshape. x \<le> INT_MAX"
  shows "\<exists>rc a'. shape_step ndim shape chunkshape blockshape i a = Some (rc, a') \<and>
    (rc = BLOSC2_ERROR_INVALID_PARAM \<or>
     rc = BLOSC2_ERROR_SUCCESS \<and> counts_upto ndim shape chunkshape blockshape (Suc i) a' \<and> arrays_full a')"
proof -
  let ?s = "dim_size ndim shape i"
  let ?c = "dim_size ndim chunkshape i"
  let ?b = "dim_size ndim blockshape i"
  let ?p = "if int i < ndim then pad_dim ?s ?c ?b else Some (Inr (1, 1))"
  have loads: "(if int i < ndim then do { s \<leftarrow> load shape i; c \<leftarrow> load chunkshape i; b \<leftarrow> load blockshape i; Some (s, c, b) }
      else Some (1, 1, 1)) = Some (?s, ?c, ?b)"
    using assms(4-6) by (auto simp: dim_size_def load_Some)
  have pad: "?p = Some (Inl BLOSC2_ERROR_INVALID_PARAM) \<or> ?p = Some (Inr (rounded_up_to ?s ?c, rounded_up_to ?c ?b))"
  proof (cases "int i < ndim")
    case True
    then have "i < nat ndim" by simp
    then have "pad_dim ?s ?c ?b = Some (Inl BLOSC2_ERROR_INVALID_PARAM) \<or>
        pad_dim ?s ?c ?b = Some (Inr (rounded_up_to ?s ?c, rounded_up_to ?c ?b))"
      using assms(4-10) True by (intro pad_dim_eq) (auto simp: dim_size_def dims_ok_def)
    with True show ?thesis by simp
  qed (simp add: dim_size_def rounded_up_to_def)
  obtain a1 where st: "store_dim i ?s ?c ?b (rounded_up_to ?s ?c) (rounded_up_to ?c ?b) a = Some a1"
      "arrays_full a1" "counts_upto ndim shape chunkshape blockshape i a1"
    using assms(1-3) by (auto simp: store_dim_def store_Some arrays_full_def counts_upto_def Let_def)
  obtain x a2 where m: "multiply_dim ?s ?c ?b (rounded_up_to ?s ?c) (rounded_up_to ?c ?b) a1 = (x, a2)" by fastforce
  have full: "arrays_full a2" using multiply_dim_full[OF m] st(2) by simp
  show ?thesis
  proof (cases "?p = Some (Inl BLOSC2_ERROR_INVALID_PARAM)")
    case True
    then show ?thesis using assms(2,3)
      by (simp add: shape_step_def loads store_Some arrays_full_def)
  next
    case False
    with pad have p: "?p = Some (Inr (rounded_up_to ?s ?c, rounded_up_to ?c ?b))" by blast
    have "shape_step ndim shape chunkshape blockshape i a =
        Some (if x then BLOSC2_ERROR_INVALID_PARAM else BLOSC2_ERROR_SUCCESS, a2)"
      unfolding shape_step_def loads bind.bind_lunit prod.case p sum.case st(1) m Let_def by simp
    moreover have "\<not> x \<Longrightarrow> counts_upto ndim shape chunkshape blockshape (Suc i) a2"
      using multiply_dim_counts[OF st(3), of ?s ?c ?b "rounded_up_to ?s ?c" "rounded_up_to ?c ?b" a2] m by simp
    ultimately show ?thesis using full by auto
  qed
qed

lemma shape_loop_counts:
  assumes "i + n = 16" "counts_upto ndim shape chunkshape blockshape i a" "arrays_full a"
    and "nat ndim \<le> length shape" "nat ndim \<le> length chunkshape" "nat ndim \<le> length blockshape"
    and "dims_ok ndim shape chunkshape blockshape"
    and "\<forall>x\<in>set shape. x \<le> INT64_MAX" "\<forall>x\<in>set chunkshape. x \<le> INT_MAX" "\<forall>x\<in>set blockshape. x \<le> INT_MAX"
  shows "\<exists>rc a'. shape_loop ndim shape chunkshape blockshape i n a = Some (rc, a') \<and>
    (rc = BLOSC2_ERROR_INVALID_PARAM \<or>
     rc = BLOSC2_ERROR_SUCCESS \<and> counts_upto ndim shape chunkshape blockshape 16 a' \<and> arrays_full a')"
  using assms(1-3)
proof (induction n arbitrary: i a)
  case (Suc n)
  have "i < 16" using Suc.prems(1) by simp
  from shape_step_counts[OF Suc.prems(2,3) this assms(4-10)] obtain rc a' where
    step: "shape_step ndim shape chunkshape blockshape i a = Some (rc, a')"
    "rc = BLOSC2_ERROR_INVALID_PARAM \<or>
     rc = BLOSC2_ERROR_SUCCESS \<and> counts_upto ndim shape chunkshape blockshape (Suc i) a' \<and> arrays_full a'" by blast
  show ?case
  proof (cases "rc = BLOSC2_ERROR_INVALID_PARAM")
    case False
    with step(2) have "rc = 0" "counts_upto ndim shape chunkshape blockshape (Suc i) a'" "arrays_full a'" by auto
    with Suc.IH[of "Suc i" a'] Suc.prems(1) step(1) show ?thesis by simp
  qed (use step(1) in simp)
qed auto

lemma prod_dims: "0 \<le> ndim \<Longrightarrow> ndim \<le> 16 \<Longrightarrow> f 1 1 = (1 :: int) \<Longrightarrow>
  (\<Prod>k<16. f (dim_size ndim xs k) (dim_size ndim ys k)) = (\<Prod>k<nat ndim. f (xs ! k) (ys ! k))"
proof -
  assume a: "0 \<le> ndim" "ndim \<le> 16" "f 1 1 = 1"
  have "(\<Prod>k<16. f (dim_size ndim xs k) (dim_size ndim ys k)) =
      (\<Prod>k<nat ndim. f (dim_size ndim xs k) (dim_size ndim ys k))"
    by (rule prod.mono_neutral_right) (use a in \<open>auto simp: dim_size_def\<close>)
  also have "\<dots> = (\<Prod>k<nat ndim. f (xs ! k) (ys ! k))"
    by (rule prod.cong) (auto simp: dim_size_def)
  finally show ?thesis .
qed

section \<open>The strides\<close>

text \<open>What a successful computation of the counts leaves in the arrays of the first \<open>i\<close> dimensions.\<close>

definition filled :: "int \<Rightarrow> int list \<Rightarrow> int list \<Rightarrow> int list \<Rightarrow> nat \<Rightarrow> b2nd_array \<Rightarrow> bool" where
  "filled ndim shape chunkshape blockshape i a \<longleftrightarrow> (\<forall>k < i.
    let s = dim_size ndim shape k; c = dim_size ndim chunkshape k; b = dim_size ndim blockshape k in
    arr_shape a ! k = s \<and> arr_chunkshape a ! k = c \<and> arr_blockshape a ! k = b \<and>
    arr_extshape a ! k = rounded_up_to s c \<and> arr_extchunkshape a ! k = rounded_up_to c b)"

definition strides_full :: "b2nd_array \<Rightarrow> bool" where
  "strides_full a \<longleftrightarrow> length (item_array_strides a) = 16 \<and> length (item_chunk_strides a) = 16 \<and>
     length (item_extchunk_strides a) = 16 \<and> length (item_block_strides a) = 16 \<and> length (block_chunk_strides a) = 16 \<and>
     length (chunk_array_strides a) = 16"

lemma multiply_dim_keeps:
  assumes "multiply_dim s c b e ec a = (x, a')"
  shows "filled ndim shape chunkshape blockshape i a' = filled ndim shape chunkshape blockshape i a" "strides_full a' = strides_full a"
  using assms by (auto simp: multiply_dim_def filled_def strides_full_def Let_def split: option.splits)

lemma store_dim_filled:
  assumes "store_dim i s c b e ec a = Some a'" "filled ndim shape chunkshape blockshape i a" "arrays_full a"
    and "s = dim_size ndim shape i" "c = dim_size ndim chunkshape i" "b = dim_size ndim blockshape i"
    and "e = rounded_up_to s c" "ec = rounded_up_to c b"
  shows "filled ndim shape chunkshape blockshape (Suc i) a'" "strides_full a' = strides_full a" "arrays_full a'"
  using assms
  by (auto simp: store_dim_def filled_def strides_full_def arrays_full_def Let_def store_def nth_list_update less_Suc_eq
      split: if_splits Option.bind_splits)

lemma shape_step_filled:
  assumes "shape_step ndim shape chunkshape blockshape i a = Some (rc, a')" "\<not> rc < 0"
    and "filled ndim shape chunkshape blockshape i a" "arrays_full a"
    and "dims_ok ndim shape chunkshape blockshape"
    and "nat ndim \<le> length shape" "nat ndim \<le> length chunkshape" "nat ndim \<le> length blockshape"
    and "\<forall>x\<in>set shape. x \<le> INT64_MAX" "\<forall>x\<in>set chunkshape. x \<le> INT_MAX" "\<forall>x\<in>set blockshape. x \<le> INT_MAX"
  shows "filled ndim shape chunkshape blockshape (Suc i) a' \<and> strides_full a' = strides_full a \<and> arrays_full a'"
proof -
  let ?s = "dim_size ndim shape i" and ?c = "dim_size ndim chunkshape i" and ?b = "dim_size ndim blockshape i"
  let ?p = "if int i < ndim then pad_dim ?s ?c ?b else Some (Inr (1, 1))"
  have loads: "(if int i < ndim then do { s \<leftarrow> load shape i; c \<leftarrow> load chunkshape i; b \<leftarrow> load blockshape i; Some (s, c, b) }
      else Some (1, 1, 1)) = Some (?s, ?c, ?b)"
    using assms(6-8) by (auto simp: dim_size_def load_Some)
  have pad: "?p = Some (Inl BLOSC2_ERROR_INVALID_PARAM) \<or> ?p = Some (Inr (rounded_up_to ?s ?c, rounded_up_to ?c ?b))"
  proof (cases "int i < ndim")
    case True
    then have "i < nat ndim" by simp
    then have "pad_dim ?s ?c ?b = Some (Inl BLOSC2_ERROR_INVALID_PARAM) \<or>
        pad_dim ?s ?c ?b = Some (Inr (rounded_up_to ?s ?c, rounded_up_to ?c ?b))"
      using assms(5-11) True by (intro pad_dim_eq) (auto simp: dim_size_def dims_ok_def)
    with True show ?thesis by simp
  qed (simp add: dim_size_def rounded_up_to_def)
  show ?thesis
  proof (cases "?p = Some (Inl BLOSC2_ERROR_INVALID_PARAM)")
    case True
    with assms(1,2) show ?thesis
      unfolding shape_step_def loads bind.bind_lunit prod.case True sum.case by (auto split: Option.bind_splits)
  next
    case False
    with pad have p: "?p = Some (Inr (rounded_up_to ?s ?c, rounded_up_to ?c ?b))" by blast
    from assms(1)[unfolded shape_step_def loads bind.bind_lunit prod.case p sum.case Let_def] obtain a1 x where
      st: "store_dim i ?s ?c ?b (rounded_up_to ?s ?c) (rounded_up_to ?c ?b) a = Some a1"
      and m: "multiply_dim ?s ?c ?b (rounded_up_to ?s ?c) (rounded_up_to ?c ?b) a1 = (x, a')"
      by (auto split: Option.bind_splits prod.splits)
    from store_dim_filled[OF st assms(3,4) refl refl refl refl refl] multiply_dim_keeps[OF m] multiply_dim_full[OF m]
    show ?thesis by blast
  qed
qed

lemma shape_loop_filled:
  assumes "shape_loop ndim shape chunkshape blockshape i n a = Some (rc, a')" "\<not> rc < 0"
    and "filled ndim shape chunkshape blockshape i a" "arrays_full a" "dims_ok ndim shape chunkshape blockshape"
    and "nat ndim \<le> length shape" "nat ndim \<le> length chunkshape" "nat ndim \<le> length blockshape"
    and "\<forall>x\<in>set shape. x \<le> INT64_MAX" "\<forall>x\<in>set chunkshape. x \<le> INT_MAX" "\<forall>x\<in>set blockshape. x \<le> INT_MAX"
  shows "filled ndim shape chunkshape blockshape (i + n) a' \<and> strides_full a' = strides_full a \<and> arrays_full a'"
  using assms(1-4)
proof (induction n arbitrary: i a)
  case (Suc n)
  from Suc.prems(1) obtain r a1 where st: "shape_step ndim shape chunkshape blockshape i a = Some (r, a1)"
    by (auto split: Option.bind_splits)
  have r: "\<not> r < 0" using Suc.prems(1,2) st by (auto split: if_splits)
  with Suc.prems(1) st have l: "shape_loop ndim shape chunkshape blockshape (Suc i) n a1 = Some (rc, a')" by simp
  from shape_step_filled[OF st r Suc.prems(3,4) assms(5-11)] Suc.IH[OF l Suc.prems(2)] show ?case by simp
qed simp

text \<open>The places from \<open>i\<close> on hold the products of the factors behind them.\<close>

definition suffix_prod :: "nat \<Rightarrow> (nat \<Rightarrow> int) \<Rightarrow> nat \<Rightarrow> int" where
  "suffix_prod n f i = (\<Prod>k\<in>{i<..<n}. f k)"

definition strides_from :: "nat \<Rightarrow> nat \<Rightarrow> (nat \<Rightarrow> int) \<Rightarrow> int list \<Rightarrow> bool" where
  "strides_from n i f strides \<longleftrightarrow> length strides = 16 \<and> (\<forall>j. i \<le> j \<and> j < n \<longrightarrow> strides ! j = suffix_prod n f j)"

lemma suffix_prod_step: "Suc i < n \<Longrightarrow> suffix_prod n f i = suffix_prod n f (Suc i) * f (Suc i)"
proof -
  assume "Suc i < n"
  then have "{i<..<n} = insert (Suc i) {Suc i<..<n}" by auto
  then show ?thesis by (simp add: suffix_prod_def mult.commute)
qed

lemma suffix_prod_last [simp]: "n \<le> Suc i \<Longrightarrow> suffix_prod n f i = 1"
proof -
  assume "n \<le> Suc i"
  then have "{i<..<n} = {}" by auto
  then show ?thesis by (simp add: suffix_prod_def)
qed

lemma suffix_prod_pos: "(\<And>k. k < n \<Longrightarrow> 0 < f k) \<Longrightarrow> 0 < suffix_prod n f i"
  unfolding suffix_prod_def by (rule prod_pos) auto

lemma suffix_prod_le:
  assumes "\<And>k. k < n \<Longrightarrow> 0 < f k \<and> f k \<le> g k"
  shows "suffix_prod n f i \<le> (\<Prod>k<n. g k)"
proof -
  have "suffix_prod n f i \<le> (\<Prod>k\<in>{i<..<n}. g k)"
    unfolding suffix_prod_def using assms by (intro prod_mono) (simp add: less_imp_le)
  also have "\<dots> \<le> (\<Prod>k<n. g k)"
  proof (rule prod_mono2)
    show "1 \<le> g k" if "k \<in> {..<n} - {i<..<n}" for k using assms[of k] that by auto
    show "0 \<le> g k" if "k \<in> {i<..<n}" for k using assms[of k] that by auto
  qed auto
  finally show ?thesis .
qed

lemma suffix_prod_antimono:
  assumes "\<And>k. k < n \<Longrightarrow> 0 < f k"
  shows "suffix_prod n f i \<le> suffix_prod n f 0"
  unfolding suffix_prod_def
proof (rule prod_mono2)
  show "1 \<le> f k" if "k \<in> {0<..<n} - {i<..<n}" for k using assms[of k] that by auto
  show "0 \<le> f k" if "k \<in> {i<..<n}" for k using assms[of k] that by auto
qed auto

lemma strides_from_last: "length strides = 16 \<Longrightarrow> n = Suc d \<Longrightarrow> d < 16 \<Longrightarrow> strides_from n d f (strides[d := 1])"
proof -
  assume a: "length strides = 16" "n = Suc d" "d < 16"
  then have "(strides[d := 1]) ! j = suffix_prod n f j" if "d \<le> j" "j < n" for j
  proof -
    have "j = d" using that a(2) by simp
    with a show ?thesis by simp
  qed
  with a(1) show ?thesis by (simp add: strides_from_def)
qed

lemma next_stride_eq:
  assumes "strides_from n (Suc i) f strides" "Suc i < n" "n \<le> 16"
  shows "i64_range (suffix_prod n f i) \<Longrightarrow> \<exists>strides'. next_stride strides i (f (Suc i)) = Some strides' \<and> strides_from n i f strides'"
    and "\<not> i64_range (suffix_prod n f i) \<Longrightarrow> next_stride strides i (f (Suc i)) = None"
  using assms suffix_prod_step[OF assms(2), of f]
  by (auto simp: next_stride_def strides_from_def load_Some store_Some i64_def nth_list_update)

definition chunk_factor :: "int list \<Rightarrow> int list \<Rightarrow> nat \<Rightarrow> int" where
  "chunk_factor shape chunkshape k = rounded_up_to (shape ! k) (chunkshape ! k) * chunkshape ! k"

definition all_strides :: "nat \<Rightarrow> int list \<Rightarrow> int list \<Rightarrow> int list \<Rightarrow> nat \<Rightarrow> b2nd_array \<Rightarrow> bool" where
  "all_strides n shape chunkshape blockshape i a \<longleftrightarrow>
     strides_from n i (\<lambda>k. shape ! k) (item_array_strides a) \<and>
     strides_from n i (\<lambda>k. chunkshape ! k) (item_chunk_strides a) \<and>
     strides_from n i (\<lambda>k. rounded_up_to (chunkshape ! k) (blockshape ! k)) (item_extchunk_strides a) \<and>
     strides_from n i (\<lambda>k. blockshape ! k) (item_block_strides a) \<and>
     strides_from n i (\<lambda>k. rounded_up_to (chunkshape ! k) (blockshape ! k) div blockshape ! k) (block_chunk_strides a) \<and>
     strides_from n i (chunk_factor shape chunkshape) (chunk_array_strides a)"

text \<open>The strides besides the one of chunks stay below the counts, which have been checked.\<close>

definition checked_strides :: "nat \<Rightarrow> int list \<Rightarrow> int list \<Rightarrow> int list \<Rightarrow> bool" where
  "checked_strides n shape chunkshape blockshape \<longleftrightarrow> (\<forall>i.
     i64_range (suffix_prod n (\<lambda>k. shape ! k) i) \<and> i64_range (suffix_prod n (\<lambda>k. chunkshape ! k) i) \<and>
     i64_range (suffix_prod n (\<lambda>k. rounded_up_to (chunkshape ! k) (blockshape ! k)) i) \<and>
     i64_range (suffix_prod n (\<lambda>k. blockshape ! k) i) \<and>
     i64_range (suffix_prod n (\<lambda>k. rounded_up_to (chunkshape ! k) (blockshape ! k) div blockshape ! k) i))"

definition positive_dims :: "nat \<Rightarrow> int list \<Rightarrow> int list \<Rightarrow> int list \<Rightarrow> bool" where
  "positive_dims n shape chunkshape blockshape \<longleftrightarrow> (\<forall>k < n. 0 < shape ! k \<and> 0 < chunkshape ! k \<and> 0 < blockshape ! k)"

lemma rounded_up_to_ge: "0 < c \<Longrightarrow> 0 < s \<Longrightarrow> s \<le> rounded_up_to s c \<and> c \<le> rounded_up_to s c"
proof -
  assume a: "0 < c" "0 < s"
  have m: "s mod c < c" using a by simp
  show ?thesis
  proof (cases "s mod c = 0")
    case True
    then have "c dvd s" by auto
    then have "c \<le> s" using a by (intro zdvd_imp_le)
    with True a show ?thesis by (simp add: rounded_up_to_eq)
  next
    case False
    have "s mod c \<le> s" using a by (intro zmod_le_nonneg_dividend) simp
    with False a show ?thesis by (simp add: rounded_up_to_eq less_imp_le)
  qed
qed

lemma rounded_up_to_quotient: "0 < b \<Longrightarrow> 0 < c \<Longrightarrow> 0 < rounded_up_to c b div b \<and> rounded_up_to c b div b \<le> rounded_up_to c b"
proof -
  assume a: "0 < b" "0 < c"
  have r: "b \<le> rounded_up_to c b" "0 < rounded_up_to c b" using rounded_up_to_ge[of b c] a by auto
  then have "b div b \<le> rounded_up_to c b div b" using a by (intro zdiv_mono1) auto
  moreover have "rounded_up_to c b div b \<le> rounded_up_to c b" using a r zdiv_mono2[of "rounded_up_to c b" 1 b] by simp
  ultimately show ?thesis using a by simp
qed

lemma positive_chunk_factor:
  assumes "positive_dims n shape chunkshape blockshape" "k < n"
  shows "0 < chunk_factor shape chunkshape k"
proof -
  have "0 < shape ! k" "0 < chunkshape ! k" using assms by (auto simp: positive_dims_def)
  with rounded_up_to_ge[of "chunkshape ! k" "shape ! k"] show ?thesis by (simp add: chunk_factor_def)
qed

lemma stride_step_exact:
  assumes "filled ndim shape chunkshape blockshape 16 a" "arrays_full a" "all_strides n shape chunkshape blockshape (Suc i) a"
    and "n = nat ndim" "n \<le> 16" "Suc i < n" "n \<le> length shape" "positive_dims n shape chunkshape blockshape"
    and "checked_strides n shape chunkshape blockshape"
  shows "suffix_prod n (chunk_factor shape chunkshape) i < 2 ^ 63 \<Longrightarrow> \<exists>a'. stride_step i shape a = Some a' \<and>
      all_strides n shape chunkshape blockshape i a' \<and> filled ndim shape chunkshape blockshape 16 a' \<and> arrays_full a'"
    and "2 ^ 63 \<le> suffix_prod n (chunk_factor shape chunkshape) i \<Longrightarrow> stride_step i shape a = None"
proof -
  let ?i = "Suc i" and ?g = "chunk_factor shape chunkshape"
  let ?q = "\<lambda>k. rounded_up_to (chunkshape ! k) (blockshape ! k) div blockshape ! k"
  have pos: "0 < shape ! ?i" "0 < chunkshape ! ?i" "0 < blockshape ! ?i" using assms(6,8) by (auto simp: positive_dims_def)
  have i16: "?i < 16" using assms(5,6) by simp
  have "int ?i < ndim" using assms(4,6) by linarith
  then have d: "dim_size ndim xs ?i = xs ! ?i" for xs unfolding dim_size_def by simp
  have "arr_shape a ! ?i = shape ! ?i \<and> arr_chunkshape a ! ?i = chunkshape ! ?i \<and> arr_blockshape a ! ?i = blockshape ! ?i \<and>
      arr_extshape a ! ?i = rounded_up_to (shape ! ?i) (chunkshape ! ?i) \<and>
      arr_extchunkshape a ! ?i = rounded_up_to (chunkshape ! ?i) (blockshape ! ?i)"
    using assms(1)[unfolded filled_def, rule_format, OF i16] by (simp add: Let_def d)
  then have loads: "load shape ?i = Some (shape ! ?i)" "load (arr_shape a) ?i = Some (shape ! ?i)"
    "load (arr_chunkshape a) ?i = Some (chunkshape ! ?i)" "load (arr_blockshape a) ?i = Some (blockshape ! ?i)"
    "load (arr_extshape a) ?i = Some (rounded_up_to (shape ! ?i) (chunkshape ! ?i))"
    "load (arr_extchunkshape a) ?i = Some (rounded_up_to (chunkshape ! ?i) (blockshape ! ?i))"
    using i16 assms(2,6,7) by (simp_all add: load_Some arrays_full_def)
  have q: "rounded_up_to (chunkshape ! ?i) (blockshape ! ?i) sdiv (blockshape ! ?i) = ?q ?i"
    using rounded_up_to_ge[OF pos(3,2)] pos by simp
  note st = assms(3)[unfolded all_strides_def]
  note r = assms(9)[unfolded checked_strides_def, rule_format, of i]
  note ns = next_stride_eq[OF _ assms(6,5)]
  obtain l1 where l1: "next_stride (item_array_strides a) i (shape ! ?i) = Some l1" "strides_from n i (\<lambda>k. shape ! k) l1"
    using ns(1)[of "\<lambda>k. shape ! k"] st r by blast
  obtain l2 where l2: "next_stride (item_extchunk_strides a) i (rounded_up_to (chunkshape ! ?i) (blockshape ! ?i)) = Some l2"
    "strides_from n i (\<lambda>k. rounded_up_to (chunkshape ! k) (blockshape ! k)) l2"
    using ns(1)[of "\<lambda>k. rounded_up_to (chunkshape ! k) (blockshape ! k)"] st r by blast
  obtain l3 where l3: "next_stride (item_chunk_strides a) i (chunkshape ! ?i) = Some l3" "strides_from n i (\<lambda>k. chunkshape ! k) l3"
    using ns(1)[of "\<lambda>k. chunkshape ! k"] st r by blast
  obtain l4 where l4: "next_stride (item_block_strides a) i (blockshape ! ?i) = Some l4" "strides_from n i (\<lambda>k. blockshape ! k) l4"
    using ns(1)[of "\<lambda>k. blockshape ! k"] st r by blast
  obtain l5 where l5: "next_stride (block_chunk_strides a) i (?q ?i) = Some l5" "strides_from n i ?q l5"
    using ns(1)[of ?q] st r by blast
  have cut: "stride_step i shape a = do {
      f \<leftarrow> i64 (?g ?i);
      cas \<leftarrow> next_stride (chunk_array_strides a) i f;
      Some (a\<lparr>item_array_strides := l1, item_extchunk_strides := l2, item_chunk_strides := l3,
         item_block_strides := l4, block_chunk_strides := l5, chunk_array_strides := cas\<rparr>) }"
    unfolding stride_step_def using pos by (simp add: loads q l1(1) l2(1) l3(1) l4(1) l5(1) chunk_factor_def)
  have gp: "0 < ?g k" if "k < n" for k using positive_chunk_factor[OF assms(8) that] .
  have sp: "0 < suffix_prod n ?g j" for j by (rule suffix_prod_pos) (rule gp)
  have le: "?g ?i \<le> suffix_prod n ?g i"
    using suffix_prod_step[OF assms(6), of ?g] sp[of ?i] gp[OF assms(6)] by simp
  {
    assume lim: "suffix_prod n ?g i < 2 ^ 63"
    then have "i64_range (suffix_prod n ?g i)" using sp[of i] by (simp add: i64_range_def)
    from ns(1)[OF _ this] st obtain l6 where l6: "next_stride (chunk_array_strides a) i (?g ?i) = Some l6" "strides_from n i ?g l6" by blast
    have "i64 (?g ?i) = Some (?g ?i)" using le lim gp[OF assms(6)] by (simp add: i64_def i64_range_def)
    with l1 l2 l3 l4 l5 l6 assms(1,2) show "\<exists>a'. stride_step i shape a = Some a' \<and>
        all_strides n shape chunkshape blockshape i a' \<and> filled ndim shape chunkshape blockshape 16 a' \<and> arrays_full a'"
      unfolding cut by (simp add: all_strides_def filled_def arrays_full_def)
  next
    assume lim: "2 ^ 63 \<le> suffix_prod n ?g i"
    then have "\<not> i64_range (suffix_prod n ?g i)" by (simp add: i64_range_def)
    from ns(2)[OF _ this] st show "stride_step i shape a = None" unfolding cut by (auto simp: i64_def)
  }
qed

lemma stride_loop_exact:
  assumes "filled ndim shape chunkshape blockshape 16 a" "arrays_full a" "all_strides n shape chunkshape blockshape i a"
    and "n = nat ndim" "n \<le> 16" "i < n" "n \<le> length shape" "positive_dims n shape chunkshape blockshape"
    and "checked_strides n shape chunkshape blockshape" "suffix_prod n (chunk_factor shape chunkshape) i < 2 ^ 63"
  shows "suffix_prod n (chunk_factor shape chunkshape) 0 < 2 ^ 63 \<and>
      (\<exists>a'. stride_loop i shape a = Some a' \<and> all_strides n shape chunkshape blockshape 0 a') \<or>
    2 ^ 63 \<le> suffix_prod n (chunk_factor shape chunkshape) 0 \<and> stride_loop i shape a = None"
  using assms(1-3,6,10)
proof (induction i arbitrary: a)
  case (Suc i)
  let ?g = "chunk_factor shape chunkshape"
  note step = stride_step_exact[OF Suc.prems(1-3) assms(4,5) Suc.prems(4) assms(7-9)]
  show ?case
  proof (cases "suffix_prod n ?g i < 2 ^ 63")
    case True
    from step(1)[OF this] obtain a1 where "stride_step i shape a = Some a1" "all_strides n shape chunkshape blockshape i a1"
      "filled ndim shape chunkshape blockshape 16 a1" "arrays_full a1" by blast
    with Suc.IH[of a1] Suc.prems(4) True show ?thesis by simp
  next
    case False
    then have l: "2 ^ 63 \<le> suffix_prod n ?g i" by simp
    have "suffix_prod n ?g i \<le> suffix_prod n ?g 0"
      by (rule suffix_prod_antimono) (rule positive_chunk_factor[OF assms(8)])
    with l step(2)[OF l] show ?thesis by simp
  qed
qed simp

lemma counts_checked_strides:
  assumes "counts_upto ndim shape chunkshape blockshape 16 a" "0 \<le> ndim" "ndim \<le> 16"
    and "positive_dims (nat ndim) shape chunkshape blockshape"
  shows "checked_strides (nat ndim) shape chunkshape blockshape"
proof -
  let ?n = "nat ndim" and ?e = "\<lambda>k. rounded_up_to (chunkshape ! k) (blockshape ! k)"
  have one: "rounded_up_to 1 1 = 1" by (simp add: rounded_up_to_def)
  note prods = prod_dims[of ndim "\<lambda>x y. x", OF assms(2,3) refl] prod_dims[of ndim rounded_up_to, OF assms(2,3) one]
  have tot: "(\<Prod>k<?n. shape ! k) \<le> INT64_MAX" "(\<Prod>k<?n. ?e k) \<le> INT64_MAX" "(\<Prod>k<?n. chunkshape ! k) \<le> INT64_MAX"
    "(\<Prod>k<?n. blockshape ! k) \<le> INT64_MAX"
    using assms(1)[unfolded counts_upto_def Let_def prods] by linarith+
  have p: "0 < shape ! k" "0 < chunkshape ! k" "0 < blockshape ! k" if "k < ?n" for k using assms(4) that by (auto simp: positive_dims_def)
  have e: "0 < ?e k" if "k < ?n" for k using rounded_up_to_ge[OF p(3,2)[OF that]] p(2)[OF that] by simp
  have q: "0 < ?e k div blockshape ! k \<and> ?e k div blockshape ! k \<le> ?e k" if "k < ?n" for k by (rule rounded_up_to_quotient[OF p(3,2)[OF that]])
  have rng: "i64_range (suffix_prod ?n f i)" if "\<And>k. k < ?n \<Longrightarrow> 0 < f k \<and> f k \<le> g k" "(\<Prod>k<?n. g k) \<le> INT64_MAX" for f g i
  proof -
    have "0 < suffix_prod ?n f i" using that(1) by (intro suffix_prod_pos) blast
    with suffix_prod_le[of ?n f g i] that show ?thesis by (simp add: i64_range_def)
  qed
  have "i64_range (suffix_prod ?n (\<lambda>k. shape ! k) i)" for i by (rule rng[OF _ tot(1)]) (simp add: p)
  moreover have "i64_range (suffix_prod ?n (\<lambda>k. chunkshape ! k) i)" for i by (rule rng[OF _ tot(3)]) (simp add: p)
  moreover have "i64_range (suffix_prod ?n ?e i)" for i by (rule rng[OF _ tot(2)]) (simp add: e)
  moreover have "i64_range (suffix_prod ?n (\<lambda>k. blockshape ! k) i)" for i by (rule rng[OF _ tot(4)]) (simp add: p)
  moreover have "i64_range (suffix_prod ?n (\<lambda>k. ?e k div blockshape ! k) i)" for i by (rule rng[OF _ tot(2)]) (rule q)
  ultimately show ?thesis unfolding checked_strides_def by blast
qed

section \<open>Properties\<close>

text \<open>
  C13. Whatever shapes a metalayer brings, checking them and computing the padded shapes and the numbers of items neither
  overflows nor divides by zero. They are accepted or refused as invalid, and when they are accepted every number of items is the exact
  product over the dimensions, of the shapes or of the shapes rounded up to whole chunks and blocks, and fits its type.
\<close>

theorem counts_exact:
  assumes "0 \<le> ndim" "ndim \<le> 16" "arrays_full array"
    and "nat ndim \<le> length shape" "nat ndim \<le> length chunkshape" "nat ndim \<le> length blockshape"
    and "\<forall>x\<in>set shape. x < 2 ^ 63" "\<forall>x\<in>set chunkshape. x < 2 ^ 31" "\<forall>x\<in>set blockshape. x < 2 ^ 31"
  shows "\<exists>rc a. update_counts ndim shape chunkshape blockshape array = Some (rc, a) \<and>
    (rc = BLOSC2_ERROR_SUCCESS \<or> rc = BLOSC2_ERROR_INVALID_PARAM) \<and>
    (rc = BLOSC2_ERROR_SUCCESS \<longrightarrow>
      arr_nitems a = (\<Prod>k<nat ndim. shape ! k) \<and> arr_nitems a < 2 ^ 63 \<and>
      arr_extnitems a = (\<Prod>k<nat ndim. rounded_up_to (shape ! k) (chunkshape ! k)) \<and> arr_extnitems a < 2 ^ 63 \<and>
      arr_extchunknitems a = (\<Prod>k<nat ndim. rounded_up_to (chunkshape ! k) (blockshape ! k)) \<and> arr_extchunknitems a < 2 ^ 63 \<and>
      arr_chunknitems a = (\<Prod>k<nat ndim. chunkshape ! k) \<and> arr_chunknitems a < 2 ^ 31 \<and>
      arr_blocknitems a = (\<Prod>k<nat ndim. blockshape ! k) \<and> arr_blocknitems a < 2 ^ 31)"
proof -
  let ?a = "array\<lparr>arr_ndim := ndim, arr_nitems := 1, arr_extnitems := 1, arr_extchunknitems := 1, arr_chunknitems := 1,
         arr_blocknitems := 1\<rparr>"
  obtain rc where v: "validate_shape_chunkshape_blockshape ndim shape chunkshape blockshape = Some rc"
      "rc = 0 \<or> rc = BLOSC2_ERROR_INVALID_PARAM" "rc = 0 \<longrightarrow> dims_ok ndim shape chunkshape blockshape"
    using validate_dims_eq[of 0 "nat ndim" shape chunkshape blockshape] assms(4-6)
    by (auto simp: validate_shape_chunkshape_blockshape_def dims_ok_def)
  show ?thesis
  proof (cases "rc = 0")
    case True
    have c: "counts_upto ndim shape chunkshape blockshape 0 ?a" by (simp add: counts_upto_def)
    have f: "arrays_full ?a" using assms(3) by (simp add: arrays_full_def)
    have r: "\<forall>x\<in>set shape. x \<le> INT64_MAX" "\<forall>x\<in>set chunkshape. x \<le> INT_MAX" "\<forall>x\<in>set blockshape. x \<le> INT_MAX"
      using assms(7-9) by auto
    have d: "dims_ok ndim shape chunkshape blockshape" using v(3) True by blast
    from shape_loop_counts[OF _ c f assms(4-6) d r] obtain rc' a where
      l: "shape_loop ndim shape chunkshape blockshape 0 16 ?a = Some (rc', a)"
      "rc' = BLOSC2_ERROR_INVALID_PARAM \<or> rc' = 0 \<and> counts_upto ndim shape chunkshape blockshape 16 a" by auto
    have one: "rounded_up_to 1 1 = 1" by (simp add: rounded_up_to_def)
    note prods = prod_dims[OF assms(1,2), of "\<lambda>x y. x"] prod_dims[of ndim rounded_up_to, OF assms(1,2) one]
    show ?thesis using v(1) True l
      by (auto simp: update_counts_def counts_upto_def Let_def prods)
  qed (use v in \<open>auto simp: update_counts_def\<close>)
qed

definition blank_array :: b2nd_array where
  "blank_array = (let z = replicate 16 0 in
    \<lparr>arr_shape = z, arr_chunkshape = z, arr_extshape = z, arr_blockshape = z, arr_extchunkshape = z,
     arr_nitems = 0, arr_chunknitems = 0, arr_extnitems = 0, arr_blocknitems = 0, arr_extchunknitems = 0, arr_ndim = 0,
     item_array_strides = z, item_chunk_strides = z, item_extchunk_strides = z, item_block_strides = z,
     block_chunk_strides = z, chunk_array_strides = z\<rparr>)"

theorem counts_exact_witness:
  "\<exists>rc a. update_counts 2 [100, 30] [40, 20] [7, 20] blank_array = Some (rc, a) \<and>
    (rc = BLOSC2_ERROR_SUCCESS \<or> rc = BLOSC2_ERROR_INVALID_PARAM) \<and>
    (rc = BLOSC2_ERROR_SUCCESS \<longrightarrow>
      arr_nitems a = (\<Prod>k<nat 2. [100, 30] ! k) \<and> arr_nitems a < 2 ^ 63 \<and>
      arr_extnitems a = (\<Prod>k<nat 2. rounded_up_to ([100, 30] ! k) ([40, 20] ! k)) \<and> arr_extnitems a < 2 ^ 63 \<and>
      arr_extchunknitems a = (\<Prod>k<nat 2. rounded_up_to ([40, 20] ! k) ([7, 20] ! k)) \<and> arr_extchunknitems a < 2 ^ 63 \<and>
      arr_chunknitems a = (\<Prod>k<nat 2. [40, 20] ! k) \<and> arr_chunknitems a < 2 ^ 31 \<and>
      arr_blocknitems a = (\<Prod>k<nat 2. [7, 20] ! k) \<and> arr_blocknitems a < 2 ^ 31)"
  by (rule counts_exact) (simp_all add: blank_array_def arrays_full_def Let_def)

text \<open>
  C14. For an array of up to 16 dimensions, none of them empty and none without chunks, whose shapes are accepted, the strides are the exact products of the sizes behind a
  dimension, and whether they can be computed at all depends on the stride of chunks alone: it multiplies padded shape and chunk shape
  where the number of chunks is their quotient, and its product, which nothing checks, overflows 64 bits exactly when it reaches
  2 to the power of 63. So \<open>2 ^ 34\<close> items in chunks of \<open>2 ^ 30\<close> are accepted and then overflow.
\<close>

theorem strides_exact:
  assumes "0 \<le> ndim" "ndim \<le> 16" "arrays_full array" "strides_full array"
    and "nat ndim \<le> length shape" "nat ndim \<le> length chunkshape" "nat ndim \<le> length blockshape"
    and "\<forall>x\<in>set shape. x < 2 ^ 63" "\<forall>x\<in>set chunkshape. x < 2 ^ 31" "\<forall>x\<in>set blockshape. x < 2 ^ 31"
    and "\<forall>k < nat ndim. 0 < shape ! k \<and> 0 < chunkshape ! k"
    and "update_counts ndim shape chunkshape blockshape array = Some (BLOSC2_ERROR_SUCCESS, a)"
  shows "case update_shape_struct ndim shape chunkshape blockshape array of
      None \<Rightarrow> 2 ^ 63 \<le> (\<Prod>k\<in>{0<..<nat ndim}. rounded_up_to (shape ! k) (chunkshape ! k) * chunkshape ! k)
    | Some (rc, a) \<Rightarrow> rc = BLOSC2_ERROR_SUCCESS \<and>
        (\<Prod>k\<in>{0<..<nat ndim}. rounded_up_to (shape ! k) (chunkshape ! k) * chunkshape ! k) < 2 ^ 63 \<and>
        (\<forall>j < nat ndim.
          item_array_strides a ! j = (\<Prod>k\<in>{j<..<nat ndim}. shape ! k) \<and>
          item_chunk_strides a ! j = (\<Prod>k\<in>{j<..<nat ndim}. chunkshape ! k) \<and>
          item_extchunk_strides a ! j = (\<Prod>k\<in>{j<..<nat ndim}. rounded_up_to (chunkshape ! k) (blockshape ! k)) \<and>
          item_block_strides a ! j = (\<Prod>k\<in>{j<..<nat ndim}. blockshape ! k) \<and>
          block_chunk_strides a ! j = (\<Prod>k\<in>{j<..<nat ndim}. rounded_up_to (chunkshape ! k) (blockshape ! k) div blockshape ! k) \<and>
          chunk_array_strides a ! j = (\<Prod>k\<in>{j<..<nat ndim}. rounded_up_to (shape ! k) (chunkshape ! k) * chunkshape ! k))"
proof -
  let ?n = "nat ndim" and ?g = "chunk_factor shape chunkshape"
  let ?a = "array\<lparr>arr_ndim := ndim, arr_nitems := 1, arr_extnitems := 1, arr_extchunknitems := 1, arr_chunknitems := 1,
         arr_blocknitems := 1\<rparr>"
  have v: "validate_shape_chunkshape_blockshape ndim shape chunkshape blockshape = Some 0" "dims_ok ndim shape chunkshape blockshape"
    and l: "shape_loop ndim shape chunkshape blockshape 0 16 ?a = Some (0, a)"
    using validate_dims_eq[of 0 ?n shape chunkshape blockshape] assms(5-7,12)
    by (auto simp: update_counts_def validate_shape_chunkshape_blockshape_def dims_ok_def)
  have r: "\<forall>x\<in>set shape. x \<le> INT64_MAX" "\<forall>x\<in>set chunkshape. x \<le> INT_MAX" "\<forall>x\<in>set blockshape. x \<le> INT_MAX"
    using assms(8-10) by auto
  have start: "counts_upto ndim shape chunkshape blockshape 0 ?a" "filled ndim shape chunkshape blockshape 0 ?a" "arrays_full ?a"
    "strides_full ?a"
    using assms(3,4) by (simp_all add: counts_upto_def filled_def arrays_full_def strides_full_def)
  have a: "filled ndim shape chunkshape blockshape 16 a" "strides_full a" "arrays_full a"
    using shape_loop_filled[OF l _ start(2,3) v(2) assms(5-7) r] start(4) by auto
  have counts: "counts_upto ndim shape chunkshape blockshape 16 a"
    using shape_loop_counts[OF _ start(1,3) assms(5-7) v(2) r, of 16] l by auto
  have pos: "positive_dims ?n shape chunkshape blockshape"
    using assms(11) v(2) by (fastforce simp: positive_dims_def dims_ok_def validate_dim_def split: if_splits)
  have chk: "checked_strides ?n shape chunkshape blockshape" by (rule counts_checked_strides[OF counts assms(1,2) pos])
  have upd: "update_shape_struct ndim shape chunkshape blockshape array = do {
       a \<leftarrow> (if ndim > 0 then first_strides (nat (ndim - 1)) a else Some a);
       a \<leftarrow> stride_loop (nat (ndim - 1)) shape a;
       Some (BLOSC2_ERROR_SUCCESS, a) }"
    unfolding update_shape_struct_def assms(12) by simp
  show ?thesis
  proof (cases "0 < ndim")
    case False
    then have "ndim = 0" using assms(1) by simp
    then show ?thesis unfolding upd by simp
  next
    case True
    let ?d = "nat (ndim - 1)"
    have d: "?n = Suc ?d" "?d < ?n" "?n \<le> 16" "?d < 16" using True assms(2) by auto
    obtain a1 where f: "first_strides ?d a = Some a1" "filled ndim shape chunkshape blockshape 16 a1" "arrays_full a1"
      "all_strides ?n shape chunkshape blockshape ?d a1"
      using a d(4) strides_from_last[OF _ d(1,4)]
      by (simp add: first_strides_def store_Some strides_full_def filled_def arrays_full_def all_strides_def)
    have "suffix_prod ?n ?g ?d < 2 ^ 63" using d(1) by simp
    from stride_loop_exact[OF f(2-4) refl d(3,2) assms(5) pos chk this] f(1) True show ?thesis
      unfolding upd by (auto simp: all_strides_def strides_from_def suffix_prod_def chunk_factor_def)
  qed
qed

theorem strides_exact_witness:
  "update_shape_struct 2 [1, 2 ^ 34] [1, 2 ^ 30] [1, 2 ^ 30] blank_array = None \<and>
   (\<exists>a. update_shape_struct 2 [100, 30] [40, 20] [7, 20] blank_array = Some (BLOSC2_ERROR_SUCCESS, a) \<and>
     item_array_strides a ! 0 = 30 \<and> block_chunk_strides a ! 0 = 1 \<and> chunk_array_strides a ! 0 = 800)"
proof
  have full: "arrays_full blank_array" "strides_full blank_array"
    by (simp_all add: blank_array_def arrays_full_def strides_full_def Let_def)
  have one: "{0<..<2 :: nat} = {1}" by auto
  have "map_option fst (update_counts 2 [1, 2 ^ 34] [1, 2 ^ 30] [1, 2 ^ 30] blank_array) = Some 0" by code_simp
  then obtain a where u: "update_counts 2 [1, 2 ^ 34] [1, 2 ^ 30] [1, 2 ^ 30] blank_array = Some (0, a)" by auto
  have "\<forall>k < nat 2. 0 < [1, 2 ^ 34 :: int] ! k \<and> 0 < [1, 2 ^ 30 :: int] ! k" by (auto simp: less_2_cases_iff)
  from strides_exact[OF _ _ full _ _ _ _ _ _ this u]
  show "update_shape_struct 2 [1, 2 ^ 34] [1, 2 ^ 30] [1, 2 ^ 30] blank_array = None"
    by (cases "update_shape_struct 2 [1, 2 ^ 34] [1, 2 ^ 30] [1, 2 ^ 30] blank_array") (auto simp: one rounded_up_to_def)
  have "map_option fst (update_counts 2 [100, 30] [40, 20] [7, 20] blank_array) = Some 0" by code_simp
  then obtain a' where u': "update_counts 2 [100, 30] [40, 20] [7, 20] blank_array = Some (0, a')" by auto
  have "\<forall>k < nat 2. 0 < [100, 30 :: int] ! k \<and> 0 < [40, 20 :: int] ! k" by (auto simp: less_2_cases_iff)
  from strides_exact[OF _ _ full _ _ _ _ _ _ this u']
  show "\<exists>a. update_shape_struct 2 [100, 30] [40, 20] [7, 20] blank_array = Some (BLOSC2_ERROR_SUCCESS, a) \<and>
     item_array_strides a ! 0 = 30 \<and> block_chunk_strides a ! 0 = 1 \<and> chunk_array_strides a ! 0 = 800"
    by (cases "update_shape_struct 2 [100, 30] [40, 20] [7, 20] blank_array") (auto simp: one rounded_up_to_def)
qed

end
