(* ===== verification/B2nd_Copy.thy ===== *)
theory B2nd_Copy
  imports Context
begin

text \<open>
  Copying a box of items from one n-dimensional buffer into another: \<open>blosc/b2nd_utils.c\<close> and the two index conversions of
  \<open>blosc/blosc2.c\<close>. Arrays of \<open>ndim\<close> integers are lists of that length. A pointer into a buffer is the offset of its byte. Positions are
  integers without bounds: a position inside of a buffer fits 64 bits, and one that is not is undefined in either case.
\<close>

section \<open>Indices\<close>

text \<open>The strides of an array in row-major order, from the last dimension to the first.\<close>

fun row_strides :: "int list \<Rightarrow> int list" where
  "row_strides [] = []"
| "row_strides [p] = [1]"
| "row_strides (p # q # ps) = (let s = row_strides (q # ps) in hd s * q # s)"

definition blosc2_unidim_to_multidim :: "int list \<Rightarrow> int \<Rightarrow> int list option" where
  "blosc2_unidim_to_multidim shape i =
    (if shape = [] then Some []
     else let strides = row_strides shape in
       if 0 \<in> set strides then None
       else Some (i sdiv strides ! 0 # map (\<lambda>j. (i smod strides ! (j - 1)) sdiv strides ! j) [1..<length shape]))"

fun blosc2_multidim_to_unidim :: "int list \<Rightarrow> int list \<Rightarrow> int" where
  "blosc2_multidim_to_unidim (x # index) (s # strides) = x * s + blosc2_multidim_to_unidim index strides"
| "blosc2_multidim_to_unidim _ _ = 0"

section \<open>Copies\<close>

text \<open>
  One \<open>memcpy\<close>, of the items along the last dimension: \<open>copy_start\<close> is the index in the other dimensions, \<open>sb\<close> and \<open>db\<close> are the
  pointers \<open>bsrc\<close> and \<open>bdst\<close>.
\<close>

definition copy_row ::
  "int \<Rightarrow> int list \<Rightarrow> buf \<Rightarrow> int \<Rightarrow> int list \<Rightarrow> int \<Rightarrow> int list \<Rightarrow> int list \<Rightarrow> buf \<Rightarrow> buf option" where
  "copy_row itemsize copy_shape src sb src_strides db dst_strides copy_start dst =
    (let copy_nbytes = copy_shape ! length copy_start * itemsize;
         si = sb + blosc2_multidim_to_unidim copy_start src_strides * itemsize;
         di = db + blosc2_multidim_to_unidim copy_start dst_strides * itemsize
     in if si < 0 \<or> di < 0 \<or> copy_nbytes < 0 then None
        else memcpy dst (nat di) src (nat si) (nat copy_nbytes))"

text \<open>\<open>i = 0; do { ...; ++i; } while (i < n)\<close>.\<close>

definition do_while :: "int \<Rightarrow> (int \<Rightarrow> buf \<Rightarrow> buf option) \<Rightarrow> buf \<Rightarrow> buf option" where
  "do_while n body = for_range 0 (max 1 (nat n)) (\<lambda>i. body (int i))"

type_synonym copier = "int \<Rightarrow> int list \<Rightarrow> buf \<Rightarrow> int \<Rightarrow> int list \<Rightarrow> int \<Rightarrow> int list \<Rightarrow> buf \<Rightarrow> buf option"

definition copy2dim :: copier where
  "copy2dim itemsize shape src sb src_strides db dst_strides =
    do_while (shape ! 0) (\<lambda>i0. copy_row itemsize shape src sb src_strides db dst_strides [i0])"

definition copy3dim :: copier where
  "copy3dim itemsize shape src sb src_strides db dst_strides =
    do_while (shape ! 0) (\<lambda>i0. do_while (shape ! 1) (\<lambda>i1.
      copy_row itemsize shape src sb src_strides db dst_strides [i0, i1]))"

definition copy4dim :: copier where
  "copy4dim itemsize shape src sb src_strides db dst_strides =
    do_while (shape ! 0) (\<lambda>i0. do_while (shape ! 1) (\<lambda>i1. do_while (shape ! 2) (\<lambda>i2.
      copy_row itemsize shape src sb src_strides db dst_strides [i0, i1, i2])))"

definition copy5dim :: copier where
  "copy5dim itemsize shape src sb src_strides db dst_strides =
    do_while (shape ! 0) (\<lambda>i0. do_while (shape ! 1) (\<lambda>i1. do_while (shape ! 2) (\<lambda>i2. do_while (shape ! 3) (\<lambda>i3.
      copy_row itemsize shape src sb src_strides db dst_strides [i0, i1, i2, i3]))))"

definition copy6dim :: copier where
  "copy6dim itemsize shape src sb src_strides db dst_strides =
    do_while (shape ! 0) (\<lambda>i0. do_while (shape ! 1) (\<lambda>i1. do_while (shape ! 2) (\<lambda>i2. do_while (shape ! 3) (\<lambda>i3.
    do_while (shape ! 4) (\<lambda>i4.
      copy_row itemsize shape src sb src_strides db dst_strides [i0, i1, i2, i3, i4])))))"

definition copy7dim :: copier where
  "copy7dim itemsize shape src sb src_strides db dst_strides =
    do_while (shape ! 0) (\<lambda>i0. do_while (shape ! 1) (\<lambda>i1. do_while (shape ! 2) (\<lambda>i2. do_while (shape ! 3) (\<lambda>i3.
    do_while (shape ! 4) (\<lambda>i4. do_while (shape ! 5) (\<lambda>i5.
      copy_row itemsize shape src sb src_strides db dst_strides [i0, i1, i2, i3, i4, i5]))))))"

definition copy8dim :: copier where
  "copy8dim itemsize shape src sb src_strides db dst_strides =
    do_while (shape ! 0) (\<lambda>i0. do_while (shape ! 1) (\<lambda>i1. do_while (shape ! 2) (\<lambda>i2. do_while (shape ! 3) (\<lambda>i3.
    do_while (shape ! 4) (\<lambda>i4. do_while (shape ! 5) (\<lambda>i5. do_while (shape ! 6) (\<lambda>i6.
      copy_row itemsize shape src sb src_strides db dst_strides [i0, i1, i2, i3, i4, i5, i6])))))))"

text \<open>The counter of the general version is an \<open>int\<close>, so more than \<open>INT_MAX\<close> copies overflow it.\<close>

definition copy_ndim_fallback :: copier where
  "copy_ndim_fallback itemsize shape src sb src_strides db dst_strides dst =
    (let number_of_copies = prod_list (butlast shape) in
     if number_of_copies > INT_MAX then None
     else for_range 0 (nat number_of_copies) (\<lambda>ncopy dst. do {
       copy_start \<leftarrow> blosc2_unidim_to_multidim (butlast shape) (int ncopy);
       copy_row itemsize shape src sb src_strides db dst_strides copy_start dst }) dst)"

text \<open>
  \<open>b2nd_copy_buffer2\<close> with the number of dimensions as the length of the lists, and \<open>b2nd_copy_buffer\<close>, which widens the size of an item. With no
  dimension or more than 16 the code writes outside of its arrays of strides.
\<close>

definition b2nd_copy_buffer2 ::
  "int \<Rightarrow> buf \<Rightarrow> int list \<Rightarrow> int list \<Rightarrow> int list \<Rightarrow> buf \<Rightarrow> int list \<Rightarrow> int list \<Rightarrow> (int \<times> buf) option" where
  "b2nd_copy_buffer2 itemsize src src_pad_shape src_start src_stop dst dst_pad_shape dst_start =
    (let ndim = length src_start;
         copy_shape = map2 (-) src_stop src_start in
     if 0 \<in> set (take 16 copy_shape) then Some (BLOSC2_ERROR_SUCCESS, dst)
     else if ndim = 0 \<or> ndim > 16 then None
     else
       let src_strides = row_strides src_pad_shape;
           dst_strides = row_strides dst_pad_shape;
           sb = blosc2_multidim_to_unidim src_start src_strides * itemsize;
           db = blosc2_multidim_to_unidim dst_start dst_strides * itemsize;
           copy = (if ndim = 1 then (\<lambda>it sh src sb ss db ds. copy_row it sh src sb ss db ds [])
             else if ndim = 2 then copy2dim else if ndim = 3 then copy3dim else if ndim = 4 then copy4dim
             else if ndim = 5 then copy5dim else if ndim = 6 then copy6dim else if ndim = 7 then copy7dim
             else if ndim = 8 then copy8dim else copy_ndim_fallback) in do {
         dst \<leftarrow> copy itemsize copy_shape src sb src_strides db dst_strides dst;
         Some (BLOSC2_ERROR_SUCCESS, dst) })"

definition b2nd_copy_buffer ::
  "byte \<Rightarrow> buf \<Rightarrow> int list \<Rightarrow> int list \<Rightarrow> int list \<Rightarrow> buf \<Rightarrow> int list \<Rightarrow> int list \<Rightarrow> (int \<times> buf) option" where
  "b2nd_copy_buffer itemsize = b2nd_copy_buffer2 (uint itemsize)"

section \<open>Mixed radix\<close>

definition in_box :: "int list \<Rightarrow> int list \<Rightarrow> bool" where
  "in_box idx shape = list_all2 (\<lambda>i n. 0 \<le> i \<and> i < n) idx shape"

lemma in_box_simps [simp]:
  "in_box [] shape \<longleftrightarrow> shape = []"
  "in_box idx [] \<longleftrightarrow> idx = []"
  "in_box (i # idx) (n # shape) \<longleftrightarrow> 0 \<le> i \<and> i < n \<and> in_box idx shape"
  by (auto simp: in_box_def)

lemma in_box_length: "in_box idx shape \<Longrightarrow> length idx = length shape"
  by (auto simp: in_box_def list_all2_lengthD)

lemma in_box_Cons: "in_box idx (n # shape) \<longleftrightarrow> (\<exists>i idx'. idx = i # idx' \<and> 0 \<le> i \<and> i < n \<and> in_box idx' shape)"
  by (auto simp: in_box_def list_all2_Cons2)

lemma row_strides_Cons: "row_strides (p # ps) = prod_list ps # row_strides ps"
proof (induction ps arbitrary: p)
  case (Cons q ps)
  then show ?case by (simp add: Let_def mult.commute)
qed simp

lemma length_row_strides [simp]: "length (row_strides ps) = length ps"
  by (induction ps) (auto simp: row_strides_Cons)

lemma prod_list_pos: "\<forall>p\<in>set ps. 0 < p \<Longrightarrow> 0 < prod_list (ps :: int list)"
  by (induction ps) auto

abbreviation flat :: "int list \<Rightarrow> int list \<Rightarrow> int" where
  "flat shape idx \<equiv> blosc2_multidim_to_unidim idx (row_strides shape)"

lemma flat_Cons [simp]: "flat (p # ps) (i # idx) = i * prod_list ps + flat ps idx"
  by (simp add: row_strides_Cons)

lemma flat_bounds: "in_box idx shape \<Longrightarrow> 0 \<le> flat shape idx \<and> flat shape idx < prod_list shape"
proof (induction shape arbitrary: idx)
  case (Cons n shape)
  then obtain i idx' where i: "idx = i # idx'" "0 \<le> i" "i < n" "in_box idx' shape" by (auto simp: in_box_Cons)
  let ?P = "prod_list shape"
  have f: "0 \<le> flat shape idx'" "flat shape idx' < ?P" using Cons.IH[OF i(4)] by auto
  have "(i + 1) * ?P \<le> n * ?P" using i f by (intro mult_right_mono) auto
  with f i show ?case by (simp add: algebra_simps)
qed simp

lemma flat_inject:
  "in_box idx shape \<Longrightarrow> in_box idx' shape \<Longrightarrow> flat shape idx = flat shape idx' \<Longrightarrow> idx = idx'"
proof (induction shape arbitrary: idx idx')
  case (Cons n shape)
  obtain i xs where i: "idx = i # xs" "in_box xs shape" using Cons.prems(1) by (auto simp: in_box_Cons)
  obtain j ys where j: "idx' = j # ys" "in_box ys shape" using Cons.prems(2) by (auto simp: in_box_Cons)
  let ?P = "prod_list shape"
  have x: "0 \<le> flat shape xs" "flat shape xs < ?P" using flat_bounds[OF i(2)] by auto
  have y: "0 \<le> flat shape ys" "flat shape ys < ?P" using flat_bounds[OF j(2)] by auto
  have e: "i * ?P + flat shape xs = j * ?P + flat shape ys" using Cons.prems(3) i j by simp
  have "(i * ?P + flat shape xs) div ?P = i" using x by (intro int_div_pos_eq) auto
  moreover have "(j * ?P + flat shape ys) div ?P = j" using y by (intro int_div_pos_eq) auto
  ultimately have "i = j" using e by simp
  with e Cons.IH[OF i(2) j(2)] i j show ?case by simp
qed simp

text \<open>The digits of a position.\<close>

fun digits :: "int list \<Rightarrow> int \<Rightarrow> int list" where
  "digits [] i = []"
| "digits (n # shape) i = i div prod_list shape # digits shape (i mod prod_list shape)"

lemma digits_flat:
  assumes "\<forall>n\<in>set shape. 0 < n" "0 \<le> i" "i < prod_list shape"
  shows "in_box (digits shape i) shape \<and> flat shape (digits shape i) = i"
  using assms
proof (induction shape arbitrary: i)
  case (Cons n shape)
  let ?P = "prod_list shape"
  have P: "0 < ?P" using Cons.prems(1) by (simp add: prod_list_pos)
  have "i div ?P < n"
  proof (rule ccontr)
    assume "\<not> i div ?P < n"
    then have "n * ?P \<le> i div ?P * ?P" using P by (intro mult_right_mono) auto
    also have "\<dots> \<le> i" using div_mult_mod_eq[of i ?P] pos_mod_sign[OF P, of i] by linarith
    finally show False using Cons.prems(3) by simp
  qed
  with Cons P show ?case by (simp add: pos_imp_zdiv_nonneg_iff)
qed simp

lemma length_digits [simp]: "length (digits shape i) = length shape"
  by (induction shape arbitrary: i) auto

lemma nth_digits:
  assumes "\<forall>n\<in>set shape. 0 < n" "0 \<le> i" "j < length shape"
  shows "digits shape i ! j =
    (if j = 0 then i div row_strides shape ! 0 else i mod row_strides shape ! (j - 1) div row_strides shape ! j)"
  using assms
proof (induction shape arbitrary: i j)
  case (Cons n shape)
  show ?case
  proof (cases j)
    case (Suc j')
    have dvd: "row_strides shape ! k dvd prod_list shape" if "k < length shape" for k
      using that
    proof (induction shape arbitrary: k)
      case (Cons m shape)
      then show ?case by (cases k) (auto simp: row_strides_Cons intro: dvd_mult)
    qed simp
    have "i mod prod_list shape mod row_strides shape ! (j' - 1) = i mod row_strides shape ! (j' - 1)"
      using Suc Cons.prems(3) by (intro mod_mod_cancel dvd) auto
    with Cons Suc show ?thesis by (cases j') (auto simp: row_strides_Cons prod_list_pos)
  qed (simp add: row_strides_Cons)
qed simp

lemma unidim_to_multidim_digits:
  assumes "\<forall>n\<in>set shape. 0 < n" "0 \<le> i"
  shows "blosc2_unidim_to_multidim shape i = Some (digits shape i)"
proof (cases "shape = []")
  case False
  have pos: "\<forall>s\<in>set (row_strides shape). 0 < s"
    using assms(1) by (induction shape) (auto simp: row_strides_Cons prod_list_pos)
  have "row_strides shape ! j \<in> set (row_strides shape)" if "j < length shape" for j using that by simp
  with pos have p: "0 < row_strides shape ! j" if "j < length shape" for j using that by blast
  have "i sdiv row_strides shape ! 0 # map (\<lambda>j. (i smod row_strides shape ! (j - 1)) sdiv row_strides shape ! j) [1..<length shape] =
      digits shape i" (is "?l = _")
  proof (rule nth_equalityI)
    have len: "length ?l = length shape" using False by (cases shape) (auto simp: Suc_le_eq)
    then show "length ?l = length (digits shape i)" by simp
    fix j assume j: "j < length ?l"
    then have j': "j < length shape" using len by simp
    show "?l ! j = digits shape i ! j"
    proof (cases j)
      case 0
      then show ?thesis using nth_digits[OF assms j'] p[OF j'] assms(2) by simp
    next
      case (Suc k)
      then have k: "k < length shape" using j' by simp
      have "0 \<le> i mod row_strides shape ! k" using p[OF k] by simp
      then show ?thesis using Suc nth_digits[OF assms j'] p[OF j'] p[OF k] assms(2) j' by simp
    qed
  qed
  moreover have "0 \<notin> set (row_strides shape)" using pos by auto
  ultimately show ?thesis using False by (simp add: blosc2_unidim_to_multidim_def Let_def)
qed (simp add: blosc2_unidim_to_multidim_def)

section \<open>The loops over all rows\<close>

text \<open>The nests of loops as one function over the outer dimensions.\<close>

fun copy_nest :: "int list \<Rightarrow> int list \<Rightarrow> (int list \<Rightarrow> buf \<Rightarrow> buf option) \<Rightarrow> buf \<Rightarrow> buf option" where
  "copy_nest [] start row = row start"
| "copy_nest (n # ns) start row = do_while n (\<lambda>i. copy_nest ns (start @ [i]) row)"

lemma gathers_do_while:
  assumes "0 < n" "\<And>i. 0 \<le> i \<Longrightarrow> i < n \<Longrightarrow> gathers (body i) N (A i) g"
  shows "gathers (do_while n body) N (\<Union>i\<in>{0..<n}. A i) g"
proof -
  have "gathers (for_range 0 (nat n) (\<lambda>i. body (int i))) N (\<Union>i\<in>{0..<nat n}. A (int i)) g"
    by (rule gathers_for_range) (use assms in auto)
  moreover have "(\<Union>i\<in>{0..<nat n}. A (int i)) = (\<Union>i\<in>{0..<n}. A i)"
  proof -
    have "{0..<n} = int ` {0..<nat n}" using image_int_atLeastLessThan[of 0 "nat n"] assms(1) by simp
    then show ?thesis by simp
  qed
  moreover have "max 1 (nat n) = nat n" using assms(1) by simp
  ultimately show ?thesis by (simp add: do_while_def[abs_def])
qed

lemma gathers_nest:
  assumes "\<forall>n\<in>set ns. 0 < n" "\<And>idx. in_box idx ns \<Longrightarrow> gathers (row (start @ idx)) N (A (start @ idx)) g"
  shows "gathers (copy_nest ns start row) N (\<Union>idx\<in>{idx. in_box idx ns}. A (start @ idx)) g"
  using assms
proof (induction ns arbitrary: start)
  case (Cons n ns)
  have "gathers (do_while n (\<lambda>i. copy_nest ns (start @ [i]) row)) N
      (\<Union>i\<in>{0..<n}. \<Union>idx\<in>{idx. in_box idx ns}. A ((start @ [i]) @ idx)) g"
  proof (rule gathers_do_while)
    fix i assume i: "0 \<le> i" "i < n"
    show "gathers (copy_nest ns (start @ [i]) row) N (\<Union>idx\<in>{idx. in_box idx ns}. A ((start @ [i]) @ idx)) g"
      by (rule Cons.IH) (use Cons.prems(1) Cons.prems(2)[of "i # _"] i in auto)
  qed (use Cons.prems in simp)
  moreover have "(\<Union>i\<in>{0..<n}. \<Union>idx\<in>{idx. in_box idx ns}. A ((start @ [i]) @ idx)) =
      (\<Union>idx\<in>{idx. in_box idx (n # ns)}. A (start @ idx))"
  proof -
    have "{idx. in_box idx (n # ns)} = (\<Union>i\<in>{0..<n}. (#) i ` {idx. in_box idx ns})" by (auto simp: in_box_Cons)
    then show ?thesis by simp
  qed
  ultimately show ?case by simp
qed simp

text \<open>The copying function of each number of dimensions.\<close>

definition copy_of_ndim :: "nat \<Rightarrow> copier" where
  "copy_of_ndim ndim = (if ndim = 1 then (\<lambda>it sh src sb ss db ds. copy_row it sh src sb ss db ds [])
             else if ndim = 2 then copy2dim else if ndim = 3 then copy3dim else if ndim = 4 then copy4dim
             else if ndim = 5 then copy5dim else if ndim = 6 then copy6dim else if ndim = 7 then copy7dim
             else if ndim = 8 then copy8dim else copy_ndim_fallback)"

lemmas copy_dim_defs = copy2dim_def copy3dim_def copy4dim_def copy5dim_def copy6dim_def copy7dim_def copy8dim_def

lemma small_nest:
  assumes "length shape \<in> {1..8}"
  shows "copy_of_ndim (length shape) it shape src sb ss db ds =
    copy_nest (butlast shape) [] (copy_row it shape src sb ss db ds)"
proof -
  have "length shape \<in> {1, 2, 3, 4, 5, 6, 7, 8}" using assms by auto
  then show ?thesis
    by (elim insertE emptyE)
      (auto simp: copy_of_ndim_def copy_dim_defs length_Suc_conv eval_nat_numeral)
qed

lemma digits_box:
  assumes "\<forall>n\<in>set shape. 0 < n"
  shows "(\<lambda>i. digits shape (int i)) ` {0..<nat (prod_list shape)} = {idx. in_box idx shape}"
proof (intro equalityI subsetI)
  fix idx assume "idx \<in> (\<lambda>i. digits shape (int i)) ` {0..<nat (prod_list shape)}"
  then obtain i where "idx = digits shape (int i)" "i < nat (prod_list shape)" by auto
  then show "idx \<in> {idx. in_box idx shape}" using digits_flat[OF assms, of "int i"] by simp
next
  fix idx assume "idx \<in> {idx. in_box idx shape}"
  then have b: "in_box idx shape" by simp
  note f = flat_bounds[OF b]
  have "digits shape (flat shape idx) = idx"
    using flat_inject[OF _ b] digits_flat[OF assms] f by blast
  then have "idx = digits shape (int (nat (flat shape idx)))" using f by simp
  moreover have "nat (flat shape idx) \<in> {0..<nat (prod_list shape)}" using f by simp
  ultimately show "idx \<in> (\<lambda>i. digits shape (int i)) ` {0..<nat (prod_list shape)}" by (rule image_eqI)
qed

lemma gathers_copies:
  assumes "shape \<noteq> []" "\<forall>n\<in>set shape. 0 < n" "length shape \<le> 8 \<or> prod_list (butlast shape) \<le> INT_MAX"
    and "\<And>r. in_box r (butlast shape) \<Longrightarrow> gathers (copy_row it shape src sb ss db ds r) N (A r) g"
  shows "gathers (copy_of_ndim (length shape) it shape src sb ss db ds) N (\<Union>r\<in>{r. in_box r (butlast shape)}. A r) g"
proof -
  have pos: "\<forall>n\<in>set (butlast shape). 0 < n" using assms(2) by (auto dest: in_set_butlastD)
  show ?thesis
  proof (cases "length shape \<le> 8")
    case True
    then have "length shape \<in> {1..8}" using assms(1) by (cases shape) auto
    from small_nest[OF this] gathers_nest[OF pos, of "copy_row it shape src sb ss db ds" "[]" N A g] assms(4)
    show ?thesis by simp
  next
    case False
    let ?ns = "butlast shape"
    have "gathers (for_range 0 (nat (prod_list ?ns)) (\<lambda>ncopy dst. do {
       copy_start \<leftarrow> blosc2_unidim_to_multidim ?ns (int ncopy);
       copy_row it shape src sb ss db ds copy_start dst })) N
       (\<Union>i\<in>{0..<nat (prod_list ?ns)}. A (digits ?ns (int i))) g"
    proof (rule gathers_for_range)
      fix i assume "i < nat (prod_list ?ns)"
      then have "in_box (digits ?ns (int i)) ?ns" using digits_flat[OF pos, of "int i"] by simp
      then show "gathers (\<lambda>dst. do { copy_start \<leftarrow> blosc2_unidim_to_multidim ?ns (int i);
          copy_row it shape src sb ss db ds copy_start dst }) N (A (digits ?ns (int i))) g"
        using assms(4) by (simp add: unidim_to_multidim_digits[OF pos])
    qed
    moreover have "(\<Union>i\<in>{0..<nat (prod_list ?ns)}. A (digits ?ns (int i))) = (\<Union>r\<in>{r. in_box r ?ns}. A r)"
      unfolding digits_box[OF pos, symmetric] by simp
    ultimately show ?thesis using False assms(3)
      by (simp add: copy_of_ndim_def copy_ndim_fallback_def[abs_def])
  qed
qed

section \<open>Positions of items\<close>

text \<open>Byte \<open>b\<close> of the item at \<open>start + idx\<close> in a buffer of shape \<open>pad\<close>, and boxes of shape \<open>shape\<close> inside of it.\<close>

definition item_byte :: "int \<Rightarrow> int list \<Rightarrow> int list \<Rightarrow> int list \<Rightarrow> int \<Rightarrow> int" where
  "item_byte itemsize pad start idx b = flat pad (map2 (+) start idx) * itemsize + b"

definition box_inside :: "int list \<Rightarrow> int list \<Rightarrow> int list \<Rightarrow> bool" where
  "box_inside start shape pad = (length start = length shape \<and> length pad = length shape \<and>
     (\<forall>j<length shape. 0 \<le> start ! j \<and> start ! j + shape ! j \<le> pad ! j))"

lemma in_box_inside:
  assumes "box_inside start shape pad" "in_box idx shape"
  shows "in_box (map2 (+) start idx) pad"
proof -
  have "length idx = length shape" by (rule in_box_length[OF assms(2)])
  with assms show ?thesis
    by (fastforce simp: in_box_def box_inside_def list_all2_conv_all_nth)
qed

lemma flat_add: "length xs = length pad \<Longrightarrow> length ys = length pad \<Longrightarrow>
   flat pad (map2 (+) xs ys) = flat pad xs + flat pad ys"
proof (induction pad arbitrary: xs ys)
  case (Cons p pad)
  then obtain x xs' y ys' where "xs = x # xs'" "ys = y # ys'" by (cases xs; cases ys) auto
  with Cons show ?case by (simp add: algebra_simps)
qed simp

lemma flat_snoc: "length pad = Suc (length idx) \<Longrightarrow> flat pad (idx @ [x]) = flat pad idx + x"
proof (induction idx arbitrary: pad)
  case Nil
  then show ?case by (auto simp: length_Suc_conv)
next
  case (Cons i idx)
  then obtain p pad' where "pad = p # pad'" "length pad' = Suc (length idx)" by (auto simp: length_Suc_conv)
  with Cons.IH show ?case by simp
qed

lemma in_box_snoc:
  assumes "shape \<noteq> []"
  shows "in_box (r @ [x]) shape \<longleftrightarrow> in_box r (butlast shape) \<and> 0 \<le> x \<and> x < last shape"
proof -
  have "in_box (r @ [x]) (ns @ [n]) \<longleftrightarrow> in_box r ns \<and> 0 \<le> x \<and> x < n" for ns n
  proof (induction ns arbitrary: r)
    case Nil
    show ?case by (cases r) auto
  next
    case (Cons m ns)
    then show ?case by (cases r) auto
  qed
  from this[of "butlast shape" "last shape"] assms show ?thesis by simp
qed

lemma item_byte_bounds:
  assumes "0 < itemsize" "box_inside start shape pad" "in_box idx shape" "0 \<le> b" "b < itemsize"
  shows "0 \<le> item_byte itemsize pad start idx b" "item_byte itemsize pad start idx b < prod_list pad * itemsize"
proof -
  let ?f = "flat pad (map2 (+) start idx)"
  have f: "0 \<le> ?f" "?f < prod_list pad" using flat_bounds[OF in_box_inside[OF assms(2,3)]] by auto
  show "0 \<le> item_byte itemsize pad start idx b" using f assms(1,4) by (simp add: item_byte_def)
  have "(?f + 1) * itemsize \<le> prod_list pad * itemsize" using f assms(1) by (intro mult_right_mono) auto
  then show "item_byte itemsize pad start idx b < prod_list pad * itemsize"
    using assms(5) by (simp add: item_byte_def algebra_simps)
qed

lemma item_byte_row:
  assumes "box_inside start shape pad" "length shape = Suc (length r)"
  shows "item_byte itemsize pad start (r @ [x]) b =
    flat pad start * itemsize + flat pad r * itemsize + (x * itemsize + b)"
proof -
  have "flat pad (map2 (+) start (r @ [x])) = flat pad start + (flat pad r + x)"
    using assms by (subst flat_add) (auto simp: box_inside_def flat_snoc)
  then show ?thesis by (simp add: item_byte_def algebra_simps)
qed

lemma item_byte_inject:
  assumes "0 < itemsize" "box_inside start shape pad" "in_box idx shape" "in_box idx' shape"
    and "0 \<le> b" "b < itemsize" "0 \<le> b'" "b' < itemsize"
    and "item_byte itemsize pad start idx b = item_byte itemsize pad start idx' b'"
  shows "idx = idx' \<and> b = b'"
proof -
  let ?f = "flat pad (map2 (+) start idx)"
  let ?f' = "flat pad (map2 (+) start idx')"
  have e: "?f * itemsize + b = ?f' * itemsize + b'" using assms(9) by (simp add: item_byte_def)
  have "(?f * itemsize + b) div itemsize = ?f" "(?f' * itemsize + b') div itemsize = ?f'"
    using assms(5-8) by (auto intro!: int_div_pos_eq)
  with e have f: "?f = ?f'" by simp
  then have "map2 (+) start idx = map2 (+) start idx'"
    by (rule flat_inject[OF in_box_inside[OF assms(2,3)] in_box_inside[OF assms(2,4)]])
  moreover have "length idx = length start" "length idx' = length start"
    using assms(2-4) by (auto simp: box_inside_def dest: in_box_length)
  ultimately have "idx = idx'"
    by (auto simp: list_eq_iff_nth_eq)
  with e f show ?thesis by simp
qed

text \<open>The bytes of the box.\<close>

definition box_bytes :: "int \<Rightarrow> int list \<Rightarrow> int list \<Rightarrow> int list \<Rightarrow> nat set" where
  "box_bytes itemsize pad start shape =
    {k. \<exists>idx b. in_box idx shape \<and> 0 \<le> b \<and> b < itemsize \<and> int k = item_byte itemsize pad start idx b}"

definition row_bytes :: "int \<Rightarrow> int list \<Rightarrow> int list \<Rightarrow> int list \<Rightarrow> int list \<Rightarrow> nat set" where
  "row_bytes itemsize pad start shape r =
    {k. \<exists>x b. 0 \<le> x \<and> x < last shape \<and> 0 \<le> b \<and> b < itemsize \<and> int k = item_byte itemsize pad start (r @ [x]) b}"

lemma box_bytes_rows:
  assumes "shape \<noteq> []"
  shows "box_bytes itemsize pad start shape = (\<Union>r\<in>{r. in_box r (butlast shape)}. row_bytes itemsize pad start shape r)"
proof (intro set_eqI iffI)
  fix k assume "k \<in> box_bytes itemsize pad start shape"
  then obtain idx b where k: "in_box idx shape" "0 \<le> b" "b < itemsize" "int k = item_byte itemsize pad start idx b"
    by (auto simp: box_bytes_def)
  have "idx \<noteq> []" using in_box_length[OF k(1)] assms by auto
  then obtain r x where "idx = r @ [x]" by (cases idx rule: rev_cases) auto
  with k assms show "k \<in> (\<Union>r\<in>{r. in_box r (butlast shape)}. row_bytes itemsize pad start shape r)"
    by (auto simp: row_bytes_def in_box_snoc)
next
  fix k assume "k \<in> (\<Union>r\<in>{r. in_box r (butlast shape)}. row_bytes itemsize pad start shape r)"
  then obtain r x b where "in_box r (butlast shape)" "0 \<le> x" "x < last shape" "0 \<le> b" "b < itemsize"
      "int k = item_byte itemsize pad start (r @ [x]) b"
    by (auto simp: row_bytes_def)
  moreover from this have "in_box (r @ [x]) shape" using assms by (simp add: in_box_snoc)
  ultimately show "k \<in> box_bytes itemsize pad start shape" by (auto simp: box_bytes_def)
qed

lemma row_interval:
  assumes "0 < itemsize" "box_inside start shape pad" "length shape = Suc (length r)" "0 \<le> D" "0 \<le> last shape"
    and "D = flat pad start * itemsize + flat pad r * itemsize"
  shows "row_bytes itemsize pad start shape r = {nat D..<nat D + nat (last shape * itemsize)}"
proof -
  have row: "item_byte itemsize pad start (r @ [x]) b = D + (x * itemsize + b)" for x b
    unfolding assms(6) by (rule item_byte_row[OF assms(2,3)])
  show ?thesis
  proof (intro set_eqI iffI)
    fix k assume "k \<in> row_bytes itemsize pad start shape r"
    then obtain x b where x: "0 \<le> x" "x < last shape" "0 \<le> b" "b < itemsize" "int k = D + (x * itemsize + b)"
      by (auto simp: row_bytes_def row)
    have "(x + 1) * itemsize \<le> last shape * itemsize" using x assms(1) by (intro mult_right_mono) auto
    then have "x * itemsize + b < last shape * itemsize" using x(4) by (simp add: algebra_simps)
    moreover have "0 \<le> x * itemsize" using x(1) assms(1) by simp
    ultimately have "D \<le> int k" "int k < D + last shape * itemsize" using x by linarith+
    then show "k \<in> {nat D..<nat D + nat (last shape * itemsize)}" using assms(4) by auto
  next
    fix k assume k: "k \<in> {nat D..<nat D + nat (last shape * itemsize)}"
    let ?t = "int k - D"
    have nonneg: "0 \<le> last shape * itemsize" using assms(1,5) by simp
    have t: "0 \<le> ?t" "?t < last shape * itemsize" using k assms(4) nonneg by auto
    have "?t div itemsize < last shape"
    proof (rule ccontr)
      assume "\<not> ?t div itemsize < last shape"
      then have "last shape * itemsize \<le> ?t div itemsize * itemsize" using assms(1) by (intro mult_right_mono) auto
      also have "\<dots> \<le> ?t" using div_mult_mod_eq[of ?t itemsize] pos_mod_sign[OF assms(1), of ?t] by linarith
      finally show False using t by simp
    qed
    moreover have "int k = D + (?t div itemsize * itemsize + ?t mod itemsize)" by simp
    moreover have "0 \<le> ?t div itemsize" using t assms(1) by (simp add: pos_imp_zdiv_nonneg_iff)
    ultimately show "k \<in> row_bytes itemsize pad start shape r"
      unfolding row_bytes_def row mem_Collect_eq using assms(1)
      by - (rule exI[of _ "?t div itemsize"], rule exI[of _ "?t mod itemsize"], simp)
  qed
qed

lemma gathers_row:
  assumes it: "0 < itemsize" and ne: "shape \<noteq> []" and pos: "\<forall>n\<in>set shape. 0 < n"
    and inside: "box_inside sstart shape spad" "box_inside dstart shape dpad"
    and len: "prod_list spad * itemsize \<le> int (length src)" "prod_list dpad * itemsize \<le> int N"
    and r: "in_box r (butlast shape)"
    and g: "\<And>idx b. in_box idx shape \<Longrightarrow> 0 \<le> b \<Longrightarrow> b < itemsize \<Longrightarrow>
      g (nat (item_byte itemsize dpad dstart idx b)) = src ! nat (item_byte itemsize spad sstart idx b)"
  shows "gathers (copy_row itemsize shape src (flat spad sstart * itemsize) (row_strides spad)
      (flat dpad dstart * itemsize) (row_strides dpad) r) N (row_bytes itemsize dpad dstart shape r) g"
proof -
  let ?n = "last shape"
  let ?S = "flat spad sstart * itemsize + flat spad r * itemsize"
  let ?D = "flat dpad dstart * itemsize + flat dpad r * itemsize"
  have lr: "length shape = Suc (length r)" using in_box_length[OF r] ne by (cases shape) auto
  then have nth: "shape ! length r = ?n" using ne by (simp add: last_conv_nth)
  have n: "0 < ?n" using pos ne by simp
  have srow: "item_byte itemsize spad sstart (r @ [x]) b = ?S + (x * itemsize + b)" for x b
    by (rule item_byte_row[OF inside(1) lr])
  have drow: "item_byte itemsize dpad dstart (r @ [x]) b = ?D + (x * itemsize + b)" for x b
    by (rule item_byte_row[OF inside(2) lr])
  have ends: "in_box (r @ [0]) shape" "in_box (r @ [?n - 1]) shape" using r n ne by (simp_all add: in_box_snoc)
  have S: "0 \<le> ?S" using item_byte_bounds(1)[OF it inside(1) ends(1), of 0] it srow[of 0 0] by simp
  have D: "0 \<le> ?D" using item_byte_bounds(1)[OF it inside(2) ends(1), of 0] it drow[of 0 0] by simp
  have last: "(?n - 1) * itemsize + (itemsize - 1) = ?n * itemsize - 1" by (simp add: algebra_simps)
  have S': "?S + ?n * itemsize \<le> int (length src)"
    using item_byte_bounds(2)[OF it inside(1) ends(2), of "itemsize - 1"] it len(1) srow[of "?n - 1" "itemsize - 1"] last
    by linarith
  have D': "?D + ?n * itemsize \<le> int N"
    using item_byte_bounds(2)[OF it inside(2) ends(2), of "itemsize - 1"] it len(2) drow[of "?n - 1" "itemsize - 1"] last
    by linarith
  have nb: "0 \<le> ?n * itemsize" using n it by simp
  have iv: "row_bytes itemsize dpad dstart shape r = {nat ?D..<nat ?D + nat (?n * itemsize)}"
    using row_interval[OF it inside(2) lr D _ refl] n by simp
  have "gathers (\<lambda>b. memcpy b (nat ?D) src (nat ?S) (nat (?n * itemsize))) N {nat ?D..<nat ?D + nat (?n * itemsize)} g"
  proof (rule gathers_memcpy)
    show "nat ?D + nat (?n * itemsize) \<le> N" using D D' nb by (simp flip: nat_add_distrib)
    show "nat ?S + nat (?n * itemsize) \<le> length src" using S S' nb by (simp flip: nat_add_distrib)
    fix k assume k: "nat ?D \<le> k" "k < nat ?D + nat (?n * itemsize)"
    then have "k \<in> row_bytes itemsize dpad dstart shape r" unfolding iv by simp
    then obtain x b where x: "0 \<le> x" "x < ?n" "0 \<le> b" "b < itemsize"
        "int k = item_byte itemsize dpad dstart (r @ [x]) b" by (auto simp: row_bytes_def)
    have "k = nat (item_byte itemsize dpad dstart (r @ [x]) b)" using x(5) by simp
    also have "g \<dots> = src ! nat (item_byte itemsize spad sstart (r @ [x]) b)"
      by (rule g) (use r ne x in \<open>simp_all add: in_box_snoc\<close>)
    also have "nat (item_byte itemsize spad sstart (r @ [x]) b) = nat ?S + (k - nat ?D)"
    proof -
      have "int k = ?D + (x * itemsize + b)" using x(5) unfolding drow .
      moreover have "item_byte itemsize spad sstart (r @ [x]) b = ?S + (x * itemsize + b)" by (rule srow)
      moreover have "0 \<le> x * itemsize + b" using x it by simp
      ultimately show ?thesis using S D by linarith
    qed
    finally show "g k = src ! (nat ?S + (k - nat ?D))" .
  qed
  moreover have "copy_row itemsize shape src (flat spad sstart * itemsize) (row_strides spad)
      (flat dpad dstart * itemsize) (row_strides dpad) r = (\<lambda>b. memcpy b (nat ?D) src (nat ?S) (nat (?n * itemsize)))"
    using S D nb by (auto simp: copy_row_def Let_def nth fun_eq_iff)
  ultimately show ?thesis by (simp add: iv)
qed

lemma copy_positions:
  assumes "0 < itemsize" "box_inside dstart shape dpad"
  obtains g where "\<And>idx b. in_box idx shape \<Longrightarrow> 0 \<le> b \<Longrightarrow> b < itemsize \<Longrightarrow>
    g (nat (item_byte itemsize dpad dstart idx b)) = (f idx b :: byte)"
proof -
  let ?P = "\<lambda>k p. in_box (fst p) shape \<and> 0 \<le> snd p \<and> snd p < itemsize \<and> k = nat (item_byte itemsize dpad dstart (fst p) (snd p))"
  define g where "g k = (let p = SOME p. ?P k p in f (fst p) (snd p))" for k
  have "g (nat (item_byte itemsize dpad dstart idx b)) = f idx b"
    if i: "in_box idx shape" "0 \<le> b" "b < itemsize" for idx b
  proof -
    let ?k = "nat (item_byte itemsize dpad dstart idx b)"
    have "?P ?k (idx, b)" using i by simp
    then have p: "?P ?k (SOME p. ?P ?k p)" by (rule someI)
    let ?p = "SOME p. ?P ?k p"
    have "item_byte itemsize dpad dstart idx b = item_byte itemsize dpad dstart (fst ?p) (snd ?p)"
    proof -
      have "0 \<le> item_byte itemsize dpad dstart (fst ?p) (snd ?p)" using p by (intro item_byte_bounds(1)[OF assms]) auto
      with item_byte_bounds(1)[OF assms i] p show ?thesis by (simp add: eq_nat_nat_iff)
    qed
    then have "idx = fst ?p \<and> b = snd ?p"
      using p i by (intro item_byte_inject[OF assms]) auto
    then show ?thesis unfolding g_def Let_def by simp
  qed
  with that show thesis by blast
qed

section \<open>Properties\<close>

text \<open>
  A position in an array and the index of its item determine each other: the index that is computed from a
  position lies in the shape and leads back to the position.
\<close>

theorem unidim_multidim_roundtrip:
  assumes "\<forall>n\<in>set shape. 0 < n" "0 \<le> i" "i < prod_list shape"
  shows "\<exists>index. blosc2_unidim_to_multidim shape i = Some index \<and> in_box index shape \<and>
    blosc2_multidim_to_unidim index (row_strides shape) = i"
  using unidim_to_multidim_digits[OF assms(1,2)] digits_flat[OF assms] by simp

theorem unidim_multidim_roundtrip_witness:
  "\<exists>index. blosc2_unidim_to_multidim [3, 4, 5] 33 = Some index \<and> in_box index [3, 4, 5] \<and>
    blosc2_multidim_to_unidim index (row_strides [3, 4, 5]) = 33"
  by (rule unidim_multidim_roundtrip) simp_all

text \<open>
  C10. Copying a box of any number of dimensions up to 16 between two buffers ends, stays within both, and moves every byte
  of every item of the box to the same item of the box of the destination; it changes no other byte. The box is not empty, and with more
  than 8 dimensions it has no more rows along the last dimension than an \<open>int\<close> can count.
\<close>

theorem copy_buffer_box:
  assumes "0 < itemsize" "shape \<noteq> []" "length shape \<le> 16" "\<forall>n\<in>set shape. 0 < n"
    and "length shape \<le> 8 \<or> prod_list (butlast shape) \<le> INT_MAX"
    and "box_inside src_start shape src_pad" "box_inside dst_start shape dst_pad"
    and "prod_list src_pad * itemsize \<le> int (length src)" "prod_list dst_pad * itemsize \<le> int (length dst)"
  shows "\<exists>dst'. b2nd_copy_buffer2 itemsize src src_pad src_start (map2 (+) src_start shape) dst dst_pad dst_start =
      Some (BLOSC2_ERROR_SUCCESS, dst') \<and> length dst' = length dst \<and>
    (\<forall>idx b. in_box idx shape \<and> 0 \<le> b \<and> b < itemsize \<longrightarrow>
      dst' ! nat (item_byte itemsize dst_pad dst_start idx b) = src ! nat (item_byte itemsize src_pad src_start idx b)) \<and>
    (\<forall>k<length dst. k \<notin> box_bytes itemsize dst_pad dst_start shape \<longrightarrow> dst' ! k = dst ! k)"
proof -
  obtain g where g: "\<And>idx b. in_box idx shape \<Longrightarrow> 0 \<le> b \<Longrightarrow> b < itemsize \<Longrightarrow>
      g (nat (item_byte itemsize dst_pad dst_start idx b)) = src ! nat (item_byte itemsize src_pad src_start idx b)"
    using copy_positions[OF assms(1,7), of "\<lambda>idx b. src ! nat (item_byte itemsize src_pad src_start idx b)"] by blast
  let ?copy = "copy_of_ndim (length shape) itemsize shape src (flat src_pad src_start * itemsize) (row_strides src_pad)
      (flat dst_pad dst_start * itemsize) (row_strides dst_pad)"
  let ?A = "box_bytes itemsize dst_pad dst_start shape"
  have "gathers ?copy (length dst) ?A g"
    unfolding box_bytes_rows[OF assms(2)]
    by (rule gathers_copies[OF assms(2,4,5)]) (rule gathers_row[OF assms(1,2,4,6-9)], auto intro: g)
  then have c: "?copy dst = Some (gather ?A g dst)" by (rule gathersD) simp
  have len: "length src_start = length shape" using assms(6) by (simp add: box_inside_def)
  have "map2 (-) (map2 (+) src_start shape) src_start = shape" using len by (intro nth_equalityI) auto
  moreover have "0 \<notin> set (take 16 shape)" using assms(4) by (auto dest: in_set_takeD)
  ultimately have "b2nd_copy_buffer2 itemsize src src_pad src_start (map2 (+) src_start shape) dst dst_pad dst_start =
      Some (BLOSC2_ERROR_SUCCESS, gather ?A g dst)"
    using c len assms(2,3)
    by (auto simp: b2nd_copy_buffer2_def Let_def copy_of_ndim_def)
  moreover have "gather ?A g dst ! nat (item_byte itemsize dst_pad dst_start idx b) =
      src ! nat (item_byte itemsize src_pad src_start idx b)" if i: "in_box idx shape" "0 \<le> b" "b < itemsize" for idx b
  proof -
    note bounds = item_byte_bounds[OF assms(1,7) i]
    then have "nat (item_byte itemsize dst_pad dst_start idx b) < length dst" using assms(9) by linarith
    moreover have "nat (item_byte itemsize dst_pad dst_start idx b) \<in> ?A" using bounds i by (auto simp: box_bytes_def)
    ultimately show ?thesis using g[OF i] by (simp add: nth_gather)
  qed
  moreover have "gather ?A g dst ! k = dst ! k" if "k < length dst" "k \<notin> ?A" for k using that by (simp add: nth_gather)
  ultimately show ?thesis by (intro exI[of _ "gather ?A g dst"]) simp
qed

theorem copy_buffer_box_witness:
  "\<exists>dst'. b2nd_copy_buffer2 2 (map word_of_int [1..12]) [2, 3] [0, 1] (map2 (+) [0, 1] [2, 2]) (replicate 32 0) [4, 4] [2, 1] =
      Some (BLOSC2_ERROR_SUCCESS, dst') \<and> length dst' = length (replicate 32 (0 :: byte)) \<and>
    (\<forall>idx b. in_box idx [2, 2] \<and> 0 \<le> b \<and> b < 2 \<longrightarrow>
      dst' ! nat (item_byte 2 [4, 4] [2, 1] idx b) = map word_of_int [1..12] ! nat (item_byte 2 [2, 3] [0, 1] idx b)) \<and>
    (\<forall>k<length (replicate 32 (0 :: byte)). k \<notin> box_bytes 2 [4, 4] [2, 1] [2, 2] \<longrightarrow> dst' ! k = replicate 32 0 ! k)"
  by (rule copy_buffer_box) (simp_all add: box_inside_def All_less_Suc)

end
