(* ===== verification/Spec2Isabelle.thy ===== *)
theory Spec2Isabelle
  imports Blosc_Constants Shuffle_Generic Bitshuffle_Generic Shuffle_Dispatch Delta Trunc_Prec Int_Trunc
    Bytedelta Stune Endian Chunk_Header Chunk_Setup Fastcopy Block_Streams Pipeline Chunk_Codec
    Codec_Roundtrip Schunk_Refinement Schunk_Buffers Context_Creation Metalayers Special_Chunks Schunk_Fill B2nd_Meta B2nd_Shape B2nd_Copy
begin

text \<open>
  C-Blosc2 is a compressor for blocks of binary data. A buffer is cut into blocks; each block goes
  through a pipeline of at most six filters, is split into streams, and each stream is stored as a run, as it
  is, or compressed by a codec. Header, table of block starts and streams are a \<open>chunk\<close>.
  This library models the sequential core of that code and proves it correct. The C code is translated function by function, under its own names.

  Conventions. A buffer is a list of bytes, and a read or write outside of it is undefined, the value
  \<open>None\<close>; so is signed overflow of an \<open>int32_t\<close>. Error codes of the code are values. A theorem
  that a call is \<open>Some\<close> result says that the call ends, stays within its buffers and does not overflow. Hosts of both
  byte orders are covered by the argument \<open>le\<close>. Code that is not in the repository or is chosen at run time
  is an argument: the allocator, registered filters, codecs and tuners, external codec libraries,
  pre- and postfilters, and the table of shuffle routines, whose contract is the locale \<open>shuffle_host\<close>.

  Theories, from the bottom up (sources under \<open>src/\<close>):
  \<^item> Prelude: buffers, loads and stores, counted loops, the simplification rules \<open>mem_simps\<close>.
  \<^item> Blosc_Constants (\<open>include/blosc2.h\<close>): limits, flags, codes; Context (\<open>blosc/context.h\<close>): the record of the context.
  \<^item> Shuffle_Generic, Bitshuffle_Generic, Shuffle_Dispatch (\<open>shuffle-generic.h\<close>, \<open>bitshuffle-generic.c\<close>, \<open>shuffle.c\<close>): the
    byte and bit shuffles as index permutations, their inverses, and the dispatching entry points.
  \<^item> Delta, Trunc_Prec, Int_Trunc, Bytedelta (\<open>delta.c\<close>, \<open>trunc-prec.c\<close>, \<open>plugins/filters\<close>): the other filters.
  \<^item> Stune (\<open>stune.c\<close>): the choice of the block size. Endian, Chunk_Header, Chunk_Setup (\<open>blosc-private.h\<close>,
    \<open>blosc2.c\<close>): byte order, reading and validating headers, setting up contexts and writing headers.
  \<^item> Fastcopy (\<open>fastcopy.c\<close>): the copies of matches, equal to a byte by byte copy also for overlapping ranges.
  \<^item> Blosclz_Decompress, Blosclz_Stream, Blosclz_Compress (\<open>blosclz.c\<close>): the codec; the format as a
    relation between tokens and bytes, which the encoder is shown to write and the decoder to read.
  \<^item> Block_Streams, Pipeline, Chunk_Codec (\<open>blosc2.c\<close>): streams of a block, filter pipelines with the cycling of their
    buffers, blocks, loops over the blocks, jobs, whole chunks.
  \<^item> Chunk_Roundtrip, Zero_Chunk, Codec_Roundtrip: the proof that a chunk decompresses to what was compressed.
  \<^item> Schunk, Schunk_Contents, Schunk_Refinement, Schunk_Buffers (\<open>schunk.c\<close>): super-chunks in memory, the invariant of
    their counters and sizes, the refinement of lists of chunks, and buffers that are appended and come back.
  \<^item> Context_Creation (\<open>blosc2.c\<close>): parameters, environment variables, the initialisation of the tuner, and the contexts made from them.
  \<^item> Metalayers (\<open>schunk.c\<close>, \<open>blosc2.h\<close>): the operations on metalayers of fixed and variable length, which refine finite maps.
  \<^item> Special_Chunks, Schunk_Fill (\<open>blosc2.c\<close>, \<open>schunk.c\<close>): chunks of zeros, NaNs, repeated and uninitialised values, what they decompress
    to, and super-chunks filled with them.
  \<^item> Getitem (\<open>blosc2.c\<close>): reading some items of a chunk; Codec_Roundtrip shows that they are the slice of the source.
  \<^item> B2nd_Meta, B2nd_Shape, B2nd_Copy (\<open>b2nd.c\<close>, \<open>b2nd_utils.c\<close>, \<open>b2nd.h\<close>): the metalayer of n-dimensional arrays, which any host reads back and
    whose reader is safe for any bytes; the geometry, whose counts and strides are exact, but for the stride of chunks, which can overflow; and the copies of boxes between buffers.

  Interfaces are locales: \<open>shuffle_host\<close> (what a table of routines owes its callers), \<open>block_filter\<close> (a filter that
  is undone), \<open>block_codec\<close> (a codec whose output decodes), \<open>chunk_store\<close> and \<open>chunk_array\<close> (a list of chunks), each interpreted on the model of the code.

  Bounds and fuel. The loops of BloscLZ have fuel of the length of the input plus one: every turn consumes at least
  one byte, and the theorems show that this fuel gives a result. Sizes are below \<open>2 ^ 31\<close> as in the
  code; the exact margins are hypotheses of the theorems.

  The round trip of chunks is proved for the requests of \<open>compression_request\<close>; a given block size that is no multiple of the type size, or a buffer
  that is not whole items of it, is left out since the code stores another block size than it cuts with.

  Not modelled: SIMD variants of the shuffles (compiler intrinsics), external codecs and wrappers for them, thread pools, the
  training of dictionaries, lazy chunks, the instrumented mode, the registries of plugins, files and directories, frames and super-chunks on
  disk, masks of blocks, slices and resizing of n-dimensional arrays, the filters on their cells, the codecs NDLZ and ZFP.
\<close>

end
